(* ===== verification/Xv6_Prelude.thy ===== *)
theory Xv6_Prelude
  imports Main "HOL-Library.Word"
begin

text \<open>
  Shared ground of the development: the machine-word abbreviations, the result type that
  makes the kernel's \<^verbatim>\<open>panic()\<close> a value, the table scan
  \<^verbatim>\<open>for(p = tab; p < &tab[N]; p++) if(P(p)) goto found;\<close> that almost every kernel
  table uses, and the generic list and word lemmas the components rest on.
\<close>

section \<open>Machine words\<close>

unbundle bit_operations_syntax

type_synonym u8 = "8 word"
type_synonym u16 = "16 word"
type_synonym u32 = "32 word"

section \<open>Results: a value, a kernel panic, or no return\<close>

text \<open>\<^verbatim>\<open>panic(s)\<close> (console.c) freezes the machine and never returns:
  an operation that may panic returns \<open>Panic s\<close> instead of a value and a new state.
  \<open>Hang\<close> is an operation that loops forever.\<close>

datatype 'a res = Ok 'a | Panic string | Hang

fun bindR :: "'a res \<Rightarrow> ('a \<Rightarrow> 'b res) \<Rightarrow> 'b res" where
  "bindR (Ok x) f = f x"
| "bindR (Panic m) f = Panic m"
| "bindR Hang f = Hang"

lemma bindR_Ok_iff: "bindR r f = Ok y \<longleftrightarrow> (\<exists>x. r = Ok x \<and> f x = Ok y)"
  by (cases r) auto

lemma bindR_split:
  "P (bindR r f) \<longleftrightarrow> (\<forall>x. r = Ok x \<longrightarrow> P (f x)) \<and> (\<forall>m. r = Panic m \<longrightarrow> P (Panic m)) \<and> (r = Hang \<longrightarrow> P Hang)"
  by (cases r) auto

lemma bindR_cong [fundef_cong]:
  "r = r' \<Longrightarrow> (\<And>x. r' = Ok x \<Longrightarrow> f x = g x) \<Longrightarrow> bindR r f = bindR r' g"
  by (cases r') auto

section \<open>Process states (proc.h)\<close>

datatype procstate = UNUSED | EMBRYO | SLEEPING | RUNNABLE | RUNNING | ZOMBIE

section \<open>Scanning a table for the first slot that fits\<close>

fun find_idx :: "('a \<Rightarrow> bool) \<Rightarrow> 'a list \<Rightarrow> nat option" where
  "find_idx P [] = None"
| "find_idx P (x # xs) = (if P x then Some 0 else map_option Suc (find_idx P xs))"

lemma find_idx_None: "find_idx P xs = None \<longleftrightarrow> (\<forall>x \<in> set xs. \<not> P x)"
  by (induction xs) auto

lemma find_idx_Some:
  "find_idx P xs = Some i \<longleftrightarrow> i < length xs \<and> P (xs ! i) \<and> (\<forall>j < i. \<not> P (xs ! j))"
proof (induction xs arbitrary: i)
  case Nil
  then show ?case by simp
next
  case (Cons x xs)
  show ?case
  proof (cases i)
    case 0
    then show ?thesis by auto
  next
    case (Suc k)
    with Cons.IH [of k] show ?thesis
      by (auto simp: less_Suc_eq_0_disj)
  qed
qed

lemma find_idx_SomeD:
  assumes "find_idx P xs = Some i"
  shows "i < length xs" "P (xs ! i)" "\<And>j. j < i \<Longrightarrow> \<not> P (xs ! j)"
  using assms by (simp_all add: find_idx_Some)

lemma find_idx_exists: "x \<in> set xs \<Longrightarrow> P x \<Longrightarrow> \<exists>i. find_idx P xs = Some i"
  using find_idx_None [of P xs] by (cases "find_idx P xs") auto

lemma find_idx_update_other:
  assumes "find_idx P xs = Some i" "j \<noteq> i" "\<not> P y"
  shows "find_idx P (xs[j := y]) = Some i"
  using assms by (auto simp: find_idx_Some) (metis dual_order.strict_trans nth_list_update_eq nth_list_update_neq)

section \<open>Lists updated by index\<close>

lemma set_update_cases: "x \<in> set (xs[i := y]) \<Longrightarrow> x = y \<or> x \<in> set xs"
  using set_update_subset_insert by fastforce

lemma all_nth_update:
  "(\<forall>j < length xs. P j (xs ! j)) \<Longrightarrow> P i y \<Longrightarrow> \<forall>j < length xs. P j (xs[i := y] ! j)"
  by (metis nth_list_update_eq nth_list_update_neq)

section \<open>Word lemmas\<close>

lemma bit_int_FFF [simp]: "bit (4095 :: int) n \<longleftrightarrow> n < 12"
proof -
  have "(4095::int) = mask 12" by (simp add: mask_eq_exp_minus_1)
  then show ?thesis unfolding bit_mask_iff by (simp only: bit_mask_iff) simp
qed
lemma bit_int_3FF [simp]: "bit (1023 :: int) n \<longleftrightarrow> n < 10"
proof -
  have "(1023::int) = mask 10" by (simp add: mask_eq_exp_minus_1)
  then show ?thesis unfolding bit_mask_iff by (simp only: bit_mask_iff) simp
qed
lemma bit_int_FF [simp]: "bit (255 :: int) n \<longleftrightarrow> n < 8"
proof -
  have "(255::int) = mask 8" by (simp add: mask_eq_exp_minus_1)
  then show ?thesis unfolding bit_mask_iff by (simp only: bit_mask_iff) simp
qed
lemma bit_int_3 [simp]: "bit (3 :: int) n \<longleftrightarrow> n < 2"
proof -
  have "(3::int) = mask 2" by (simp add: mask_eq_exp_minus_1)
  then show ?thesis unfolding bit_mask_iff by (simp only: bit_mask_iff) simp
qed

lemma and_mask_zero_iff_take_bit: "x AND mask n = 0 \<longleftrightarrow> take_bit n x = (0 :: 'a::len word)"
  by (simp add: take_bit_eq_mask)

lemma word_bit0_odd: "(x AND 1 \<noteq> 0) \<longleftrightarrow> bit x 0" for x :: "'a::len word"
  by (simp add: and_one_eq bit_0 odd_iff_mod_2_eq_one)

lemma word_dist_Suc:
  assumes "(x :: 'a::len word) \<noteq> a"
  shows "unat (x - a) = Suc (unat (x - (a + 1)))"
proof -
  have "x - a \<noteq> 0" using assms by simp
  then have "unat (x - a - 1) = unat (x - a) - 1" "unat (x - a) \<noteq> 0"
    by (simp_all add: unat_minus_one unat_eq_0)
  moreover have "x - (a + 1) = x - a - 1" by simp
  ultimately show ?thesis by (metis One_nat_def Suc_pred gr0I)
qed

end
