(* ===== verification/Mmu.thy ===== *)
theory Mmu
  imports Xv6_Prelude
begin

text \<open>
  The 32-bit x86 paging vocabulary of mmu.h and memlayout.h: the constants, the macros that
  take a virtual address apart (PDX, PTX), round it (PGROUNDUP, PGROUNDDOWN), take an entry
  apart (PTE_ADDR, PTE_FLAGS) and move between kernel virtual and physical addresses (V2P,
  P2V). Every macro is kept at its width, 32 bits.
\<close>

section \<open>Constants\<close>

abbreviation PGSIZE :: u32 where "PGSIZE \<equiv> 4096"
abbreviation PTE_P :: u32 where "PTE_P \<equiv> 0x001"
abbreviation PTE_W :: u32 where "PTE_W \<equiv> 0x002"
abbreviation PTE_U :: u32 where "PTE_U \<equiv> 0x004"
abbreviation PTE_A :: u32 where "PTE_A \<equiv> 0x020"
abbreviation PTE_PG :: u32 where "PTE_PG \<equiv> 0x200"
abbreviation EXTMEM :: u32 where "EXTMEM \<equiv> 0x100000"
abbreviation PHYSTOP :: u32 where "PHYSTOP \<equiv> 0xE000000"
abbreviation DEVSPACE :: u32 where "DEVSPACE \<equiv> 0xFE000000"
abbreviation KERNBASE :: u32 where "KERNBASE \<equiv> 0x80000000"
abbreviation KERNLINK :: u32 where "KERNLINK \<equiv> 0x80100000"
abbreviation MAX_PYSC_PAGES :: nat where "MAX_PYSC_PAGES \<equiv> 15"
abbreviation MAX_TOTAL_PAGES :: nat where "MAX_TOTAL_PAGES \<equiv> 30"

section \<open>Macros\<close>

definition PDX :: "u32 \<Rightarrow> u32" where
  "PDX va = drop_bit 22 va AND 0x3FF"

definition PTX :: "u32 \<Rightarrow> u32" where
  "PTX va = drop_bit 12 va AND 0x3FF"

definition PGADDR :: "u32 \<Rightarrow> u32 \<Rightarrow> u32 \<Rightarrow> u32" where
  "PGADDR d t off = push_bit 22 d OR push_bit 12 t OR off"

definition PGROUNDUP :: "u32 \<Rightarrow> u32" where
  "PGROUNDUP sz = (sz + PGSIZE - 1) AND NOT (PGSIZE - 1)"

definition PGROUNDDOWN :: "u32 \<Rightarrow> u32" where
  "PGROUNDDOWN a = a AND NOT (PGSIZE - 1)"

definition PTE_ADDR :: "u32 \<Rightarrow> u32" where
  "PTE_ADDR pte = pte AND NOT 0xFFF"

definition PTE_FLAGS :: "u32 \<Rightarrow> u32" where
  "PTE_FLAGS pte = pte AND 0xFFF"

definition V2P :: "u32 \<Rightarrow> u32" where
  "V2P a = a - KERNBASE"

definition P2V :: "u32 \<Rightarrow> u32" where
  "P2V a = a + KERNBASE"

lemma V2P_P2V [simp]: "V2P (P2V a) = a" and P2V_V2P [simp]: "P2V (V2P a) = a"
  by (simp_all add: V2P_def P2V_def)

section \<open>Frames and words of physical memory\<close>

text \<open>
  Physical memory is an array of 2^20 frames of 1024 32-bit words. A kernel pointer
  \<open>v\<close> (a kernel virtual address, direct-mapped) points into frame \<open>vframe v\<close>, at word
  \<open>vidx v\<close>. \<open>kva f\<close> is the kernel address of frame \<open>f\<close>, and \<open>slot f i\<close> that of
  its word \<open>i\<close>.
\<close>

type_synonym frame = "20 word"
type_synonym widx = "10 word"

definition pframe :: "u32 \<Rightarrow> frame" where
  "pframe pa = ucast (drop_bit 12 pa)"

definition pidx :: "u32 \<Rightarrow> widx" where
  "pidx pa = ucast (drop_bit 2 pa)"

definition vframe :: "u32 \<Rightarrow> frame" where
  "vframe v = pframe (V2P v)"

definition vidx :: "u32 \<Rightarrow> widx" where
  "vidx v = pidx (V2P v)"

definition pa_of :: "frame \<Rightarrow> u32" where
  "pa_of f = push_bit 12 (ucast f)"

definition kva :: "frame \<Rightarrow> u32" where
  "kva f = P2V (pa_of f)"

definition slot :: "frame \<Rightarrow> widx \<Rightarrow> u32" where
  "slot f i = kva f + 4 * ucast i"

definition page_aligned :: "u32 \<Rightarrow> bool" where
  "page_aligned v \<longleftrightarrow> v AND 0xFFF = 0"

lemma mask12: "(0xFFF :: u32) = mask 12" and mask10: "(0x3FF :: u32) = mask 10"
  by (simp_all add: mask_eq_exp_minus_1)

lemma bit_FFF [bit_simps]: "bit (0xFFF :: u32) n \<longleftrightarrow> n < 12"
  unfolding mask12 by (auto simp: bit_simps)

lemma bit_3FF [bit_simps]: "bit (0x3FF :: u32) n \<longleftrightarrow> n < 10"
  unfolding mask10 by (auto simp: bit_simps)

section \<open>Page numbers and table indexes\<close>

text \<open>The macros' values as table indexes, and the virtual page number of an address.\<close>

definition pdx :: "u32 \<Rightarrow> widx" where "pdx va = ucast (PDX va)"
definition ptx :: "u32 \<Rightarrow> widx" where "ptx va = ucast (PTX va)"

lemma bit_ucast20: "bit (ucast (f::frame) :: u32) n \<longleftrightarrow> n < 20 \<and> bit f n"
  by (auto simp: bit_simps dest: bit_imp_le_length)
lemma bit_ucast10 : "bit (ucast (f::widx) :: u32) n \<longleftrightarrow> n < 10 \<and> bit f n"
  by (auto simp: bit_simps dest: bit_imp_le_length)

lemma bit_ucast_w: "bit (ucast (w::'a::len word) :: 'b::len word) n \<longleftrightarrow> n < LENGTH('b) \<and> bit w n"
  by (auto simp: bit_simps dest: bit_imp_le_length)

lemma pa_slot_or: "pa_of f + 4 * ucast i = pa_of f OR push_bit 2 (ucast (i::widx))"
proof -
  have "4 * ucast i = push_bit 2 (ucast i :: u32)" by (simp add: push_bit_eq_mult)
  moreover have "pa_of f + push_bit 2 (ucast i) = pa_of f OR push_bit 2 (ucast i)"
  proof (rule disjunctive_add)
    fix n
    show "\<not> bit (pa_of f) n \<or> \<not> bit (push_bit 2 (ucast i :: u32)) n"
      using bit_imp_le_length [of i "n - 2"]
      by (cases "n < 12") (auto simp: pa_of_def bit_push_bit_iff bit_ucast_w)
  qed
  ultimately show ?thesis by simp
qed

lemma V2P_slot: "V2P (slot f i) = pa_of f OR push_bit 2 (ucast i)"
  by (simp add: slot_def kva_def V2P_def P2V_def flip: pa_slot_or)

lemma vframe_slot [simp]: "vframe (slot f i) = f"
  unfolding vframe_def V2P_slot pframe_def pa_of_def
  by (rule bit_word_eqI) (auto simp: bit_or_iff bit_push_bit_iff bit_drop_bit_eq bit_ucast20 bit_ucast10 bit_ucast_w)

lemma vidx_slot [simp]: "vidx (slot f i) = i"
  unfolding vidx_def V2P_slot pidx_def pa_of_def
  by (rule bit_word_eqI) (auto simp: bit_or_iff bit_push_bit_iff bit_drop_bit_eq bit_ucast20 bit_ucast10 bit_ucast_w)

lemma kva_slot: "kva f = slot f 0"
  by (simp add: slot_def)
lemma vframe_kva [simp]: "vframe (kva f) = f" and vidx_kva [simp]: "vidx (kva f) = 0"
  by (simp_all add: kva_slot)

lemma slot_inject [simp]: "slot f i = slot g j \<longleftrightarrow> f = g \<and> i = j"
  by (metis vframe_slot vidx_slot)
lemma kva_inject [simp]: "kva f = kva g \<longleftrightarrow> f = g"
  by (metis vframe_kva)

lemma page_aligned_kva [simp]: "page_aligned (kva f)"
  unfolding page_aligned_def kva_def P2V_def pa_of_def
proof -
  have "push_bit 12 (ucast f :: u32) + KERNBASE = push_bit 12 (ucast f + 0x80000)"
    by (simp add: push_bit_eq_mult)
  then show "(push_bit 12 (ucast f) + KERNBASE) AND 0xFFF = (0::u32)"
    by (simp only:) (rule bit_word_eqI, auto simp: bit_simps bit_FFF bit_3FF)
qed

lemma page_aligned_iff_drop: "page_aligned v \<longleftrightarrow> v = push_bit 12 (drop_bit 12 v)"
proof
  assume "page_aligned v"
  then have z: "bit (v AND 0xFFF) n = bit 0 n" for n by (simp add: page_aligned_def)
  show "v = push_bit 12 (drop_bit 12 v)"
  proof (rule bit_word_eqI)
    fix n :: nat assume "n < LENGTH(32)"
    then show "bit v n = bit (push_bit 12 (drop_bit 12 v)) n"
      using z [of n] by (cases "n < 12") (auto simp: bit_and_iff bit_push_bit_iff bit_drop_bit_eq)
  qed
next
  assume "v = push_bit 12 (drop_bit 12 v)"
  then obtain w where "v = push_bit 12 w" by blast
  then show "page_aligned v"
    unfolding page_aligned_def by (simp only:) (rule bit_word_eqI, auto simp: bit_simps)
qed

lemma page_aligned_kva_vframe: "page_aligned v \<Longrightarrow> kva (vframe v) = v"
proof -
  assume "page_aligned v"
  then have a: "v = push_bit 12 (drop_bit 12 v)" by (simp add: page_aligned_iff_drop)
  have "V2P v = push_bit 12 (drop_bit 12 v - 0x80000)"
    by (subst a) (simp add: V2P_def push_bit_eq_mult)
  then have "pa_of (vframe v) = V2P v"
    unfolding vframe_def pframe_def pa_of_def
    by (simp only:) (rule bit_word_eqI, auto simp: bit_simps bit_FFF bit_3FF)
  then show ?thesis by (simp add: kva_def)
qed

lemma pframe_pa_of [simp]: "pframe (pa_of f) = f"
  unfolding pframe_def pa_of_def by (rule bit_word_eqI) (auto simp: bit_simps bit_FFF bit_3FF)

lemma PTE_ADDR_pa_of: "PTE_ADDR e = pa_of (pframe e)"
  unfolding PTE_ADDR_def pframe_def pa_of_def by (rule bit_word_eqI) (auto simp: bit_simps bit_FFF bit_3FF)

lemma P2V_PTE_ADDR [simp]: "P2V (PTE_ADDR e) = kva (pframe e)"
  by (simp add: kva_def PTE_ADDR_pa_of)

lemma pframe_or: "pframe (a OR b) = pframe a OR pframe b"
  unfolding pframe_def by (rule bit_word_eqI) (auto simp: bit_simps)
lemma pframe_and: "pframe (a AND b) = pframe a AND pframe b"
  unfolding pframe_def by (rule bit_word_eqI) (auto simp: bit_simps)
lemma pframe_flags: "fl AND NOT 0xFFF = 0 \<Longrightarrow> pframe fl = 0"
  by (metis PTE_ADDR_def PTE_ADDR_pa_of pframe_pa_of pframe_def drop_bit_of_0 unsigned_0)

lemma pgdir_index: "kva f + 4 * PDX va = slot f (pdx va)"
  and pgtab_index: "kva f + 4 * PTX va = slot f (ptx va)"
proof -
  have "ucast (ucast (x AND 0x3FF) :: widx) = x AND 0x3FF" for x :: u32
    by (rule bit_word_eqI) (auto simp: bit_simps bit_FFF bit_3FF)
  then show "kva f + 4 * PDX va = slot f (pdx va)" "kva f + 4 * PTX va = slot f (ptx va)"
    by (simp_all add: slot_def pdx_def ptx_def PDX_def PTX_def)
qed

lemma kva_eq_0 [simp]: "kva f = 0 \<longleftrightarrow> f = 0x80000"
proof -
  have "kva 0x80000 = 0" by (simp add: kva_def P2V_def pa_of_def)
  then show ?thesis by (metis kva_inject)
qed
lemma slot_eq_0 [simp]: "slot f i = 0 \<longleftrightarrow> f = 0x80000 \<and> i = 0"
  by (metis kva_eq_0 kva_slot slot_inject)

definition vpn :: "u32 \<Rightarrow> 20 word" where "vpn va = ucast (drop_bit 12 va)"

lemma bit_pdx: "bit (pdx a) n \<longleftrightarrow> n < 10 \<and> bit a (22 + n)"
  unfolding pdx_def PDX_def by (auto simp: bit_simps)
lemma bit_ptx: "bit (ptx a) n \<longleftrightarrow> n < 10 \<and> bit a (12 + n)"
  unfolding ptx_def PTX_def by (auto simp: bit_simps)
lemma bit_vpn: "bit (vpn a) n \<longleftrightarrow> n < 20 \<and> bit a (12 + n)"
  unfolding vpn_def by (auto simp: bit_simps)

lemma vpn_bits: "bit (vpn a) n \<longleftrightarrow> (if n < 10 then bit (ptx a) n else bit (pdx a) (n - 10))"
  by (auto simp: bit_pdx bit_ptx bit_vpn)

lemma vpn_eq_iff: "vpn a = vpn b \<longleftrightarrow> pdx a = pdx b \<and> ptx a = ptx b"
proof
  assume *: "vpn a = vpn b"
  have "bit (pdx a) n = bit (vpn a) (10 + n)" "bit (pdx b) n = bit (vpn b) (10 + n)" if "n < 10" for n
    using that by (auto simp: bit_pdx bit_vpn)
  moreover have "bit (ptx a) n = bit (vpn a) n" "bit (ptx b) n = bit (vpn b) n" if "n < 10" for n
    using that by (auto simp: bit_ptx bit_vpn)
  ultimately show "pdx a = pdx b \<and> ptx a = ptx b"
    using * by (auto intro!: bit_word_eqI)
next
  assume "pdx a = pdx b \<and> ptx a = ptx b"
  then show "vpn a = vpn b" by (auto intro!: bit_word_eqI simp: vpn_bits)
qed

lemma unat_P2V:
  assumes "pa < PHYSTOP" shows "unat (P2V pa) = unat pa + 2147483648"
proof -
  have "unat pa < 234881024" using assms by (simp add: word_less_nat_alt)
  then show ?thesis by (simp add: P2V_def unat_word_ariths)
qed

lemma valid_page_no_wrap:
  assumes "V2P v < PHYSTOP"
  shows "unat (v + PGSIZE) = unat v + 4096" "v \<noteq> 0"
proof -
  have v: "unat v = unat (V2P v) + 2147483648" using unat_P2V [OF assms] by simp
  moreover have "unat (V2P v) < 234881024" using assms by (simp add: word_less_nat_alt)
  ultimately show "unat (v + PGSIZE) = unat v + 4096" "v \<noteq> 0"
    by (auto simp: unat_word_ariths)
qed

lemma and_FFF_mod: "v AND 0xFFF = v mod (4096 :: u32)"
  by (simp add: take_bit_eq_mod [of 12, simplified, symmetric] take_bit_eq_mask mask_eq_exp_minus_1)

lemma page_aligned_mod: "page_aligned v \<longleftrightarrow> v mod PGSIZE = 0"
  by (simp only: page_aligned_def and_FFF_mod)

lemma page_aligned_dvd: "page_aligned v \<longleftrightarrow> 4096 dvd unat v"
proof -
  have "v mod 4096 = 0 \<longleftrightarrow> unat (v mod 4096) = 0" by (simp only: unat_eq_0)
  then show ?thesis by (simp only: page_aligned_mod unat_mod) (simp add: dvd_eq_mod_eq_0)
qed
lemma page_aligned_add: "page_aligned p \<Longrightarrow> page_aligned (p + PGSIZE)"
proof -
  assume "page_aligned p"
  then have "p + PGSIZE = push_bit 12 (drop_bit 12 p + 1)"
    by (simp add: page_aligned_iff_drop push_bit_eq_mult algebra_simps)
  then show ?thesis
    by (simp add: page_aligned_iff_drop) (rule bit_word_eqI, auto simp: bit_simps)
qed
end
