(* ===== verification/Kalloc.thy ===== *)
theory Kalloc
  imports Mmu
begin

text \<open>
  Physical memory and the page allocator of kalloc.c. The free list is the one of the code:
  a list threaded through the first word of the free pages themselves, with its head in
  \<^verbatim>\<open>kmem.freelist\<close>. The abstraction \<open>kmem_ok s xs\<close> says that the
  threaded list is the list \<open>xs\<close> of distinct, valid pages; \<^verbatim>\<open>kalloc\<close> and
  \<^verbatim>\<open>kfree\<close> refine taking and adding the head of \<open>xs\<close>. \<^verbatim>\<open>kmem.lock\<close> makes each of
  the two list updates one atomic step and is modelled in the theory of spin locks.
\<close>

section \<open>Physical memory\<close>

text \<open>\<open>kend\<close> is the linker symbol \<^verbatim>\<open>end\<close>, the first address after the kernel;
  \<open>cr3\<close> is the register that holds the physical address of the page directory in use.\<close>

record phys =
  mem :: "frame \<Rightarrow> widx \<Rightarrow> u32"
  freelist :: u32
  kend :: u32
  cr3 :: u32

definition load32 :: "'a phys_scheme \<Rightarrow> u32 \<Rightarrow> u32" where
  "load32 s v = mem s (vframe v) (vidx v)"

definition store32 :: "u32 \<Rightarrow> u32 \<Rightarrow> 'a phys_scheme \<Rightarrow> 'a phys_scheme" where
  "store32 v x s = s\<lparr>mem := (mem s)(vframe v := (mem s (vframe v))(vidx v := x))\<rparr>"

text \<open>\<^verbatim>\<open>memset(v, c, PGSIZE)\<close> on a page-aligned pointer: string.c stores the byte
  replicated into whole words.\<close>

definition memset_page :: "u32 \<Rightarrow> u32 \<Rightarrow> 'a phys_scheme \<Rightarrow> 'a phys_scheme" where
  "memset_page v c s =
     (let b = c AND 0xFF;
          w = push_bit 24 b OR push_bit 16 b OR push_bit 8 b OR b
      in s\<lparr>mem := (mem s)(vframe v := (\<lambda>_. w))\<rparr>)"

text \<open>\<^verbatim>\<open>memmove(dst, src, PGSIZE)\<close> between two page-aligned kernel pointers.\<close>

definition memmove_page :: "u32 \<Rightarrow> u32 \<Rightarrow> 'a phys_scheme \<Rightarrow> 'a phys_scheme" where
  "memmove_page dst src s = s\<lparr>mem := (mem s)(vframe dst := mem s (vframe src))\<rparr>"

text \<open>Byte access (little endian) and runs of bytes.\<close>

definition load8 :: "'a phys_scheme \<Rightarrow> u32 \<Rightarrow> u8" where
  "load8 s v = ucast (drop_bit (8 * unat (v AND 3)) (load32 s v))"

definition store8 :: "u32 \<Rightarrow> u8 \<Rightarrow> 'a phys_scheme \<Rightarrow> 'a phys_scheme" where
  "store8 v b s =
     (let k = 8 * unat (v AND 3)
      in store32 v ((load32 s v AND NOT (push_bit k 0xFF)) OR push_bit k (ucast b)) s)"

fun store_bytes :: "u32 \<Rightarrow> u8 list \<Rightarrow> 'a phys_scheme \<Rightarrow> 'a phys_scheme" where
  "store_bytes v [] s = s"
| "store_bytes v (b # bs) s = store_bytes (v + 1) bs (store8 v b s)"

fun load_bytes :: "'a phys_scheme \<Rightarrow> u32 \<Rightarrow> nat \<Rightarrow> u8 list" where
  "load_bytes s v 0 = []"
| "load_bytes s v (Suc n) = load8 s v # load_bytes s (v + 1) n"

section \<open>The allocator\<close>

definition kalloc :: "'a phys_scheme \<Rightarrow> u32 \<times> 'a phys_scheme" where
  "kalloc s =
     (let r = freelist s
      in if r \<noteq> 0 then (r, s\<lparr>freelist := load32 s r\<rparr>) else (r, s))"

definition kfree :: "u32 \<Rightarrow> 'a phys_scheme \<Rightarrow> 'a phys_scheme res" where
  "kfree v s =
     (if v mod PGSIZE \<noteq> 0 \<or> v < kend s \<or> V2P v \<ge> PHYSTOP then Panic ''kfree''
      else let s1 = memset_page v 1 s;
               s2 = store32 v (freelist s1) s1
           in Ok (s2\<lparr>freelist := v\<rparr>))"

definition valid_page :: "'a phys_scheme \<Rightarrow> u32 \<Rightarrow> bool" where
  "valid_page s v \<longleftrightarrow> page_aligned v \<and> kend s \<le> v \<and> V2P v < PHYSTOP"

function freerange_loop :: "u32 \<Rightarrow> u32 \<Rightarrow> 'a phys_scheme \<Rightarrow> 'a phys_scheme res" where
  "freerange_loop p vend s =
     (if p + PGSIZE \<le> vend
      then bindR (kfree p s) (\<lambda>s1. freerange_loop (p + PGSIZE) vend s1)
      else Ok s)"
  by pat_completeness auto
termination
proof (relation "measure (\<lambda>(p, vend, s). unat vend - unat p)", simp, goal_cases)
  case (1 p vend s s1)
  then have "V2P p < PHYSTOP"
    by (auto simp: kfree_def Let_def split: if_splits)
  from valid_page_no_wrap(1) [OF this] 1(1) show ?case
    by (simp add: word_le_nat_alt)
qed

declare freerange_loop.simps [simp del]

definition freerange :: "u32 \<Rightarrow> u32 \<Rightarrow> 'a phys_scheme \<Rightarrow> 'a phys_scheme res" where
  "freerange vstart vend s = freerange_loop (PGROUNDUP vstart) vend s"

section \<open>The threaded list and its abstraction\<close>

fun chain :: "'a phys_scheme \<Rightarrow> u32 \<Rightarrow> u32 list \<Rightarrow> bool" where
  "chain s p [] \<longleftrightarrow> p = 0"
| "chain s p (x # xs) \<longleftrightarrow> p = x \<and> x \<noteq> 0 \<and> chain s (load32 s x) xs"

definition kmem_ok :: "'a phys_scheme \<Rightarrow> u32 list \<Rightarrow> bool" where
  "kmem_ok s xs \<longleftrightarrow> chain s (freelist s) xs \<and> distinct xs \<and> (\<forall>x \<in> set xs. valid_page s x)"

text \<open>The frames of the free pages.\<close>

definition frames :: "u32 list \<Rightarrow> frame set" where
  "frames xs = vframe ` set xs"


lemma valid_page_kva: "valid_page s v \<Longrightarrow> kva (vframe v) = v"
  by (simp add: valid_page_def page_aligned_kva_vframe)

lemma valid_page_nonzero: "valid_page s v \<Longrightarrow> v \<noteq> 0"
  by (auto simp: valid_page_def valid_page_no_wrap(2))

lemma valid_page_frame_inject:
  "valid_page s v \<Longrightarrow> valid_page s w \<Longrightarrow> vframe v = vframe w \<longleftrightarrow> v = w"
  by (metis valid_page_kva)

lemma valid_page_cong: "kend s' = kend s \<Longrightarrow> valid_page s' v = valid_page s v"
  by (simp add: valid_page_def)

lemma load32_slot [simp]: "load32 s (slot f i) = mem s f i"
  by (simp add: load32_def)

lemma load32_kva [simp]: "load32 s (kva f) = mem s f 0"
  by (simp add: load32_def)

lemma load32_store32: "load32 (store32 v x s) w = (if vframe w = vframe v \<and> vidx w = vidx v then x else load32 s w)"
  by (simp add: load32_def store32_def)

lemma mem_store32: "mem (store32 v x s) f = (if f = vframe v then (mem s f)(vidx v := x) else mem s f)"
  by (simp add: store32_def)

lemma store32_simps [simp]:
  "freelist (store32 v x s) = freelist s" "kend (store32 v x s) = kend s" "cr3 (store32 v x s) = cr3 s"
  "phys.more (store32 v x s) = phys.more s"
  by (simp_all add: store32_def)

lemma mem_memset_page: "mem (memset_page v 0 s) f = (if f = vframe v then (\<lambda>_. 0) else mem s f)"
  by (simp add: memset_page_def Let_def)

lemma memset_page_simps [simp]:
  "freelist (memset_page v c s) = freelist s" "kend (memset_page v c s) = kend s"
  "cr3 (memset_page v c s) = cr3 s"
  "phys.more (memset_page v c s) = phys.more s"
  by (simp_all add: memset_page_def Let_def)

lemma mem_memset_page_other: "f \<noteq> vframe v \<Longrightarrow> mem (memset_page v c s) f = mem s f"
  by (simp add: memset_page_def Let_def)

text \<open>The chain only depends on the first word of the pages in it.\<close>

lemma chain_cong:
  "(\<And>x. x \<in> set xs \<Longrightarrow> load32 s' x = load32 s x) \<Longrightarrow> chain s' p xs = chain s p xs"
  by (induction xs arbitrary: p) auto

lemma kmem_ok_mem_cong:
  assumes "\<And>f. f \<in> frames xs \<Longrightarrow> mem s' f = mem s f" "freelist s' = freelist s" "kend s' = kend s"
  shows "kmem_ok s' xs = kmem_ok s xs"
proof -
  have "chain s' p xs = chain s p xs" for p
    by (rule chain_cong) (simp add: load32_def assms(1) frames_def)
  then show ?thesis by (simp add: kmem_ok_def assms valid_page_def)
qed

lemma kmem_ok_store32:
  "kmem_ok s xs \<Longrightarrow> vframe v \<notin> frames xs \<Longrightarrow> kmem_ok (store32 v x s) xs"
  by (subst kmem_ok_mem_cong [of xs _ s]) (auto simp: mem_store32)

lemma kmem_ok_memset_page:
  "kmem_ok s xs \<Longrightarrow> vframe v \<notin> frames xs \<Longrightarrow> kmem_ok (memset_page v c s) xs"
  by (subst kmem_ok_mem_cong [of xs _ s]) (auto intro!: mem_memset_page_other)

lemma kmem_ok_memmove_page:
  "kmem_ok s xs \<Longrightarrow> vframe v \<notin> frames xs \<Longrightarrow> kmem_ok (memmove_page v w s) xs"
  by (subst kmem_ok_mem_cong [of xs _ s]) (auto simp: memmove_page_def)

lemma kmem_ok_frames_notin:
  "kmem_ok s (x # xs) \<Longrightarrow> vframe x \<notin> frames xs"
  unfolding kmem_ok_def frames_def
  by (auto simp: valid_page_frame_inject)

lemma frames_simps [simp]: "frames [] = {}" "frames (x # xs) = insert (vframe x) (frames xs)"
  by (simp_all add: frames_def)

section \<open>kalloc and kfree refine the free list\<close>

lemma kalloc_empty: "kmem_ok s [] \<Longrightarrow> kalloc s = (0, s)"
  by (simp add: kmem_ok_def kalloc_def)

lemma kalloc_cons:
  assumes "kmem_ok s (x # xs)"
  shows "kalloc s = (x, s\<lparr>freelist := load32 s x\<rparr>)" "kmem_ok (s\<lparr>freelist := load32 s x\<rparr>) xs" "x \<noteq> 0"
proof -
  have c: "chain (s\<lparr>freelist := l\<rparr>) p xs = chain s p xs" for l p
    by (rule chain_cong) (simp add: load32_def)
  show "kalloc s = (x, s\<lparr>freelist := load32 s x\<rparr>)" "x \<noteq> 0"
    using assms by (simp_all add: kmem_ok_def kalloc_def)
  show "kmem_ok (s\<lparr>freelist := load32 s x\<rparr>) xs"
    using assms by (simp add: kmem_ok_def valid_page_def c)
qed

lemma kfree_ok:
  assumes "kmem_ok s xs" "valid_page s v" "v \<notin> set xs"
  obtains s' where "kfree v s = Ok s'" "kmem_ok s' (v # xs)"
    "\<And>f. f \<noteq> vframe v \<Longrightarrow> mem s' f = mem s f" "kend s' = kend s" "cr3 s' = cr3 s"
    "phys.more s' = phys.more s"
proof -
  let ?s1 = "memset_page v 1 s"
  let ?s2 = "store32 v (freelist ?s1) ?s1"
  let ?s3 = "?s2\<lparr>freelist := v\<rparr>"
  have nin: "vframe v \<notin> frames xs"
    using assms by (auto simp: frames_def kmem_ok_def valid_page_frame_inject)
  have "kfree v s = Ok ?s3"
    using assms(2) by (auto simp: kfree_def valid_page_def page_aligned_mod Let_def not_less not_le)
  moreover have "chain ?s3 (freelist s) xs = chain s (freelist s) xs"
  proof (rule chain_cong)
    fix x assume "x \<in> set xs"
    with nin have "vframe x \<noteq> vframe v" by (metis frames_def imageI)
    then show "load32 ?s3 x = load32 s x"
      by (simp add: load32_def mem_store32 mem_memset_page_other)
  qed
  then have "kmem_ok ?s3 (v # xs)"
    using assms valid_page_nonzero [OF assms(2)]
    by (simp add: kmem_ok_def valid_page_def load32_def mem_store32)
  moreover have "f \<noteq> vframe v \<Longrightarrow> mem ?s3 f = mem s f" for f
    by (simp add: mem_store32 mem_memset_page_other)
  ultimately show ?thesis by (intro that [of ?s3]) simp_all
qed

lemma kfree_panics: "\<not> valid_page s v \<Longrightarrow> kfree v s = Panic ''kfree''"
  by (auto simp: kfree_def valid_page_def page_aligned_mod Let_def not_le not_less)

section \<open>freerange fills the list\<close>

lemma freerange_loop_ok:
  assumes "kmem_ok s xs" "page_aligned p" "KERNBASE \<le> kend s" "kend s \<le> p"
    and "p \<le> 0x8E000000" "vend \<le> 0x8E000000" "\<forall>x \<in> set xs. x < p"
  shows "\<exists>s' zs. freerange_loop p vend s = Ok s' \<and> kmem_ok s' zs \<and> kend s' = kend s \<and>
     set zs = set xs \<union> {v. page_aligned v \<and> p \<le> v \<and> unat v + 4096 \<le> unat vend}"
  using assms
proof (induction p vend s arbitrary: xs rule: freerange_loop.induct)
  case (1 p vend s)
  have up: "unat p \<le> 2382364672" "unat vend \<le> 2382364672" "2147483648 \<le> unat p"
    using "1.prems"(3-6) by (auto simp: word_le_nat_alt)
  then have nw: "unat (p + PGSIZE) = unat p + 4096" by (simp add: unat_word_ariths)
  show ?case
  proof (cases "p + PGSIZE \<le> vend")
    case False
    then have "{v. page_aligned v \<and> p \<le> v \<and> unat v + 4096 \<le> unat vend} = {}"
      using nw by (auto simp: word_le_nat_alt)
    with False "1.prems"(1) show ?thesis
      by (subst freerange_loop.simps) (auto simp del: Collect_empty_eq)
  next
    case True
    have "unat (V2P p) = unat p - 2147483648"
      using up(3) by (simp add: V2P_def unat_sub word_le_nat_alt)
    with True nw up have "V2P p < PHYSTOP"
      by (simp add: word_less_nat_alt word_le_nat_alt)
    with "1.prems" have vp: "valid_page s p" "p \<notin> set xs" by (auto simp: valid_page_def)
    obtain s1 where s1: "kfree p s = Ok s1" "kmem_ok s1 (p # xs)" "kend s1 = kend s"
      using kfree_ok [OF "1.prems"(1) vp] by metis
    have al: "page_aligned (p + PGSIZE)"
      using "1.prems"(2) by (rule page_aligned_add) 
    have "p + PGSIZE \<le> 0x8E000000" using True "1.prems"(6) by simp
    moreover have "kend s1 \<le> p + PGSIZE" "\<forall>x\<in>set (p # xs). x < p + PGSIZE"
      using "1.prems"(4,7) nw s1(3) by (force simp: word_le_nat_alt word_less_nat_alt)+
    ultimately obtain s' zs where r: "freerange_loop (p + PGSIZE) vend s1 = Ok s'" "kmem_ok s' zs"
      "kend s' = kend s1"
      "set zs = set (p # xs) \<union> {v. page_aligned v \<and> p + PGSIZE \<le> v \<and> unat v + 4096 \<le> unat vend}"
      using "1.IH" [OF True s1(1) s1(2) al] "1.prems"(3,6) s1(3) by auto
    have "v = p \<or> p + PGSIZE \<le> v" if "page_aligned v" "p \<le> v" for v
    proof -
      have "4096 dvd unat v" "4096 dvd unat p"
        using that(1) "1.prems"(2) by (simp_all add: page_aligned_dvd)
      then obtain a b where ab: "unat v = 4096 * a" "unat p = 4096 * b" by (auto simp: dvd_def)
      show ?thesis
      proof (cases "a = b")
        case True
        with ab have "unat v = unat p" by simp
        then show ?thesis by (simp add: unsigned_word_eqI)
      next
        case False
        with ab that(2) show ?thesis by (simp add: word_le_nat_alt nw)
      qed
    qed
    then have "set zs = set xs \<union> {v. page_aligned v \<and> p \<le> v \<and> unat v + 4096 \<le> unat vend}"
      using r(4) True nw "1.prems"(2) by (auto simp: word_le_nat_alt)
    with r s1 True show ?thesis
      by (subst freerange_loop.simps) auto
  qed
qed

section \<open>The interface: a pool of pages\<close>

text \<open>What the clients of the allocator rely on. \<open>pool s xs\<close> says the free pages of
  state \<open>s\<close> are \<open>xs\<close>, in the order they will be handed out.\<close>

fun alloc_many :: "('s \<Rightarrow> u32 \<times> 's) \<Rightarrow> nat \<Rightarrow> 's \<Rightarrow> u32 list \<times> 's" where
  "alloc_many al 0 s = ([], s)"
| "alloc_many al (Suc n) s =
     (let (p, s1) = al s; (ps, s2) = alloc_many al n s1 in (p # ps, s2))"

locale page_pool =
  fixes alloc :: "'s \<Rightarrow> u32 \<times> 's"
    and free :: "u32 \<Rightarrow> 's \<Rightarrow> 's res"
    and pool :: "'s \<Rightarrow> u32 list \<Rightarrow> bool"
    and valid :: "'s \<Rightarrow> u32 \<Rightarrow> bool"
  assumes alloc_nil: "pool s [] \<Longrightarrow> alloc s = (0, s)"
    and alloc_cons: "pool s (x # xs) \<Longrightarrow> \<exists>s'. alloc s = (x, s') \<and> pool s' xs"
    and free_pool: "pool s xs \<Longrightarrow> valid s v \<Longrightarrow> v \<notin> set xs \<Longrightarrow> \<exists>s'. free v s = Ok s' \<and> pool s' (v # xs)"
    and pool_distinct: "pool s xs \<Longrightarrow> distinct xs"
    and pool_valid: "pool s xs \<Longrightarrow> x \<in> set xs \<Longrightarrow> valid s x"
    and valid_nonzero: "valid s v \<Longrightarrow> v \<noteq> 0"
begin

lemma alloc_many_take:
  "pool s xs \<Longrightarrow> n \<le> length xs \<Longrightarrow>
     \<exists>s'. alloc_many alloc n s = (take n xs, s') \<and> pool s' (drop n xs)"
proof (induction n arbitrary: s xs)
  case 0
  then show ?case by simp
next
  case (Suc n)
  then obtain x ys where xs: "xs = x # ys" by (cases xs) auto
  from alloc_cons [of s x ys] Suc.prems(1) xs obtain s1
    where "alloc s = (x, s1)" "pool s1 ys" by auto
  with Suc.IH [of s1 ys] Suc.prems(2) xs show ?case by auto
qed

lemma alloc_many_distinct:
  assumes "pool s xs" "n \<le> length xs"
  shows "distinct (fst (alloc_many alloc n s))" "0 \<notin> set (fst (alloc_many alloc n s))"
proof -
  from alloc_many_take [OF assms] have e: "fst (alloc_many alloc n s) = take n xs" by auto
  show "distinct (fst (alloc_many alloc n s))"
    using pool_distinct [OF assms(1)] e by simp
  show "0 \<notin> set (fst (alloc_many alloc n s))"
    using pool_valid [OF assms(1)] valid_nonzero e by (auto dest: in_set_takeD)
qed

lemma alloc_fails_iff_empty:
  assumes "pool s xs"
  shows "fst (alloc s) = 0 \<longleftrightarrow> xs = []"
proof (cases xs)
  case Nil
  with assms show ?thesis using alloc_nil [of s] by simp
next
  case (Cons x ys)
  then show ?thesis using assms alloc_cons [of s x ys] pool_valid [of s xs x] valid_nonzero by auto
qed

lemma free_then_alloc:
  assumes "pool s xs" "valid s v" "v \<notin> set xs"
  shows "\<exists>s1 s2. free v s = Ok s1 \<and> alloc s1 = (v, s2) \<and> pool s2 xs"
  using free_pool [OF assms] alloc_cons by blast

end

interpretation kmem: page_pool kalloc kfree kmem_ok valid_page
proof (unfold_locales, goal_cases)
  case (1 s)
  then show ?case by (rule kalloc_empty)
next
  case (2 s x xs)
  from kalloc_cons [OF this] show ?case by blast
next
  case (3 s xs v)
  from kfree_ok [OF this] show ?case by metis
qed (auto simp: kmem_ok_def valid_page_nonzero)

end
