(* ===== verification/PageTable.thy ===== *)
theory PageTable
  imports Kalloc
begin

text \<open>
  The two-level page table of vm.c: \<^verbatim>\<open>walkpgdir\<close>, \<^verbatim>\<open>mappages\<close>, \<^verbatim>\<open>clearpteu\<close>,
  \<^verbatim>\<open>uva2ka\<close>, \<^verbatim>\<open>copyout\<close> and \<^verbatim>\<open>inituvm\<close>, on physical memory. The tables live in the
  pages of that memory, as in the kernel. \<open>pte_at\<close> is the abstraction, the entry that maps
  a virtual address, and \<open>pt_ok\<close> the invariant: the tables are in use, disjoint and
  off the free list.
\<close>

section \<open>The hardware's translation\<close>

definition present :: "u32 \<Rightarrow> bool" where
  "present e \<longleftrightarrow> e AND PTE_P \<noteq> 0"

text \<open>The entry for \<open>va\<close> in the tables rooted at frame \<open>d\<close>; \<open>None\<close> if there is no
  second-level table.\<close>

definition pte_at :: "'a phys_scheme \<Rightarrow> frame \<Rightarrow> u32 \<Rightarrow> u32 option" where
  "pte_at s d va =
     (let pde = mem s d (pdx va)
      in if present pde then Some (mem s (pframe pde) (ptx va)) else None)"

text \<open>What the processor reads in kernel mode at \<open>va\<close>: the physical address, or no
  mapping (a page fault).\<close>

definition mmu :: "'a phys_scheme \<Rightarrow> u32 \<Rightarrow> u32 option" where
  "mmu s va =
     (case pte_at s (pframe (cr3 s)) va of
        None \<Rightarrow> None
      | Some pte \<Rightarrow> if present pte then Some (PTE_ADDR pte OR (va AND 0xFFF)) else None)"

section \<open>walkpgdir and mappages\<close>

definition walkpgdir :: "u32 \<Rightarrow> u32 \<Rightarrow> bool \<Rightarrow> 'a phys_scheme \<Rightarrow> u32 \<times> 'a phys_scheme" where
  "walkpgdir pgdir va alloc s =
     (let pde = pgdir + 4 * PDX va
      in if load32 s pde AND PTE_P \<noteq> 0
         then let pgtab = P2V (PTE_ADDR (load32 s pde)) in (pgtab + 4 * PTX va, s)
         else if \<not> alloc then (0, s)
         else let (pgtab, s1) = kalloc s
              in if pgtab = 0 then (0, s1)
                 else let s2 = memset_page pgtab 0 s1;
                          s3 = store32 pde (V2P pgtab OR PTE_P OR PTE_W OR PTE_U) s2
                      in (pgtab + 4 * PTX va, s3))"

text \<open>The loop of \<^verbatim>\<open>mappages\<close> over the pages from \<open>a\<close> to \<open>last\<close>, given by their page
  numbers (both addresses are rounded down to a page, and \<^verbatim>\<open>a += PGSIZE\<close> is the next
  page number, wrapping as the address does).\<close>

definition page_va :: "20 word \<Rightarrow> u32" where
  "page_va a = push_bit 12 (ucast a)"

function mappages_loop ::
  "u32 \<Rightarrow> 20 word \<Rightarrow> 20 word \<Rightarrow> u32 \<Rightarrow> u32 \<Rightarrow> 'a phys_scheme \<Rightarrow> (int \<times> 'a phys_scheme) res" where
  "mappages_loop pgdir a lst pa perm s =
     (let (pte, s1) = walkpgdir pgdir (page_va a) True s
      in if pte = 0 then Ok (-1, s1)
         else if load32 s1 pte AND PTE_P \<noteq> 0 then Panic ''remap''
         else let s2 = store32 pte (pa OR perm OR PTE_P) s1
              in if a = lst then Ok (0, s2)
                 else mappages_loop pgdir (a + 1) lst (pa + PGSIZE) perm s2)"
  by pat_completeness auto

termination
  by (relation "measure (\<lambda>(pgdir, a, lst, pa, perm, s). unat (lst - a))")
    (auto simp: word_dist_Suc)

declare mappages_loop.simps [simp del]

definition mappages ::
  "u32 \<Rightarrow> u32 \<Rightarrow> u32 \<Rightarrow> u32 \<Rightarrow> u32 \<Rightarrow> 'a phys_scheme \<Rightarrow> (int \<times> 'a phys_scheme) res" where
  "mappages pgdir va sz pa perm s =
     mappages_loop pgdir (vpn (PGROUNDDOWN va)) (vpn (PGROUNDDOWN (va + sz - 1))) pa perm s"

section \<open>clearpteu, uva2ka, copyout, inituvm\<close>

definition clearpteu :: "u32 \<Rightarrow> u32 \<Rightarrow> 'a phys_scheme \<Rightarrow> 'a phys_scheme res" where
  "clearpteu pgdir uva s =
     (let (pte, s1) = walkpgdir pgdir uva False s
      in if pte = 0 then Panic ''clearpteu''
         else Ok (store32 pte (load32 s1 pte AND NOT PTE_U) s1))"

text \<open>\<^verbatim>\<open>uva2ka\<close> does not check for a missing table: it then reads the entry through a null
  pointer, that is the word at user address 0 of the address space in use (a fault if that
  page is not mapped).\<close>

definition deref :: "'a phys_scheme \<Rightarrow> u32 \<Rightarrow> u32 res" where
  "deref s p =
     (if p \<noteq> 0 then Ok (load32 s p)
      else case mmu s 0 of None \<Rightarrow> Panic ''trap'' | Some pa \<Rightarrow> Ok (load32 s (P2V pa)))"

text \<open>A page pointer the kernel writes through. The null pointer (an unchecked
  \<^verbatim>\<open>kalloc\<close>) is user address 0: a write lands in the page the current address space
  maps there, and faults if there is none or it is read-only (CR0.WP is set).\<close>

definition mmu_w :: "'a phys_scheme \<Rightarrow> u32 \<Rightarrow> u32 option" where
  "mmu_w s va =
     (case pte_at s (pframe (cr3 s)) va of
        None \<Rightarrow> None
      | Some pte \<Rightarrow> if present pte \<and> pte AND PTE_W \<noteq> 0 then Some (PTE_ADDR pte OR (va AND 0xFFF)) else None)"

definition kptr :: "'a phys_scheme \<Rightarrow> u32 \<Rightarrow> u32 res" where
  "kptr s p =
     (if p \<noteq> 0 then Ok p
      else case mmu_w s 0 of None \<Rightarrow> Panic ''trap'' | Some pa \<Rightarrow> Ok (P2V pa))"

definition uva2ka :: "u32 \<Rightarrow> u32 \<Rightarrow> 'a phys_scheme \<Rightarrow> u32 res" where
  "uva2ka pgdir uva s =
     (let (pte, s1) = walkpgdir pgdir uva False s
      in bindR (deref s1 pte) (\<lambda>e.
         if e AND PTE_P = 0 then Ok 0
         else if e AND PTE_U = 0 then Ok 0
         else Ok (P2V (PTE_ADDR e))))"

lemma page_offset: "va - PGROUNDDOWN va = va AND 0xFFF"
proof -
  have "PGROUNDDOWN va + (va AND 0xFFF) = PGROUNDDOWN va OR (va AND 0xFFF)"
    by (rule disjunctive_add) (auto simp: PGROUNDDOWN_def bit_simps)
  also have "\<dots> = va"
    unfolding PGROUNDDOWN_def by (rule bit_word_eqI) (auto simp: bit_simps)
  finally show ?thesis by (metis add_diff_cancel_left')
qed

lemma page_offset_lt: "unat ((va :: u32) AND 0xFFF) < 4096"
proof -
  have "unat (va AND 0xFFF) = unat va mod 4096"
    by (simp add: and_FFF_mod unat_mod)
  then show ?thesis by simp
qed

lemma page_rest_pos: "0 < unat (PGSIZE - (va - PGROUNDDOWN va))"
  using page_offset_lt [of va] unfolding page_offset
  by (simp add: unat_sub word_le_nat_alt)

function copyout :: "u32 \<Rightarrow> u32 \<Rightarrow> u8 list \<Rightarrow> 'a phys_scheme \<Rightarrow> (int \<times> 'a phys_scheme) res" where
  "copyout pgdir va p s =
     (if p = [] then Ok (0, s)
      else let va0 = PGROUNDDOWN va
           in bindR (uva2ka pgdir va0 s) (\<lambda>pa0.
              if pa0 = 0 then Ok (-1, s)
              else let n = min (unat (PGSIZE - (va - va0))) (length p)
                   in copyout pgdir (va0 + PGSIZE) (drop n p)
                        (store_bytes (pa0 + (va - va0)) (take n p) s)))"
  by pat_completeness auto

termination
  by (relation "measure (\<lambda>(pgdir, va, p, s). length p)")
    (auto simp: Let_def page_rest_pos[unfolded Let_def])

declare copyout.simps [simp del]

definition inituvm :: "u32 \<Rightarrow> u8 list \<Rightarrow> 'a phys_scheme \<Rightarrow> 'a phys_scheme res" where
  "inituvm pgdir init s =
     (if length init \<ge> 4096 then Panic ''inituvm: more than a page''
      else let (m, s1) = kalloc s
           in bindR (kptr s1 m) (\<lambda>p. let s2 = memset_page p 0 s1
              in bindR (mappages pgdir 0 PGSIZE (V2P m) (PTE_W OR PTE_U) s2) (\<lambda>(_, s3).
                 bindR (kptr s3 m) (\<lambda>q. Ok (store_bytes q init s3)))))"

lemma kptr_nonzero [simp]: "p \<noteq> 0 \<Longrightarrow> kptr s p = Ok p"
  by (simp add: kptr_def)

section \<open>The invariant of a page table\<close>

definition pt_frames :: "'a phys_scheme \<Rightarrow> frame \<Rightarrow> frame set" where
  "pt_frames s d = insert d {pframe (mem s d i) |i. present (mem s d i)}"

definition pt_ok :: "'a phys_scheme \<Rightarrow> frame \<Rightarrow> u32 list \<Rightarrow> bool" where
  "pt_ok s d xs \<longleftrightarrow> kmem_ok s xs \<and> pt_frames s d \<inter> frames xs = {} \<and> 0x80000 \<notin> pt_frames s d \<and>
     (\<forall>i. present (mem s d i) \<longrightarrow> pframe (mem s d i) \<noteq> d) \<and>
     inj_on (\<lambda>i. pframe (mem s d i)) {i. present (mem s d i)}"

definition entry :: "'a phys_scheme \<Rightarrow> frame \<Rightarrow> u32 \<Rightarrow> u32" where
  "entry s d va = (case pte_at s d va of None \<Rightarrow> 0 | Some e \<Rightarrow> e)"

text \<open>What an operation on the tables of \<open>d\<close> may do: use free pages as tables and write the
  tables, nothing else.\<close>

definition pt_step :: "'a phys_scheme \<Rightarrow> 'a phys_scheme \<Rightarrow> frame \<Rightarrow> u32 list \<Rightarrow> u32 list \<Rightarrow> bool" where
  "pt_step s s' d xs xs' \<longleftrightarrow> pt_ok s' d xs' \<and> (\<exists>ys. xs = ys @ xs') \<and>
     pt_frames s' d \<union> frames xs' = pt_frames s d \<union> frames xs \<and>
     (\<forall>f. f \<notin> pt_frames s d \<union> frames xs \<longrightarrow> mem s' f = mem s f) \<and>
     kend s' = kend s \<and> cr3 s' = cr3 s \<and> phys.more s' = phys.more s"

lemma present_0 [simp]: "\<not> present 0"
  by (simp add: present_def)

lemma pt_step_refl: "pt_ok s d xs \<Longrightarrow> pt_step s s d xs xs"
  by (simp add: pt_step_def)

lemma pt_step_trans:
  assumes "pt_step s s1 d xs xs1" "pt_step s1 s2 d xs1 xs2"
  shows "pt_step s s2 d xs xs2"
  using assms unfolding pt_step_def by (elim conjE exE) (intro conjI exI; simp)

lemma pt_step_ok: "pt_step s s' d xs xs' \<Longrightarrow> pt_ok s' d xs'"
  by (simp add: pt_step_def)

lemma walkpgdir_present:
  assumes "present (mem s d (pdx va))"
  shows "walkpgdir (kva d) va alloc s = (slot (pframe (mem s d (pdx va))) (ptx va), s)"
  using assms by (simp add: walkpgdir_def Let_def present_def pgdir_index pgtab_index)

lemma walkpgdir_absent:
  assumes "\<not> present (mem s d (pdx va))"
  shows "walkpgdir (kva d) va False s = (0, s)"
  using assms by (simp add: walkpgdir_def Let_def present_def pgdir_index)

lemma walkpgdir_exhausted:
  assumes "\<not> present (mem s d (pdx va))" "kmem_ok s []"
  shows "walkpgdir (kva d) va True s = (0, s)"
  using assms by (simp add: walkpgdir_def Let_def present_def pgdir_index kalloc_empty)

lemma pframe_new_pde:
  "pframe (V2P (kva f) OR PTE_P OR PTE_W OR PTE_U) = f" "present (V2P (kva f) OR PTE_P OR PTE_W OR PTE_U)"
proof -
  have "pframe (7 :: u32) = 0" by (simp add: pframe_def)
  then show "pframe (V2P (kva f) OR PTE_P OR PTE_W OR PTE_U) = f"
    by (simp add: pframe_or kva_def)
  have "bit (V2P (kva f) OR 7) 0" by (simp add: bit_or_iff)
  then show "present (V2P (kva f) OR PTE_P OR PTE_W OR PTE_U)"
    by (simp add: present_def word_bit0_odd)
qed

lemma walkpgdir_new:
  assumes ok: "pt_ok s d (x # xs)" and ab: "\<not> present (mem s d (pdx va))"
  obtains s' where "walkpgdir (kva d) va True s = (slot (vframe x) (ptx va), s')"
    "pt_step s s' d (x # xs) xs" "present (mem s' d (pdx va))" "pframe (mem s' d (pdx va)) = vframe x"
    "\<And>va'. entry s' d va' = entry s d va'"
proof -
  have km: "kmem_ok s (x # xs)" and dx: "d \<noteq> vframe x" "d \<notin> frames xs"
    using ok by (auto simp: pt_ok_def pt_frames_def)
  note ka = kalloc_cons [OF km]
  have vx1: "kva (vframe x) = x"
    using km by (auto simp: kmem_ok_def intro: valid_page_kva)
  have "vframe x \<noteq> 0x80000" using vx1 ka(3) by (metis kva_eq_0)
  with vx1 kmem_ok_frames_notin [OF km]
  have vx: "kva (vframe x) = x" "vframe x \<noteq> 0x80000" "vframe x \<notin> frames xs" by auto
  let ?s1 = "s\<lparr>freelist := load32 s x\<rparr>"
  define e where "e = V2P x OR PTE_P OR PTE_W OR PTE_U"
  let ?s2 = "memset_page x 0 ?s1"
  define s3 where "s3 = store32 (slot d (pdx va)) e ?s2"
  have pe: "pframe e = vframe x" "present e"
    using pframe_new_pde [of "vframe x"] vx(1) by (simp_all add: e_def)
  have w: "walkpgdir (kva d) va True s = (slot (vframe x) (ptx va), s3)"
    using ab ka(1,3) pgtab_index [of "vframe x" va] vx(1)
    by (simp add: walkpgdir_def Let_def present_def pgdir_index s3_def e_def)
  have md: "mem s3 d = (mem s d)(pdx va := e)"
    using dx by (simp add: s3_def mem_store32 mem_memset_page)
  have mx: "mem s3 (vframe x) = (\<lambda>_. 0)"
    using dx by (simp add: s3_def mem_store32 mem_memset_page)
  have mo: "mem s3 f = mem s f" if "f \<noteq> d" "f \<noteq> vframe x" for f
    using that by (simp add: s3_def mem_store32 mem_memset_page)
  have fr: "pt_frames s3 d = insert (vframe x) (pt_frames s d)"
    unfolding pt_frames_def md using ab pe by (auto split: if_splits) metis
  have k3: "kmem_ok s3 xs"
    using dx vx ka(2) unfolding s3_def by (intro kmem_ok_store32 kmem_ok_memset_page) auto
  have inj: "inj_on (\<lambda>i. pframe (mem s3 d i)) {i. present (mem s3 d i)}"
    unfolding md using ok ab pe(1) unfolding pt_ok_def inj_on_def pt_frames_def by (auto split: if_splits)
  have pok: "pt_ok s3 d xs"
    using ok k3 vx dx inj md pe(1) unfolding pt_ok_def fr by (auto split: if_splits)
  have "pt_step s s3 d (x # xs) xs"
    unfolding pt_step_def using pok fr mo by (auto simp: pt_frames_def s3_def)
  moreover have "entry s3 d va' = entry s d va'" for va'
  proof (cases "pdx va' = pdx va")
    case True
    then show ?thesis using pe ab by (simp add: entry_def pte_at_def Let_def md mx)
  next
    case False
    have "present (mem s d (pdx va')) \<Longrightarrow> pframe (mem s d (pdx va')) \<noteq> vframe x \<and> pframe (mem s d (pdx va')) \<noteq> d"
      using ok by (auto simp: pt_ok_def pt_frames_def)
    with False show ?thesis by (simp add: entry_def pte_at_def Let_def md mo)
  qed
  ultimately show ?thesis using w that [of s3] md pe by simp
qed

text \<open>Writing one entry: the tables stay well formed, the entry changes, no other does.\<close>

lemma store_pte:
  fixes e :: u32
  assumes ok: "pt_ok s d xs" and pr: "present (mem s d (pdx va))"
  defines "s' \<equiv> store32 (slot (pframe (mem s d (pdx va))) (ptx va)) e s"
  shows "pt_step s s' d xs xs"
    and "entry s' d va' = (if vpn va' = vpn va then e else entry s d va')"
    and "mem s' d = mem s d"
proof -
  let ?f = "pframe (mem s d (pdx va))"
  have f: "?f \<noteq> d" "?f \<notin> frames xs" "?f \<in> pt_frames s d" using ok pr by (auto simp: pt_ok_def pt_frames_def)
  show md: "mem s' d = mem s d" using f(1) by (simp add: s'_def mem_store32)
  then have fr: "pt_frames s' d = pt_frames s d" by (simp add: pt_frames_def)
  have "kmem_ok s' xs" using ok f by (auto simp: s'_def pt_ok_def intro: kmem_ok_store32)
  then show "pt_step s s' d xs xs"
    using ok f unfolding pt_step_def pt_ok_def fr md by (auto simp: s'_def mem_store32)
  have "present (mem s d (pdx va')) \<Longrightarrow> pframe (mem s d (pdx va')) = ?f \<longleftrightarrow> pdx va' = pdx va"
    using ok pr by (auto simp: pt_ok_def inj_on_def)
  then show "entry s' d va' = (if vpn va' = vpn va then e else entry s d va')"
    using pr md by (auto simp: entry_def pte_at_def Let_def vpn_eq_iff s'_def mem_store32)
qed

text \<open>One step of \<^verbatim>\<open>walkpgdir(.., 1)\<close> in a well-formed table.\<close>

lemma walkpgdir_alloc:
  assumes ok: "pt_ok s d xs"
  obtains (fail) "walkpgdir (kva d) va True s = (0, s)" "xs = []" "\<not> present (mem s d (pdx va))"
  | (some) s' xs' where
    "walkpgdir (kva d) va True s = (slot (pframe (mem s' d (pdx va))) (ptx va), s')"
    "pt_step s s' d xs xs'" "present (mem s' d (pdx va))"
    "slot (pframe (mem s' d (pdx va))) (ptx va) \<noteq> 0"
    "\<And>va'. entry s' d va' = entry s d va'"
    "load32 s' (slot (pframe (mem s' d (pdx va))) (ptx va)) = entry s d va"
proof (cases "present (mem s d (pdx va))")
  case True
  have "pframe (mem s d (pdx va)) \<noteq> 0x80000" using ok True by (auto simp: pt_ok_def pt_frames_def)
  with True ok show ?thesis
    by (intro some [of s xs]) (simp_all add: walkpgdir_present pt_step_refl entry_def pte_at_def)
next
  case False
  show ?thesis
  proof (cases xs)
    case Nil
    with False ok show ?thesis by (intro fail) (auto simp: pt_ok_def walkpgdir_exhausted)
  next
    case (Cons x ys)
    from ok Cons have ok': "pt_ok s d (x # ys)" by simp
    from walkpgdir_new [OF ok' False] obtain s' where
      s': "walkpgdir (kva d) va True s = (slot (vframe x) (ptx va), s')"
        "pt_step s s' d (x # ys) ys" "present (mem s' d (pdx va))" "pframe (mem s' d (pdx va)) = vframe x"
        "\<And>va'. entry s' d va' = entry s d va'" by metis
    have "pframe (mem s' d (pdx va)) \<noteq> 0x80000"
      using pt_step_ok [OF s'(2)] s'(3) by (auto simp: pt_ok_def pt_frames_def)
    moreover have "entry s' d va = mem s' (vframe x) (ptx va)"
      using s'(3,4) by (simp add: entry_def pte_at_def)
    ultimately show ?thesis using s' Cons by (intro some [of s' ys]) simp_all
  qed
qed

section \<open>What mappages does\<close>

lemma vpn_page_va [simp]: "vpn (page_va a) = a"
  unfolding vpn_def page_va_def by (rule bit_word_eqI) (auto simp: bit_simps)

lemma word_interval_step:
  fixes a b x :: "'a::len word"
  assumes "a \<noteq> b"
  shows "x - a \<le> b - a \<longleftrightarrow> x = a \<or> x - (a + 1) \<le> b - (a + 1)"
proof -
  have ba: "unat (b - a) = Suc (unat (b - (a + 1)))" using assms by (intro word_dist_Suc) simp
  show ?thesis
  proof (cases "x = a")
    case False
    then have "unat (x - a) = Suc (unat (x - (a + 1)))" by (rule word_dist_Suc)
    with ba False show ?thesis by (auto simp: word_le_nat_alt)
  qed simp
qed

definition mapped_entry :: "20 word \<Rightarrow> u32 \<Rightarrow> u32 \<Rightarrow> 20 word \<Rightarrow> u32" where
  "mapped_entry a pa perm x = (pa + 4096 * ucast (x - a)) OR perm OR PTE_P"

lemma mapped_entry_step:
  assumes "x \<noteq> a"
  shows "mapped_entry (a + 1) (pa + PGSIZE) perm x = mapped_entry a pa perm x"
proof -
  have "unat (x - (a + 1)) + 1 = unat (x - a)" using word_dist_Suc [OF assms] by simp
  then have "(ucast (x - (a + 1)) :: u32) + 1 = ucast (x - a)"
    by (metis of_nat_1 of_nat_add of_nat_unat)
  then have "4096 * ((ucast (x - (a + 1)) :: u32) + 1) = 4096 * ucast (x - a)" by simp
  then have "pa + PGSIZE + 4096 * ucast (x - (a + 1)) = pa + 4096 * ucast (x - a)"
    by (simp only: distrib_left add.assoc) (simp add: add.left_commute add.commute)
  then show ?thesis by (simp only: mapped_entry_def)
qed

lemma mappages_loop_ok:
  assumes "pt_ok s d xs" "mappages_loop (kva d) a lst pa perm s = Ok (r, s')"
  shows "\<exists>xs'. pt_step s s' d xs xs' \<and>
     (r = 0 \<and> (\<forall>va. entry s' d va =
         (if vpn va - a \<le> lst - a then mapped_entry a pa perm (vpn va) else entry s d va)) \<or>
      r = -1 \<and> xs' = [])"
  using assms
proof (induction "kva d" a lst pa perm s arbitrary: xs rule: mappages_loop.induct)
  case (1 a lst pa perm s)
  note ok = "1.prems"(1)
  note run = "1.prems"(2) [unfolded mappages_loop.simps [of _ a lst pa perm s]]
  from ok show ?case
  proof (cases rule: walkpgdir_alloc [where va = "page_va a"])
    case fail
    with run ok show ?thesis by (auto simp: pt_step_refl)
  next
    case (some s1 xs1)
    let ?pte = "slot (pframe (mem s1 d (pdx (page_va a)))) (ptx (page_va a))"
    let ?s2 = "store32 ?pte (pa OR perm OR PTE_P) s1"
    note st = store_pte [OF pt_step_ok [OF some(2)] some(3), of "pa OR perm OR PTE_P"]
    have step2: "pt_step s ?s2 d xs xs1" using pt_step_trans [OF some(2) st(1)] .
    have e2: "entry ?s2 d va = (if vpn va = a then pa OR perm OR PTE_P else entry s d va)" for va
      using st(2) [of va] some(5) by simp
    have np: "\<not> present (entry s d (page_va a))"
      using run some by (auto simp: present_def split: if_splits)
    show ?thesis
    proof (cases "a = lst")
      case True
      with run some np step2 e2 show ?thesis
        by (auto simp: present_def mapped_entry_def)
    next
      case False
      have run2: "mappages_loop (kva d) (a + 1) lst (pa + PGSIZE) perm ?s2 = Ok (r, s')"
        using run some np False by (auto simp: present_def)
      from "1.hyps" [OF some(1) [symmetric] _ _ _ refl False pt_step_ok [OF step2] run2] some(4,6) np
      obtain xs' where xs': "pt_step ?s2 s' d xs1 xs'"
        "r = 0 \<and> (\<forall>va. entry s' d va =
           (if vpn va - (a + 1) \<le> lst - (a + 1) then mapped_entry (a + 1) (pa + PGSIZE) perm (vpn va)
            else entry ?s2 d va)) \<or> r = -1 \<and> xs' = []"
        by (auto simp: present_def)
      from xs'(2) show ?thesis
      proof (elim disjE conjE)
        assume r: "r = 0" and en: "\<forall>va. entry s' d va =
           (if vpn va - (a + 1) \<le> lst - (a + 1) then mapped_entry (a + 1) (pa + PGSIZE) perm (vpn va)
            else entry ?s2 d va)"
        have nw: "\<not> a - (a + 1) \<le> lst - (a + 1)"
        proof
          assume "a - (a + 1) \<le> lst - (a + 1)"
          then have "lst - (a + 1) = -1" using word_n1_ge [of "lst - (a + 1)"] by simp
          with False show False by (simp add: diff_eq_eq)
        qed
        have "entry s' d va = (if vpn va - a \<le> lst - a then mapped_entry a pa perm (vpn va) else entry s d va)" for va
          using en nw e2 [of va] word_interval_step [OF False, of "vpn va"] mapped_entry_step [of "vpn va" a pa perm]
          by (cases "vpn va = a") (auto simp: mapped_entry_def)
        with r pt_step_trans [OF step2 xs'(1)] show ?thesis by blast
      qed (use pt_step_trans [OF step2 xs'(1)] in blast)
    qed
  qed
qed
end
