(* ===== verification/UserMem.thy ===== *)
theory UserMem
  imports PageTable
begin

text \<open>
  Bytes in memory, page contents, and what the byte-moving routines of vm.c do to the user's
  view: a write of a byte is read back and disturbs no other byte, a run of bytes likewise, and
  \<^verbatim>\<open>copyout\<close> makes the bytes appear in the user's address space at the given address,
  leaving every other user byte alone.
\<close>

section \<open>Single bytes\<close>

lemma V2P_bit_low: "n < 12 \<Longrightarrow> bit (V2P v) n = bit v n"
proof -
  assume n: "n < 12"
  have "v = push_bit 12 (drop_bit 12 v) OR (v AND 0xFFF)"
    by (rule bit_word_eqI) (auto simp: bit_simps)
  also have "\<dots> = push_bit 12 (drop_bit 12 v) + (v AND 0xFFF)"
    by (rule disjunctive_add [symmetric]) (auto simp: bit_simps)
  finally have "V2P v = push_bit 12 (drop_bit 12 v) + (v AND 0xFFF) - KERNBASE"
    by (simp only: V2P_def)
  also have "\<dots> = push_bit 12 (drop_bit 12 v - 0x80000) + (v AND 0xFFF)"
    by (simp add: push_bit_eq_mult algebra_simps)
  also have "\<dots> = push_bit 12 (drop_bit 12 v - 0x80000) OR (v AND 0xFFF)"
    by (rule disjunctive_add) (auto simp: bit_simps)
  finally show ?thesis using n by (simp only:) (auto simp: bit_simps)
qed

lemma bit_pframe: "bit (pframe x) k \<longleftrightarrow> k < 20 \<and> bit x (12 + k)"
  by (simp add: pframe_def bit_ucast_w bit_drop_bit_eq)
lemma bit_pidx: "bit (pidx x) k \<longleftrightarrow> k < 10 \<and> bit x (2 + k)"
  by (simp add: pidx_def bit_ucast_w bit_drop_bit_eq)
lemma bit_and_3: "bit (x AND (3 :: u32)) k \<longleftrightarrow> k < 2 \<and> bit x k"
  by (auto simp: bit_and_iff)

lemma pframe_pidx_bits:
  assumes "pframe a = pframe b" "pidx a = pidx b" "a AND 3 = b AND 3"
  shows "a = (b :: u32)"
proof (rule bit_word_eqI)
  fix n :: nat assume n: "n < LENGTH(32)"
  consider "n < 2" | m where "n = 2 + m" "m < 10" | m where "n = 12 + m" "m < 20"
  proof -
    have "n < 2 \<or> (n = 2 + (n - 2) \<and> n - 2 < 10) \<or> (n = 12 + (n - 12) \<and> n - 12 < 20)"
      using n by auto
    then show ?thesis using that by blast
  qed
  then show "bit a n = bit b n"
    using assms bit_and_3 [of a n] bit_and_3 [of b n] bit_pidx bit_pframe
    by cases metis+
qed

lemma ptr_eq_iff: "v = w \<longleftrightarrow> vframe v = vframe w \<and> vidx v = vidx w \<and> v AND 3 = w AND 3"
proof -
  have low: "V2P x AND 3 = x AND 3" for x
  proof (rule bit_word_eqI)
    fix n assume "n < LENGTH(32)"
    have "bit (3 :: u32) n \<longleftrightarrow> n < 2" by auto
    then show "bit (V2P x AND 3) n = bit (x AND 3) n"
      using V2P_bit_low [of n x] by (auto simp: bit_and_iff)
  qed
  show ?thesis
    using pframe_pidx_bits [of "V2P v" "V2P w"] low by (auto simp: vframe_def vidx_def) (metis P2V_V2P)
qed

lemma byte_insert_same:
  fixes x :: u32 and b :: u8
  assumes "k \<in> {0, 8, 16, 24}"
  shows "(ucast (drop_bit k ((x AND NOT (push_bit k 0xFF)) OR push_bit k (ucast b))) :: u8) = b"
proof (rule bit_word_eqI)
  fix n assume n: "n < LENGTH(8)"
  have f: "bit (0xFF :: u32) m \<longleftrightarrow> m < 8" for m
    by auto
  show "bit (ucast (drop_bit k ((x AND NOT (push_bit k 0xFF)) OR push_bit k (ucast b))) :: u8) n = bit b n"
    using assms n by (auto simp: bit_ucast_w bit_drop_bit_eq bit_or_iff bit_and_iff bit_not_iff bit_push_bit_iff f)
qed

lemma byte_insert_other:
  fixes x :: u32 and b :: u8
  assumes "k \<in> {0, 8, 16, 24}" "j \<in> {0, 8, 16, 24}" "j \<noteq> k"
  shows "(ucast (drop_bit j ((x AND NOT (push_bit k 0xFF)) OR push_bit k (ucast b))) :: u8) = ucast (drop_bit j x)"
proof (rule bit_word_eqI)
  fix n assume n: "n < LENGTH(8)"
  have f: "bit (0xFF :: u32) m \<longleftrightarrow> m < 8" for m
    by auto
  have b: "bit (b::u8) m \<Longrightarrow> m < 8" for m using bit_imp_le_length [of b m] by simp
  show "bit (ucast (drop_bit j ((x AND NOT (push_bit k 0xFF)) OR push_bit k (ucast b))) :: u8) n = bit (ucast (drop_bit j x) :: u8) n"
    using assms n b [of "j + n - k"]
    by (auto simp: bit_ucast_w bit_drop_bit_eq bit_or_iff bit_and_iff bit_not_iff bit_push_bit_iff f)
qed

lemma and3_cases: "8 * unat (v AND (3 :: u32)) \<in> {0, 8, 16, 24}"
proof -
  have "v AND 3 = v mod 4"
    by (simp add: take_bit_eq_mod [of 2, simplified, symmetric] take_bit_eq_mask mask_eq_exp_minus_1)
  then have "unat (v AND 3) < 4" by (simp add: unat_mod)
  then show ?thesis by auto
qed

lemma load8_store8: "load8 (store8 v b s) w = (if w = v then b else load8 s w)"
proof (cases "vframe w = vframe v \<and> vidx w = vidx v")
  case True
  then have "load32 (store8 v b s) w = (load32 s v AND NOT (push_bit (8 * unat (v AND 3)) 0xFF)) OR push_bit (8 * unat (v AND 3)) (ucast b)"
    by (simp add: store8_def Let_def load32_store32)
  moreover have "load32 s w = load32 s v" using True by (simp add: load32_def)
  moreover have "w = v \<longleftrightarrow> 8 * unat (w AND 3) = 8 * unat (v AND 3)"
    using True ptr_eq_iff [of w v] by (auto dest: unsigned_word_eqI)
  ultimately show ?thesis
    using byte_insert_same [OF and3_cases] byte_insert_other [OF and3_cases and3_cases]
    by (auto simp: load8_def)
next
  case False
  then show ?thesis by (auto simp: load8_def store8_def Let_def load32_store32)
qed

section \<open>Runs of bytes\<close>

lemma store8_simps [simp]:
  "freelist (store8 v b s) = freelist s" "kend (store8 v b s) = kend s" "cr3 (store8 v b s) = cr3 s"
  "phys.more (store8 v b s) = phys.more s"
  by (simp_all add: store8_def Let_def)

lemma store_bytes_simps [simp]:
  "freelist (store_bytes v bs s) = freelist s" "kend (store_bytes v bs s) = kend s"
  "cr3 (store_bytes v bs s) = cr3 s" "phys.more (store_bytes v bs s) = phys.more s"
  by (induction bs arbitrary: v s) simp_all

lemma load8_store_bytes:
  "length bs \<le> 2 ^ 32 \<Longrightarrow> load8 (store_bytes v bs s) w =
     (if unat (w - v) < length bs then bs ! unat (w - v) else load8 s w)"
proof (induction bs arbitrary: v s)
  case Nil
  then show ?case by simp
next
  case (Cons b bs)
  then have IH: "load8 (store_bytes (v + 1) bs (store8 v b s)) w =
     (if unat (w - (v + 1)) < length bs then bs ! unat (w - (v + 1)) else load8 (store8 v b s) w)"
    by simp
  show ?case
  proof (cases "w = v")
    case True
    then have "unat (w - (v + 1)) = 4294967295" by (simp add: unsigned_minus_1_eq_mask mask_eq_exp_minus_1)
    with True IH Cons.prems show ?thesis by (simp add: load8_store8)
  next
    case False
    then have "unat (w - v) = Suc (unat (w - (v + 1)))" by (rule word_dist_Suc)
    with False IH show ?thesis by (simp add: load8_store8)
  qed
qed

lemma length_load_bytes [simp]: "length (load_bytes s v n) = n"
  by (induction n arbitrary: v) simp_all

lemma nth_load_bytes: "k < n \<Longrightarrow> load_bytes s v n ! k = load8 s (v + of_nat k)"
proof (induction n arbitrary: v k)
  case (Suc n)
  then show ?case by (cases k) (simp_all add: algebra_simps)
qed simp

lemma load_store_bytes:
  "length bs < 2 ^ 32 \<Longrightarrow> load_bytes (store_bytes v bs s) v (length bs) = bs"
  by (rule nth_equalityI) (auto simp: nth_load_bytes load8_store_bytes unsigned_of_nat take_bit_nat_eq_self)

lemma load_bytes_cong:
  "(\<And>k. k < n \<Longrightarrow> load8 s' (v + of_nat k) = load8 s (v + of_nat k)) \<Longrightarrow> load_bytes s' v n = load_bytes s v n"
  by (rule nth_equalityI) (auto simp: nth_load_bytes)

section \<open>Pages\<close>

lemma small_and_FFF:
  assumes "unat (x :: u32) < 4096" shows "x AND 0xFFF = x"
proof -
  have "unat (x mod 4096) = unat x" using assms by (simp add: unat_mod)
  then show ?thesis unfolding and_FFF_mod by (rule unsigned_word_eqI)
qed

lemma unat_of_nat_4096: "n < 4096 \<Longrightarrow> unat (of_nat n :: u32) = n"
  by (simp add: unsigned_of_nat take_bit_nat_eq_self)

lemma small_bit: "unat (x :: u32) < 4096 \<Longrightarrow> bit x k \<Longrightarrow> k < 12"
  using small_and_FFF [of x] by (metis bit_and_iff bit_FFF)

lemma kva_off_or:
  assumes "unat x < 4096" shows "V2P (kva f + x) = pa_of f OR x"
proof -
  note b = small_bit [OF assms]
  have "pa_of f + x = pa_of f OR x"
    by (rule disjunctive_add) (auto simp: pa_of_def bit_push_bit_iff dest: b)
  then show ?thesis by (simp add: kva_def P2V_def V2P_def algebra_simps)
qed

lemma vframe_kva_off: 
  assumes "unat x < 4096" shows "vframe (kva f + x) = f"
proof -
  have "pframe x = 0"
    using small_bit [OF assms] by (intro bit_word_eqI) (auto simp: bit_pframe)
  then show ?thesis unfolding vframe_def kva_off_or [OF assms] by (simp add: pframe_or)
qed

lemma kva_off_inject:
  assumes "unat x < 4096" "unat y < 4096"
  shows "kva f + x = kva g + y \<longleftrightarrow> f = g \<and> x = y"
  using assms by (metis add_left_cancel vframe_kva_off)

lemma mem_store8_other: "g \<noteq> vframe v \<Longrightarrow> mem (store8 v b s) g = mem s g"
  by (simp add: store8_def Let_def mem_store32)

lemma mem_store_bytes_other:
  "unat x + length bs \<le> 4096 \<Longrightarrow> g \<noteq> f \<Longrightarrow> mem (store_bytes (kva f + x) bs s) g = mem s g"
proof (induction bs arbitrary: x s)
  case Nil
  then show ?case by simp
next
  case (Cons b bs)
  then have x: "unat x < 4096" "unat x + 1 + length bs \<le> 4096" by auto
  show ?case
  proof (cases bs)
    case Nil
    then show ?thesis using x Cons.prems by (simp add: mem_store8_other vframe_kva_off)
  next
    case (Cons c cs)
    then have "unat (x + 1) = unat x + 1" using x by (simp add: unat_word_ariths)
    with Cons.IH [of "x + 1" "store8 (kva f + x) b s"] Cons.prems x show ?thesis
      by (simp add: add.assoc mem_store8_other vframe_kva_off)
  qed
qed

definition page_bytes :: "'a phys_scheme \<Rightarrow> frame \<Rightarrow> u8 list" where
  "page_bytes s f = load_bytes s (kva f) 4096"

lemma load8_mem_cong: "mem s' (vframe v) = mem s (vframe v) \<Longrightarrow> load8 s' v = load8 s v"
  by (simp add: load8_def load32_def)

lemma page_bytes_cong: "mem s' f = mem s f \<Longrightarrow> page_bytes s' f = page_bytes s f"
  unfolding page_bytes_def
  by (rule load_bytes_cong) (auto intro!: load8_mem_cong simp: vframe_kva_off unat_of_nat_4096)

lemma page_bytes_store:
  "length bs = 4096 \<Longrightarrow> page_bytes (store_bytes (kva f) bs s) f = bs"
  unfolding page_bytes_def using load_store_bytes [of bs "kva f" s] by simp

lemma page_bytes_memmove [simp]: "page_bytes (memmove_page v w s) (vframe v) = page_bytes s (vframe w)"
proof -
  have "load8 (memmove_page v w s) (kva (vframe v) + of_nat k) = load8 s (kva (vframe w) + of_nat k)"
    if "k < 4096" for k
  proof -
    have u: "unat (of_nat k :: u32) < 4096" using that by (simp add: unat_of_nat_4096)
    have "vidx (kva g + of_nat k) = pidx (of_nat k)" "(kva g + of_nat k) AND 3 = of_nat k AND 3" for g
    proof -
      have 1: "bit (V2P (kva g + x)) n = bit x n" if "n < 12" "unat x < 4096" for n x
        unfolding kva_off_or [OF that(2)] using that(1) by (simp add: bit_or_iff pa_of_def bit_push_bit_iff)
      show "vidx (kva g + of_nat k) = pidx (of_nat k)"
        unfolding vidx_def by (rule bit_word_eqI) (use 1 [OF _ u] in \<open>simp add: bit_pidx\<close>)
      show "(kva g + of_nat k) AND 3 = of_nat k AND 3"
        by (rule bit_word_eqI) (use 1 [OF _ u] V2P_bit_low in \<open>force simp: bit_and_3\<close>)
    qed
    then show ?thesis by (simp add: load8_def load32_def memmove_page_def vframe_kva_off [OF u])
  qed
  then show ?thesis unfolding page_bytes_def by (intro nth_equalityI) (auto simp: nth_load_bytes)
qed

section \<open>The user's view of memory\<close>

definition user_pte :: "u32 \<Rightarrow> bool" where
  "user_pte e \<longleftrightarrow> e AND PTE_P \<noteq> 0 \<and> e AND PTE_U \<noteq> 0"

definition user_byte :: "'a phys_scheme \<Rightarrow> frame \<Rightarrow> u32 \<Rightarrow> u8 option" where
  "user_byte s d va =
     (let e = entry s d va
      in if user_pte e then Some (load8 s (kva (pframe e) + (va AND 0xFFF))) else None)"

text \<open>User pages are private: no two virtual pages share a frame, and no user frame is a
  page table.\<close>

definition user_ok :: "'a phys_scheme \<Rightarrow> frame \<Rightarrow> bool" where
  "user_ok s d \<longleftrightarrow>
     (\<forall>va. user_pte (entry s d va) \<longrightarrow> pframe (entry s d va) \<notin> pt_frames s d \<and> pframe (entry s d va) \<noteq> 0x80000) \<and>
     (\<forall>va va'. user_pte (entry s d va) \<longrightarrow> user_pte (entry s d va') \<longrightarrow>
        pframe (entry s d va) = pframe (entry s d va') \<longrightarrow> vpn va = vpn va')"

lemma not_user_pte_0 [simp]: "\<not> user_pte 0"
  by (simp add: user_pte_def)

lemma vpn_pframe: "vpn = pframe"
  by (simp add: fun_eq_iff vpn_def pframe_def)

lemma pa_of_off_or: "unat x < 4096 \<Longrightarrow> pa_of f + x = pa_of f OR x"
  by (rule disjunctive_add) (auto simp: pa_of_def bit_push_bit_iff dest: small_bit)

lemma vpn_off: "unat x < 4096 \<Longrightarrow> vpn (pa_of f + x) = f"
  unfolding vpn_pframe pa_of_off_or pframe_or
  by (rule bit_word_eqI) (auto simp: bit_or_iff bit_pframe dest: small_bit)

lemma off_off: "unat x < 4096 \<Longrightarrow> (pa_of f + x) AND 0xFFF = x"
  unfolding pa_of_off_or
  by (rule bit_word_eqI) (auto simp: bit_or_iff bit_and_iff pa_of_def bit_push_bit_iff dest: small_bit)

lemma PGROUNDDOWN_pa_of: "PGROUNDDOWN va = pa_of (vpn va)"
  using PTE_ADDR_pa_of [of va] by (simp add: PGROUNDDOWN_def PTE_ADDR_def vpn_pframe)

lemma va_split: "va = pa_of (vpn va) + (va AND 0xFFF)"
  using page_offset [of va] unfolding PGROUNDDOWN_pa_of by (metis add.commute diff_add_cancel)

lemma same_page:
  assumes "unat k + unat (va AND 0xFFF) < 4096"
  shows "vpn (va + k) = vpn va" "(va + k) AND 0xFFF = (va AND 0xFFF) + k"
proof -
  have u: "unat ((va AND 0xFFF) + k) < 4096"
    using assms by (simp add: unat_word_ariths)
  have e: "va + k = pa_of (vpn va) + ((va AND 0xFFF) + k)"
    by (subst va_split) (simp only: add.assoc)
  show "vpn (va + k) = vpn va" "(va + k) AND 0xFFF = (va AND 0xFFF) + k"
    using vpn_off [OF u] off_off [OF u] e by metis+
qed

lemma entry_vpn: "vpn va = vpn va' \<Longrightarrow> entry s d va = entry s d va'"
  by (simp add: entry_def pte_at_def vpn_eq_iff Let_def)

lemma entry_mem_cong:
  assumes "\<And>f. f \<in> pt_frames s d \<Longrightarrow> mem s' f = mem s f"
  shows "pte_at s' d va = pte_at s d va" "entry s' d va = entry s d va" "pt_frames s' d = pt_frames s d"
proof -
  have d: "mem s' d = mem s d" using assms by (simp add: pt_frames_def)
  then show "pte_at s' d va = pte_at s d va"
  proof -
    have "present (mem s d (pdx va)) \<Longrightarrow> pframe (mem s d (pdx va)) \<in> pt_frames s d"
      by (auto simp: pt_frames_def)
    with assms d show ?thesis by (simp add: pte_at_def Let_def)
  qed
  then show "entry s' d va = entry s d va" by (simp add: entry_def)
  show "pt_frames s' d = pt_frames s d" by (simp add: pt_frames_def d)
qed

lemma user_ok_cong:
  assumes "\<And>va. entry s' d va = entry s d va" "pt_frames s' d = pt_frames s d"
  shows "user_ok s' d = user_ok s d"
  by (simp add: user_ok_def assms)

text \<open>A run of bytes stored inside one user page.\<close>

lemma store_user_chunk:
  assumes ok: "user_ok s d" and up: "user_pte (entry s d va)"
    and len: "unat (va AND 0xFFF) + length bs \<le> 4096"
  defines "s' \<equiv> store_bytes (kva (pframe (entry s d va)) + (va AND 0xFFF)) bs s"
  shows "user_ok s' d" "\<And>w. pte_at s' d w = pte_at s d w" "\<And>w. entry s' d w = entry s d w"
    "pt_frames s' d = pt_frames s d"
    "user_byte s' d w = (if unat (w - va) < length bs then Some (bs ! unat (w - va)) else user_byte s d w)"
proof -
  let ?f = "pframe (entry s d va)"
  have f: "?f \<notin> pt_frames s d" using ok up by (simp add: user_ok_def)
  have mo: "mem s' g = mem s g" if "g \<noteq> ?f" for g
    unfolding s'_def by (rule mem_store_bytes_other [OF len that])
  have pc: "mem s' g = mem s g" if "g \<in> pt_frames s d" for g
    using mo f that by metis
  note en = entry_mem_cong [OF pc]
  show "user_ok s' d" using user_ok_cong [OF en(2,3)] ok by simp
  show "\<And>w. pte_at s' d w = pte_at s d w" "\<And>w. entry s' d w = entry s d w"
    "pt_frames s' d = pt_frames s d"
    using en by auto
  show "user_byte s' d w = (if unat (w - va) < length bs then Some (bs ! unat (w - va)) else user_byte s d w)"
  proof (cases "vpn w = vpn va")
    case True
    have e: "entry s d w = entry s d va" using True by (rule entry_vpn)
    have "w - va = (w AND 0xFFF) - (va AND 0xFFF)"
    proof -
      have "w = A + x \<Longrightarrow> va = A + y \<Longrightarrow> w - va = x - y" for A x y by simp
      from this [OF va_split [of w, unfolded True] va_split [of va]] show ?thesis .
    qed
    then have eq: "(kva ?f + (w AND 0xFFF)) - (kva ?f + (va AND 0xFFF)) = w - va" by simp
    have "length bs \<le> 2 ^ 32" using len by simp
    from load8_store_bytes [OF this, of "kva ?f + (va AND 0xFFF)" s "kva ?f + (w AND 0xFFF)", unfolded eq]
    have "load8 s' (kva ?f + (w AND 0xFFF)) =
        (if unat (w - va) < length bs then bs ! unat (w - va) else load8 s (kva ?f + (w AND 0xFFF)))"
      unfolding s'_def .
    then show ?thesis using up e en(2) by (simp add: user_byte_def Let_def)
  next
    case False
    have nr: "\<not> unat (w - va) < length bs"
    proof
      assume "unat (w - va) < length bs"
      then have "vpn (va + (w - va)) = vpn va" using len by (intro same_page) simp
      with False show False by simp
    qed
    have "pframe (entry s d w) \<noteq> ?f" if "user_pte (entry s d w)"
      using ok up that False unfolding user_ok_def by metis
    then have "user_byte s' d w = user_byte s d w"
      using mo en(2) page_offset_lt [of w]
      by (auto simp: user_byte_def Let_def vframe_kva_off intro!: load8_mem_cong)
    with nr show ?thesis by simp
  qed
qed

section \<open>copyout\<close>

lemma walkpgdir_noalloc:
  "walkpgdir (kva d) va False s =
     (case pte_at s d va of None \<Rightarrow> (0, s)
      | Some _ \<Rightarrow> (slot (pframe (mem s d (pdx va))) (ptx va), s))"
  by (auto simp: pte_at_def Let_def walkpgdir_present walkpgdir_absent)

lemma uva2ka_mapped:
  assumes "pte_at s d va = Some e" "user_ok s d" "0x80000 \<notin> pt_frames s d"
  shows "uva2ka (kva d) va s = Ok (if user_pte e then kva (pframe e) else 0)"
proof -
  have pr: "present (mem s d (pdx va))" "mem s (pframe (mem s d (pdx va))) (ptx va) = e"
    using assms(1) by (auto simp: pte_at_def Let_def split: if_splits)
  then have "pframe (mem s d (pdx va)) \<noteq> 0x80000" using assms(3) by (auto simp: pt_frames_def)
  with pr show ?thesis
    by (simp add: uva2ka_def walkpgdir_present deref_def user_pte_def)
qed

definition tables_cover :: "'a phys_scheme \<Rightarrow> frame \<Rightarrow> u32 \<Rightarrow> nat \<Rightarrow> bool" where
  "tables_cover s d va n \<longleftrightarrow> (\<forall>k < n. pte_at s d (va + of_nat k) \<noteq> None)"

lemma pte_at_vpn: "vpn va = vpn va' \<Longrightarrow> pte_at s d va = pte_at s d va'"
  by (simp add: pte_at_def vpn_eq_iff Let_def)

lemma user_byte_None_vpn: "vpn va = vpn va' \<Longrightarrow> user_byte s d va = None \<longleftrightarrow> user_byte s d va' = None"
  by (simp add: user_byte_def Let_def entry_vpn [of va va'])

lemma vpn_PGROUNDDOWN [simp]: "vpn (PGROUNDDOWN va) = vpn va"
  by (metis PGROUNDDOWN_pa_of add_0_right unat_0 vpn_off zero_less_numeral)


end
