(* ===== verification/Replacement.thy ===== *)
theory Replacement
  imports UserMem
begin

text \<open>
  The page metadata of a process (proc.h, vm.c): \<^verbatim>\<open>pagesInPhysicalMemory\<close> with at most
  \<^verbatim>\<open>MAX_PYSC_PAGES\<close> resident pages, \<^verbatim>\<open>pagesInDisc\<close> with the paged-out ones, and the
  page replacement policies FIFO, aging and LIFO that choose the victim. The contract they
  share is the locale \<open>replacement_policy\<close>.
\<close>

section \<open>The metadata\<close>

text \<open>\<^verbatim>\<open>timer\<close> is a C \<^verbatim>\<open>int\<close> counted up by every placement of a page; it is kept as an
  integer (overflow would need \<open>2 ^ 31\<close> placements and is undefined in C).\<close>

record pageData =
  pageDirectory :: u32
  isUsed :: bool
  virtualAddress :: u32
  timer :: int
  ageCounter :: u32
  isImportant :: int

record vproc = phys +
  cpid :: int
  pgdir :: u32
  pagesInPhysicalMemory :: "pageData list"
  pagesInDisc :: "pageData list"
  ptimer :: int
  pageFault :: nat
  swapFile :: "u8 list"
  buffer :: "u8 list"

abbreviation INT_MAX :: int where "INT_MAX \<equiv> 2147483647"

definition spaceAvialableInDisk :: "'a vproc_scheme \<Rightarrow> int" where
  "spaceAvialableInDisk s = (case find_idx (\<lambda>p. \<not> isUsed p) (pagesInDisc s) of Some _ \<Rightarrow> 1 | None \<Rightarrow> 0)"

definition spaceAvialableInMemory :: "'a vproc_scheme \<Rightarrow> int" where
  "spaceAvialableInMemory s =
     (case find_idx (\<lambda>p. \<not> isUsed p) (pagesInPhysicalMemory s) of Some _ \<Rightarrow> 1 | None \<Rightarrow> 0)"

definition updatePhysicalPageMetaData :: "u32 \<Rightarrow> u32 \<Rightarrow> int \<Rightarrow> 'a vproc_scheme \<Rightarrow> 'a vproc_scheme" where
  "updatePhysicalPageMetaData dir va imp s =
     (case find_idx (\<lambda>p. \<not> isUsed p) (pagesInPhysicalMemory s) of
        Some i \<Rightarrow>
          s\<lparr>pagesInPhysicalMemory := (pagesInPhysicalMemory s)[i :=
               (pagesInPhysicalMemory s ! i)\<lparr>isUsed := True, pageDirectory := dir, virtualAddress := va,
                 timer := ptimer s, ageCounter := 0, isImportant := imp\<rparr>],
             ptimer := ptimer s + 1\<rparr>
      | None \<Rightarrow> s)"

definition getAvailablePageIndexDisk :: "'a vproc_scheme \<Rightarrow> int" where
  "getAvailablePageIndexDisk s =
     (case find_idx (\<lambda>p. \<not> isUsed p) (pagesInDisc s) of Some i \<Rightarrow> int i | None \<Rightarrow> -1)"

section \<open>The replacement policies\<close>

fun aging_loop :: "int \<Rightarrow> pageData list \<Rightarrow> u32 \<Rightarrow> int \<Rightarrow> int" where
  "aging_loop i [] minAge ret = ret"
| "aging_loop i (p # ps) minAge ret =
     (if \<not> isUsed p then aging_loop (i + 1) ps minAge ret
      else if ageCounter p < minAge then aging_loop (i + 1) ps (ageCounter p) i
      else aging_loop (i + 1) ps minAge ret)"

definition getReplacementPageIndexAging :: "pageData list \<Rightarrow> int" where
  "getReplacementPageIndexAging ps = aging_loop 0 ps 0xffffffff (-1)"

fun lifo_loop :: "int \<Rightarrow> pageData list \<Rightarrow> int \<Rightarrow> int \<Rightarrow> int" where
  "lifo_loop i [] maxT ret = ret"
| "lifo_loop i (p # ps) maxT ret =
     (if \<not> isUsed p then lifo_loop (i + 1) ps maxT ret
      else if timer p > maxT then lifo_loop (i + 1) ps (timer p) i
      else lifo_loop (i + 1) ps maxT ret)"

definition getReplacementPageIndexLIFO :: "pageData list \<Rightarrow> int" where
  "getReplacementPageIndexLIFO ps = lifo_loop 0 ps 0 (-1)"

text \<open>\<open>opt\<close> is the build flag \<^verbatim>\<open>OPTIMIZATION\<close>: 1 skips the pages marked important (code and
  stack), 0 (the default) does not.\<close>

fun fifo_loop :: "nat \<Rightarrow> int \<Rightarrow> pageData list \<Rightarrow> int \<Rightarrow> int \<Rightarrow> int" where
  "fifo_loop opt i [] minT ret = ret"
| "fifo_loop opt i (p # ps) minT ret =
     (if opt = 1 \<and> isImportant p = 1 then fifo_loop opt (i + 1) ps minT ret
      else if \<not> isUsed p then fifo_loop opt (i + 1) ps minT ret
      else if timer p < minT then fifo_loop opt (i + 1) ps (timer p) i
      else fifo_loop opt (i + 1) ps minT ret)"

definition getReplacementPageIndexFIFO :: "nat \<Rightarrow> pageData list \<Rightarrow> int" where
  "getReplacementPageIndexFIFO opt ps = fifo_loop opt 0 ps INT_MAX (-1)"

text \<open>\<open>ralgo\<close> is the build flag \<^verbatim>\<open>R_ALGO\<close>: 1 FIFO (the default), 2 aging, 3 LIFO; no other
  value is used.\<close>

definition getReplacementPageIndexPhyMem :: "nat \<Rightarrow> nat \<Rightarrow> pageData list \<Rightarrow> int" where
  "getReplacementPageIndexPhyMem ralgo opt ps =
     (if ralgo = 1 then getReplacementPageIndexFIFO opt ps
      else if ralgo = 2 then getReplacementPageIndexAging ps
      else getReplacementPageIndexLIFO ps)"

section \<open>The contract of a replacement policy\<close>

text \<open>\<open>cand\<close>: the pages the policy may evict; \<open>key\<close>: it evicts the candidate with the least
  key, the one in the lowest slot among equals.\<close>

definition min_candidate :: "(pageData \<Rightarrow> bool) \<Rightarrow> (pageData \<Rightarrow> int) \<Rightarrow> pageData list \<Rightarrow> nat \<Rightarrow> bool" where
  "min_candidate cand key ps i \<longleftrightarrow> i < length ps \<and> cand (ps ! i) \<and>
     (\<forall>j < length ps. cand (ps ! j) \<longrightarrow> key (ps ! i) \<le> key (ps ! j)) \<and>
     (\<forall>j < i. cand (ps ! j) \<longrightarrow> key (ps ! i) < key (ps ! j))"

locale replacement_policy =
  fixes pick :: "pageData list \<Rightarrow> int" and cand :: "pageData \<Rightarrow> bool" and key :: "pageData \<Rightarrow> int"
  assumes cand_used: "cand p \<Longrightarrow> isUsed p"
    and pick_none: "\<forall>p \<in> set ps. \<not> cand p \<Longrightarrow> pick ps = -1"
    and pick_some: "min_candidate cand key ps i \<Longrightarrow> pick ps = int i"
begin

lemma exists_min:
  assumes "\<exists>p \<in> set ps. cand p"
  shows "\<exists>i. min_candidate cand key ps i"
proof -
  let ?C = "{i. i < length ps \<and> cand (ps ! i)}"
  let ?m = "Min ((\<lambda>i. key (ps ! i)) ` ?C)"
  have fin: "finite ?C" by simp
  have ne: "?C \<noteq> {}" using assms by (auto simp: in_set_conv_nth)
  have "?m \<in> (\<lambda>i. key (ps ! i)) ` ?C" by (rule Min_in) (use fin ne in auto)
  then have ex: "\<exists>i. i < length ps \<and> cand (ps ! i) \<and> key (ps ! i) = ?m" by auto
  define i where "i = (LEAST i. i < length ps \<and> cand (ps ! i) \<and> key (ps ! i) = ?m)"
  have i: "i < length ps" "cand (ps ! i)" "key (ps ! i) = ?m"
    using LeastI_ex [OF ex] by (auto simp: i_def)
  have le: "?m \<le> key (ps ! j)" if "j < length ps" "cand (ps ! j)" for j
    by (rule Min_le) (use fin that in auto)
  have "?m < key (ps ! j)" if "j < i" "cand (ps ! j)" for j
  proof -
    have "j < length ps" using that i by simp
    moreover have "key (ps ! j) \<noteq> ?m"
      using not_less_Least [of j] that \<open>j < length ps\<close> unfolding i_def by blast
    ultimately show ?thesis using le that by (metis order_le_less)
  qed
  then show ?thesis using i le by (auto simp: min_candidate_def)
qed

lemma pick_cases:
  obtains (none) "pick ps = -1" "\<forall>p \<in> set ps. \<not> cand p"
  | (some) i where "pick ps = int i" "min_candidate cand key ps i"
  using pick_none pick_some exists_min by metis

lemma pick_fails_iff: "pick ps = -1 \<longleftrightarrow> (\<forall>p \<in> set ps. \<not> cand p)"
  by (rule pick_cases [of ps]) (auto simp: min_candidate_def)

lemma pick_iff: "pick ps = int i \<longleftrightarrow> min_candidate cand key ps i"
proof
  assume p: "pick ps = int i"
  show "min_candidate cand key ps i" by (rule pick_cases [of ps]) (use p in auto)
qed (rule pick_some)

lemma pick_resident: "pick ps \<noteq> -1 \<Longrightarrow> 0 \<le> pick ps \<and> nat (pick ps) < length ps \<and> isUsed (ps ! nat (pick ps))"
  by (rule pick_cases [of ps]) (auto simp: min_candidate_def cand_used)

lemma pick_least: "pick ps \<noteq> -1 \<Longrightarrow> j < length ps \<Longrightarrow> cand (ps ! j) \<Longrightarrow> key (ps ! nat (pick ps)) \<le> key (ps ! j)"
  by (rule pick_cases [of ps]) (auto simp: min_candidate_def)

end

section \<open>The three policies meet the contract\<close>

text \<open>The loops are one scan that keeps the best key so far.\<close>

fun scan_min :: "(pageData \<Rightarrow> bool) \<Rightarrow> (pageData \<Rightarrow> int) \<Rightarrow> int \<Rightarrow> pageData list \<Rightarrow> int \<Rightarrow> int \<Rightarrow> int" where
  "scan_min c key i [] m r = r"
| "scan_min c key i (p # ps) m r =
     (if c p \<and> key p < m then scan_min c key (i + 1) ps (key p) i else scan_min c key (i + 1) ps m r)"

lemma scan_min_none: "\<forall>p \<in> set ps. c p \<longrightarrow> m \<le> key p \<Longrightarrow> scan_min c key i ps m r = r"
  by (induction ps arbitrary: i) auto

lemma scan_min_some:
  "min_candidate (\<lambda>p. c p \<and> key p < m) key ps k \<Longrightarrow> scan_min c key i ps m r = i + int k"
proof (induction ps arbitrary: i m r k)
  case Nil
  then show ?case by (simp add: min_candidate_def)
next
  case (Cons p ps)
  show ?case
  proof (cases k)
    case 0
    with Cons.prems have p: "c p" "key p < m" by (auto simp: min_candidate_def)
    have "key p \<le> key q" if "q \<in> set ps" "c q" for q
    proof (cases "key q < m")
      case True
      from that obtain j where "j < length ps" "q = ps ! j" by (auto simp: in_set_conv_nth)
      with Cons.prems 0 that True show ?thesis
        by (auto simp: min_candidate_def dest: spec [of _ "Suc j"])
    qed (use p in simp)
    then show ?thesis using p 0 by (simp add: scan_min_none)
  next
    case (Suc k')
    have k: "k' < length ps" "c (ps ! k')" "key (ps ! k') < m"
      and le: "\<And>j. j < length (p # ps) \<Longrightarrow> c ((p # ps) ! j) \<Longrightarrow> key ((p # ps) ! j) < m \<Longrightarrow> key (ps ! k') \<le> key ((p # ps) ! j)"
      and lt: "\<And>j. j < Suc k' \<Longrightarrow> c ((p # ps) ! j) \<Longrightarrow> key ((p # ps) ! j) < m \<Longrightarrow> key (ps ! k') < key ((p # ps) ! j)"
      using Cons.prems Suc by (auto simp: min_candidate_def)
    show ?thesis
    proof (cases "c p \<and> key p < m")
      case True
      have "key (ps ! k') < key p" using lt [of 0] True by simp
      then have "min_candidate (\<lambda>q. c q \<and> key q < key p) key ps k'"
        using k le [of "Suc j" for j] lt [of "Suc j" for j] True by (fastforce simp: min_candidate_def)
      from Cons.IH [OF this] True Suc show ?thesis by simp
    next
      case False
      have "min_candidate (\<lambda>q. c q \<and> key q < m) key ps k'"
        using k le [of "Suc j" for j] lt [of "Suc j" for j] by (fastforce simp: min_candidate_def)
      from Cons.IH [OF this] False Suc show ?thesis by auto
    qed
  qed
qed

lemma fifo_loop_scan: "fifo_loop opt i ps m r = scan_min (\<lambda>p. isUsed p \<and> \<not> (opt = 1 \<and> isImportant p = 1)) timer i ps m r"
  by (induction ps arbitrary: i m r) auto

lemma aging_loop_scan: "aging_loop i ps m r = scan_min isUsed (\<lambda>p. uint (ageCounter p)) i ps (uint m) r"
  by (induction ps arbitrary: i m r) (auto simp: word_less_def)

lemma lifo_loop_scan: "lifo_loop i ps m r = scan_min isUsed (\<lambda>p. - timer p) i ps (- m) r"
  by (induction ps arbitrary: i m r) auto

definition fifo_cand :: "nat \<Rightarrow> pageData \<Rightarrow> bool" where
  "fifo_cand opt p \<longleftrightarrow> (isUsed p \<and> \<not> (opt = 1 \<and> isImportant p = 1)) \<and> timer p < INT_MAX"

definition aging_cand :: "pageData \<Rightarrow> bool" where
  "aging_cand p \<longleftrightarrow> isUsed p \<and> uint (ageCounter p) < uint (0xffffffff :: u32)"

definition lifo_cand :: "pageData \<Rightarrow> bool" where
  "lifo_cand p \<longleftrightarrow> isUsed p \<and> - timer p < - 0"

interpretation fifo: replacement_policy "getReplacementPageIndexFIFO opt" "fifo_cand opt" timer for opt
proof
  show "fifo_cand opt p \<Longrightarrow> isUsed p" for p by (simp add: fifo_cand_def)
  show "\<forall>p \<in> set ps. \<not> fifo_cand opt p \<Longrightarrow> getReplacementPageIndexFIFO opt ps = -1" for ps
    unfolding getReplacementPageIndexFIFO_def fifo_loop_scan by (rule scan_min_none) (auto simp: fifo_cand_def)
  show "min_candidate (fifo_cand opt) timer ps i \<Longrightarrow> getReplacementPageIndexFIFO opt ps = int i" for ps i
    unfolding getReplacementPageIndexFIFO_def fifo_loop_scan
    by (subst scan_min_some [where k = i]) (auto simp: fifo_cand_def [abs_def])
qed

interpretation aging: replacement_policy getReplacementPageIndexAging aging_cand "\<lambda>p. uint (ageCounter p)"
proof
  show "aging_cand p \<Longrightarrow> isUsed p" for p by (simp add: aging_cand_def)
  show "\<forall>p \<in> set ps. \<not> aging_cand p \<Longrightarrow> getReplacementPageIndexAging ps = -1" for ps
    unfolding getReplacementPageIndexAging_def aging_loop_scan by (rule scan_min_none) (auto simp: aging_cand_def)
  show "min_candidate aging_cand (\<lambda>p. uint (ageCounter p)) ps i \<Longrightarrow> getReplacementPageIndexAging ps = int i" for ps i
    unfolding getReplacementPageIndexAging_def aging_loop_scan
    by (subst scan_min_some [where k = i]) (auto simp: aging_cand_def [abs_def])
qed

interpretation lifo: replacement_policy getReplacementPageIndexLIFO lifo_cand "\<lambda>p. - timer p"
proof
  show "lifo_cand p \<Longrightarrow> isUsed p" for p by (simp add: lifo_cand_def)
  show "\<forall>p \<in> set ps. \<not> lifo_cand p \<Longrightarrow> getReplacementPageIndexLIFO ps = -1" for ps
    unfolding getReplacementPageIndexLIFO_def lifo_loop_scan by (rule scan_min_none) (auto simp: lifo_cand_def)
  show "min_candidate lifo_cand (\<lambda>p. - timer p) ps i \<Longrightarrow> getReplacementPageIndexLIFO ps = int i" for ps i
    unfolding getReplacementPageIndexLIFO_def lifo_loop_scan
    by (subst scan_min_some [where k = i]) (auto simp: lifo_cand_def [abs_def])
qed

end
