(* ===== verification/Paging.thy ===== *)
theory Paging
  imports Replacement
begin

text \<open>
  Demand paging (vm.c, fs.c): paging a page out to the process's swap file
  (\<^verbatim>\<open>reallocatePageInDisk\<close>), back in on a page fault (\<^verbatim>\<open>retrievePage\<close>), the
  bookkeeping of both, and the aging of the resident pages. The swap file is the content of
  its inode; the kernel reads and writes user pages through the page table in use, and a
  fault in the kernel is the panic of trap.c.
\<close>

section \<open>User memory through the page table in use\<close>

fun kread :: "'a phys_scheme \<Rightarrow> u32 \<Rightarrow> nat \<Rightarrow> u8 list res" where
  "kread s va 0 = Ok []"
| "kread s va (Suc n) =
     (case mmu s va of
        None \<Rightarrow> Panic ''trap''
      | Some pa \<Rightarrow> bindR (kread s (va + 1) n) (\<lambda>bs. Ok (load8 s (P2V pa) # bs)))"

fun kwrite :: "u32 \<Rightarrow> u8 list \<Rightarrow> 'a phys_scheme \<Rightarrow> 'a phys_scheme res" where
  "kwrite va [] s = Ok s"
| "kwrite va (b # bs) s =
     (case mmu_w s va of
        None \<Rightarrow> Panic ''trap''
      | Some pa \<Rightarrow> kwrite (va + 1) bs (store8 (P2V pa) b s))"

section \<open>The swap file\<close>

text \<open>\<^verbatim>\<open>writeToSwapFile\<close> sets the offset and calls \<^verbatim>\<open>filewrite\<close>, which writes chunks of
  1536 bytes; each is a \<^verbatim>\<open>writei\<close>, which refuses an offset past the end of the file and a
  file longer than 140 blocks.\<close>

function swap_write_loop ::
  "u32 \<Rightarrow> nat \<Rightarrow> nat \<Rightarrow> nat \<Rightarrow> 'a vproc_scheme \<Rightarrow> (int \<times> 'a vproc_scheme) res" where
  "swap_write_loop addr off i n s =
     (if i < n
      then let n1 = min (n - i) 1536; c = swapFile s
           in if off > length c \<or> off + n1 > 71680 then Ok (-1, s)
              else bindR (kread s (addr + of_nat i) n1) (\<lambda>bs.
                   swap_write_loop addr (off + n1) (i + n1) n
                     (s\<lparr>swapFile := take off c @ bs @ drop (off + n1) c\<rparr>))
      else Ok (int n, s))"
  by pat_completeness auto
termination
  by (relation "measure (\<lambda>(addr, off, i, n, s). n - i)") auto

declare swap_write_loop.simps [simp del]

definition writeToSwapFile :: "u32 \<Rightarrow> nat \<Rightarrow> nat \<Rightarrow> 'a vproc_scheme \<Rightarrow> (int \<times> 'a vproc_scheme) res" where
  "writeToSwapFile addr placeOnFile n s = swap_write_loop addr placeOnFile 0 n s"

text \<open>The bytes \<^verbatim>\<open>fileread\<close> delivers at an offset, \<open>None\<close> for its \<open>-1\<close>.\<close>

definition readFromSwapFile :: "nat \<Rightarrow> nat \<Rightarrow> 'a vproc_scheme \<Rightarrow> u8 list option" where
  "readFromSwapFile placeOnFile n s =
     (if placeOnFile > length (swapFile s) then None
      else Some (take n (drop placeOnFile (swapFile s))))"

section \<open>Paging out\<close>

definition getReplacementPageAddressPhyMem :: "u32 \<Rightarrow> u32 \<Rightarrow> 'a phys_scheme \<Rightarrow> u32" where
  "getReplacementPageAddressPhyMem dir va s =
     (let (pte, _) = walkpgdir dir va False s
      in if pte = 0 then -1 else PTE_ADDR (load32 s pte))"

definition clearPagePhyMem ::
  "u32 \<Rightarrow> u32 \<Rightarrow> nat \<Rightarrow> u32 \<Rightarrow> 'a vproc_scheme \<Rightarrow> 'a vproc_scheme res" where
  "clearPagePhyMem dir va pageId addr s =
     bindR (kfree (P2V addr) s) (\<lambda>s1.
       let s2 = s1\<lparr>pagesInPhysicalMemory :=
                  (pagesInPhysicalMemory s1)[pageId := (pagesInPhysicalMemory s1 ! pageId)\<lparr>isUsed := False\<rparr>]\<rparr>;
           (pte, s3) = walkpgdir dir va False s2
       in if pte = 0 then Ok s3
          else let e1 = load32 s3 pte OR PTE_PG;
                   e2 = e1 AND NOT PTE_P;
                   e3 = e2 AND PTE_FLAGS e2
               in Ok ((store32 pte e3 s3)\<lparr>cr3 := V2P (pgdir s3)\<rparr>))"

definition reallocatePageInDisk :: "nat \<Rightarrow> nat \<Rightarrow> 'a vproc_scheme \<Rightarrow> (int \<times> 'a vproc_scheme) res" where
  "reallocatePageInDisk ralgo opt s0 =
     (let s = s0\<lparr>pageFault := pageFault s0 + 1\<rparr>;
          i = getReplacementPageIndexPhyMem ralgo opt (pagesInPhysicalMemory s)
      in if i = -1 then Ok (-1, s)
      else let p = pagesInPhysicalMemory s ! nat i;
               addr = getReplacementPageAddressPhyMem (pageDirectory p) (virtualAddress p) s
      in if addr = -1 then Ok (-1, s)
      else let j = getAvailablePageIndexDisk s
      in if j = -1 then Ok (-1, s)
      else bindR (writeToSwapFile (virtualAddress p) (4096 * nat j) 4096 s) (\<lambda>(r, s1).
        if r = -1 then Ok (-1, s1)
        else let d = (pagesInDisc s1 ! nat j)\<lparr>isUsed := True, pageDirectory := pageDirectory p,
                       virtualAddress := virtualAddress p, timer := 0, ageCounter := 0,
                       isImportant := isImportant p\<rparr>;
                 s2 = s1\<lparr>pagesInDisc := (pagesInDisc s1)[nat j := d]\<rparr>
             in bindR (clearPagePhyMem (pageDirectory p) (virtualAddress p) (nat i) addr s2) (\<lambda>s3.
                Ok (1, s3))))"

definition removeDiscMetaData :: "u32 \<Rightarrow> u32 \<Rightarrow> 'a vproc_scheme \<Rightarrow> 'a vproc_scheme" where
  "removeDiscMetaData dir va s =
     (case find_idx (\<lambda>p. isUsed p \<and> pageDirectory p = dir \<and> virtualAddress p = va) (pagesInDisc s) of
        Some i \<Rightarrow> s\<lparr>pagesInDisc := (pagesInDisc s)[i :=
                    (pagesInDisc s ! i)\<lparr>isUsed := False, pageDirectory := 0, virtualAddress := 0\<rparr>]\<rparr>
      | None \<Rightarrow> s)"

definition removePhysicalPageMetaData :: "u32 \<Rightarrow> u32 \<Rightarrow> 'a vproc_scheme \<Rightarrow> 'a vproc_scheme" where
  "removePhysicalPageMetaData dir va s =
     (case find_idx (\<lambda>p. isUsed p \<and> pageDirectory p = dir \<and> virtualAddress p = va) (pagesInPhysicalMemory s) of
        Some i \<Rightarrow> s\<lparr>pagesInPhysicalMemory := (pagesInPhysicalMemory s)[i :=
                    (pagesInPhysicalMemory s ! i)\<lparr>isUsed := False, pageDirectory := 0, virtualAddress := 0\<rparr>]\<rparr>
      | None \<Rightarrow> s)"

section \<open>Paging in\<close>

definition checkPTForPage :: "u32 \<Rightarrow> u32 \<Rightarrow> 'a phys_scheme \<Rightarrow> u32" where
  "checkPTForPage dir va s =
     (let (pte, _) = walkpgdir dir va False s
      in if pte = 0 then 0 else load32 s pte AND PTE_PG)"

text \<open>Both branches of \<^verbatim>\<open>retrievePage\<close> mark the faulting page as resident in the frame
  \<open>m\<close> before they read its bytes.\<close>

definition mark_resident :: "u32 \<Rightarrow> u32 \<Rightarrow> 'a vproc_scheme \<Rightarrow> 'a vproc_scheme res" where
  "mark_resident va m s =
     (let (pte, s1) = walkpgdir (pgdir s) va False s
      in if pte = 0 then Panic ''PTE of swapped page is missing''
         else if load32 s1 pte AND PTE_P \<noteq> 0 then Panic ''PAGE IN REMAP!''
         else let e = ((load32 s1 pte OR PTE_P OR PTE_W OR PTE_U) AND NOT PTE_PG) OR V2P m
              in Ok ((store32 pte e s1)\<lparr>cr3 := V2P (pgdir s1)\<rparr>))"

text \<open>A free slot is left: the page is read straight to its virtual address.\<close>

definition retrieve_room :: "u32 \<Rightarrow> u32 \<Rightarrow> nat \<Rightarrow> 'a vproc_scheme \<Rightarrow> (int \<times> 'a vproc_scheme) res" where
  "retrieve_room va m ppn s =
     bindR (mark_resident va m s) (\<lambda>s1.
       case find_idx (\<lambda>p. virtualAddress p = va) (pagesInDisc s1) of
         None \<Rightarrow> Ok (1, s1)
       | Some i \<Rightarrow>
           (case readFromSwapFile (i * 4096) 4096 s1 of
              None \<Rightarrow> Ok (-1, s1)
            | Some bs \<Rightarrow> bindR (kwrite va bs s1) (\<lambda>s2.
                let s3 = s2\<lparr>pagesInPhysicalMemory := (pagesInPhysicalMemory s2)[ppn := pagesInDisc s2 ! i]\<rparr>;
                    s4 = s3\<lparr>pagesInDisc := (pagesInDisc s3)[i := (pagesInDisc s3 ! i)\<lparr>isUsed := False\<rparr>]\<rparr>
                in Ok (1, s4\<lparr>pagesInPhysicalMemory := (pagesInPhysicalMemory s4)[ppn :=
                            (pagesInPhysicalMemory s4 ! ppn)\<lparr>timer := ptimer s4\<rparr>],
                          ptimer := ptimer s4 + 1\<rparr>))))"

text \<open>No free slot: a victim is paged out first (the lines of \<^verbatim>\<open>reallocatePageInDisk\<close>
  repeated, without the reset of the age and the important flag), and the page is read into
  \<^verbatim>\<open>buffer\<close> and copied from there.\<close>

definition retrieve_swap :: "nat \<Rightarrow> nat \<Rightarrow> u32 \<Rightarrow> u32 \<Rightarrow> 'a vproc_scheme \<Rightarrow> (int \<times> 'a vproc_scheme) res" where
  "retrieve_swap ralgo opt va m s =
     (let i = getReplacementPageIndexPhyMem ralgo opt (pagesInPhysicalMemory s)
      in if i = -1 then Ok (-1, s)
      else let p = pagesInPhysicalMemory s ! nat i;
               addr = getReplacementPageAddressPhyMem (pageDirectory p) (virtualAddress p) s
      in if addr = -1 then Ok (-1, s)
      else let j = getAvailablePageIndexDisk s
      in if j = -1 then Ok (-1, s)
      else bindR (writeToSwapFile (virtualAddress p) (4096 * nat j) 4096 s) (\<lambda>(r, s1).
        if r = -1 then Ok (-1, s1)
        else let d = (pagesInDisc s1 ! nat j)\<lparr>isUsed := True, pageDirectory := pageDirectory p,
                       virtualAddress := virtualAddress p, timer := 0\<rparr>;
                 s2 = s1\<lparr>pagesInDisc := (pagesInDisc s1)[nat j := d]\<rparr>
             in bindR (clearPagePhyMem (pageDirectory p) (virtualAddress p) (nat i) addr s2) (\<lambda>s3.
                bindR (mark_resident va m s3) (\<lambda>s4.
                case find_idx (\<lambda>p. virtualAddress p = va) (pagesInDisc s4) of
                  None \<Rightarrow> bindR (kptr s4 m) (\<lambda>q. Ok (1, store_bytes q (buffer s4) s4))
                | Some k \<Rightarrow>
                    (case readFromSwapFile (k * 4096) 4096 s4 of
                       None \<Rightarrow> Ok (-1, s4)
                     | Some bs \<Rightarrow>
                         let s5 = s4\<lparr>buffer := bs @ drop (length bs) (buffer s4)\<rparr>;
                             s6 = s5\<lparr>pagesInPhysicalMemory := (pagesInPhysicalMemory s5)[nat i :=
                                    (pagesInDisc s5 ! k)\<lparr>timer := ptimer s5\<rparr>],
                                    ptimer := ptimer s5 + 1\<rparr>;
                             s7 = s6\<lparr>pagesInDisc := (pagesInDisc s6)[k := (pagesInDisc s6 ! k)\<lparr>isUsed := False\<rparr>]\<rparr>
                         in bindR (kptr s7 m) (\<lambda>q. Ok (1, store_bytes q (buffer s7) s7)))))))"

definition retrievePage :: "nat \<Rightarrow> nat \<Rightarrow> u32 \<Rightarrow> 'a vproc_scheme \<Rightarrow> (int \<times> 'a vproc_scheme) res" where
  "retrievePage ralgo opt CR2 s =
     (let va = PGROUNDDOWN CR2;
          (m, s1) = kalloc s
      in bindR (kptr s1 m) (\<lambda>q.
         let s2 = memset_page q 0 s1;
             s3 = s2\<lparr>pageFault := pageFault s2 + 1\<rparr>
         in case find_idx (\<lambda>p. \<not> isUsed p) (pagesInPhysicalMemory s3) of
              Some ppn \<Rightarrow> retrieve_room va m ppn s3
            | None \<Rightarrow> retrieve_swap ralgo opt va m s3))"

section \<open>Aging\<close>

text \<open>The accessed bit \<^verbatim>\<open>PTE_A\<close> is set by the hardware; \<^verbatim>\<open>1<<31\<close> is the top bit.\<close>

definition age_one :: "nat \<Rightarrow> 'a vproc_scheme \<Rightarrow> 'a vproc_scheme res" where
  "age_one i s =
     (let p = pagesInPhysicalMemory s ! i
      in if isUsed p
         then let (pte, s1) = walkpgdir (pageDirectory p) (virtualAddress p) False s
              in bindR (deref s1 pte) (\<lambda>e.
                 if e AND PTE_A \<noteq> 0
                 then bindR (kptr s1 pte) (\<lambda>q.
                      let s2 = store32 q (e AND NOT PTE_A) s1;
                          prevAge = drop_bit 1 (ageCounter p) OR push_bit 31 1
                      in Ok (s2\<lparr>pagesInPhysicalMemory := (pagesInPhysicalMemory s2)[i := p\<lparr>ageCounter := prevAge\<rparr>]\<rparr>))
                 else Ok s1)
         else Ok s)"

fun age_loop :: "nat list \<Rightarrow> 'a vproc_scheme \<Rightarrow> 'a vproc_scheme res" where
  "age_loop [] s = Ok s"
| "age_loop (i # is) s = bindR (age_one i s) (age_loop is)"

definition updateAgeForSingleProcess :: "'a vproc_scheme \<Rightarrow> 'a vproc_scheme res" where
  "updateAgeForSingleProcess s = age_loop [0 ..< MAX_PYSC_PAGES] s"

section \<open>Reading and writing a resident page\<close>

lemma page_offset_k:
  assumes "page_aligned va" "k < 4096"
  shows "vpn (va + of_nat k) = vpn va" "(va + of_nat k) AND 0xFFF = of_nat k"
proof -
  have z: "va AND 0xFFF = 0" using assms by (simp add: page_aligned_def)
  have "unat (of_nat k :: u32) + unat (va AND 0xFFF) < 4096" using assms(2) z by (simp add: unat_of_nat_4096)
  from same_page [OF this] z show "vpn (va + of_nat k) = vpn va" "(va + of_nat k) AND 0xFFF = of_nat k" by simp_all
qed

lemma P2V_off: "unat x < 4096 \<Longrightarrow> P2V (PTE_ADDR e OR x) = kva (pframe e) + x"
  by (simp add: PTE_ADDR_pa_of kva_def P2V_def flip: pa_of_off_or)

lemma mmu_page:
  assumes "cr3 s = pa_of d" "page_aligned va" "k < 4096" "pte_at s d va = Some e" "present e"
  shows "mmu s (va + of_nat k) = Some (PTE_ADDR e OR of_nat k)"
  using assms page_offset_k [OF assms(2,3)] pte_at_vpn [of "va + of_nat k" va s d]
  by (simp add: mmu_def)

lemma mmu_w_page:
  assumes "cr3 s = pa_of d" "page_aligned va" "k < 4096" "pte_at s d va = Some e" "present e" "e AND PTE_W \<noteq> 0"
  shows "mmu_w s (va + of_nat k) = Some (PTE_ADDR e OR of_nat k)"
  using assms page_offset_k [OF assms(2,3)] pte_at_vpn [of "va + of_nat k" va s d]
  by (simp add: mmu_w_def)

lemma kread_page:
  assumes "cr3 s = pa_of d" "page_aligned va" "pte_at s d va = Some e" "present e"
  shows "k + n \<le> 4096 \<Longrightarrow> kread s (va + of_nat k) n = Ok (take n (drop k (page_bytes s (pframe e))))"
proof (induction n arbitrary: k)
  case 0
  then show ?case by simp
next
  case (Suc n)
  have k: "k < 4096" using Suc.prems by simp
  have a: "va + of_nat k + 1 = va + of_nat (Suc k)" by simp
  have "kread s (va + of_nat (Suc k)) n = Ok (take n (drop (Suc k) (page_bytes s (pframe e))))"
    using Suc.prems by (intro Suc.IH) simp
  moreover have "load8 s (kva (pframe e) + of_nat k) = page_bytes s (pframe e) ! k"
    using k by (simp add: page_bytes_def nth_load_bytes)
  moreover have "drop k (page_bytes s (pframe e)) = page_bytes s (pframe e) ! k # drop (Suc k) (page_bytes s (pframe e))"
    using k by (intro Cons_nth_drop_Suc [symmetric]) (simp add: page_bytes_def)
  ultimately show ?case
    using mmu_page [OF assms(1,2) k assms(3,4)] P2V_off [of "of_nat k" e] k
    unfolding kread.simps a by (simp add: unat_of_nat_4096 del: of_nat_Suc)
qed

lemma kwrite_page:
  assumes "page_aligned va"
  shows "cr3 s = pa_of d \<Longrightarrow> pte_at s d va = Some e \<Longrightarrow> present e \<Longrightarrow> e AND PTE_W \<noteq> 0 \<Longrightarrow>
    pframe e \<notin> pt_frames s d \<Longrightarrow> k + length bs \<le> 4096 \<Longrightarrow>
    kwrite (va + of_nat k) bs s = Ok (store_bytes (kva (pframe e) + of_nat k) bs s)"
proof (induction bs arbitrary: k s)
  case Nil
  then show ?case by simp
next
  case (Cons b bs)
  have k: "k < 4096" using Cons.prems by simp
  let ?s1 = "store8 (kva (pframe e) + of_nat k) b s"
  have u: "unat (of_nat k :: u32) < 4096" using k by (simp add: unat_of_nat_4096)
  have mo: "mem ?s1 f = mem s f" if "f \<in> pt_frames s d" for f
    using that Cons.prems(5) by (intro mem_store8_other) (auto simp: vframe_kva_off [OF u])
  note c = entry_mem_cong [OF mo]
  have a: "va + of_nat k + 1 = va + of_nat (Suc k)" "p + of_nat k + 1 = p + of_nat (Suc k)" for p :: u32 by simp_all
  have "kwrite (va + of_nat (Suc k)) bs ?s1 = Ok (store_bytes (kva (pframe e) + of_nat (Suc k)) bs ?s1)"
    using Cons.prems c by (intro Cons.IH) simp_all
  then show ?case
    using mmu_w_page [OF Cons.prems(1) assms k Cons.prems(2,3,4)] P2V_off [OF u, of e]
    unfolding kwrite.simps store_bytes.simps a by (simp del: of_nat_Suc)
qed

lemma length_page_bytes [simp]: "length (page_bytes s f) = 4096"
  by (simp add: page_bytes_def)

lemma phys_fields_cong:
  assumes "mem s' = mem s"
  shows "pte_at s' d va = pte_at s d va" "entry s' d va = entry s d va" "pt_frames s' d = pt_frames s d"
    "page_bytes s' f = page_bytes s f"
  using assms page_bytes_cong [of s' f s] by (simp_all add: pte_at_def entry_def pt_frames_def Let_def)

lemma vproc_more_cong:
  assumes "phys.more s' = phys.more s"
  shows "pgdir s' = pgdir s" "cpid s' = cpid s" "pagesInPhysicalMemory s' = pagesInPhysicalMemory s"
    "pagesInDisc s' = pagesInDisc s" "ptimer s' = ptimer s" "pageFault s' = pageFault s"
    "swapFile s' = swapFile s" "buffer s' = buffer s"
  using assms by (cases s; cases s'; simp)+

section \<open>The virtual memory that paging implements\<close>

text \<open>\<open>vpage s d va\<close> is the content of the user page at \<open>va\<close> wherever it is: in its frame or
  in the swap file, in the first slot of \<^verbatim>\<open>pagesInDisc\<close> that carries its address (the slot
  \<^verbatim>\<open>retrievePage\<close> reads).\<close>

definition uva :: "u32 \<Rightarrow> bool" where
  "uva va \<longleftrightarrow> page_aligned va \<and> va < KERNBASE"

definition paged_out :: "u32 \<Rightarrow> bool" where
  "paged_out e \<longleftrightarrow> \<not> present e \<and> e AND PTE_PG \<noteq> 0"

definition slot_of :: "'a vproc_scheme \<Rightarrow> u32 \<Rightarrow> nat option" where
  "slot_of s va = find_idx (\<lambda>p. virtualAddress p = va) (pagesInDisc s)"

definition swap_page :: "u8 list \<Rightarrow> nat \<Rightarrow> u8 list" where
  "swap_page c j = take 4096 (drop (4096 * j) c)"

definition vpage :: "'a vproc_scheme \<Rightarrow> frame \<Rightarrow> u32 \<Rightarrow> u8 list option" where
  "vpage s d va =
     (let e = entry s d va
      in if present e then Some (page_bytes s (pframe e))
         else if paged_out e then map_option (swap_page (swapFile s)) (slot_of s va) else None)"

text \<open>The invariant: user frames are private and off the free list; the resident slots name
  resident pages; a used disc slot names a paged-out page, is the first slot with its address
  and lies inside the swap file; every paged-out page has a used slot.\<close>

definition frames_ok :: "'a phys_scheme \<Rightarrow> frame \<Rightarrow> u32 list \<Rightarrow> bool" where
  "frames_ok s d xs \<longleftrightarrow>
     (\<forall>va. uva va \<longrightarrow> present (entry s d va) \<longrightarrow>
        valid_page s (kva (pframe (entry s d va))) \<and> pframe (entry s d va) \<notin> pt_frames s d \<union> frames xs) \<and>
     (\<forall>va va'. uva va \<longrightarrow> uva va' \<longrightarrow> present (entry s d va) \<longrightarrow> present (entry s d va') \<longrightarrow>
        pframe (entry s d va) = pframe (entry s d va') \<longrightarrow> va = va')"

definition resident_ok :: "'a vproc_scheme \<Rightarrow> frame \<Rightarrow> bool" where
  "resident_ok s d \<longleftrightarrow> length (pagesInPhysicalMemory s) = MAX_PYSC_PAGES \<and>
     (\<forall>i < MAX_PYSC_PAGES. let p = pagesInPhysicalMemory s ! i in isUsed p \<longrightarrow>
        pageDirectory p = kva d \<and> uva (virtualAddress p) \<and> present (entry s d (virtualAddress p)) \<and>
        (\<forall>j < MAX_PYSC_PAGES. isUsed (pagesInPhysicalMemory s ! j) \<longrightarrow> j \<noteq> i \<longrightarrow>
           virtualAddress (pagesInPhysicalMemory s ! j) \<noteq> virtualAddress p))"

definition disc_ok :: "'a vproc_scheme \<Rightarrow> frame \<Rightarrow> bool" where
  "disc_ok s d \<longleftrightarrow> length (pagesInDisc s) = MAX_TOTAL_PAGES - MAX_PYSC_PAGES \<and>
     (\<forall>j < MAX_TOTAL_PAGES - MAX_PYSC_PAGES. let p = pagesInDisc s ! j in isUsed p \<longrightarrow>
        pageDirectory p = kva d \<and> uva (virtualAddress p) \<and> paged_out (entry s d (virtualAddress p)) \<and>
        4096 * (j + 1) \<le> length (swapFile s) \<and> slot_of s (virtualAddress p) = Some j) \<and>
     (\<forall>va. uva va \<longrightarrow> paged_out (entry s d va) \<longrightarrow> pframe (entry s d va) = 0 \<and>
        (\<exists>j < MAX_TOTAL_PAGES - MAX_PYSC_PAGES. isUsed (pagesInDisc s ! j) \<and> virtualAddress (pagesInDisc s ! j) = va))"

definition paging_ok :: "'a vproc_scheme \<Rightarrow> frame \<Rightarrow> u32 list \<Rightarrow> bool" where
  "paging_ok s d xs \<longleftrightarrow> pt_ok s d xs \<and> pgdir s = kva d \<and> cr3 s = pa_of d \<and>
     frames_ok s d xs \<and> resident_ok s d \<and> disc_ok s d"

section \<open>Writing a page to the swap file\<close>

lemma swap_write_chunks:
  assumes "cr3 s = pa_of d" "page_aligned va" "pte_at s d va = Some e" "present e"
    and "base \<le> length c" "base + 4096 \<le> 71680"
  shows "i \<le> 4096 \<Longrightarrow>
    swap_write_loop va (base + i) i 4096 (s\<lparr>swapFile := take base c @ take i (page_bytes s (pframe e)) @ drop (base + i) c\<rparr>)
      = Ok (4096, s\<lparr>swapFile := take base c @ page_bytes s (pframe e) @ drop (base + 4096) c\<rparr>)"
proof (induction "4096 - i" arbitrary: i rule: less_induct)
  case less
  let ?b = "page_bytes s (pframe e)"
  let ?s = "s\<lparr>swapFile := take base c @ take i ?b @ drop (base + i) c\<rparr>"
  show ?case
  proof (cases "i < 4096")
    case False
    with less.prems show ?thesis by (subst swap_write_loop.simps) simp
  next
    case True
    define n1 where "n1 = min (4096 - i) 1536"
    have n1: "0 < n1" "i + n1 \<le> 4096" using True by (auto simp: n1_def)
    have m: "mem ?s = mem s" by simp
    have rd: "kread ?s (va + of_nat i) n1 = Ok (take n1 (drop i ?b))"
      using kread_page [of ?s d va e i n1] assms(1-4) n1 phys_fields_cong [OF m] by simp
    let ?c = "swapFile ?s"
    have len: "base + i \<le> length ?c" using assms(5) True by simp
    have upd: "take (base + i) ?c @ take n1 (drop i ?b) @ drop (base + i + n1) ?c =
        take base c @ take (i + n1) ?b @ drop (base + (i + n1)) c"
      using assms(5) True n1 by (simp add: take_add ac_simps)
    have "swap_write_loop va (base + i) i 4096 ?s =
        swap_write_loop va (base + i + n1) (i + n1) 4096
          (s\<lparr>swapFile := take base c @ take (i + n1) ?b @ drop (base + (i + n1)) c\<rparr>)"
      using True rd len assms(6) n1 upd
      by (subst swap_write_loop.simps) (simp add: n1_def [symmetric] Let_def del: length_append)
    also have "\<dots> = Ok (4096, s\<lparr>swapFile := take base c @ ?b @ drop (base + 4096) c\<rparr>)"
      using less.hyps [of "i + n1"] n1 True by (simp add: add.assoc)
    finally show ?thesis .
  qed
qed

lemma writeToSwapFile_page:
  assumes "cr3 s = pa_of d" "page_aligned va" "pte_at s d va = Some e" "present e"
    and "4096 * j \<le> length (swapFile s)" "j < 15"
  shows "writeToSwapFile va (4096 * j) 4096 s =
     Ok (4096, s\<lparr>swapFile := take (4096 * j) (swapFile s) @ page_bytes s (pframe e) @ drop (4096 * j + 4096) (swapFile s)\<rparr>)"
  using swap_write_chunks [OF assms(1-5), of 0] assms(6) by (simp add: writeToSwapFile_def)

lemma swap_page_write:
  assumes "4096 * j \<le> length c" "length b = 4096"
  defines "c' \<equiv> take (4096 * j) c @ b @ drop (4096 * j + 4096) c"
  shows "swap_page c' j = b" "4096 * (k + 1) \<le> length c \<Longrightarrow> k \<noteq> j \<Longrightarrow> swap_page c' k = swap_page c k"
    "4096 * (j + 1) \<le> length c'" "length c \<le> length c'"
proof -
  show "swap_page c' j = b" using assms by (simp add: swap_page_def)
  show "4096 * (j + 1) \<le> length c'" "length c \<le> length c'" using assms by auto
  assume k: "4096 * (k + 1) \<le> length c" "k \<noteq> j"
  show "swap_page c' k = swap_page c k"
  proof (cases "k < j")
    case True
    then have "4096 * k + 4096 \<le> 4096 * j" by simp
    then show ?thesis using assms by (simp add: swap_page_def c'_def min_def take_drop)
  next
    case False
    then have "4096 * j + 4096 \<le> 4096 * k" using k by simp
    then obtain m where "4096 * k = m + (4096 * j + 4096)" by (metis le_iff_add add.commute)
    then show ?thesis using assms by (simp add: swap_page_def c'_def)
  qed
qed

section \<open>Paging out keeps the virtual memory\<close>

definition swapped_entry :: "u32 \<Rightarrow> u32" where
  "swapped_entry e = (let e2 = (e OR PTE_PG) AND NOT PTE_P in e2 AND PTE_FLAGS e2)"

lemma bit_int_512 [simp]: "bit (512 :: int) n \<longleftrightarrow> n = 9"
proof -
  have "(512 :: int) = 2 ^ 9" by simp
  then show ?thesis by (simp only: bit_exp_iff) simp
qed

lemma swapped_entry: "paged_out (swapped_entry e)" "pframe (swapped_entry e) = 0" "\<not> present (swapped_entry e)"
proof -
  have b: "bit (swapped_entry e) n \<longleftrightarrow> n < 12 \<and> n \<noteq> 0 \<and> (bit e n \<or> n = 9)" for n
    by (auto simp: swapped_entry_def Let_def PTE_FLAGS_def bit_simps)
  have "swapped_entry e AND PTE_P = 0" by (rule bit_word_eqI) (auto simp: bit_and_iff b bit_1_iff)
  then show "\<not> present (swapped_entry e)" by (simp add: present_def)
  moreover have "bit (swapped_entry e AND PTE_PG) 9" by (simp add: bit_and_iff b)
  then have "swapped_entry e AND PTE_PG \<noteq> 0" by (metis bit_0_eq bot_apply bot_bool_def)
  ultimately show "paged_out (swapped_entry e)" by (simp add: paged_out_def)
  show "pframe (swapped_entry e) = 0" by (rule bit_word_eqI) (auto simp: bit_pframe b)
qed

lemma slot_of_Some:
  "slot_of s w = Some k \<longleftrightarrow> k < length (pagesInDisc s) \<and> virtualAddress (pagesInDisc s ! k) = w \<and>
     (\<forall>i < k. virtualAddress (pagesInDisc s ! i) \<noteq> w)"
  by (simp add: slot_of_def find_idx_Some)

lemma entry_present_pte_at: "present (entry s d va) \<Longrightarrow> pte_at s d va = Some (entry s d va)"
  by (auto simp: entry_def split: option.splits)

lemma entry_nonzero_pte_at: "entry s d va \<noteq> 0 \<Longrightarrow> pte_at s d va = Some (entry s d va)"
  by (auto simp: entry_def split: option.splits)

lemma pte_at_pde: "pte_at s d va = Some e \<Longrightarrow>
    present (mem s d (pdx va)) \<and> mem s (pframe (mem s d (pdx va))) (ptx va) = e"
  by (auto simp: pte_at_def Let_def split: if_splits)

lemma pt_ok_mem_cong:
  assumes "pt_ok s d xs" "mem s' = mem s" "freelist s' = freelist s" "kend s' = kend s"
  shows "pt_ok s' d xs"
  using assms kmem_ok_mem_cong [of xs s' s] by (simp add: pt_ok_def pt_frames_def)

text \<open>Freeing a page that is neither a table nor free.\<close>

lemma pt_ok_kfree:
  assumes "pt_ok s d xs" "valid_page s (kva f)" "f \<notin> pt_frames s d \<union> frames xs"
  obtains s' where "kfree (kva f) s = Ok s'" "pt_ok s' d (kva f # xs)" "\<And>g. g \<noteq> f \<Longrightarrow> mem s' g = mem s g"
    "kend s' = kend s" "cr3 s' = cr3 s" "phys.more s' = phys.more s"
    "pt_frames s' d = pt_frames s d" "\<And>va. entry s' d va = entry s d va"
proof -
  have "kva f \<notin> set xs" using assms(3) by (auto simp: frames_def) (metis image_eqI vframe_kva)
  with assms obtain s' where s': "kfree (kva f) s = Ok s'" "kmem_ok s' (kva f # xs)"
    "\<And>g. g \<noteq> f \<Longrightarrow> mem s' g = mem s g" "kend s' = kend s" "cr3 s' = cr3 s" "phys.more s' = phys.more s"
    using kfree_ok [of s xs "kva f"] unfolding pt_ok_def by (metis vframe_kva)
  have mo: "mem s' g = mem s g" if "g \<in> pt_frames s d" for g using that assms(3) by (intro s'(3)) auto
  note c = entry_mem_cong [OF mo]
  have d: "mem s' d = mem s d" by (rule mo) (simp add: pt_frames_def)
  have pf: "pt_frames s' d = pt_frames s d" using d by (simp add: pt_frames_def)
  have "pt_ok s' d (kva f # xs)"
    using assms s'(2) unfolding pt_ok_def pf d by auto
  then show ?thesis using that s' c pf by blast
qed

lemma clearPagePhyMem_ok:
  fixes s :: "'a vproc_scheme"
  assumes ok: "pt_ok s d xs" and pg: "pgdir s = kva d" "cr3 s = pa_of d" and pr: "present (entry s d va)"
    and f: "valid_page s (kva (pframe (entry s d va)))" "pframe (entry s d va) \<notin> pt_frames s d \<union> frames xs"
  defines "fr \<equiv> pframe (entry s d va)"
  obtains s' where "clearPagePhyMem (kva d) va i (PTE_ADDR (entry s d va)) s = Ok s'"
    "pt_ok s' d (kva fr # xs)" "pt_frames s' d = pt_frames s d" "kend s' = kend s"
    "\<And>w. entry s' d w = (if vpn w = vpn va then swapped_entry (entry s d va) else entry s d w)"
    "\<And>g. g \<notin> pt_frames s d \<Longrightarrow> g \<noteq> fr \<Longrightarrow> mem s' g = mem s g"
    "\<And>w. pte_at s' d w = None \<longleftrightarrow> pte_at s d w = None" "cr3 s' = cr3 s"
    "vproc.more s' = vproc.more s" "pgdir s' = pgdir s" "cpid s' = cpid s" "pagesInDisc s' = pagesInDisc s"
    "pagesInPhysicalMemory s' = (pagesInPhysicalMemory s)[i := (pagesInPhysicalMemory s ! i)\<lparr>isUsed := False\<rparr>]"
    "ptimer s' = ptimer s" "pageFault s' = pageFault s" "swapFile s' = swapFile s" "buffer s' = buffer s"
proof -
  obtain s1 where s1: "kfree (kva fr) s = Ok s1" "pt_ok s1 d (kva fr # xs)" "\<And>g. g \<noteq> fr \<Longrightarrow> mem s1 g = mem s g"
    "kend s1 = kend s" "cr3 s1 = cr3 s" "phys.more s1 = phys.more s" "pt_frames s1 d = pt_frames s d"
    "\<And>w. entry s1 d w = entry s d w"
    using pt_ok_kfree [OF ok f] unfolding fr_def by metis
  note mc = vproc_more_cong [OF s1(6)]
  have mm: "vproc.more s1 = vproc.more s" using s1(6) by (cases s; cases s1) simp
  let ?s2 = "s1\<lparr>pagesInPhysicalMemory := (pagesInPhysicalMemory s)[i := (pagesInPhysicalMemory s ! i)\<lparr>isUsed := False\<rparr>]\<rparr>"
  have ok2: "pt_ok ?s2 d (kva fr # xs)" using s1(2) by (rule pt_ok_mem_cong) simp_all
  have m2: "mem ?s2 = mem s1" by simp
  have d1: "mem s1 d = mem s d" using f(2) by (intro s1(3)) (auto simp: pt_frames_def fr_def)
  have "present (entry s1 d va)" using pr s1(8) by simp
  then have pd: "present (mem s1 d (pdx va))" using entry_present_pte_at pte_at_pde by metis
  then have pd2: "present (mem ?s2 d (pdx va))" by simp
  let ?p = "slot (pframe (mem ?s2 d (pdx va))) (ptx va)"
  let ?e = "swapped_entry (entry s d va)"
  note st = store_pte [OF ok2 pd2, of ?e]
  have ld: "load32 ?s2 ?p = entry s d va"
    using pd s1(8) [of va] by (simp add: entry_def pte_at_def Let_def)
  have nz: "?p \<noteq> 0" using ok2 pd2 by (auto simp: pt_ok_def pt_frames_def)
  let ?s3 = "(store32 ?p ?e ?s2)\<lparr>cr3 := V2P (pgdir s)\<rparr>"
  have run: "clearPagePhyMem (kva d) va i (PTE_ADDR (entry s d va)) s = Ok ?s3"
    using s1(1) nz ld pd mc(1,3)
    by (auto simp: clearPagePhyMem_def Let_def walkpgdir_present [OF pd2, simplified] swapped_entry_def fr_def)
  have m3: "mem ?s3 = mem (store32 ?p ?e ?s2)" by simp
  show ?thesis
  proof (rule that [OF run])
    show "pt_ok ?s3 d (kva fr # xs)" by (rule pt_ok_mem_cong [OF pt_step_ok [OF st(1)]]) simp_all
    have md3: "mem ?s3 d = mem s d" using st(3) d1 by simp
    then show "pt_frames ?s3 d = pt_frames s d" unfolding pt_frames_def by simp
    show "entry ?s3 d w = (if vpn w = vpn va then ?e else entry s d w)" for w
      using st(2) [of w] phys_fields_cong(2) [OF m3] phys_fields_cong(2) [OF m2] s1(8) by simp
    show "mem ?s3 g = mem s g" if "g \<notin> pt_frames s d" "g \<noteq> fr" for g
    proof -
      have "g \<noteq> pframe (mem ?s2 d (pdx va))" using that(1) pd d1 by (auto simp: pt_frames_def)
      then show ?thesis using s1(3) [OF that(2)] by (simp add: mem_store32)
    qed
    show "pte_at ?s3 d w = None \<longleftrightarrow> pte_at s d w = None" for w
      unfolding pte_at_def Let_def md3 by simp
    show "cr3 ?s3 = cr3 s" using pg by (simp add: kva_def)
  qed (simp_all add: s1 mc mm store32_def)
qed

lemma uva_vpn: "uva va \<Longrightarrow> uva w \<Longrightarrow> vpn w = vpn va \<longleftrightarrow> w = va"
  using va_split [of va] va_split [of w] by (auto simp: uva_def page_aligned_def)

lemma paging_okD:
  assumes "paging_ok s d xs"
  shows "pt_ok s d xs" "pgdir s = kva d" "cr3 s = pa_of d"
    "length (pagesInPhysicalMemory s) = MAX_PYSC_PAGES" "length (pagesInDisc s) = MAX_TOTAL_PAGES - MAX_PYSC_PAGES"
    "frames_ok s d xs" "resident_ok s d" "disc_ok s d"
  using assms by (auto simp: paging_ok_def resident_ok_def disc_ok_def)

lemma resident_slotD:
  assumes "resident_ok s d" "i < MAX_PYSC_PAGES" "isUsed (pagesInPhysicalMemory s ! i)"
  shows "pageDirectory (pagesInPhysicalMemory s ! i) = kva d" "uva (virtualAddress (pagesInPhysicalMemory s ! i))"
    "present (entry s d (virtualAddress (pagesInPhysicalMemory s ! i)))"
    "j < MAX_PYSC_PAGES \<Longrightarrow> isUsed (pagesInPhysicalMemory s ! j) \<Longrightarrow> j \<noteq> i \<Longrightarrow>
       virtualAddress (pagesInPhysicalMemory s ! j) \<noteq> virtualAddress (pagesInPhysicalMemory s ! i)"
  using assms by (auto simp: resident_ok_def Let_def)

lemma disc_slotD:
  assumes "disc_ok s d" "j < MAX_TOTAL_PAGES - MAX_PYSC_PAGES" "isUsed (pagesInDisc s ! j)"
  shows "pageDirectory (pagesInDisc s ! j) = kva d" "uva (virtualAddress (pagesInDisc s ! j))"
    "paged_out (entry s d (virtualAddress (pagesInDisc s ! j)))" "4096 * (j + 1) \<le> length (swapFile s)"
    "slot_of s (virtualAddress (pagesInDisc s ! j)) = Some j"
  using assms by (auto simp: disc_ok_def Let_def)

lemma disc_paged_out:
  assumes "disc_ok s d" "uva va" "paged_out (entry s d va)"
  obtains j where "j < MAX_TOTAL_PAGES - MAX_PYSC_PAGES" "isUsed (pagesInDisc s ! j)"
    "virtualAddress (pagesInDisc s ! j) = va" "pframe (entry s d va) = 0"
    "slot_of s va = Some j" "4096 * (j + 1) \<le> length (swapFile s)"
  using assms disc_slotD [OF assms(1)] unfolding disc_ok_def by metis

lemma first_free_disc:
  assumes "disc_ok s d" "find_idx (\<lambda>p. \<not> isUsed p) (pagesInDisc s) = Some j"
  shows "j < MAX_TOTAL_PAGES - MAX_PYSC_PAGES" "4096 * j \<le> length (swapFile s)" "\<not> isUsed (pagesInDisc s ! j)"
    "k < j \<Longrightarrow> isUsed (pagesInDisc s ! k)"
proof -
  have j: "j < length (pagesInDisc s)" "\<not> isUsed (pagesInDisc s ! j)" "\<forall>k < j. isUsed (pagesInDisc s ! k)"
    using assms(2) by (auto simp: find_idx_Some)
  then show "j < MAX_TOTAL_PAGES - MAX_PYSC_PAGES" "\<not> isUsed (pagesInDisc s ! j)" "k < j \<Longrightarrow> isUsed (pagesInDisc s ! k)"
    using assms(1) by (auto simp: disc_ok_def)
  show "4096 * j \<le> length (swapFile s)"
  proof (cases j)
    case (Suc k)
    then have "4096 * (k + 1) \<le> length (swapFile s)"
      using j assms(1) by (intro disc_slotD(4) [OF assms(1)]) (auto simp: disc_ok_def)
    then show ?thesis using Suc by simp
  qed simp
qed

text \<open>Every slot before the first free one is used, so the slot a page is written to is the
  first that carries its address, whatever stale addresses later free slots carry.\<close>

lemma slot_of_page_out:
  assumes "disc_ok s d" "find_idx (\<lambda>p. \<not> isUsed p) (pagesInDisc s) = Some j" "virtualAddress q = va"
    and "\<not> paged_out (entry s d va)" "pagesInDisc s' = (pagesInDisc s)[j := q]"
  shows "slot_of s' va = Some j"
    "slot_of s w = Some k \<Longrightarrow> w \<noteq> va \<Longrightarrow> k \<noteq> j \<Longrightarrow> slot_of s' w = Some k"
proof -
  note ff = first_free_disc [OF assms(1,2)]
  have len: "length (pagesInDisc s) = MAX_TOTAL_PAGES - MAX_PYSC_PAGES" using assms(1) by (simp add: disc_ok_def)
  have "virtualAddress (pagesInDisc s ! k) \<noteq> va" if "k < j" for k
    using disc_slotD(3) [OF assms(1) _ ff(4) [OF that]] that ff(1) assms(4) by force
  then show "slot_of s' va = Some j"
    using assms(3,5) ff(1) len by (simp add: slot_of_Some)
  show "slot_of s w = Some k \<Longrightarrow> w \<noteq> va \<Longrightarrow> k \<noteq> j \<Longrightarrow> slot_of s' w = Some k"
  proof -
    assume s: "slot_of s w = Some k" and w: "w \<noteq> va" "k \<noteq> j"
    have "virtualAddress ((pagesInDisc s)[j := q] ! i) \<noteq> w" if "i < k" for i
      using that s w assms(3) by (cases "i = j") (auto simp: slot_of_Some)
    with s w show "slot_of s' w = Some k"
      unfolding slot_of_Some assms(5) by auto
  qed
qed

lemma page_out_core:
  fixes s :: "'a vproc_scheme"
  assumes ok: "paging_ok s d xs" and i: "i < MAX_PYSC_PAGES" "isUsed (pagesInPhysicalMemory s ! i)"
    and j: "find_idx (\<lambda>p. \<not> isUsed p) (pagesInDisc s) = Some j"
  defines "va \<equiv> virtualAddress (pagesInPhysicalMemory s ! i)"
  defines "e \<equiv> entry s d va"
  assumes q: "isUsed q" "pageDirectory q = kva d" "virtualAddress q = va"
  obtains s1 s' where "writeToSwapFile va (4096 * j) 4096 s = Ok (4096, s1)"
    "pagesInDisc s1 = pagesInDisc s"
    "clearPagePhyMem (kva d) va i (PTE_ADDR e) (s1\<lparr>pagesInDisc := (pagesInDisc s)[j := q]\<rparr>) = Ok s'"
    "paging_ok s' d (kva (pframe e) # xs)" "\<And>w. uva w \<Longrightarrow> vpage s' d w = vpage s d w"
    "\<And>w. uva w \<Longrightarrow> entry s' d w = (if w = va then swapped_entry e else entry s d w)"
    "pagesInDisc s' = (pagesInDisc s)[j := q]"
    "pagesInPhysicalMemory s' = (pagesInPhysicalMemory s)[i := (pagesInPhysicalMemory s ! i)\<lparr>isUsed := False\<rparr>]"
    "pt_frames s' d = pt_frames s d" "kend s' = kend s" "buffer s' = buffer s"
    "\<And>g. g \<notin> pt_frames s d \<Longrightarrow> g \<noteq> pframe e \<Longrightarrow> mem s' g = mem s g"
proof -
  note D = paging_okD [OF ok] and R = resident_slotD [OF paging_okD(7) [OF ok] i, folded va_def]
  note ff = first_free_disc [OF D(8) j]
  have e: "present e" "pte_at s d va = Some e" "\<not> paged_out e"
    using R(3) entry_present_pte_at by (auto simp: e_def paged_out_def)
  have va: "page_aligned va" using R(2) by (simp add: uva_def)
  let ?f = "pframe e" and ?c = "swapFile s"
  have f: "valid_page s (kva ?f)" "?f \<notin> pt_frames s d \<union> frames xs"
    and inj: "uva w \<Longrightarrow> present (entry s d w) \<Longrightarrow> pframe (entry s d w) = ?f \<Longrightarrow> w = va" for w
    using D(6) R(2,3) by (auto simp: frames_ok_def e_def)
  let ?c' = "take (4096 * j) ?c @ page_bytes s ?f @ drop (4096 * j + 4096) ?c"
  let ?s1 = "s\<lparr>swapFile := ?c'\<rparr>"
  define s2 where "s2 = ?s1\<lparr>pagesInDisc := (pagesInDisc s)[j := q]\<rparr>"
  have w: "writeToSwapFile va (4096 * j) 4096 s = Ok (4096, ?s1)"
    using writeToSwapFile_page [OF D(3) va e(2,1) ff(2)] ff(1) by simp
  have m2: "mem s2 = mem s" "kend s2 = kend s" "freelist s2 = freelist s" "pgdir s2 = pgdir s" "cr3 s2 = cr3 s"
    "pagesInDisc s2 = (pagesInDisc s)[j := q]" "pagesInPhysicalMemory s2 = pagesInPhysicalMemory s"
    "swapFile s2 = ?c'" "buffer s2 = buffer s"
    by (simp_all add: s2_def)
  note c2 = phys_fields_cong [OF m2(1)]
  have e2: "entry s2 d va = e" by (simp add: c2 e_def)
  have ok2: "pt_ok s2 d xs" using D(1) m2 by (auto intro: pt_ok_mem_cong)
  note cl = clearPagePhyMem_ok [OF ok2, of va i, unfolded c2(2,3) m2 valid_page_cong [OF m2(2)], folded e_def, OF D(2,3) e(1) f]
  obtain s' where s': "clearPagePhyMem (kva d) va i (PTE_ADDR e) s2 = Ok s'"
    "pt_ok s' d (kva ?f # xs)" "pt_frames s' d = pt_frames s d" "kend s' = kend s"
    "\<And>w. entry s' d w = (if vpn w = vpn va then swapped_entry e else entry s d w)"
    "\<And>g. g \<notin> pt_frames s d \<Longrightarrow> g \<noteq> ?f \<Longrightarrow> mem s' g = mem s g" "cr3 s' = cr3 s" "pgdir s' = pgdir s"
    "pagesInDisc s' = (pagesInDisc s)[j := q]"
    "pagesInPhysicalMemory s' = (pagesInPhysicalMemory s)[i := (pagesInPhysicalMemory s ! i)\<lparr>isUsed := False\<rparr>]"
    "swapFile s' = ?c'" "buffer s' = buffer s"
    by (rule cl) (rule that; assumption)
  have en: "entry s' d w = (if w = va then swapped_entry e else entry s d w)" if "uva w" for w
    using s'(5) uva_vpn [OF R(2) that] by simp
  have pb: "page_bytes s' (pframe (entry s d w)) = page_bytes s (pframe (entry s d w))"
    if "uva w" "present (entry s d w)" "w \<noteq> va" for w
    using that D(6) inj by (intro page_bytes_cong s'(6)) (auto simp: frames_ok_def)
  note sp = swap_page_write [OF ff(2) length_page_bytes [of s ?f]]
  note so = slot_of_page_out [OF D(8) j q(3) e(3) [unfolded e_def] s'(9)]
  have other: "k \<noteq> j" if "isUsed (pagesInDisc s ! k)" for k using ff(3) that by auto
  have vp: "vpage s' d w = vpage s d w" if uw: "uva w" for w
  proof (cases "w = va")
    case True
    then show ?thesis
      using en [OF uw] swapped_entry [of e] so(1) sp(1) s'(11) e(1) e_def by (simp add: vpage_def Let_def)
  next
    case False
    note ew = en [OF uw] False
    show ?thesis
    proof (cases "paged_out (entry s d w)")
      case True
      obtain k where k: "isUsed (pagesInDisc s ! k)" "slot_of s w = Some k" "4096 * (k + 1) \<le> length ?c"
        using disc_paged_out [OF D(8) uw True] by metis
      have "slot_of s' w = Some k" by (rule so(2) [OF k(2) False other [OF k(1)]])
      then show ?thesis
        using ew k sp(2) [OF k(3) other [OF k(1)]] s'(11) True by (simp add: vpage_def Let_def paged_out_def)
    qed (use ew pb [OF uw _ False] in \<open>auto simp: vpage_def Let_def\<close>)
  qed
  have fr: "frames_ok s' d (kva ?f # xs)"
    using D(6) inj en swapped_entry(3) s'(4)
    unfolding frames_ok_def s'(3) by (auto simp: valid_page_def)
  have res: "resident_ok s' d"
    unfolding resident_ok_def Let_def s'(10)
  proof (intro conjI allI impI)
    show "length ((pagesInPhysicalMemory s)[i := (pagesInPhysicalMemory s ! i)\<lparr>isUsed := False\<rparr>]) = MAX_PYSC_PAGES"
      using D(4) by simp
  next
    fix k
    let ?ps = "(pagesInPhysicalMemory s)[i := (pagesInPhysicalMemory s ! i)\<lparr>isUsed := False\<rparr>]"
    assume k: "k < MAX_PYSC_PAGES" "isUsed (?ps ! k)"
    then have ki: "k \<noteq> i" "isUsed (pagesInPhysicalMemory s ! k)" "?ps ! k = pagesInPhysicalMemory s ! k"
      using i D(4) by (cases "k = i"; simp)+
    note K = resident_slotD [OF D(7) k(1) ki(2)]
    have ne: "virtualAddress (pagesInPhysicalMemory s ! k) \<noteq> va"
      using resident_slotD(4) [OF D(7) i k(1) ki(2,1)] by (simp add: va_def)
    show "pageDirectory (?ps ! k) = kva d" "uva (virtualAddress (?ps ! k))"
      "present (entry s' d (virtualAddress (?ps ! k)))"
      using K en [OF K(2)] ne ki(3) by simp_all
    fix m assume m: "m < MAX_PYSC_PAGES" "isUsed (?ps ! m)" "m \<noteq> k"
    then have "m \<noteq> i" "isUsed (pagesInPhysicalMemory s ! m)" "?ps ! m = pagesInPhysicalMemory s ! m"
      using i D(4) by (cases "m = i"; simp)+
    with K(4) m ki(3) show "virtualAddress (?ps ! m) \<noteq> virtualAddress (?ps ! k)" by simp
  qed
  have dj: "(pagesInDisc s)[j := q] ! k = (if k = j then q else pagesInDisc s ! k)" if "k < MAX_TOTAL_PAGES - MAX_PYSC_PAGES" for k
    using that D(5) by simp
  have dsc: "disc_ok s' d"
    unfolding disc_ok_def Let_def s'(9,11)
  proof (rule conjI [OF _ conjI]; (intro allI impI)?)
    show "length ((pagesInDisc s)[j := q]) = MAX_TOTAL_PAGES - MAX_PYSC_PAGES" using D(5) by simp
  next
    fix k assume k: "k < MAX_TOTAL_PAGES - MAX_PYSC_PAGES" "isUsed ((pagesInDisc s)[j := q] ! k)"
    show "pageDirectory ((pagesInDisc s)[j := q] ! k) = kva d \<and> uva (virtualAddress ((pagesInDisc s)[j := q] ! k)) \<and>
      paged_out (entry s' d (virtualAddress ((pagesInDisc s)[j := q] ! k))) \<and>
      4096 * (k + 1) \<le> length ?c' \<and> slot_of s' (virtualAddress ((pagesInDisc s)[j := q] ! k)) = Some k"
    proof (cases "k = j")
      case True
      then show ?thesis
        using dj [OF k(1)] q R(2) en [OF R(2)] swapped_entry(1) sp(3) so(1) by auto
    next
      case False
      note K = disc_slotD [OF D(8) k(1)]
      have u: "isUsed (pagesInDisc s ! k)" using k dj [OF k(1)] False by simp
      have ne: "virtualAddress (pagesInDisc s ! k) \<noteq> va" using K(3) [OF u] e(3) by (auto simp: e_def)
      show ?thesis
        using dj [OF k(1)] False K [OF u] en [OF K(2) [OF u]] ne so(2) [OF K(5) [OF u] ne False] sp(4) by auto
    qed
  next
    fix w assume w: "uva w" "paged_out (entry s' d w)"
    have "pframe (entry s' d w) = 0"
      using en [OF w(1)] swapped_entry(2) disc_paged_out [OF D(8) w(1)] w(2) by (metis (full_types))
    moreover have "\<exists>k < MAX_TOTAL_PAGES - MAX_PYSC_PAGES. isUsed ((pagesInDisc s)[j := q] ! k) \<and>
        virtualAddress ((pagesInDisc s)[j := q] ! k) = w"
    proof (cases "w = va")
      case True
      then show ?thesis using ff(1) q dj by (intro exI [of _ j]) simp
    next
      case False
      with en [OF w(1)] w(2) have "paged_out (entry s d w)" by simp
      then obtain k where "k < MAX_TOTAL_PAGES - MAX_PYSC_PAGES" "isUsed (pagesInDisc s ! k)"
        "virtualAddress (pagesInDisc s ! k) = w" using disc_paged_out [OF D(8) w(1)] by metis
      then show ?thesis using other [of k] dj by (intro exI [of _ k]) simp
    qed
    ultimately show "pframe (entry s' d w) = 0 \<and> (\<exists>k < MAX_TOTAL_PAGES - MAX_PYSC_PAGES.
        isUsed ((pagesInDisc s)[j := q] ! k) \<and> virtualAddress ((pagesInDisc s)[j := q] ! k) = w)" ..
  qed
  show ?thesis
  proof (rule that [OF w _ s'(1) [unfolded s2_def]])
    show "paging_ok s' d (kva ?f # xs)" using s'(2,7,8) D fr res dsc by (simp add: paging_ok_def)
  qed (use s' vp en in simp_all)
qed

section \<open>Paging in keeps the virtual memory\<close>

definition resident_entry :: "u32 \<Rightarrow> u32 \<Rightarrow> u32" where
  "resident_entry e m = ((e OR PTE_P OR PTE_W OR PTE_U) AND NOT PTE_PG) OR V2P m"

lemma bit_pa_of: "bit (pa_of g) n \<longleftrightarrow> 12 \<le> n \<and> n < 32 \<and> bit g (n - 12)"
  by (auto simp: pa_of_def bit_simps dest: bit_imp_le_length)

lemma bit_int_2 [simp]: "bit (2 :: int) n \<longleftrightarrow> n = 1" and bit_int_4 [simp]: "bit (4 :: int) n \<longleftrightarrow> n = 2"
  and bit_int_7 [simp]: "bit (7 :: int) n \<longleftrightarrow> n < 3"
proof -
  show "bit (2 :: int) n \<longleftrightarrow> n = 1" using bit_exp_iff [of 1 n, where 'a = int] by auto
  have "(4 :: int) = 2 ^ 2" "(7 :: int) = mask 3" by (simp_all add: mask_eq_exp_minus_1)
  then show "bit (4 :: int) n \<longleftrightarrow> n = 2" "bit (7 :: int) n \<longleftrightarrow> n < 3" 
    by (simp_all only: bit_exp_iff bit_mask_iff) auto
qed

lemma bit_int_m513 [simp]: "bit (- 513 :: int) n \<longleftrightarrow> n \<noteq> 9"
proof -
  have "(- 513 :: int) = NOT 512" by (simp add: not_int_def)
  then show ?thesis by (simp only: bit_not_int_iff bit_int_512)
qed

lemma find_idx_update_same: "k < length xs \<Longrightarrow> P x = P (xs ! k) \<Longrightarrow> find_idx P (xs[k := x]) = find_idx P xs"
proof (induction xs arbitrary: k)
  case (Cons y xs)
  then show ?case by (cases k) auto
qed simp

lemma resident_entry:
  assumes "pframe e = 0"
  shows "pframe (resident_entry e (kva g)) = g" "present (resident_entry e (kva g))"
    "resident_entry e (kva g) AND PTE_W \<noteq> 0" "user_pte (resident_entry e (kva g))"
    "\<not> paged_out (resident_entry e (kva g))"
proof -
  have e: "\<not> bit e (12 + n)" if "n < 20" for n
    using assms bit_pframe [of e n] that by simp
  have b: "bit (resident_entry e (kva g)) n \<longleftrightarrow> (bit e n \<and> n \<noteq> 9) \<or> n < 3 \<or> bit (pa_of g) n" if "n < 32" for n
    using that by (auto simp: resident_entry_def bit_or_iff bit_and_iff bit_not_iff kva_def)
  show "pframe (resident_entry e (kva g)) = g"
    by (rule bit_word_eqI) (use e in \<open>auto simp: bit_pframe b bit_pa_of\<close>)
  have "bit (resident_entry e (kva g) AND PTE_P) 0" "bit (resident_entry e (kva g) AND PTE_W) 1" "bit (resident_entry e (kva g) AND PTE_U) 2"
    by (simp_all add: bit_and_iff b)
  then show "present (resident_entry e (kva g))" "resident_entry e (kva g) AND PTE_W \<noteq> 0" 
    "user_pte (resident_entry e (kva g))"
    unfolding present_def user_pte_def by (metis bit_0_eq bot_apply bot_bool_def)+
  then show "\<not> paged_out (resident_entry e (kva g))" by (simp add: paged_out_def)
qed

definition fresh_frame :: "'a phys_scheme \<Rightarrow> frame \<Rightarrow> u32 list \<Rightarrow> frame \<Rightarrow> bool" where
  "fresh_frame s d xs g \<longleftrightarrow> valid_page s (kva g) \<and> g \<noteq> 0x80000 \<and> g \<notin> pt_frames s d \<union> frames xs \<and>
     (\<forall>va. uva va \<longrightarrow> present (entry s d va) \<longrightarrow> pframe (entry s d va) \<noteq> g)"

lemma mark_resident_ok:
  fixes s :: "'a vproc_scheme" and g :: frame
  assumes ok: "pt_ok s d xs" and pg: "pgdir s = kva d" "cr3 s = pa_of d"
    and e: "paged_out (entry s d va)" "pframe (entry s d va) = 0"
  obtains s' where "mark_resident va (kva g) s = Ok s'" "pt_ok s' d xs" "pt_frames s' d = pt_frames s d" "kend s' = kend s"
    "\<And>w. entry s' d w = (if vpn w = vpn va then resident_entry (entry s d va) (kva g) else entry s d w)"
    "\<And>f. f \<notin> pt_frames s d \<Longrightarrow> mem s' f = mem s f" "cr3 s' = cr3 s" "phys.more s' = phys.more s"
proof -
  let ?e' = "resident_entry (entry s d va) (kva g)"
  have "entry s d va \<noteq> 0" using e(1) by (auto simp: paged_out_def)
  then have pd: "present (mem s d (pdx va))" "mem s (pframe (mem s d (pdx va))) (ptx va) = entry s d va"
    using entry_nonzero_pte_at pte_at_pde by metis+
  let ?p = "slot (pframe (mem s d (pdx va))) (ptx va)"
  have nz: "?p \<noteq> 0" using ok pd by (auto simp: pt_ok_def pt_frames_def)
  note st = store_pte [OF ok pd(1), of "resident_entry (entry s d va) (kva g)"]
  let ?s' = "(store32 ?p ?e' s)\<lparr>cr3 := V2P (pgdir s)\<rparr>"
  have np: "entry s d va AND PTE_P = 0" using e(1) by (simp add: paged_out_def present_def)
  have m: "mem ?s' = mem (store32 ?p ?e' s)" by simp
  have run: "mark_resident va (kva g) s = Ok ?s'"
    using nz np pd pg(1)
    by (auto simp: mark_resident_def Let_def walkpgdir_present [OF pd(1)] resident_entry_def store32_def)
  show ?thesis
  proof (rule that [OF run])
    show "pt_ok ?s' d xs" by (rule pt_ok_mem_cong [OF pt_step_ok [OF st(1)]]) simp_all
    have md: "mem ?s' d = mem s d" using st(3) by simp
    then show "pt_frames ?s' d = pt_frames s d" unfolding pt_frames_def by simp
    show "entry ?s' d w = (if vpn w = vpn va then resident_entry (entry s d va) (kva g) else entry s d w)" for w
      using st(2) [of w] phys_fields_cong(2) [OF m] by simp
    show "mem ?s' f = mem s f" if "f \<notin> pt_frames s d" for f
      using that pd(1) by (auto simp: mem_store32 pt_frames_def)
    show "cr3 ?s' = cr3 s" using pg by (simp add: kva_def)
  qed (simp_all add: store32_def)
qed

text \<open>The state both branches of \<^verbatim>\<open>retrievePage\<close> end in.\<close>

lemma page_in_core:
  fixes s t :: "'a vproc_scheme"
  assumes ok: "paging_ok s d xs" and g: "fresh_frame s d xs g"
    and va: "uva va" "paged_out (entry s d va)" and k: "slot_of s va = Some k"
    and i: "i < MAX_PYSC_PAGES" "\<not> isUsed (pagesInPhysicalMemory s ! i)"
    and t: "pt_ok t d xs" "pgdir t = pgdir s" "cr3 t = cr3 s" "kend t = kend s" "pt_frames t d = pt_frames s d"
      "\<And>w. entry t d w = (if vpn w = vpn va then resident_entry (entry s d va) (kva g) else entry s d w)"
      "page_bytes t g = swap_page (swapFile s) k"
      "\<And>f. f \<notin> pt_frames s d \<Longrightarrow> f \<noteq> g \<Longrightarrow> mem t f = mem s f" "swapFile t = swapFile s"
      "pagesInDisc t = (pagesInDisc s)[k := (pagesInDisc s ! k)\<lparr>isUsed := False\<rparr>]"
      "pagesInPhysicalMemory t = (pagesInPhysicalMemory s)[i := (pagesInDisc s ! k)\<lparr>timer := tm\<rparr>]"
  shows "paging_ok t d xs" "uva w \<Longrightarrow> vpage t d w = vpage s d w"
    "entry t d va = resident_entry (entry s d va) (kva g)"
proof -
  note D = paging_okD [OF ok]
  obtain k' where k': "k' < MAX_TOTAL_PAGES - MAX_PYSC_PAGES" "isUsed (pagesInDisc s ! k')"
    "virtualAddress (pagesInDisc s ! k') = va" "pframe (entry s d va) = 0" "slot_of s va = Some k'"
    using disc_paged_out [OF D(8) va] by metis
  with k have "k' = k" by simp
  note k' = k' [unfolded this]
  note K = disc_slotD [OF D(8) k'(1,2)]
  let ?e = "resident_entry (entry s d va) (kva g)"
  note re = resident_entry [OF k'(4), of g]
  have en: "entry t d w = (if w = va then ?e else entry s d w)" if "uva w" for w
    using t(6) [of w] uva_vpn [OF va(1) that] by simp
  show "entry t d va = ?e" using en va by simp
  have slots: "slot_of t w = slot_of s w" for w
    unfolding slot_of_def t(10) using k'(1) D(5) by (intro find_idx_update_same) simp_all
  have used: "isUsed (pagesInDisc t ! j) \<longleftrightarrow> isUsed (pagesInDisc s ! j) \<and> j \<noteq> k"
    "virtualAddress (pagesInDisc t ! j) = virtualAddress (pagesInDisc s ! j)"
    "pageDirectory (pagesInDisc t ! j) = pageDirectory (pagesInDisc s ! j)" for j
    using k'(1) D(5) by (cases "j = k"; simp add: t(10))+
  have pb: "page_bytes t (pframe (entry s d w)) = page_bytes s (pframe (entry s d w))"
    if "uva w" "present (entry s d w)" for w
    using that D(6) g by (intro page_bytes_cong t(8)) (auto simp: frames_ok_def fresh_frame_def)
  have npv: "\<not> present (entry s d va)" using va(2) by (simp add: paged_out_def)
  show "uva w \<Longrightarrow> vpage t d w = vpage s d w"
  proof (cases "w = va")
    case True
    then show ?thesis using en [OF va(1)] re t(7) k va(2) npv by (simp add: vpage_def Let_def)
  next
    case False
    assume "uva w"
    with False en pb show ?thesis by (simp add: vpage_def Let_def slots t(9))
  qed
  have fr: "frames_ok t d xs"
    unfolding frames_ok_def t(5)
  proof (intro conjI allI impI)
    fix w assume w: "uva w" "present (entry t d w)"
    show "valid_page t (kva (pframe (entry t d w)))" "pframe (entry t d w) \<notin> pt_frames s d \<union> frames xs"
      using w en [OF w(1)] g D(6) re(1) t(4) by (auto simp: frames_ok_def fresh_frame_def valid_page_def split: if_splits)
    fix w' assume "uva w'" "present (entry t d w')" "pframe (entry t d w) = pframe (entry t d w')"
    then show "w = w'"
      using w en g D(6) re(1) by (auto simp: frames_ok_def fresh_frame_def split: if_splits)
  qed
  have res: "resident_ok t d"
  proof -
    have nth: "pagesInPhysicalMemory t ! j = (if j = i then (pagesInDisc s ! k)\<lparr>timer := tm\<rparr> else pagesInPhysicalMemory s ! j)"
      if "j < MAX_PYSC_PAGES" for j using that D(4) by (simp add: t(11))
    have ne: "virtualAddress (pagesInPhysicalMemory s ! j) \<noteq> va" if "j < MAX_PYSC_PAGES" "isUsed (pagesInPhysicalMemory s ! j)" for j
      using resident_slotD(3) [OF D(7) that] npv by auto
    show ?thesis
      unfolding resident_ok_def Let_def
    proof (rule conjI; (intro allI impI)?)
      show "length (pagesInPhysicalMemory t) = MAX_PYSC_PAGES" using D(4) by (simp add: t(11))
      fix j assume j: "j < MAX_PYSC_PAGES" "isUsed (pagesInPhysicalMemory t ! j)"
      show "pageDirectory (pagesInPhysicalMemory t ! j) = kva d \<and> uva (virtualAddress (pagesInPhysicalMemory t ! j)) \<and>
        present (entry t d (virtualAddress (pagesInPhysicalMemory t ! j))) \<and>
        (\<forall>l < MAX_PYSC_PAGES. isUsed (pagesInPhysicalMemory t ! l) \<longrightarrow> l \<noteq> j \<longrightarrow>
           virtualAddress (pagesInPhysicalMemory t ! l) \<noteq> virtualAddress (pagesInPhysicalMemory t ! j))"
      proof (cases "j = i")
        case True
        then show ?thesis using nth ne k' K(1,2) en [OF va(1)] re(2) i(1) by auto
      next
        case False
        then have u: "isUsed (pagesInPhysicalMemory s ! j)" using j nth by simp
        note R = resident_slotD [OF D(7) j(1) u]
        show ?thesis
        proof (intro conjI allI impI)
          fix l assume l: "l < MAX_PYSC_PAGES" "isUsed (pagesInPhysicalMemory t ! l)" "l \<noteq> j"
          show "virtualAddress (pagesInPhysicalMemory t ! l) \<noteq> virtualAddress (pagesInPhysicalMemory t ! j)"
            using nth [OF l(1)] nth [OF j(1)] False ne [OF j(1) u] k'(3) R(4) [OF l(1)] l by (cases "l = i") auto
        qed (use nth [OF j(1)] False R en [OF R(2)] ne [OF j(1) u] in simp_all)
      qed
    qed
  qed
  have dsc: "disc_ok t d"
    unfolding disc_ok_def Let_def
  proof (rule conjI [OF _ conjI]; (intro allI impI)?)
    show "length (pagesInDisc t) = MAX_TOTAL_PAGES - MAX_PYSC_PAGES" using D(5) by (simp add: t(10))
  next
    fix j assume j: "j < MAX_TOTAL_PAGES - MAX_PYSC_PAGES" "isUsed (pagesInDisc t ! j)"
    then have u: "isUsed (pagesInDisc s ! j)" "j \<noteq> k" using used by auto
    note J = disc_slotD [OF D(8) j(1) u(1)]
    have "virtualAddress (pagesInDisc s ! j) \<noteq> va" using J(5) k u(2) by auto
    then show "pageDirectory (pagesInDisc t ! j) = kva d \<and> uva (virtualAddress (pagesInDisc t ! j)) \<and>
        paged_out (entry t d (virtualAddress (pagesInDisc t ! j))) \<and>
        4096 * (j + 1) \<le> length (swapFile t) \<and> slot_of t (virtualAddress (pagesInDisc t ! j)) = Some j"
      using J en [OF J(2)] by (simp add: used slots t(9))
  next
    fix w assume w: "uva w" "paged_out (entry t d w)"
    then have ws: "w \<noteq> va" "paged_out (entry s d w)" "entry t d w = entry s d w"
      using en [OF w(1)] re(5) by (auto split: if_splits)
    then obtain j where "j < MAX_TOTAL_PAGES - MAX_PYSC_PAGES" "isUsed (pagesInDisc s ! j)"
      "virtualAddress (pagesInDisc s ! j) = w" "pframe (entry s d w) = 0"
      using disc_paged_out [OF D(8) w(1)] by metis
    then show "pframe (entry t d w) = 0 \<and> (\<exists>j < MAX_TOTAL_PAGES - MAX_PYSC_PAGES.
        isUsed (pagesInDisc t ! j) \<and> virtualAddress (pagesInDisc t ! j) = w)"
      using ws k'(3) by (auto simp: used)
  qed
  show "paging_ok t d xs"
    using t(1-3) D fr res dsc by (simp add: paging_ok_def)
qed

lemma pt_ok_frames_cong:
  assumes "pt_ok s d xs" "\<And>f. f \<in> pt_frames s d \<union> frames xs \<Longrightarrow> mem s' f = mem s f"
    "freelist s' = freelist s" "kend s' = kend s"
  shows "pt_ok s' d xs" "pt_frames s' d = pt_frames s d" "\<And>w. entry s' d w = entry s d w"
proof -
  note c = entry_mem_cong [of s d s', OF assms(2) [OF UnI1]]
  have d: "mem s' d = mem s d" using assms(2) by (simp add: pt_frames_def)
  have k: "kmem_ok s' xs = kmem_ok s xs" using assms(2,3,4) by (intro kmem_ok_mem_cong) auto
  show p: "pt_frames s' d = pt_frames s d" using d by (simp add: pt_frames_def)
  show "pt_ok s' d xs" using assms(1) k unfolding pt_ok_def p d by simp
  show "\<And>w. entry s' d w = entry s d w" using c(2) by simp
qed

lemma paging_ok_cong:
  assumes "paging_ok s d xs" "pt_ok s' d xs'" "frames xs' \<subseteq> frames xs" "\<And>w. entry s' d w = entry s d w"
    "pt_frames s' d = pt_frames s d" "kend s' = kend s" "cr3 s' = cr3 s" "pgdir s' = pgdir s"
    "pagesInPhysicalMemory s' = pagesInPhysicalMemory s" "pagesInDisc s' = pagesInDisc s" "swapFile s' = swapFile s"
  shows "paging_ok s' d xs'"
proof -
  note D = paging_okD [OF assms(1)]
  have "frames_ok s' d xs'"
    using D(6) assms(3) unfolding frames_ok_def assms(4,5) valid_page_cong [OF assms(6)] by blast
  moreover have "resident_ok s' d" using D(7) unfolding resident_ok_def assms(4,9) .
  moreover have "disc_ok s' d" using D(8) unfolding disc_ok_def slot_of_def assms(4,10,11) .
  ultimately show ?thesis using D(2,3) assms by (simp add: paging_ok_def)
qed

lemma vpage_cong:
  assumes "\<And>w. entry s' d w = entry s d w" "pagesInDisc s' = pagesInDisc s" "swapFile s' = swapFile s"
    "present (entry s d w) \<Longrightarrow> mem s' (pframe (entry s d w)) = mem s (pframe (entry s d w))"
  shows "vpage s' d w = vpage s d w"
  using assms page_bytes_cong [of s' "pframe (entry s d w)" s] by (simp add: vpage_def Let_def slot_of_def)

text \<open>The new page of a fault: zeroed, off the free list, in no table and no user page.\<close>

lemma fault_alloc:
  fixes s :: "'a vproc_scheme"
  assumes ok: "paging_ok s d (x # xs)"
  defines "s1 \<equiv> (memset_page x 0 (s\<lparr>freelist := load32 s x\<rparr>))\<lparr>pageFault := pageFault s + 1\<rparr>"
  shows "kalloc s = (x, s\<lparr>freelist := load32 s x\<rparr>)" "x \<noteq> 0" "kva (vframe x) = x"
    "paging_ok s1 d xs" "fresh_frame s1 d xs (vframe x)" "uva w \<Longrightarrow> vpage s1 d w = vpage s d w"
    "entry s1 d w = entry s d w"
proof -
  note D = paging_okD [OF ok]
  have km: "kmem_ok s (x # xs)" using D(1) by (simp add: pt_ok_def)
  note ka = kalloc_cons [OF km]
  show "kalloc s = (x, s\<lparr>freelist := load32 s x\<rparr>)" and x0: "x \<noteq> 0" by (rule ka)+
  have vx: "valid_page s x" using km by (simp add: kmem_ok_def)
  then show kx: "kva (vframe x) = x" by (rule valid_page_kva)
  have g8: "vframe x \<noteq> 0x80000" using kx x0 by (metis kva_eq_0)
  have gx: "vframe x \<notin> frames xs" "vframe x \<notin> pt_frames s d"
    using kmem_ok_frames_notin [OF km] D(1) by (auto simp: pt_ok_def)
  let ?s0 = "s\<lparr>freelist := load32 s x\<rparr>"
  have ok0: "pt_ok ?s0 d xs" using D(1) ka(2) by (auto simp: pt_ok_def pt_frames_def)
  have m: "mem s1 f = mem s f" if "f \<noteq> vframe x" for f
    using that by (simp add: s1_def mem_memset_page)
  have "pt_frames ?s0 d = pt_frames s d" by (simp add: pt_frames_def)
  then have m0: "mem s1 f = mem ?s0 f" if "f \<in> pt_frames ?s0 d \<union> frames xs" for f
    using that gx m [of f] by (cases "f = vframe x") auto
  have fl: "freelist s1 = freelist ?s0" "kend s1 = kend ?s0" by (simp_all add: s1_def)
  note pc = pt_ok_frames_cong [OF ok0 m0 fl]
  have en: "entry s1 d w = entry s d w" for w using pc(3) phys_fields_cong(2) [of ?s0 s] by simp
  then show "entry s1 d w = entry s d w" .
  have pf: "pt_frames s1 d = pt_frames s d" using pc(2) by (simp add: pt_frames_def)
  have rest: "kend s1 = kend s" "cr3 s1 = cr3 s" "pgdir s1 = pgdir s" "pagesInDisc s1 = pagesInDisc s"
    "pagesInPhysicalMemory s1 = pagesInPhysicalMemory s" "swapFile s1 = swapFile s"
    by (simp_all add: s1_def memset_page_def Let_def)
  show "paging_ok s1 d xs"
    by (rule paging_ok_cong [OF ok pc(1) _ en pf]) (use rest in auto)
  have nu: "pframe (entry s d w) \<noteq> vframe x" if "uva w" "present (entry s d w)" for w
    using D(6) that by (auto simp: frames_ok_def)
  then show "fresh_frame s1 d xs (vframe x)"
    using vx g8 gx unfolding fresh_frame_def pf en valid_page_cong [OF rest(1)] kx by auto
  show "uva w \<Longrightarrow> vpage s1 d w = vpage s d w"
    by (rule vpage_cong [OF en rest(4,6)]) (use nu m in auto)
qed

lemma readFromSwapFile_slot:
  "4096 * (k + 1) \<le> length (swapFile s) \<Longrightarrow> readFromSwapFile (k * 4096) 4096 s = Some (swap_page (swapFile s) k)"
  by (simp add: readFromSwapFile_def swap_page_def mult.commute)

lemma length_swap_page: "4096 * (k + 1) \<le> length c \<Longrightarrow> length (swap_page c k) = 4096"
  by (simp add: swap_page_def)

lemma store_page_frames:
  assumes "length bs = 4096"
  shows "h \<noteq> g \<Longrightarrow> mem (store_bytes (kva g) bs s) h = mem s h" "page_bytes (store_bytes (kva g) bs s) g = bs"
  using mem_store_bytes_other [of 0 bs h g s, simplified] page_bytes_store [OF assms] assms by simp_all

lemma retrieve_room_ok:
  fixes s :: "'a vproc_scheme"
  assumes ok: "paging_ok s d xs" and g: "fresh_frame s d xs g" and va: "uva va" "paged_out (entry s d va)"
    and i: "find_idx (\<lambda>p. \<not> isUsed p) (pagesInPhysicalMemory s) = Some i"
  obtains t where "retrieve_room va (kva g) i s = Ok (1, t)" "paging_ok t d xs"
    "\<And>w. uva w \<Longrightarrow> vpage t d w = vpage s d w" "user_pte (entry t d va)"
proof -
  note D = paging_okD [OF ok]
  have i': "i < MAX_PYSC_PAGES" "\<not> isUsed (pagesInPhysicalMemory s ! i)" using i D(4) by (auto simp: find_idx_Some)
  obtain k where k: "slot_of s va = Some k" "4096 * (k + 1) \<le> length (swapFile s)" "pframe (entry s d va) = 0"
    "k < MAX_TOTAL_PAGES - MAX_PYSC_PAGES"
    using disc_paged_out [OF D(8) va] by metis
  note re = resident_entry [OF k(3), of g]
  obtain s1 where s1: "mark_resident va (kva g) s = Ok s1" "pt_ok s1 d xs" "pt_frames s1 d = pt_frames s d" "kend s1 = kend s"
    "\<And>w. entry s1 d w = (if vpn w = vpn va then resident_entry (entry s d va) (kva g) else entry s d w)"
    "\<And>f. f \<notin> pt_frames s d \<Longrightarrow> mem s1 f = mem s f" "cr3 s1 = cr3 s" "phys.more s1 = phys.more s"
    using mark_resident_ok [OF D(1,2,3) va(2) k(3), of g] by metis
  note mc = vproc_more_cong [OF s1(8)]
  let ?bs = "swap_page (swapFile s) k"
  have len: "length ?bs = 4096" by (rule length_swap_page [OF k(2)])
  have gx: "g \<notin> pt_frames s d" "g \<notin> frames xs" using g by (auto simp: fresh_frame_def)
  have e1: "entry s1 d va = resident_entry (entry s d va) (kva g)" by (simp add: s1(5))
  have wr: "kwrite va ?bs s1 = Ok (store_bytes (kva g) ?bs s1)"
    using kwrite_page [of va s1 d "entry s1 d va" 0 ?bs] va(1) s1(3,7) D(3) re(1-3) len gx(1)
      entry_present_pte_at [of s1 d va] by (simp add: e1 uva_def)
  note sf = store_page_frames [OF len]
  define s2 where "s2 = store_bytes (kva g) ?bs s1"
  have m2: "mem s2 f = mem s1 f" if "f \<noteq> g" for f using sf(1) that by (simp add: s2_def)
  have s2: "freelist s2 = freelist s1" "kend s2 = kend s" "cr3 s2 = cr3 s" "phys.more s2 = phys.more s"
    "page_bytes s2 g = ?bs" using s1(4,7,8) sf(2) by (simp_all add: s2_def)
  note mc2 = vproc_more_cong [OF s2(4)]
  have "mem s2 f = mem s1 f" if "f \<in> pt_frames s1 d \<union> frames xs" for f
    using that gx s1(3) by (intro m2) auto
  note p2 = pt_ok_frames_cong [OF s1(2) this s2(1), unfolded s2(2) s1(4), OF _ refl]
  let ?t = "s2\<lparr>pagesInPhysicalMemory := (pagesInPhysicalMemory s)[i := (pagesInDisc s ! k)\<lparr>timer := ptimer s\<rparr>],
      pagesInDisc := (pagesInDisc s)[k := (pagesInDisc s ! k)\<lparr>isUsed := False\<rparr>], ptimer := ptimer s + 1\<rparr>"
  have run: "retrieve_room va (kva g) i s = Ok (1, ?t)"
    using s1(1) k(1,4) wr readFromSwapFile_slot [of k s1] k(2) mc mc2 i'(1) D(4)
    by (simp add: retrieve_room_def slot_of_def s2_def [symmetric] Let_def)
  have mt: "mem ?t = mem s2" by simp
  note ct = phys_fields_cong [OF mt]
  note core = page_in_core [OF ok g va k(1) i', of ?t]
  show ?thesis
  proof (rule that [OF run])
    have pin: "pt_ok ?t d xs" by (rule pt_ok_mem_cong [OF p2(1)]) simp_all
    have rest: "pgdir ?t = pgdir s" "cr3 ?t = cr3 s" "kend ?t = kend s" "pt_frames ?t d = pt_frames s d"
      "page_bytes ?t g = ?bs" "swapFile ?t = swapFile s"
      "\<And>w. entry ?t d w = (if vpn w = vpn va then resident_entry (entry s d va) (kva g) else entry s d w)"
      "\<And>f. f \<notin> pt_frames s d \<Longrightarrow> f \<noteq> g \<Longrightarrow> mem ?t f = mem s f"
      using mc2 s2 s1 p2 m2 ct by auto
    show "paging_ok ?t d xs" by (rule core(1) [OF pin rest(1-4,7,5,8,6)]) simp_all
    show "\<And>w. uva w \<Longrightarrow> vpage ?t d w = vpage s d w" by (rule core(2) [OF pin rest(1-4,7,5,8,6)]) simp_all
    show "user_pte (entry ?t d va)" using rest(7) re(4) by simp
  qed
qed

lemma victim_used:
  assumes "getReplacementPageIndexPhyMem ralgo opt ps \<noteq> -1"
  obtains i where "getReplacementPageIndexPhyMem ralgo opt ps = int i" "i < length ps" "isUsed (ps ! i)"
proof -
  have "0 \<le> getReplacementPageIndexPhyMem ralgo opt ps \<and> nat (getReplacementPageIndexPhyMem ralgo opt ps) < length ps \<and>
      isUsed (ps ! nat (getReplacementPageIndexPhyMem ralgo opt ps))"
    using assms fifo.pick_resident [of opt ps] aging.pick_resident [of ps] lifo.pick_resident [of ps]
    by (simp add: getReplacementPageIndexPhyMem_def split: if_splits)
  then show ?thesis using that [of "nat (getReplacementPageIndexPhyMem ralgo opt ps)"] by simp
qed

lemma PTE_ADDR_not_minus1: "PTE_ADDR e \<noteq> -1"
proof
  assume "PTE_ADDR e = -1"
  then have "bit (PTE_ADDR e) 0" by simp
  then show False by (simp add: PTE_ADDR_pa_of bit_pa_of)
qed

lemma getReplacementPageAddressPhyMem_mapped:
  assumes "pte_at s d va = Some e" "0x80000 \<notin> pt_frames s d"
  shows "getReplacementPageAddressPhyMem (kva d) va s = PTE_ADDR e"
proof -
  have p: "present (mem s d (pdx va))" "mem s (pframe (mem s d (pdx va))) (ptx va) = e"
    using pte_at_pde [OF assms(1)] by auto
  then have "pframe (mem s d (pdx va)) \<noteq> 0x80000" using assms(2) by (auto simp: pt_frames_def)
  with p show ?thesis by (simp add: getReplacementPageAddressPhyMem_def walkpgdir_present)
qed

text \<open>C16: paging a page out under any of the three policies keeps the invariant, frees the
  victim's frame and a resident slot, and no user page changes its content.\<close>

theorem reallocatePageInDisk_ok:
  fixes s :: "'a vproc_scheme"
  assumes ok: "paging_ok s d xs" and v: "getReplacementPageIndexPhyMem ralgo opt (pagesInPhysicalMemory s) \<noteq> -1"
    and sp: "spaceAvialableInDisk s = 1"
  defines "va \<equiv> virtualAddress (pagesInPhysicalMemory s ! nat (getReplacementPageIndexPhyMem ralgo opt (pagesInPhysicalMemory s)))"
  shows "\<exists>s'. reallocatePageInDisk ralgo opt s = Ok (1, s') \<and>
    paging_ok s' d (kva (pframe (entry s d va)) # xs) \<and> paged_out (entry s' d va) \<and> spaceAvialableInMemory s' = 1 \<and>
    (\<forall>w. uva w \<longrightarrow> vpage s' d w = vpage s d w)"
proof -
  let ?s = "s\<lparr>pageFault := pageFault s + 1\<rparr>"
  have ok': "paging_ok ?s d xs"
    by (rule paging_ok_cong [OF ok]) (use paging_okD(1) [OF ok] in \<open>simp_all add: pt_ok_mem_cong entry_def pte_at_def pt_frames_def Let_def\<close>)
  note D = paging_okD [OF ok']
  obtain i where i: "getReplacementPageIndexPhyMem ralgo opt (pagesInPhysicalMemory ?s) = int i"
    "i < MAX_PYSC_PAGES" "isUsed (pagesInPhysicalMemory ?s ! i)"
    using victim_used [of ralgo opt "pagesInPhysicalMemory s"] v D(4) by auto
  have va: "va = virtualAddress (pagesInPhysicalMemory ?s ! i)" using i by (simp add: va_def)
  note R = resident_slotD [OF D(7) i(2,3), folded va]
  obtain j where j: "find_idx (\<lambda>p. \<not> isUsed p) (pagesInDisc ?s) = Some j"
    using sp by (auto simp: spaceAvialableInDisk_def split: option.splits)
  let ?p = "pagesInPhysicalMemory ?s ! i"
  let ?q = "(pagesInDisc ?s ! j)\<lparr>isUsed := True, pageDirectory := kva d, virtualAddress := va, timer := 0,
     ageCounter := 0, isImportant := isImportant ?p\<rparr>"
  have e: "entry ?s d va = entry s d va" by (simp add: entry_def pte_at_def Let_def)
  have ad: "getReplacementPageAddressPhyMem (kva d) va ?s = PTE_ADDR (entry ?s d va)"
    using entry_present_pte_at [OF R(3)] D(1) by (intro getReplacementPageAddressPhyMem_mapped) (auto simp: pt_ok_def)
  have q: "isUsed ?q" "pageDirectory ?q = kva d" "virtualAddress ?q = va" by simp_all
  obtain s1 s' where po: "writeToSwapFile va (4096 * j) 4096 ?s = Ok (4096, s1)"
    "pagesInDisc s1 = pagesInDisc ?s"
    "clearPagePhyMem (kva d) va i (PTE_ADDR (entry ?s d va)) (s1\<lparr>pagesInDisc := (pagesInDisc ?s)[j := ?q]\<rparr>) = Ok s'"
    "paging_ok s' d (kva (pframe (entry ?s d va)) # xs)" "\<And>w. uva w \<Longrightarrow> vpage s' d w = vpage ?s d w"
    "\<And>w. uva w \<Longrightarrow> entry s' d w = (if w = va then swapped_entry (entry ?s d va) else entry ?s d w)"
    "pagesInPhysicalMemory s' = (pagesInPhysicalMemory ?s)[i := ?p\<lparr>isUsed := False\<rparr>]"
    by (rule page_out_core [OF ok' i(2,3) j, of ?q, folded va, OF q]) (rule that; assumption)
  have run: "reallocatePageInDisk ralgo opt s = Ok (1, s')"
    using i(1) ad PTE_ADDR_not_minus1 [of "entry s d va"] j po(1-3) R(1) e va
    by (simp add: reallocatePageInDisk_def Let_def getAvailablePageIndexDisk_def)
  have free: "spaceAvialableInMemory s' = 1"
  proof -
    have "\<not> isUsed (pagesInPhysicalMemory s' ! i)" "i < length (pagesInPhysicalMemory s')"
      using po(7) i(2) D(4) by simp_all
    then have "find_idx (\<lambda>p. \<not> isUsed p) (pagesInPhysicalMemory s') \<noteq> None"
      unfolding find_idx_None using nth_mem by blast
    then show ?thesis by (auto simp: spaceAvialableInMemory_def split: option.splits)
  qed
  have vs: "vpage ?s d w = vpage s d w" for w
    by (rule vpage_cong) (simp_all add: entry_def pte_at_def Let_def)
  show ?thesis
    using run po(4,5,6) R(2) swapped_entry(1) free vs e by (intro exI [of _ s']) simp
qed

lemma retrieve_swap_ok:
  fixes s :: "'a vproc_scheme"
  assumes ok: "paging_ok s d xs" and g: "fresh_frame s d xs g" and va: "uva va" "paged_out (entry s d va)"
    and v: "getReplacementPageIndexPhyMem ralgo opt (pagesInPhysicalMemory s) \<noteq> -1"
    and sp: "spaceAvialableInDisk s = 1" and bl: "length (buffer s) = 4096"
  defines "vic \<equiv> virtualAddress (pagesInPhysicalMemory s ! nat (getReplacementPageIndexPhyMem ralgo opt (pagesInPhysicalMemory s)))"
  obtains t where "retrieve_swap ralgo opt va (kva g) s = Ok (1, t)" "paging_ok t d (kva (pframe (entry s d vic)) # xs)"
    "\<And>w. uva w \<Longrightarrow> vpage t d w = vpage s d w" "user_pte (entry t d va)"
proof -
  note D = paging_okD [OF ok]
  obtain i where i: "getReplacementPageIndexPhyMem ralgo opt (pagesInPhysicalMemory s) = int i"
    "i < MAX_PYSC_PAGES" "isUsed (pagesInPhysicalMemory s ! i)"
    using victim_used [of ralgo opt "pagesInPhysicalMemory s"] v D(4) by auto
  have vic: "vic = virtualAddress (pagesInPhysicalMemory s ! i)" using i by (simp add: vic_def)
  note R = resident_slotD [OF D(7) i(2,3), folded vic]
  obtain j where j: "find_idx (\<lambda>p. \<not> isUsed p) (pagesInDisc s) = Some j"
    using sp by (auto simp: spaceAvialableInDisk_def split: option.splits)
  let ?q = "(pagesInDisc s ! j)\<lparr>isUsed := True, pageDirectory := kva d, virtualAddress := vic, timer := 0\<rparr>"
  let ?f = "pframe (entry s d vic)"
  have q: "isUsed ?q" "pageDirectory ?q = kva d" "virtualAddress ?q = vic" by simp_all
  have ad: "getReplacementPageAddressPhyMem (kva d) vic s = PTE_ADDR (entry s d vic)"
    using entry_present_pte_at [OF R(3)] D(1) by (intro getReplacementPageAddressPhyMem_mapped) (auto simp: pt_ok_def)
  obtain s1 s3 where po: "writeToSwapFile vic (4096 * j) 4096 s = Ok (4096, s1)"
    "pagesInDisc s1 = pagesInDisc s"
    "clearPagePhyMem (kva d) vic i (PTE_ADDR (entry s d vic)) (s1\<lparr>pagesInDisc := (pagesInDisc s)[j := ?q]\<rparr>) = Ok s3"
    "paging_ok s3 d (kva ?f # xs)" "\<And>w. uva w \<Longrightarrow> vpage s3 d w = vpage s d w"
    "\<And>w. uva w \<Longrightarrow> entry s3 d w = (if w = vic then swapped_entry (entry s d vic) else entry s d w)"
    "pagesInPhysicalMemory s3 = (pagesInPhysicalMemory s)[i := (pagesInPhysicalMemory s ! i)\<lparr>isUsed := False\<rparr>]"
    "pt_frames s3 d = pt_frames s d" "kend s3 = kend s" "buffer s3 = buffer s"
    by (rule page_out_core [OF ok i(2,3) j, of ?q, folded vic, OF q]) (rule that; assumption)
  have va_vic: "va \<noteq> vic" using va(2) R(3) by (auto simp: paged_out_def)
  have e3: "entry s3 d va = entry s d va" using po(6) [OF va(1)] va_vic by simp
  have g3: "fresh_frame s3 d (kva ?f # xs) g"
    using g R(2,3) po(6) swapped_entry(3) unfolding fresh_frame_def po(8) valid_page_cong [OF po(9)]
    by (auto split: if_splits)
  note D3 = paging_okD [OF po(4)]
  have va3: "paged_out (entry s3 d va)" using va(2) e3 by simp
  obtain k where k: "slot_of s3 va = Some k" "4096 * (k + 1) \<le> length (swapFile s3)" "pframe (entry s3 d va) = 0"
    "k < MAX_TOTAL_PAGES - MAX_PYSC_PAGES"
    using disc_paged_out [OF D3(8) va(1) va3] by metis
  note re = resident_entry [OF k(3), of g]
  obtain s4 where s4: "mark_resident va (kva g) s3 = Ok s4" "pt_ok s4 d (kva ?f # xs)" "pt_frames s4 d = pt_frames s3 d" "kend s4 = kend s3"
    "\<And>w. entry s4 d w = (if vpn w = vpn va then resident_entry (entry s3 d va) (kva g) else entry s3 d w)"
    "\<And>f. f \<notin> pt_frames s3 d \<Longrightarrow> mem s4 f = mem s3 f" "cr3 s4 = cr3 s3" "phys.more s4 = phys.more s3"
    using mark_resident_ok [OF D3(1,2,3) va3 k(3), of g] by metis
  note mc = vproc_more_cong [OF s4(8)]
  let ?bs = "swap_page (swapFile s3) k"
  have len: "length ?bs = 4096" by (rule length_swap_page [OF k(2)])
  have gx: "g \<notin> pt_frames s3 d" "g \<notin> frames (kva ?f # xs)" "kva g \<noteq> 0" using g3 by (auto simp: fresh_frame_def)
  let ?ph = "(pagesInPhysicalMemory s3)[i := (pagesInDisc s3 ! k)\<lparr>timer := ptimer s3\<rparr>]"
  let ?dc = "(pagesInDisc s3)[k := (pagesInDisc s3 ! k)\<lparr>isUsed := False\<rparr>]"
  define s7 where "s7 = s4\<lparr>buffer := ?bs, pagesInPhysicalMemory := ?ph, ptimer := ptimer s3 + 1, pagesInDisc := ?dc\<rparr>"
  define t where "t = store_bytes (kva g) ?bs s7"
  have run: "retrieve_swap ralgo opt va (kva g) s = Ok (1, t)"
    using i(1) ad PTE_ADDR_not_minus1 [of "entry s d vic"] j po(1-3) R(1) vic s4(1) k(1) gx(3) mc po(10) len bl
      readFromSwapFile_slot [of k s4] k(2)
    by (simp add: retrieve_swap_def Let_def getAvailablePageIndexDisk_def slot_of_def t_def s7_def)
  have m7: "mem s7 = mem s4" by (simp add: s7_def)
  have p7: "pt_ok s7 d (kva ?f # xs)" using s4(2) by (rule pt_ok_mem_cong) (simp_all add: s7_def)
  note c7 = phys_fields_cong [OF m7]
  note sf = store_page_frames [OF len]
  have mt: "mem t f = mem s4 f" if "f \<noteq> g" for f using sf(1) [OF that, of s7] m7 by (simp add: t_def)
  have fl: "freelist t = freelist s7" "kend t = kend s7" by (simp_all add: t_def)
  have "mem t f = mem s7 f" if "f \<in> pt_frames s7 d \<union> frames (kva ?f # xs)" for f
    using that gx(1,2) s4(3) c7(3) m7 by (subst mt) auto
  note pt = pt_ok_frames_cong [OF p7 this fl]
  have "phys.more t = phys.more s7" by (simp add: t_def)
  note mt7 = vproc_more_cong [OF this]
  have i3: "\<not> isUsed (pagesInPhysicalMemory s3 ! i)" using po(7) i(2) D(4) by simp
  have rest: "pgdir t = pgdir s3" "cr3 t = cr3 s3" "kend t = kend s3" "pt_frames t d = pt_frames s3 d"
    "\<And>w. entry t d w = (if vpn w = vpn va then resident_entry (entry s3 d va) (kva g) else entry s3 d w)"
    "page_bytes t g = ?bs" "\<And>f. f \<notin> pt_frames s3 d \<Longrightarrow> f \<noteq> g \<Longrightarrow> mem t f = mem s3 f"
    "swapFile t = swapFile s3" "pagesInDisc t = ?dc" "pagesInPhysicalMemory t = ?ph"
    using mt7 mc s4 pt c7 mt sf(2) [of g s7] by (auto simp: s7_def t_def)
  have core: "paging_ok t d (kva ?f # xs)" "\<And>w. uva w \<Longrightarrow> vpage t d w = vpage s3 d w"
    "entry t d va = resident_entry (entry s3 d va) (kva g)"
    using page_in_core [OF po(4) g3 va(1) va3 k(1) i(2) i3 pt(1) rest] by auto
  show ?thesis
  proof (rule that [OF run core(1)])
    show "vpage t d w = vpage s d w" if "uva w" for w using core(2) [OF that] po(5) [OF that] by simp
    show "user_pte (entry t d va)" using core(3) re(4) by simp
  qed
qed

lemma retrievePage_serves:
  fixes s :: "'a vproc_scheme"
  assumes ok: "paging_ok s d (x # xs)" and va: "uva (PGROUNDDOWN cr2)" "paged_out (entry s d (PGROUNDDOWN cr2))"
    and room: "spaceAvialableInMemory s = 1 \<or>
      spaceAvialableInDisk s = 1 \<and> getReplacementPageIndexPhyMem ralgo opt (pagesInPhysicalMemory s) \<noteq> -1"
    and bl: "length (buffer s) = 4096"
  shows "\<exists>t ys. retrievePage ralgo opt cr2 s = Ok (1, t) \<and> paging_ok t d ys \<and>
    user_pte (entry t d (PGROUNDDOWN cr2)) \<and> (\<forall>w. uva w \<longrightarrow> vpage t d w = vpage s d w)"
proof -
  let ?va = "PGROUNDDOWN cr2"
  define s1 where "s1 = (memset_page x 0 (s\<lparr>freelist := load32 s x\<rparr>))\<lparr>pageFault := pageFault s + 1\<rparr>"
  note fa = fault_alloc [OF ok, folded s1_def]
  have fields: "pagesInPhysicalMemory s1 = pagesInPhysicalMemory s" "pagesInDisc s1 = pagesInDisc s" "buffer s1 = buffer s"
    by (simp_all add: s1_def memset_page_def Let_def)
  have run: "retrievePage ralgo opt cr2 s = (case find_idx (\<lambda>p. \<not> isUsed p) (pagesInPhysicalMemory s1) of
      Some ppn \<Rightarrow> retrieve_room ?va x ppn s1 | None \<Rightarrow> retrieve_swap ralgo opt ?va x s1)"
  proof -
    have pf: "pageFault (memset_page x 0 (s\<lparr>freelist := load32 s x\<rparr>)) = pageFault s"
      by (simp add: memset_page_def Let_def)
    show ?thesis
      unfolding retrievePage_def Let_def fa(1) prod.case kptr_nonzero [OF fa(2)] bindR.simps pf s1_def [symmetric] ..
  qed
  have va1: "paged_out (entry s1 d ?va)" using va(2) fa(7) by simp
  show ?thesis
  proof (cases "find_idx (\<lambda>p. \<not> isUsed p) (pagesInPhysicalMemory s1)")
    case (Some i)
    obtain t where "retrieve_room ?va (kva (vframe x)) i s1 = Ok (1, t)" "paging_ok t d xs"
      "\<And>w. uva w \<Longrightarrow> vpage t d w = vpage s1 d w" "user_pte (entry t d ?va)"
      using retrieve_room_ok [OF fa(4,5) va(1) va1 Some] by metis
    with run Some fa(3,6) show ?thesis by (intro exI [of _ t] exI [of _ xs]) simp
  next
    case None
    then have "spaceAvialableInDisk s1 = 1" "getReplacementPageIndexPhyMem ralgo opt (pagesInPhysicalMemory s1) \<noteq> -1"
      using room fields by (auto simp: spaceAvialableInMemory_def spaceAvialableInDisk_def)
    moreover have "length (buffer s1) = 4096" using bl fields by simp
    ultimately obtain t ys where "retrieve_swap ralgo opt ?va (kva (vframe x)) s1 = Ok (1, t)" "paging_ok t d ys"
      "\<And>w. uva w \<Longrightarrow> vpage t d w = vpage s1 d w" "user_pte (entry t d ?va)"
      using retrieve_swap_ok [OF fa(4,5) va(1) va1, of ralgo opt] by metis
    with run None fa(3,6) show ?thesis by (intro exI [of _ t] exI [of _ ys]) simp
  qed
qed


end
