(* ===== verification/Uvm.thy ===== *)
theory Uvm
  imports Paging
begin

text \<open>
  Address spaces (vm.c): building the kernel half of a page table, growing and shrinking the
  user half under the page limits, releasing a table, copying one for fork, loading a program
  segment, and \<^verbatim>\<open>growproc\<close> (proc.c). The state is the one of the current process;
  \<^verbatim>\<open>ralgo\<close> and \<^verbatim>\<open>opt\<close> are the build flags of the replacement policy.
\<close>

record uproc = vproc +
  psz :: u32
  kstack :: u32
  tf_eip :: u32
  tf_esp :: u32
  pname :: "u8 list"

section \<open>Shrinking and releasing\<close>

text \<open>The loop of \<^verbatim>\<open>deallocuvm\<close>. If the next address is not above this one it has wrapped,
  and the loop starts over on entries it has cleared: it never ends.\<close>

function deallocuvm_loop :: "u32 \<Rightarrow> u32 \<Rightarrow> u32 \<Rightarrow> 'a vproc_scheme \<Rightarrow> 'a vproc_scheme res" where
  "deallocuvm_loop dir a oldsz s =
     (if a < oldsz
      then let (pte, s1) = walkpgdir dir a False s;
               next = (if pte = 0 then PGADDR (PDX a + 1) 0 0 - PGSIZE else a) + PGSIZE
           in bindR
             (if pte = 0 then Ok s1
              else let e = load32 s1 pte
                   in if e AND PTE_P \<noteq> 0
                      then let pa = PTE_ADDR e
                           in if pa = 0 then Panic ''kfree''
                              else bindR (kfree (P2V pa) s1) (\<lambda>s2.
                                Ok (store32 pte 0 (removePhysicalPageMetaData dir a s2)))
                      else if e AND PTE_PG \<noteq> 0
                      then Ok (store32 pte 0 (removeDiscMetaData dir a s1))
                      else Ok s1)
             (\<lambda>s3. if next \<le> a then Hang else deallocuvm_loop dir next oldsz s3)
      else Ok s)"
  by pat_completeness auto
termination
  by (relation "measure (\<lambda>(dir, a, oldsz, s). unat oldsz - unat a)")
    (auto simp: word_less_nat_alt word_le_nat_alt)

declare deallocuvm_loop.simps [simp del]

definition deallocuvm :: "u32 \<Rightarrow> u32 \<Rightarrow> u32 \<Rightarrow> 'a vproc_scheme \<Rightarrow> (u32 \<times> 'a vproc_scheme) res" where
  "deallocuvm dir oldsz newsz s =
     (if newsz \<ge> oldsz then Ok (oldsz, s)
      else bindR (deallocuvm_loop dir (PGROUNDUP newsz) oldsz s) (\<lambda>s1. Ok (newsz, s1)))"

fun freevm_loop :: "u32 \<Rightarrow> u32 list \<Rightarrow> 'a vproc_scheme \<Rightarrow> 'a vproc_scheme res" where
  "freevm_loop dir [] s = Ok s"
| "freevm_loop dir (i # is) s =
     (let pde = load32 s (dir + 4 * i)
      in if pde AND PTE_P \<noteq> 0
         then bindR (kfree (P2V (PTE_ADDR pde)) s) (freevm_loop dir is)
         else freevm_loop dir is s)"

definition freevm :: "u32 \<Rightarrow> 'a vproc_scheme \<Rightarrow> 'a vproc_scheme res" where
  "freevm dir s =
     (if dir = 0 then Panic ''freevm: no pgdir''
      else bindR (deallocuvm dir KERNBASE 0 s) (\<lambda>(_, s1).
           bindR (freevm_loop dir (map of_nat [0 ..< 1024]) s1) (\<lambda>s2. kfree dir s2)))"

section \<open>The kernel half\<close>

text \<open>\<^verbatim>\<open>kmap\<close>; \<open>kdata\<close> is the linker symbol \<^verbatim>\<open>data\<close>.\<close>

definition kmap :: "u32 \<Rightarrow> (u32 \<times> u32 \<times> u32 \<times> u32) list" where
  "kmap kdata =
     [(KERNBASE, 0, EXTMEM, PTE_W),
      (KERNLINK, V2P KERNLINK, V2P kdata, 0),
      (kdata, V2P kdata, PHYSTOP, PTE_W),
      (DEVSPACE, DEVSPACE, 0, PTE_W)]"

fun setupkvm_loop :: "u32 \<Rightarrow> (u32 \<times> u32 \<times> u32 \<times> u32) list \<Rightarrow> 'a vproc_scheme \<Rightarrow> (u32 \<times> 'a vproc_scheme) res" where
  "setupkvm_loop dir [] s = Ok (dir, s)"
| "setupkvm_loop dir ((virt, start, en, perm) # ks) s =
     bindR (mappages dir virt (en - start) start perm s) (\<lambda>(r, s1).
       if r < 0 then bindR (freevm dir s1) (\<lambda>s2. Ok (0, s2))
       else setupkvm_loop dir ks s1)"

definition setupkvm :: "u32 \<Rightarrow> 'a vproc_scheme \<Rightarrow> (u32 \<times> 'a vproc_scheme) res" where
  "setupkvm kdata s =
     (let (dir, s1) = kalloc s
      in if dir = 0 then Ok (0, s1)
         else if P2V PHYSTOP > DEVSPACE then Panic ''PHYSTOP too high''
         else setupkvm_loop dir (kmap kdata) (memset_page dir 0 s1))"

definition switchkvm :: "u32 \<Rightarrow> 'a phys_scheme \<Rightarrow> 'a phys_scheme" where
  "switchkvm kpgdir s = s\<lparr>cr3 := V2P kpgdir\<rparr>"

definition kvmalloc :: "u32 \<Rightarrow> 'a vproc_scheme \<Rightarrow> (u32 \<times> 'a vproc_scheme) res" where
  "kvmalloc kdata s = bindR (setupkvm kdata s) (\<lambda>(kpgdir, s1). Ok (kpgdir, switchkvm kpgdir s1))"

text \<open>The effect of \<^verbatim>\<open>switchuvm\<close> on the address space; the segment it loads for the next
  trap holds only constants and the kernel stack.\<close>

definition switchuvm :: "'a uproc_scheme \<Rightarrow> 'a uproc_scheme res" where
  "switchuvm s =
     (if kstack s = 0 then Panic ''switchuvm: no kstack''
      else if pgdir s = 0 then Panic ''switchuvm: no pgdir''
      else Ok (s\<lparr>cr3 := V2P (pgdir s)\<rparr>))"

section \<open>Growing\<close>

text \<open>One page of \<^verbatim>\<open>allocuvm\<close>'s loop: the page is tracked in a free resident slot, or a victim
  is paged out to make one. When that fails the page stays mapped and untracked.\<close>

definition track_page :: "nat \<Rightarrow> nat \<Rightarrow> u32 \<Rightarrow> u32 \<Rightarrow> int \<Rightarrow> 'a vproc_scheme \<Rightarrow> 'a vproc_scheme res" where
  "track_page ralgo opt dir a imp s =
     (if cpid s > 0
      then if spaceAvialableInMemory s \<noteq> 0 then Ok (updatePhysicalPageMetaData dir a imp s)
           else bindR (reallocatePageInDisk ralgo opt s) (\<lambda>(r, s1).
                if r \<noteq> -1 then Ok (updatePhysicalPageMetaData dir a imp s1) else Ok s1)
      else Ok s)"

function allocuvm_loop ::
  "nat \<Rightarrow> nat \<Rightarrow> u32 \<Rightarrow> u32 \<Rightarrow> u32 \<Rightarrow> u32 \<Rightarrow> int \<Rightarrow> 'a vproc_scheme \<Rightarrow> (u32 \<times> 'a vproc_scheme) res" where
  "allocuvm_loop ralgo opt dir a oldsz newsz imp s =
     (if a < newsz
      then let (m, s1) = kalloc s
           in if m = 0
              then bindR (deallocuvm dir newsz oldsz s1) (\<lambda>(_, s2). Ok (0, s2))
              else bindR (mappages dir a PGSIZE (V2P m) (PTE_W OR PTE_U) (memset_page m 0 s1)) (\<lambda>(r, s2).
                   if r < 0
                   then bindR (deallocuvm dir newsz oldsz s2) (\<lambda>(_, s3).
                        bindR (kfree m s3) (\<lambda>s4. Ok (0, s4)))
                   else bindR (track_page ralgo opt dir a imp s2) (\<lambda>s3.
                        if a + PGSIZE \<le> a then Hang
                        else allocuvm_loop ralgo opt dir (a + PGSIZE) oldsz newsz imp s3))
      else Ok (newsz, s))"
  by pat_completeness auto
termination
  by (relation "measure (\<lambda>(ralgo, opt, dir, a, oldsz, newsz, imp, s). unat newsz - unat a)")
    (auto simp: word_less_nat_alt word_le_nat_alt)

declare allocuvm_loop.simps [simp del]

definition allocuvm ::
  "nat \<Rightarrow> nat \<Rightarrow> u32 \<Rightarrow> u32 \<Rightarrow> u32 \<Rightarrow> int \<Rightarrow> 'a vproc_scheme \<Rightarrow> (u32 \<times> 'a vproc_scheme) res" where
  "allocuvm ralgo opt dir oldsz newsz imp s =
     (if newsz \<ge> KERNBASE then Ok (0, s)
      else if newsz < oldsz then Ok (oldsz, s)
      else if spaceAvialableInMemory s = 0 \<and> spaceAvialableInDisk s = 0 then Ok (0, s)
      else allocuvm_loop ralgo opt dir (PGROUNDUP oldsz) oldsz newsz imp s)"

definition growproc :: "nat \<Rightarrow> nat \<Rightarrow> int \<Rightarrow> 'a uproc_scheme \<Rightarrow> (int \<times> 'a uproc_scheme) res" where
  "growproc ralgo opt n s =
     (let sz = psz s
      in bindR
        (if n > 0 then allocuvm ralgo opt (pgdir s) sz (sz + of_int n) 0 s
         else if n < 0 then deallocuvm (pgdir s) sz (sz + of_int n) s
         else Ok (sz, s))
        (\<lambda>(sz', s1).
          if n \<noteq> 0 \<and> sz' = 0 then Ok (-1, s1)
          else bindR (switchuvm (s1\<lparr>psz := sz'\<rparr>)) (\<lambda>s2. Ok (0, s2))))"

section \<open>Copying an address space\<close>

function copyuvm_loop :: "u32 \<Rightarrow> u32 \<Rightarrow> u32 \<Rightarrow> u32 \<Rightarrow> 'a vproc_scheme \<Rightarrow> (u32 \<times> 'a vproc_scheme) res" where
  "copyuvm_loop dir d i sz s =
     (if i < sz
      then let (pte, s1) = walkpgdir dir i False s
           in if pte = 0 then Panic ''copyuvm: pte should exist''
              else let e = load32 s1 pte;
                       next = (\<lambda>s2. if i + PGSIZE \<le> i then Hang else copyuvm_loop dir d (i + PGSIZE) sz s2)
                   in if e AND PTE_PG \<noteq> 0
                      then let (cpte, s2) = walkpgdir d i False s1
                           in if cpte = 0 then Panic ''PTE of swapped page is missing''
                              else let e1 = load32 s2 cpte OR PTE_PG;
                                       e2 = e1 AND NOT PTE_P
                                   in next ((store32 cpte (e2 AND PTE_FLAGS e2) s2)\<lparr>cr3 := V2P (pgdir s2)\<rparr>)
                      else if e AND PTE_P = 0 then Panic ''copyuvm: page not present''
                      else let (m, s2) = kalloc s1
                           in if m = 0 then bindR (freevm d s2) (\<lambda>s3. Ok (0, s3))
                              else bindR (mappages d i PGSIZE (V2P m) (PTE_FLAGS e) (memmove_page m (P2V (PTE_ADDR e)) s2)) (\<lambda>(r, s3).
                                   if r < 0
                                   then bindR (kfree m s3) (\<lambda>s4. bindR (freevm d s4) (\<lambda>s5. Ok (0, s5)))
                                   else next s3)
      else Ok (d, s))"
  by pat_completeness auto
termination
  by (relation "measure (\<lambda>(dir, d, i, sz, s). unat sz - unat i)")
    (auto simp: word_less_nat_alt word_le_nat_alt)

declare copyuvm_loop.simps [simp del]

definition copyuvm :: "u32 \<Rightarrow> u32 \<Rightarrow> u32 \<Rightarrow> 'a vproc_scheme \<Rightarrow> (u32 \<times> 'a vproc_scheme) res" where
  "copyuvm kdata dir sz s =
     bindR (setupkvm kdata s) (\<lambda>(d, s1). if d = 0 then Ok (0, s1) else copyuvm_loop dir d 0 sz s1)"

section \<open>Loading a program segment\<close>

text \<open>What \<^verbatim>\<open>readi\<close> delivers from a file with content \<open>c\<close>; the model of \<^verbatim>\<open>readi\<close> itself is in
  the theory of the file system.\<close>

definition file_read :: "u8 list \<Rightarrow> u32 \<Rightarrow> u32 \<Rightarrow> u8 list option" where
  "file_read c off n =
     (if unat off > length c \<or> off + n < off then None
      else Some (take (unat n) (drop (unat off) c)))"

function loaduvm_loop :: "u32 \<Rightarrow> u32 \<Rightarrow> u8 list \<Rightarrow> u32 \<Rightarrow> u32 \<Rightarrow> u32 \<Rightarrow> 'a phys_scheme \<Rightarrow> (int \<times> 'a phys_scheme) res" where
  "loaduvm_loop dir addr ip offset sz i s =
     (if i < sz
      then let (pte, s1) = walkpgdir dir (addr + i) False s
           in if pte = 0 then Panic ''loaduvm: address should exist''
              else let pa = PTE_ADDR (load32 s1 pte);
                       n = (if sz - i < PGSIZE then sz - i else PGSIZE)
                   in case file_read ip (offset + i) n of
                        None \<Rightarrow> Ok (-1, s1)
                      | Some bs \<Rightarrow>
                          let s2 = store_bytes (P2V pa) bs s1
                          in if length bs \<noteq> unat n then Ok (-1, s2)
                             else if i + PGSIZE \<le> i then Hang
                             else loaduvm_loop dir addr ip offset sz (i + PGSIZE) s2
      else Ok (0, s))"
  by pat_completeness auto
termination
  by (relation "measure (\<lambda>(dir, addr, ip, offset, sz, i, s). unat sz - unat i)")
    (auto simp: word_less_nat_alt word_le_nat_alt)

declare loaduvm_loop.simps [simp del]

definition loaduvm :: "u32 \<Rightarrow> u32 \<Rightarrow> u8 list \<Rightarrow> u32 \<Rightarrow> u32 \<Rightarrow> 'a phys_scheme \<Rightarrow> (int \<times> 'a phys_scheme) res" where
  "loaduvm dir addr ip offset sz s =
     (if addr mod PGSIZE \<noteq> 0 then Panic ''loaduvm: addr must be page aligned''
      else loaduvm_loop dir addr ip offset sz 0 s)"

end
