(* ===== verification/Proc.thy ===== *)
theory Proc
  imports Uvm
begin

text \<open>
  Processes (proc.c of Offline 4): the process table, \<^verbatim>\<open>allocproc\<close>, \<^verbatim>\<open>userinit\<close>,
  \<^verbatim>\<open>fork\<close> with its copy of the page metadata and of the swap file, \<^verbatim>\<open>exit\<close>,
  \<^verbatim>\<open>wait\<close>, the round-robin scheduler, \<^verbatim>\<open>sched\<close>, \<^verbatim>\<open>yield\<close>, \<^verbatim>\<open>sleep\<close>,
  \<^verbatim>\<open>wakeup\<close> and \<^verbatim>\<open>kill\<close>. Each critical section of \<^verbatim>\<open>ptable.lock\<close> is one operation. A
  process is named by its index in the table, a processor by its number. Calls into the file
  layer (open files, inodes, swap file on disk) are recorded in order in \<open>calls\<close>; their own
  models are in the theories of that layer.
\<close>

section \<open>State\<close>

datatype channel = ChProc nat | ChTicks | ChAddr nat

datatype fcall = Filedup nat | Fileclose nat | Idup nat | Iput nat | Begin_op | End_op
  | CreateSwapFile int | RemoveSwapFile int

record trapframe =
  tf_eax :: u32
  tf_eip0 :: u32
  tf_esp0 :: u32
  tf_cs :: u32
  tf_ds :: u32
  tf_eflags :: u32

record proc =
  p_sz :: u32
  p_pgdir :: u32
  p_kstack :: u32
  p_state :: procstate
  p_pid :: int
  p_parent :: "nat option"
  p_tf :: trapframe
  p_chan :: "channel option"
  p_killed :: bool
  p_ofile :: "nat option list"
  p_cwd :: "nat option"
  p_name :: "u8 list"
  p_swap :: "u8 list"
  p_phys :: "pageData list"
  p_disc :: "pageData list"
  p_timer :: int
  p_pageFault :: nat

record kern = phys +
  ptable :: "proc list"
  nextpid :: int
  initproc :: "nat option"
  running :: "nat \<Rightarrow> nat option"
  kbuffer :: "u8 list"
  calls :: "fcall list"

abbreviation NPROC :: nat where "NPROC \<equiv> 64"
abbreviation NOFILE :: nat where "NOFILE \<equiv> 16"

definition upd_proc :: "nat \<Rightarrow> (proc \<Rightarrow> proc) \<Rightarrow> kern \<Rightarrow> kern" where
  "upd_proc i f k = k\<lparr>ptable := (ptable k)[i := f (ptable k ! i)]\<rparr>"

definition call :: "fcall \<Rightarrow> kern \<Rightarrow> kern" where
  "call c k = k\<lparr>calls := calls k @ [c]\<rparr>"

text \<open>The address-space operations run on behalf of a process: its fields and the memory as
  their state, and the result put back.\<close>

definition view :: "nat \<Rightarrow> kern \<Rightarrow> uproc" where
  "view i k =
     (let p = ptable k ! i
      in \<lparr>mem = mem k, freelist = freelist k, kend = kend k, cr3 = cr3 k,
          cpid = p_pid p, pgdir = p_pgdir p, pagesInPhysicalMemory = p_phys p, pagesInDisc = p_disc p,
          ptimer = p_timer p, pageFault = p_pageFault p, swapFile = p_swap p, buffer = kbuffer k,
          psz = p_sz p, kstack = p_kstack p, tf_eip = tf_eip0 (p_tf p), tf_esp = tf_esp0 (p_tf p),
          pname = p_name p\<rparr>)"

definition put :: "nat \<Rightarrow> uproc \<Rightarrow> kern \<Rightarrow> kern" where
  "put i v k =
     upd_proc i (\<lambda>p. p\<lparr>p_pgdir := pgdir v, p_phys := pagesInPhysicalMemory v, p_disc := pagesInDisc v,
         p_timer := ptimer v, p_pageFault := pageFault v, p_swap := swapFile v, p_sz := psz v,
         p_tf := (p_tf p)\<lparr>tf_eip0 := tf_eip v, tf_esp0 := tf_esp v\<rparr>, p_name := pname v\<rparr>)
       (k\<lparr>mem := mem v, freelist := freelist v, cr3 := cr3 v, kbuffer := buffer v\<rparr>)"

section \<open>Allocating a process\<close>

definition unused_all :: "pageData list \<Rightarrow> pageData list" where
  "unused_all ps = map (\<lambda>p. p\<lparr>isUsed := False\<rparr>) ps"

definition allocproc :: "kern \<Rightarrow> nat option \<times> kern" where
  "allocproc k =
     (case find_idx (\<lambda>p. p_state p = UNUSED) (ptable k) of
        None \<Rightarrow> (None, k)
      | Some i \<Rightarrow>
          let k1 = (upd_proc i (\<lambda>p. p\<lparr>p_state := EMBRYO, p_pid := nextpid k\<rparr>) k)\<lparr>nextpid := nextpid k + 1\<rparr>;
              (stack, k2) = kalloc k1;
              k3 = upd_proc i (\<lambda>p. p\<lparr>p_kstack := stack\<rparr>) k2
          in if stack = 0 then (None, upd_proc i (\<lambda>p. p\<lparr>p_state := UNUSED\<rparr>) k3)
             else let k4 = upd_proc i (\<lambda>p. p\<lparr>p_timer := 0, p_pageFault := 0\<rparr>) k3;
                      pid = p_pid (ptable k4 ! i);
                      k5 = (if pid > 2 then call (CreateSwapFile pid) (upd_proc i (\<lambda>p. p\<lparr>p_swap := []\<rparr>) k4) else k4)
                  in (Some i, upd_proc i (\<lambda>p. p\<lparr>p_phys := unused_all (p_phys p), p_disc := unused_all (p_disc p)\<rparr>) k5))"

text \<open>\<^verbatim>\<open>userinit\<close>: \<open>initcode\<close> is the linked-in program, \<open>rootino\<close> what
  \<^verbatim>\<open>namei("/")\<close> returns. An exhausted table is a null dereference.\<close>

definition userinit :: "u32 \<Rightarrow> u8 list \<Rightarrow> nat \<Rightarrow> kern \<Rightarrow> kern res" where
  "userinit kdata initcode rootino k =
     (case allocproc k of
        (None, k1) \<Rightarrow> Panic ''trap''
      | (Some i, k1) \<Rightarrow>
          let k2 = k1\<lparr>initproc := Some i\<rparr>
          in bindR (setupkvm kdata (view i k2)) (\<lambda>(d, v).
             let k3 = upd_proc i (\<lambda>p. p\<lparr>p_pgdir := d\<rparr>) (put i v k2)
             in if d = 0 then Panic ''userinit: out of memory?''
                else bindR (inituvm d initcode (view i k3)) (\<lambda>v1.
                let k4 = put i v1 k3
                in Ok (upd_proc i (\<lambda>p. p\<lparr>p_sz := PGSIZE,
                        p_tf := \<lparr>tf_eax = 0, tf_eip0 = 0, tf_esp0 = PGSIZE, tf_cs = (3 * 8) OR 3,
                                 tf_ds = (4 * 8) OR 3, tf_eflags = 0x200\<rparr>,
                        p_name := map (\<lambda>c. of_nat c) [105, 110, 105, 116, 99, 111, 100, 101],
                        p_cwd := Some rootino, p_state := RUNNABLE\<rparr>) k4))))"

section \<open>fork\<close>

text \<open>\<^verbatim>\<open>writeToSwapFile\<close> from a kernel buffer: the chunks of \<^verbatim>\<open>filewrite\<close>.\<close>

function swap_put_loop :: "u8 list \<Rightarrow> nat \<Rightarrow> nat \<Rightarrow> u8 list \<Rightarrow> u8 list" where
  "swap_put_loop bs off i c =
     (if i < length bs
      then let n1 = min (length bs - i) 1536
           in if off > length c \<or> off + n1 > 71680 then c
              else swap_put_loop bs (off + n1) (i + n1) (take off c @ take n1 (drop i bs) @ drop (off + n1) c)
      else c)"
  by pat_completeness auto
termination
  by (relation "measure (\<lambda>(bs, off, i, c). length bs - i)") auto

declare swap_put_loop.simps [simp del]

text \<open>The copy of the swap file in \<^verbatim>\<open>fork\<close>: for every used disc slot the next half page,
  one after the other from offset 0 (a failed read moves the offset back by one).\<close>

fun fork_swap :: "pageData list \<Rightarrow> int \<Rightarrow> u8 list \<Rightarrow> u8 list \<Rightarrow> u8 list" where
  "fork_swap [] off psw csw = csw"
| "fork_swap (p # ps) off psw csw =
     (if isUsed p
      then if off < 0 \<or> nat off > length psw
           then fork_swap ps (off - 1) psw csw
           else let bs = take 2048 (drop (nat off) psw)
                in fork_swap ps (off + int (length bs)) psw (swap_put_loop bs (nat off) 0 csw)
      else fork_swap ps off psw csw)"

definition copy_meta :: "u32 \<Rightarrow> pageData list \<Rightarrow> pageData list" where
  "copy_meta dir ps = map (\<lambda>p. p\<lparr>pageDirectory := dir\<rparr>) ps"

fun dup_files :: "nat option list \<Rightarrow> kern \<Rightarrow> kern" where
  "dup_files [] k = k"
| "dup_files (None # fs) k = dup_files fs k"
| "dup_files (Some f # fs) k = dup_files fs (call (Filedup f) k)"

text \<open>The child's fields once it has its copy of the address space.\<close>

definition fork_open :: "nat \<Rightarrow> nat \<Rightarrow> kern \<Rightarrow> kern" where
  "fork_open np cur k =
     (let cp = ptable k ! cur;
          k3 = upd_proc np (\<lambda>p. p\<lparr>p_sz := p_sz cp, p_parent := Some cur,
                 p_tf := (p_tf cp)\<lparr>tf_eax := 0\<rparr>,
                 p_ofile := map (\<lambda>(o1, o2). if o1 \<noteq> None then o1 else o2) (zip (p_ofile cp) (p_ofile p))\<rparr>) k;
          k4 = dup_files (p_ofile cp) k3
      in (case p_cwd cp of Some c \<Rightarrow> call (Idup c) k4 | None \<Rightarrow> k4))"

definition fork_meta :: "proc \<Rightarrow> proc \<Rightarrow> proc" where
  "fork_meta cp p = p\<lparr>p_cwd := p_cwd cp, p_name := p_name cp, p_timer := p_timer cp, p_pageFault := 0,
     p_swap := (if p_pid cp > 2 then fork_swap (p_disc cp) 0 (p_swap cp) (p_swap p) else p_swap p),
     p_disc := copy_meta (p_pgdir p) (p_disc cp),
     p_phys := copy_meta (p_pgdir p) (p_phys cp),
     p_state := RUNNABLE\<rparr>"

definition fork_child :: "nat \<Rightarrow> nat \<Rightarrow> kern \<Rightarrow> kern" where
  "fork_child np cur k = upd_proc np (fork_meta (ptable k ! cur)) (fork_open np cur k)"

definition fork_undo :: "nat \<Rightarrow> kern \<Rightarrow> kern res" where
  "fork_undo np k = bindR (kfree (p_kstack (ptable k ! np)) k) (\<lambda>k.
     Ok (upd_proc np (\<lambda>p. p\<lparr>p_kstack := 0, p_state := UNUSED\<rparr>) k))"

definition fork :: "u32 \<Rightarrow> nat \<Rightarrow> kern \<Rightarrow> (int \<times> kern) res" where
  "fork kdata cur k =
     (case allocproc k of
        (None, k1) \<Rightarrow> Ok (-1, k1)
      | (Some np, k1) \<Rightarrow>
          let cp = ptable k1 ! cur
          in bindR (copyuvm kdata (p_pgdir cp) (p_sz cp) (view cur k1)) (\<lambda>(d, v).
             let k2 = upd_proc np (\<lambda>p. p\<lparr>p_pgdir := d\<rparr>) (put cur v k1)
             in if d = 0 then bindR (fork_undo np k2) (\<lambda>k. Ok (-1, k))
                else let k3 = fork_child np cur k2
                     in Ok (p_pid (ptable k3 ! np), k3)))"

section \<open>Sleep and wakeup\<close>

definition wakeup1 :: "channel \<Rightarrow> kern \<Rightarrow> kern" where
  "wakeup1 ch k =
     k\<lparr>ptable := map (\<lambda>p. if p_state p = SLEEPING \<and> p_chan p = Some ch then p\<lparr>p_state := RUNNABLE\<rparr> else p) (ptable k)\<rparr>"

definition wakeup :: "channel \<Rightarrow> kern \<Rightarrow> kern" where
  "wakeup ch k = wakeup1 ch k"

text \<open>\<^verbatim>\<open>sched\<close>, entered with only \<^verbatim>\<open>ptable.lock\<close> held: the processor goes back to its
  scheduler, which switches to the kernel page table.\<close>

definition sched :: "u32 \<Rightarrow> nat \<Rightarrow> kern \<Rightarrow> kern res" where
  "sched kpgdir c k =
     (case running k c of
        None \<Rightarrow> Panic ''trap''
      | Some i \<Rightarrow>
          if p_state (ptable k ! i) = RUNNING then Panic ''sched running''
          else Ok (k\<lparr>cr3 := V2P kpgdir, running := (running k)(c := None)\<rparr>))"

definition yield :: "u32 \<Rightarrow> nat \<Rightarrow> kern \<Rightarrow> kern res" where
  "yield kpgdir c k =
     (case running k c of
        None \<Rightarrow> Panic ''trap''
      | Some i \<Rightarrow> sched kpgdir c (upd_proc i (\<lambda>p. p\<lparr>p_state := RUNNABLE\<rparr>) k))"

text \<open>The part of \<^verbatim>\<open>sleep\<close> before the switch, and the part after it.\<close>

definition sleep_on :: "u32 \<Rightarrow> nat \<Rightarrow> channel \<Rightarrow> kern \<Rightarrow> kern res" where
  "sleep_on kpgdir c ch k =
     (case running k c of
        None \<Rightarrow> Panic ''sleep''
      | Some i \<Rightarrow> sched kpgdir c (upd_proc i (\<lambda>p. p\<lparr>p_chan := Some ch, p_state := SLEEPING\<rparr>) k))"

definition sleep_return :: "nat \<Rightarrow> kern \<Rightarrow> kern" where
  "sleep_return i k = upd_proc i (\<lambda>p. p\<lparr>p_chan := None\<rparr>) k"

definition kill :: "int \<Rightarrow> kern \<Rightarrow> int \<times> kern" where
  "kill pid k =
     (case find_idx (\<lambda>p. p_pid p = pid) (ptable k) of
        None \<Rightarrow> (-1, k)
      | Some i \<Rightarrow> (0, upd_proc i (\<lambda>p. p\<lparr>p_killed := True,
          p_state := (if p_state p = SLEEPING then RUNNABLE else p_state p)\<rparr>) k))"

section \<open>exit and wait\<close>

fun close_files :: "nat option list \<Rightarrow> kern \<Rightarrow> kern" where
  "close_files [] k = k"
| "close_files (None # fs) k = close_files fs k"
| "close_files (Some f # fs) k = close_files fs (call (Fileclose f) k)"

fun reparent :: "nat \<Rightarrow> nat list \<Rightarrow> kern \<Rightarrow> kern" where
  "reparent cur [] k = k"
| "reparent cur (i # is) k =
     (if p_parent (ptable k ! i) = Some cur
      then let k1 = upd_proc i (\<lambda>p. p\<lparr>p_parent := initproc k\<rparr>) k
           in reparent cur is
                (case initproc k1 of
                   Some ip \<Rightarrow> if p_state (ptable k1 ! i) = ZOMBIE then wakeup1 (ChProc ip) k1 else k1
                 | None \<Rightarrow> k1)
      else reparent cur is k)"

text \<open>\<^verbatim>\<open>exit\<close>: the files, the swap file and the page metadata go, then the parent and the
  children learn of it, and the process stays as a zombie.\<close>

definition exit_release :: "nat \<Rightarrow> kern \<Rightarrow> kern" where
  "exit_release cur k =
     (let cp = ptable k ! cur;
          k1 = upd_proc cur (\<lambda>p. p\<lparr>p_ofile := replicate NOFILE None\<rparr>) (close_files (p_ofile cp) k);
          k2 = (if p_pid cp > 2
                then call (RemoveSwapFile (p_pid cp)) (upd_proc cur (\<lambda>p. p\<lparr>p_swap := []\<rparr>) k1) else k1);
          k3 = upd_proc cur (\<lambda>p. p\<lparr>p_phys := unused_all (p_phys p), p_disc := unused_all (p_disc p)\<rparr>) k2;
          k4 = (case p_cwd cp of Some i \<Rightarrow> call End_op (call (Iput i) (call Begin_op k3)) | None \<Rightarrow> k3)
      in upd_proc cur (\<lambda>p. p\<lparr>p_cwd := None\<rparr>) k4)"

definition exit_family :: "nat \<Rightarrow> kern \<Rightarrow> kern" where
  "exit_family cur k =
     (let k1 = (case p_parent (ptable k ! cur) of Some q \<Rightarrow> wakeup1 (ChProc q) k | None \<Rightarrow> k)
      in reparent cur [0 ..< length (ptable k1)] k1)"

definition exit_proc :: "u32 \<Rightarrow> nat \<Rightarrow> kern \<Rightarrow> kern res" where
  "exit_proc kpgdir c k =
     (case running k c of
        None \<Rightarrow> Panic ''trap''
      | Some cur \<Rightarrow>
          if initproc k = Some cur then Panic ''init exiting''
          else sched kpgdir c (upd_proc cur (\<lambda>p. p\<lparr>p_state := ZOMBIE\<rparr>) (exit_family cur (exit_release cur k))))"

text \<open>One pass of \<^verbatim>\<open>wait\<close>: a zombie child is reaped, or there is nothing to wait for, or
  the caller goes to sleep on itself and runs the pass again when it is woken.\<close>

datatype waited = Reaped int | NoChild | Slept

definition wait_pass :: "u32 \<Rightarrow> nat \<Rightarrow> kern \<Rightarrow> (waited \<times> kern) res" where
  "wait_pass kpgdir c k =
     (case running k c of
        None \<Rightarrow> Panic ''trap''
      | Some cur \<Rightarrow>
          (case find_idx (\<lambda>p. p_parent p = Some cur \<and> p_state p = ZOMBIE) (ptable k) of
             Some i \<Rightarrow>
               let zp = ptable k ! i
               in bindR (kfree (p_kstack zp) k) (\<lambda>k1.
                  bindR (freevm (p_pgdir zp) (view cur (upd_proc i (\<lambda>p. p\<lparr>p_kstack := 0\<rparr>) k1))) (\<lambda>v.
                  Ok (Reaped (p_pid zp),
                      upd_proc i (\<lambda>p. p\<lparr>p_pid := 0, p_parent := None, p_name := [], p_killed := False,
                          p_state := UNUSED, p_phys := unused_all (p_phys p), p_disc := unused_all (p_disc p)\<rparr>)
                        (put cur v (upd_proc i (\<lambda>p. p\<lparr>p_kstack := 0\<rparr>) k1)))))
           | None \<Rightarrow>
               if (\<exists>p \<in> set (ptable k). p_parent p = Some cur) \<and> \<not> p_killed (ptable k ! cur)
               then bindR (sleep_on kpgdir c (ChProc cur) k) (\<lambda>k1. Ok (Slept, k1))
               else Ok (NoChild, k)))"

section \<open>The scheduler\<close>

text \<open>One choice of \<^verbatim>\<open>scheduler\<close>: the first runnable process at or after slot \<open>start\<close> of the
  table; \<open>None\<close> ends the pass, and the next starts at slot 0.\<close>

definition scheduler_next :: "nat \<Rightarrow> kern \<Rightarrow> nat option" where
  "scheduler_next start k =
     map_option (\<lambda>j. start + j) (find_idx (\<lambda>p. p_state p = RUNNABLE) (drop start (ptable k)))"

definition scheduler_run :: "nat \<Rightarrow> nat \<Rightarrow> kern \<Rightarrow> kern res" where
  "scheduler_run c i k =
     (let p = ptable k ! i
      in if p_kstack p = 0 then Panic ''switchuvm: no kstack''
         else if p_pgdir p = 0 then Panic ''switchuvm: no pgdir''
         else Ok (upd_proc i (\<lambda>p. p\<lparr>p_state := RUNNING\<rparr>)
                (k\<lparr>running := (running k)(c := Some i), cr3 := V2P (p_pgdir p)\<rparr>)))"

section \<open>Aging of all processes\<close>

fun age_all :: "nat list \<Rightarrow> kern \<Rightarrow> kern res" where
  "age_all [] k = Ok k"
| "age_all (i # is) k =
     (let p = ptable k ! i
      in if p_pid p > 2 \<and> p_state p \<noteq> UNUSED \<and> p_state p \<noteq> EMBRYO \<and> p_state p \<noteq> ZOMBIE
         then bindR (updateAgeForSingleProcess (view i k)) (\<lambda>v. age_all is (put i v k))
         else age_all is k)"

definition updateAgeForAllProcess :: "kern \<Rightarrow> kern res" where
  "updateAgeForAllProcess k = age_all [0 ..< length (ptable k)] k"

end
