(* ===== verification/ProcInv.thy ===== *)
theory ProcInv
  imports Proc
begin

text \<open>
  The process life cycle as a state machine. \<open>sk\<close> is what the scheduler and the waiting
  processes see of a process; \<open>astep\<close> is the abstract life cycle on it, with the steps
  processes may take on any processor in any order, and \<open>kstep\<close> the steps of the model of
  proc.c. Every \<open>kstep\<close> is an \<open>astep\<close> of the abstraction, so the invariants of the life cycle
  hold in every reachable kernel state.
\<close>

section \<open>The abstract life cycle\<close>

record skel =
  a_state :: procstate
  a_pid :: int
  a_parent :: "nat option"
  a_chan :: "channel option"

record askel =
  a_procs :: "skel list"
  a_nextpid :: int
  a_init :: "nat option"
  a_running :: "nat \<Rightarrow> nat option"

definition sk :: "proc \<Rightarrow> skel" where
  "sk p = \<lparr>a_state = p_state p, a_pid = p_pid p, a_parent = p_parent p, a_chan = p_chan p\<rparr>"

definition abs :: "kern \<Rightarrow> askel" where
  "abs k = \<lparr>a_procs = map sk (ptable k), a_nextpid = nextpid k, a_init = initproc k, a_running = running k\<rparr>"

definition aupd :: "nat \<Rightarrow> (skel \<Rightarrow> skel) \<Rightarrow> askel \<Rightarrow> askel" where
  "aupd i f a = a\<lparr>a_procs := (a_procs a)[i := f (a_procs a ! i)]\<rparr>"

definition awake :: "channel \<Rightarrow> skel \<Rightarrow> skel" where
  "awake ch p = (if a_state p = SLEEPING \<and> a_chan p = Some ch then p\<lparr>a_state := RUNNABLE\<rparr> else p)"

inductive astep :: "askel \<Rightarrow> askel \<Rightarrow> bool" where
  run: "a_running a c = None \<Longrightarrow> i < length (a_procs a) \<Longrightarrow> a_state (a_procs a ! i) = RUNNABLE \<Longrightarrow>
    astep a (aupd i (\<lambda>p. p\<lparr>a_state := RUNNING\<rparr>) (a\<lparr>a_running := (a_running a)(c := Some i)\<rparr>))"
| yield: "a_running a c = Some i \<Longrightarrow>
    astep a (aupd i (\<lambda>p. p\<lparr>a_state := RUNNABLE\<rparr>) (a\<lparr>a_running := (a_running a)(c := None)\<rparr>))"
| sleep: "a_running a c = Some i \<Longrightarrow>
    astep a (aupd i (\<lambda>p. p\<lparr>a_chan := Some ch, a_state := SLEEPING\<rparr>) (a\<lparr>a_running := (a_running a)(c := None)\<rparr>))"
| awoken: "a_running a c = Some i \<Longrightarrow> astep a (aupd i (\<lambda>p. p\<lparr>a_chan := None\<rparr>) a)"
| wake: "astep a (a\<lparr>a_procs := map (awake ch) (a_procs a)\<rparr>)"
| kill: "i < length (a_procs a) \<Longrightarrow>
    astep a (aupd i (\<lambda>p. p\<lparr>a_state := (if a_state p = SLEEPING then RUNNABLE else a_state p)\<rparr>) a)"
| spawn: "a_running a c = Some cur \<Longrightarrow> np < length (a_procs a) \<Longrightarrow> a_state (a_procs a ! np) = UNUSED \<Longrightarrow>
    astep a (aupd np (\<lambda>p. p\<lparr>a_state := RUNNABLE, a_pid := a_nextpid a, a_parent := Some cur\<rparr>)
      (a\<lparr>a_nextpid := a_nextpid a + 1\<rparr>))"
| spawn_fail: "a_running a c = Some cur \<Longrightarrow> np < length (a_procs a) \<Longrightarrow> a_state (a_procs a ! np) = UNUSED \<Longrightarrow>
    astep a (aupd np (\<lambda>p. p\<lparr>a_pid := a_nextpid a\<rparr>) (a\<lparr>a_nextpid := a_nextpid a + 1\<rparr>))"
| exit: "a_running a c = Some cur \<Longrightarrow> a_init a \<noteq> Some cur \<Longrightarrow>
    list_all2 (\<lambda>p q. a_pid q = a_pid p \<and> a_chan q = a_chan p \<and>
        (a_state q = a_state p \<or> a_state p = SLEEPING \<and> a_state q = RUNNABLE) \<and>
        a_parent q = (if a_parent p = Some cur then a_init a else a_parent p)) (a_procs a) ps \<Longrightarrow>
    astep a (aupd cur (\<lambda>p. p\<lparr>a_state := ZOMBIE\<rparr>) (a\<lparr>a_procs := ps, a_running := (a_running a)(c := None)\<rparr>))"
| reap: "a_running a c = Some cur \<Longrightarrow> i < length (a_procs a) \<Longrightarrow> a_state (a_procs a ! i) = ZOMBIE \<Longrightarrow>
    a_parent (a_procs a ! i) = Some cur \<Longrightarrow>
    astep a (aupd i (\<lambda>p. p\<lparr>a_pid := 0, a_parent := None, a_state := UNUSED\<rparr>) a)"
| idle: "astep a a"

inductive_cases astepE: "astep a a'"

lemmas astep_cases =
  astepE [consumes 1, case_names run yield sleep awoken wake kill spawn spawn_fail exit reap idle]

section \<open>The invariant\<close>

definition live :: "procstate \<Rightarrow> bool" where
  "live st \<longleftrightarrow> st = SLEEPING \<or> st = RUNNABLE \<or> st = RUNNING"

definition running_ok :: "askel \<Rightarrow> bool" where
  "running_ok a \<longleftrightarrow>
     (\<forall>c i. a_running a c = Some i \<longrightarrow> i < length (a_procs a) \<and> a_state (a_procs a ! i) = RUNNING) \<and>
     (\<forall>c c' i. a_running a c = Some i \<longrightarrow> a_running a c' = Some i \<longrightarrow> c = c') \<and>
     (\<forall>i < length (a_procs a). a_state (a_procs a ! i) = RUNNING \<longrightarrow> (\<exists>c. a_running a c = Some i))"

definition pids_ok :: "askel \<Rightarrow> bool" where
  "pids_ok a \<longleftrightarrow> 0 < a_nextpid a \<and>
     (\<forall>i < length (a_procs a). a_pid (a_procs a ! i) < a_nextpid a) \<and>
     (\<forall>i < length (a_procs a). a_state (a_procs a ! i) \<noteq> UNUSED \<longrightarrow> 0 < a_pid (a_procs a ! i)) \<and>
     (\<forall>i < length (a_procs a). \<forall>j < length (a_procs a). i \<noteq> j \<longrightarrow> a_state (a_procs a ! i) \<noteq> UNUSED \<longrightarrow>
        a_state (a_procs a ! j) \<noteq> UNUSED \<longrightarrow> a_pid (a_procs a ! i) \<noteq> a_pid (a_procs a ! j))"

definition parents_ok :: "askel \<Rightarrow> bool" where
  "parents_ok a \<longleftrightarrow>
     (\<exists>ip < length (a_procs a). a_init a = Some ip \<and> live (a_state (a_procs a ! ip))) \<and>
     (\<forall>i < length (a_procs a). \<forall>q. a_parent (a_procs a ! i) = Some q \<longrightarrow>
        q < length (a_procs a) \<and> live (a_state (a_procs a ! q)))"

definition sleepers_ok :: "askel \<Rightarrow> bool" where
  "sleepers_ok a \<longleftrightarrow> (\<forall>i < length (a_procs a). a_state (a_procs a ! i) = SLEEPING \<longrightarrow> a_chan (a_procs a ! i) \<noteq> None)"

lemma a_upd_simps [simp]:
  "length (a_procs (aupd i f a)) = length (a_procs a)" "a_running (aupd i f a) = a_running a"
  "a_nextpid (aupd i f a) = a_nextpid a" "a_init (aupd i f a) = a_init a"
  by (simp_all add: aupd_def)

lemma a_upd_nth: "j < length (a_procs a) \<Longrightarrow> a_procs (aupd i f a) ! j = (if j = i then f (a_procs a ! i) else a_procs a ! j)"
  by (simp add: aupd_def)

lemma a_upd_nth_run: "j < length (a_procs a) \<Longrightarrow>
    a_procs (aupd i f (a\<lparr>a_running := r\<rparr>)) ! j = (if j = i then f (a_procs a ! i) else a_procs a ! j)"
  and a_upd_nth_next: "j < length (a_procs a) \<Longrightarrow>
    a_procs (aupd i f (a\<lparr>a_nextpid := n\<rparr>)) ! j = (if j = i then f (a_procs a ! i) else a_procs a ! j)"
  and a_upd_fields: "length (a_procs (aupd i f (a\<lparr>a_running := r\<rparr>))) = length (a_procs a)"
    "length (a_procs (aupd i f (a\<lparr>a_nextpid := n\<rparr>))) = length (a_procs a)"
    "a_running (aupd i f (a\<lparr>a_running := r\<rparr>)) = r" "a_running (aupd i f (a\<lparr>a_nextpid := n\<rparr>)) = a_running a"
    "a_nextpid (aupd i f (a\<lparr>a_running := r\<rparr>)) = a_nextpid a" "a_nextpid (aupd i f (a\<lparr>a_nextpid := n\<rparr>)) = n"
    "a_init (aupd i f (a\<lparr>a_running := r\<rparr>)) = a_init a" "a_init (aupd i f (a\<lparr>a_nextpid := n\<rparr>)) = a_init a"
  by (simp_all add: aupd_def)

lemmas a_upd = a_upd_simps a_upd_fields a_upd_nth a_upd_nth_run a_upd_nth_next

lemma live_simps [simp]: "live RUNNABLE" "live RUNNING" "live SLEEPING" "\<not> live ZOMBIE" "\<not> live UNUSED" "\<not> live EMBRYO"
  by (simp_all add: live_def)

lemma awake_simps [simp]:
  "a_pid (awake ch p) = a_pid p" "a_parent (awake ch p) = a_parent p" "a_chan (awake ch p) = a_chan p"
  "a_state (awake ch p) = RUNNING \<longleftrightarrow> a_state p = RUNNING" "a_state (awake ch p) = UNUSED \<longleftrightarrow> a_state p = UNUSED"
  "live (a_state (awake ch p)) \<longleftrightarrow> live (a_state p)"
  by (auto simp: awake_def)

lemma awake_sleeping: "a_state (awake ch p) = SLEEPING \<Longrightarrow> a_state p = SLEEPING"
  by (auto simp: awake_def split: if_splits)

lemma astep_length: "astep a a' \<Longrightarrow> length (a_procs a') = length (a_procs a)"
  by (erule astepE) (auto dest: list_all2_lengthD)

lemma running_okD:
  "running_ok a \<Longrightarrow> a_running a c = Some i \<Longrightarrow> i < length (a_procs a) \<and> a_state (a_procs a ! i) = RUNNING"
  "running_ok a \<Longrightarrow> a_running a c = Some i \<Longrightarrow> a_running a c' = Some i \<Longrightarrow> c = c'"
  by (auto simp: running_ok_def)

lemma running_ok_keep:
  assumes "running_ok a" "a_running a' = a_running a" "length (a_procs a') = length (a_procs a)"
    "\<And>i. i < length (a_procs a) \<Longrightarrow> a_state (a_procs a' ! i) = RUNNING \<longleftrightarrow> a_state (a_procs a ! i) = RUNNING"
  shows "running_ok a'"
  using assms unfolding running_ok_def by auto

lemma running_ok_leave:
  assumes "running_ok a" "a_running a c = Some i" "a_running a' = (a_running a)(c := None)"
    "length (a_procs a') = length (a_procs a)" "a_state (a_procs a' ! i) \<noteq> RUNNING"
    "\<And>j. j < length (a_procs a) \<Longrightarrow> j \<noteq> i \<Longrightarrow> a_state (a_procs a' ! j) = RUNNING \<longleftrightarrow> a_state (a_procs a ! j) = RUNNING"
  shows "running_ok a'"
  unfolding running_ok_def
proof (intro conjI allI impI)
  fix c' j assume c': "a_running a' c' = Some j"
  then have r: "a_running a c' = Some j" "c' \<noteq> c" using assms(3) by (auto split: if_splits)
  then have "j \<noteq> i" using running_okD(2) [OF assms(1,2)] by auto
  then show "j < length (a_procs a')" "a_state (a_procs a' ! j) = RUNNING"
    using running_okD(1) [OF assms(1) r(1)] assms(4,6) by auto
next
  fix c1 c2 j assume "a_running a' c1 = Some j" "a_running a' c2 = Some j"
  then show "c1 = c2" using running_okD(2) [OF assms(1)] assms(3) by (metis fun_upd_apply option.distinct(1))
next
  fix j assume j: "j < length (a_procs a')" "a_state (a_procs a' ! j) = RUNNING"
  then have "j \<noteq> i" using assms(5) by auto
  then have "a_state (a_procs a ! j) = RUNNING" using assms(4,6) j by auto
  then obtain c' where "a_running a c' = Some j" using assms(1,4) j(1) unfolding running_ok_def by auto
  then show "\<exists>c. a_running a' c = Some j" using assms(2,3) \<open>j \<noteq> i\<close> by (intro exI [of _ c']) auto
qed

lemma running_ok_enter:
  assumes "running_ok a" "a_running a c = None" "i < length (a_procs a)" "a_state (a_procs a ! i) \<noteq> RUNNING"
    "a_running a' = (a_running a)(c := Some i)" "length (a_procs a') = length (a_procs a)"
    "a_state (a_procs a' ! i) = RUNNING" "\<And>j. j < length (a_procs a) \<Longrightarrow> j \<noteq> i \<Longrightarrow> a_procs a' ! j = a_procs a ! j"
  shows "running_ok a'"
proof -
  have ne: "a_running a c' \<noteq> Some i" for c' using running_okD(1) [OF assms(1)] assms(4) by blast
  show ?thesis
    unfolding running_ok_def
  proof (intro conjI allI impI)
    fix c' j assume "a_running a' c' = Some j"
    then show "j < length (a_procs a')" "a_state (a_procs a' ! j) = RUNNING"
      using running_okD(1) [OF assms(1), of c' j] assms(3,5,6,7,8) by (auto split: if_splits) metis
  next
    fix c1 c2 j assume "a_running a' c1 = Some j" "a_running a' c2 = Some j"
    then show "c1 = c2" using running_okD(2) [OF assms(1)] ne unfolding assms(5) by (metis fun_upd_apply option.inject)
  next
    fix j assume j: "j < length (a_procs a')" "a_state (a_procs a' ! j) = RUNNING"
    show "\<exists>c. a_running a' c = Some j"
    proof (cases "j = i")
      case True
      then show ?thesis using assms(5) by (intro exI [of _ c]) simp
    next
      case False
      then have "a_state (a_procs a ! j) = RUNNING" using assms(6,8) j by auto
      then obtain c' where "a_running a c' = Some j" using assms(1,6) j(1) unfolding running_ok_def by auto
      then show ?thesis using assms(2,5) by (intro exI [of _ c']) auto
    qed
  qed
qed

lemma exit_lengths:
  assumes "list_all2 P xs ps" "i < length xs"
  shows "length ps = length xs" "P (xs ! i) (ps ! i)"
  using assms by (auto simp: list_all2_lengthD list_all2_nthD)

lemma astep_running_ok:
  assumes "astep a a'" "running_ok a" shows "running_ok a'"
  using assms(1)
proof (cases rule: astep_cases)
  case (run c i)
  show ?thesis by (rule running_ok_enter [OF assms(2) run(2,3)]) (use run in \<open>auto simp: aupd_def\<close>)
next
  case (yield c i)
  show ?thesis by (rule running_ok_leave [OF assms(2) yield(2)]) (use yield running_okD(1) [OF assms(2) yield(2)] in \<open>auto simp: aupd_def\<close>)
next
  case (sleep c i ch)
  show ?thesis by (rule running_ok_leave [OF assms(2) sleep(2)]) (use sleep running_okD(1) [OF assms(2) sleep(2)] in \<open>auto simp: aupd_def\<close>)
next
  case (awoken c i)
  show ?thesis
    unfolding awoken(1) by (rule running_ok_keep [OF assms(2)]) (use awoken(2-) in \<open>simp_all only: a_upd, auto\<close>)
next
  case (wake ch)
  show ?thesis by (rule running_ok_keep [OF assms(2)]) (use wake in simp_all)
next
  case (kill i)
  have "a_state (a_procs a' ! j) = RUNNING \<longleftrightarrow> a_state (a_procs a ! j) = RUNNING" if "j < length (a_procs a)" for j
    using that unfolding kill(1) a_upd_nth [OF that] by (cases "j = i") simp_all
  then show ?thesis by (rule running_ok_keep [OF assms(2), rotated 2]) (simp_all only: kill(1) a_upd_simps)
next
  case (exit c cur ps)
  note l = exit_lengths [OF exit(4)]
  have cur: "cur < length (a_procs a)" using running_okD(1) [OF assms(2) exit(2)] by simp
  show ?thesis
  proof (rule running_ok_leave [OF assms(2) exit(2)])
    fix j assume j: "j < length (a_procs a)" "j \<noteq> cur"
    have "a_state (ps ! j) = RUNNING \<longleftrightarrow> a_state (a_procs a ! j) = RUNNING" using l(2) [OF j(1)] by auto
    then show "a_state (a_procs a' ! j) = RUNNING \<longleftrightarrow> a_state (a_procs a ! j) = RUNNING"
      using j l(1) [OF cur] exit(1) by (simp add: aupd_def)
  qed (use exit l(1) [OF cur] cur in \<open>auto simp: aupd_def\<close>)
next
  case (spawn c cur np)
  show ?thesis
    unfolding spawn(1) by (rule running_ok_keep [OF assms(2)]) (use spawn(2-) in \<open>simp_all only: a_upd, auto\<close>)
next
  case (spawn_fail c cur np)
  show ?thesis
    unfolding spawn_fail(1) by (rule running_ok_keep [OF assms(2)]) (use spawn_fail(2-) in \<open>simp_all only: a_upd, auto\<close>)
next
  case (reap c cur i)
  show ?thesis
    unfolding reap(1) by (rule running_ok_keep [OF assms(2)]) (use reap(2-) in \<open>simp_all only: a_upd, auto\<close>)
next
  case idle
  then show ?thesis using assms(2) by simp
qed

section \<open>Process identifiers, parents, sleepers\<close>

lemma pids_ok_keep:
  assumes "pids_ok a" "a_nextpid a \<le> a_nextpid a'" "length (a_procs a') = length (a_procs a)"
    "\<And>i. i < length (a_procs a) \<Longrightarrow>
       a_pid (a_procs a' ! i) = a_pid (a_procs a ! i) \<and> (a_state (a_procs a' ! i) \<noteq> UNUSED \<longrightarrow> a_state (a_procs a ! i) \<noteq> UNUSED) \<or>
       a_state (a_procs a' ! i) = UNUSED \<and> a_pid (a_procs a' ! i) < a_nextpid a'"
  shows "pids_ok a'"
proof -
  let ?n = "length (a_procs a)"
  have P: "0 < a_nextpid a" "\<And>i. i < ?n \<Longrightarrow> a_pid (a_procs a ! i) < a_nextpid a"
    "\<And>i. i < ?n \<Longrightarrow> a_state (a_procs a ! i) \<noteq> UNUSED \<Longrightarrow> 0 < a_pid (a_procs a ! i)"
    "\<And>i j. i < ?n \<Longrightarrow> j < ?n \<Longrightarrow> i \<noteq> j \<Longrightarrow> a_state (a_procs a ! i) \<noteq> UNUSED \<Longrightarrow> a_state (a_procs a ! j) \<noteq> UNUSED \<Longrightarrow>
       a_pid (a_procs a ! i) \<noteq> a_pid (a_procs a ! j)"
    using assms(1) by (auto simp: pids_ok_def)
  have U: "a_pid (a_procs a' ! i) = a_pid (a_procs a ! i) \<and> a_state (a_procs a ! i) \<noteq> UNUSED"
    if "i < ?n" "a_state (a_procs a' ! i) \<noteq> UNUSED" for i
    using assms(4) [OF that(1)] that(2) by auto
  have lt: "a_pid (a_procs a' ! i) < a_nextpid a'" if "i < ?n" for i
    using assms(4) [OF that] P(2) [OF that] assms(2) by auto
  show ?thesis
    unfolding pids_ok_def assms(3)
  proof (intro conjI allI impI)
    show "0 < a_nextpid a'" using P(1) assms(2) by simp
    show "0 < a_pid (a_procs a' ! i)" if "i < ?n" "a_state (a_procs a' ! i) \<noteq> UNUSED" for i
      using U [OF that] P(3) that(1) by simp
    show "a_pid (a_procs a' ! i) \<noteq> a_pid (a_procs a' ! j)"
      if "i < ?n" "j < ?n" "i \<noteq> j" "a_state (a_procs a' ! i) \<noteq> UNUSED" "a_state (a_procs a' ! j) \<noteq> UNUSED" for i j
      using U [OF that(1,4)] U [OF that(2,5)] P(4) [OF that(1,2,3)] by simp
  qed (rule lt)
qed

lemma pids_ok_spawn:
  assumes "pids_ok a" "np < length (a_procs a)" "a_nextpid a' = a_nextpid a + 1"
    "length (a_procs a') = length (a_procs a)" "a_pid (a_procs a' ! np) = a_nextpid a"
    "\<And>j. j < length (a_procs a) \<Longrightarrow> j \<noteq> np \<Longrightarrow> a_procs a' ! j = a_procs a ! j"
  shows "pids_ok a'"
proof -
  let ?n = "length (a_procs a)"
  have P: "0 < a_nextpid a" "\<And>i. i < ?n \<Longrightarrow> a_pid (a_procs a ! i) < a_nextpid a"
    "\<And>i. i < ?n \<Longrightarrow> a_state (a_procs a ! i) \<noteq> UNUSED \<Longrightarrow> 0 < a_pid (a_procs a ! i)"
    "\<And>i j. i < ?n \<Longrightarrow> j < ?n \<Longrightarrow> i \<noteq> j \<Longrightarrow> a_state (a_procs a ! i) \<noteq> UNUSED \<Longrightarrow> a_state (a_procs a ! j) \<noteq> UNUSED \<Longrightarrow>
       a_pid (a_procs a ! i) \<noteq> a_pid (a_procs a ! j)"
    using assms(1) by (auto simp: pids_ok_def)
  have pid: "a_pid (a_procs a' ! i) = (if i = np then a_nextpid a else a_pid (a_procs a ! i))" if "i < ?n" for i
    using assms(5,6) that by auto
  have st: "a_state (a_procs a' ! i) = a_state (a_procs a ! i)" if "i < ?n" "i \<noteq> np" for i
    using assms(6) that by auto
  show ?thesis
    unfolding pids_ok_def assms(3,4)
  proof (intro conjI allI impI)
    show "0 < a_nextpid a + 1" using P(1) by simp
    show "a_pid (a_procs a' ! i) < a_nextpid a + 1" if "i < ?n" for i
      using P(2) [OF that] pid [OF that] by (auto split: if_splits)
    show "0 < a_pid (a_procs a' ! i)" if "i < ?n" "a_state (a_procs a' ! i) \<noteq> UNUSED" for i
      using P(1,3) pid [OF that(1)] st that by (cases "i = np") auto
    show "a_pid (a_procs a' ! i) \<noteq> a_pid (a_procs a' ! j)"
      if ij: "i < ?n" "j < ?n" "i \<noteq> j" "a_state (a_procs a' ! i) \<noteq> UNUSED" "a_state (a_procs a' ! j) \<noteq> UNUSED" for i j
    proof -
      have "a_pid (a_procs a ! i) < a_nextpid a" "a_pid (a_procs a ! j) < a_nextpid a" using P(2) ij by auto
      then show ?thesis
        using pid [OF ij(1)] pid [OF ij(2)] st [OF ij(1)] st [OF ij(2)] P(4) [OF ij(1,2,3)] ij
        by (cases "i = np"; cases "j = np") auto
    qed
  qed
qed

lemma astep_pids_ok:
  assumes "astep a a'" "pids_ok a" "running_ok a" shows "pids_ok a'"
  using assms(1)
proof (cases rule: astep_cases)
  case (run c i)
  show ?thesis
    unfolding run(1) by (rule pids_ok_keep [OF assms(2)]) (use run(2-) in \<open>simp_all only: a_upd, auto\<close>)
next
  case (yield c i)
  show ?thesis
    unfolding yield(1) by (rule pids_ok_keep [OF assms(2)]) (use yield(2-) running_okD(1) [OF assms(3) yield(2)] in \<open>simp_all only: a_upd, auto\<close>)
next
  case (sleep c i ch)
  show ?thesis
    unfolding sleep(1) by (rule pids_ok_keep [OF assms(2)]) (use sleep(2-) running_okD(1) [OF assms(3) sleep(2)] in \<open>simp_all only: a_upd, auto\<close>)
next
  case (awoken c i)
  show ?thesis
    unfolding awoken(1) by (rule pids_ok_keep [OF assms(2)]) (use awoken(2-) in \<open>simp_all only: a_upd, auto\<close>)
next
  case (wake ch)
  show ?thesis by (rule pids_ok_keep [OF assms(2)]) (use wake in simp_all)
next
  case (kill i)
  show ?thesis
  proof (rule pids_ok_keep [OF assms(2)])
    fix j assume j: "j < length (a_procs a)"
    show "a_pid (a_procs a' ! j) = a_pid (a_procs a ! j) \<and> (a_state (a_procs a' ! j) \<noteq> UNUSED \<longrightarrow> a_state (a_procs a ! j) \<noteq> UNUSED) \<or>
       a_state (a_procs a' ! j) = UNUSED \<and> a_pid (a_procs a' ! j) < a_nextpid a'"
      unfolding kill(1) a_upd_nth [OF j] by (cases "j = i") simp_all
  qed (simp_all only: kill(1) a_upd_simps order_refl)
next
  case (spawn c cur np)
  show ?thesis
    by (rule pids_ok_spawn [OF assms(2) spawn(3)]) (use spawn in \<open>simp_all add: aupd_def\<close>)
next
  case (spawn_fail c cur np)
  show ?thesis
    unfolding spawn_fail(1) by (rule pids_ok_keep [OF assms(2)]) (use spawn_fail(2-) in \<open>simp_all only: a_upd, auto\<close>)
next
  case (exit c cur ps)
  note l = exit_lengths [OF exit(4)]
  have cur: "cur < length (a_procs a)" "a_state (a_procs a ! cur) = RUNNING"
    using running_okD(1) [OF assms(3) exit(2)] by auto
  show ?thesis
  proof (rule pids_ok_keep [OF assms(2)])
    fix j assume j: "j < length (a_procs a)"
    have "a_pid (a_procs a' ! j) = a_pid (a_procs a ! j)" "a_state (a_procs a' ! j) \<noteq> UNUSED \<longrightarrow> a_state (a_procs a ! j) \<noteq> UNUSED"
      using l(2) [OF j] l(1) [OF j] j cur by (auto simp: exit(1) aupd_def nth_list_update)
    then show "a_pid (a_procs a' ! j) = a_pid (a_procs a ! j) \<and> (a_state (a_procs a' ! j) \<noteq> UNUSED \<longrightarrow> a_state (a_procs a ! j) \<noteq> UNUSED) \<or>
       a_state (a_procs a' ! j) = UNUSED \<and> a_pid (a_procs a' ! j) < a_nextpid a'" by blast
  qed (use exit l(1) [OF cur(1)] in \<open>simp_all add: aupd_def\<close>)
next
  case (reap c cur i)
  then show ?thesis
    using assms(2) by (intro pids_ok_keep [OF assms(2)]) (auto simp: a_upd_nth pids_ok_def)
next
  case idle
  then show ?thesis using assms(2) by simp
qed

lemma astep_sleepers_ok:
  assumes "astep a a'" "sleepers_ok a" "running_ok a" shows "sleepers_ok a'"
proof -
  have S: "\<And>j. j < length (a_procs a) \<Longrightarrow> a_state (a_procs a ! j) = SLEEPING \<Longrightarrow> a_chan (a_procs a ! j) \<noteq> None"
    using assms(2) by (simp add: sleepers_ok_def)
  have "a_chan (a_procs a' ! j) \<noteq> None" if j: "j < length (a_procs a)" "a_state (a_procs a' ! j) = SLEEPING" for j
    using assms(1)
  proof (cases rule: astep_cases)
    case (awoken c i)
    then have "j \<noteq> i" using running_okD(1) [OF assms(3) awoken(2)] j by (auto simp: a_upd_nth)
    then show ?thesis using S j awoken by (simp add: a_upd_nth)
  next
    case (wake ch)
    then show ?thesis using S [OF j(1)] j awake_sleeping by fastforce
  next
    case (kill i)
    have "j \<noteq> i" using j(2) unfolding kill(1) a_upd_nth [OF j(1)] by (cases "a_state (a_procs a ! i)") auto
    then show ?thesis using S [OF j(1)] j(2) unfolding kill(1) a_upd_nth [OF j(1)] by simp
  next
    case (exit c cur ps)
    note l = exit_lengths [OF exit(4) j(1)]
    have "j \<noteq> cur" using j l(1) by (auto simp: exit(1) aupd_def)
    then show ?thesis using j l S [OF j(1)] by (auto simp: exit(1) aupd_def)
  qed (use S j in \<open>auto simp: a_upd_nth split: if_splits\<close>)
  then show ?thesis unfolding sleepers_ok_def astep_length [OF assms(1)] by simp
qed

lemma parents_ok_keep:
  assumes "parents_ok a" "a_init a' = a_init a" "length (a_procs a') = length (a_procs a)"
    "\<And>i. i < length (a_procs a) \<Longrightarrow> live (a_state (a_procs a ! i)) \<Longrightarrow> live (a_state (a_procs a' ! i))"
    "\<And>i q. i < length (a_procs a) \<Longrightarrow> a_parent (a_procs a' ! i) = Some q \<Longrightarrow>
       a_parent (a_procs a ! i) = Some q \<or> q < length (a_procs a) \<and> live (a_state (a_procs a' ! q))"
  shows "parents_ok a'"
  using assms unfolding parents_ok_def by (simp only: assms(2,3)) metis

lemma astep_parents_ok:
  assumes "astep a a'" "parents_ok a" "running_ok a" shows "parents_ok a'"
  using assms(1)
proof (cases rule: astep_cases)
  case (run c i)
  show ?thesis
    unfolding run(1) by (rule parents_ok_keep [OF assms(2)]) (use run(2-) in \<open>auto simp: a_upd split: if_splits\<close>)
next
  case (yield c i)
  show ?thesis
    unfolding yield(1) by (rule parents_ok_keep [OF assms(2)]) (use yield(2-) in \<open>auto simp: a_upd split: if_splits\<close>)
next
  case (sleep c i ch)
  show ?thesis
    unfolding sleep(1) by (rule parents_ok_keep [OF assms(2)]) (use sleep(2-) in \<open>auto simp: a_upd split: if_splits\<close>)
next
  case (awoken c i)
  show ?thesis
    unfolding awoken(1) by (rule parents_ok_keep [OF assms(2)]) (use awoken(2-) in \<open>auto simp: a_upd split: if_splits\<close>)
next
  case (wake ch)
  show ?thesis by (rule parents_ok_keep [OF assms(2)]) (use wake in \<open>simp_all\<close>)
next
  case (kill i)
  show ?thesis
  proof (rule parents_ok_keep [OF assms(2)])
    fix j q assume j: "j < length (a_procs a)"
    show "live (a_state (a_procs a ! j)) \<Longrightarrow> live (a_state (a_procs a' ! j))"
      unfolding kill(1) a_upd_nth [OF j] by (cases "j = i") simp_all
    show "a_parent (a_procs a' ! j) = Some q \<Longrightarrow>
       a_parent (a_procs a ! j) = Some q \<or> q < length (a_procs a) \<and> live (a_state (a_procs a' ! q))"
      unfolding kill(1) a_upd_nth [OF j] by (cases "j = i") simp_all
  qed (simp_all only: kill(1) a_upd_simps)
next
  case (spawn c cur np)
  have cur: "cur < length (a_procs a)" "a_state (a_procs a ! cur) = RUNNING"
    using running_okD(1) [OF assms(3) spawn(2)] by auto
  show ?thesis
    unfolding spawn(1) by (rule parents_ok_keep [OF assms(2)]) (use spawn(2-) cur in \<open>auto simp: a_upd split: if_splits\<close>)
next
  case (spawn_fail c cur np)
  show ?thesis
    unfolding spawn_fail(1) by (rule parents_ok_keep [OF assms(2)]) (use spawn_fail(2-) in \<open>auto simp: a_upd split: if_splits\<close>)
next
  case (exit c cur ps)
  have len: "length ps = length (a_procs a)" using exit(4) by (simp add: list_all2_lengthD)
  have st: "a_state (ps ! j) = a_state (a_procs a ! j) \<or> a_state (a_procs a ! j) = SLEEPING \<and> a_state (ps ! j) = RUNNABLE"
    and pa: "a_parent (ps ! j) = (if a_parent (a_procs a ! j) = Some cur then a_init a else a_parent (a_procs a ! j))"
    if "j < length (a_procs a)" for j
    using exit_lengths(2) [OF exit(4) that] by auto
  obtain ip where ip: "ip < length (a_procs a)" "a_init a = Some ip" "live (a_state (a_procs a ! ip))"
    and P: "\<And>i q. i < length (a_procs a) \<Longrightarrow> a_parent (a_procs a ! i) = Some q \<Longrightarrow> q < length (a_procs a) \<and> live (a_state (a_procs a ! q))"
    using assms(2) unfolding parents_ok_def by blast
  have lv: "live (a_state (a_procs a' ! j))" if "j < length (a_procs a)" "j \<noteq> cur" "live (a_state (a_procs a ! j))" for j
    using that st [OF that(1)] len by (auto simp: exit(1) aupd_def)
  have nc: "ip \<noteq> cur" using exit(3) ip(2) by simp
  have "a_parent (a_procs a' ! j) = a_parent (ps ! j)" if "j < length (a_procs a)" for j
    using that len by (cases "j = cur") (simp_all add: exit(1) aupd_def)
  then have "q < length (a_procs a) \<and> live (a_state (a_procs a' ! q))"
    if "j < length (a_procs a)" "a_parent (a_procs a' ! j) = Some q" for j q
    using that pa [OF that(1)] P [OF that(1)] lv ip nc by (auto split: if_splits)
  moreover have "length (a_procs a') = length (a_procs a)" "a_init a' = a_init a" using len by (simp_all add: exit(1))
  ultimately show ?thesis
    unfolding parents_ok_def using ip lv [OF ip(1) nc ip(3)] by (simp only:) blast
next
  case (reap c cur i)
  show ?thesis
    unfolding reap(1) by (rule parents_ok_keep [OF assms(2)]) (use reap(2-) in \<open>auto simp: a_upd split: if_splits\<close>)
next
  case idle
  then show ?thesis using assms(2) by simp
qed

definition life_ok :: "askel \<Rightarrow> bool" where
  "life_ok a \<longleftrightarrow> running_ok a \<and> pids_ok a \<and> parents_ok a \<and> sleepers_ok a"

lemma astep_life_ok: "astep a a' \<Longrightarrow> life_ok a \<Longrightarrow> life_ok a'"
  using astep_running_ok astep_pids_ok astep_parents_ok astep_sleepers_ok by (simp add: life_ok_def)

section \<open>The kernel refines the life cycle\<close>

text \<open>What a process may do, on any processor and in any order. A step that panics has no
  successor: the machine stops.\<close>

inductive kstep :: "u32 \<Rightarrow> u32 \<Rightarrow> kern \<Rightarrow> kern \<Rightarrow> bool" for kdata kpgdir where
  k_run: "running k c = None \<Longrightarrow> scheduler_next start k = Some i \<Longrightarrow> scheduler_run c i k = Ok k' \<Longrightarrow> kstep kdata kpgdir k k'"
| k_yield: "yield kpgdir c k = Ok k' \<Longrightarrow> kstep kdata kpgdir k k'"
| k_sleep: "sleep_on kpgdir c ch k = Ok k' \<Longrightarrow> kstep kdata kpgdir k k'"
| k_awoken: "running k c = Some i \<Longrightarrow> kstep kdata kpgdir k (sleep_return i k)"
| k_wakeup: "kstep kdata kpgdir k (wakeup ch k)"
| k_kill: "kill pid k = (r, k') \<Longrightarrow> kstep kdata kpgdir k k'"
| k_fork: "running k c = Some cur \<Longrightarrow> fork kdata cur k = Ok (r, k') \<Longrightarrow> kstep kdata kpgdir k k'"
| k_exit: "exit_proc kpgdir c k = Ok k' \<Longrightarrow> kstep kdata kpgdir k k'"
| k_wait: "wait_pass kpgdir c k = Ok (w, k') \<Longrightarrow> kstep kdata kpgdir k k'"
| k_age: "updateAgeForAllProcess k = Ok k' \<Longrightarrow> kstep kdata kpgdir k k'"

lemma sk_simps [simp]:
  "a_state (sk p) = p_state p" "a_pid (sk p) = p_pid p" "a_parent (sk p) = p_parent p" "a_chan (sk p) = p_chan p"
  by (simp_all add: sk_def)

lemma abs_simps [simp]:
  "a_procs (abs k) = map sk (ptable k)" "a_nextpid (abs k) = nextpid k" "a_init (abs k) = initproc k"
  "a_running (abs k) = running k"
  by (simp_all add: abs_def)

lemma abs_upd_proc: "i < length (ptable k) \<Longrightarrow> sk (f (ptable k ! i)) = g (sk (ptable k ! i)) \<Longrightarrow> abs (upd_proc i f k) = aupd i g (abs k)"
  by (simp add: abs_def upd_proc_def aupd_def map_update)

lemma abs_upd_same: "sk (f (ptable k ! i)) = sk (ptable k ! i) \<Longrightarrow> abs (upd_proc i f k) = abs k"
proof (cases "i < length (ptable k)")
  case True
  assume "sk (f (ptable k ! i)) = sk (ptable k ! i)"
  with True have "(map sk (ptable k))[i := sk (f (ptable k ! i))] = map sk (ptable k)"
    by (metis list_update_id nth_map)
  then show ?thesis by (simp add: abs_def upd_proc_def map_update)
qed (simp add: abs_def upd_proc_def list_update_beyond)

lemma length_upd_proc [simp]: "length (ptable (upd_proc i f k)) = length (ptable k)"
  by (simp add: upd_proc_def)

lemma abs_put [simp]: "abs (put i v k) = abs k"
  unfolding put_def by (subst abs_upd_same) (simp_all add: sk_def abs_def)

lemma abs_call [simp]: "abs (call c k) = abs k"
  by (simp add: abs_def call_def)

lemma abs_files [simp]: "abs (dup_files fs k) = abs k" "abs (close_files fs k) = abs k"
  by (induction fs k rule: dup_files.induct; simp) (induction fs k rule: close_files.induct; simp)

lemma length_ptable_abs: "abs k = abs k' \<Longrightarrow> length (ptable k) = length (ptable k')"
  by (metis abs_simps(1) length_map)

lemma kalloc_more: "kalloc s = (x, s') \<Longrightarrow> phys.more s' = phys.more s"
  by (auto simp: kalloc_def Let_def split: if_splits)

lemma kfree_more: "kfree v s = Ok s' \<Longrightarrow> phys.more s' = phys.more s"
  by (auto simp: kfree_def Let_def split: if_splits)

lemma abs_more: "phys.more s' = phys.more s \<Longrightarrow> abs s' = abs s"
  by (cases s; cases s') (simp add: abs_def)


lemma ptable_upd_nth: "j < length (ptable k) \<Longrightarrow> ptable (upd_proc i f k) ! j = (if j = i then f (ptable k ! i) else ptable k ! j)"
  by (simp add: upd_proc_def)

lemma upd_proc_simps [simp]:
  "running (upd_proc i f k) = running k" "nextpid (upd_proc i f k) = nextpid k" "initproc (upd_proc i f k) = initproc k"
  by (simp_all add: upd_proc_def)

lemma abs_set [simp]:
  "abs (k\<lparr>mem := m\<rparr>) = abs k" "abs (k\<lparr>freelist := f\<rparr>) = abs k" "abs (k\<lparr>cr3 := c\<rparr>) = abs k"
  "abs (k\<lparr>running := r\<rparr>) = (abs k)\<lparr>a_running := r\<rparr>" "abs (k\<lparr>nextpid := n\<rparr>) = (abs k)\<lparr>a_nextpid := n\<rparr>"
  by (simp_all add: abs_def)

text \<open>\<^verbatim>\<open>allocproc\<close> takes an unused slot and a fresh identifier; when it fails for lack of a
  stack the slot stays unused.\<close>

lemma allocproc_abs:
  assumes "allocproc k = (r, k')"
  shows "(r = None \<and> abs k' = abs k) \<or>
    (\<exists>i < length (ptable k). p_state (ptable k ! i) = UNUSED \<and> (r = None \<or> r = Some i) \<and>
      abs k' = aupd i (\<lambda>p. p\<lparr>a_pid := nextpid k, a_state := (if r = None then UNUSED else EMBRYO)\<rparr>)
        ((abs k)\<lparr>a_nextpid := nextpid k + 1\<rparr>))"
proof (cases "find_idx (\<lambda>p. p_state p = UNUSED) (ptable k)")
  case None
  then show ?thesis using assms by (simp add: allocproc_def)
next
  case (Some i)
  note i = find_idx_SomeD [OF Some]
  define k1 where "k1 = (upd_proc i (\<lambda>p. p\<lparr>p_state := EMBRYO, p_pid := nextpid k\<rparr>) k)\<lparr>nextpid := nextpid k + 1\<rparr>"
  obtain stack k2 where ka: "kalloc k1 = (stack, k2)" by (cases "kalloc k1")
  have a1: "abs k1 = aupd i (\<lambda>p. p\<lparr>a_pid := nextpid k, a_state := EMBRYO\<rparr>) ((abs k)\<lparr>a_nextpid := nextpid k + 1\<rparr>)"
    using abs_upd_proc [OF i(1), of "\<lambda>p. p\<lparr>p_state := EMBRYO, p_pid := nextpid k\<rparr>" "\<lambda>p. p\<lparr>a_pid := nextpid k, a_state := EMBRYO\<rparr>"]
    by (simp add: k1_def sk_def aupd_def)
  have a2: "abs k2 = abs k1" by (rule abs_more) (rule kalloc_more [OF ka])
  have l2: "i < length (ptable k2)" using length_ptable_abs [OF a2] i(1) by (simp add: k1_def)
  show ?thesis
  proof (cases "stack = 0")
    case True
    have r: "r = None" "k' = upd_proc i (\<lambda>p. p\<lparr>p_state := UNUSED\<rparr>) (upd_proc i (\<lambda>p. p\<lparr>p_kstack := stack\<rparr>) k2)"
      using assms Some ka True by (auto simp: allocproc_def k1_def [symmetric] Let_def)
    have "abs k' = aupd i (\<lambda>p. p\<lparr>a_state := UNUSED\<rparr>) (abs (upd_proc i (\<lambda>p. p\<lparr>p_kstack := stack\<rparr>) k2))"
      unfolding r by (rule abs_upd_proc) (use l2 in \<open>simp_all add: sk_def\<close>)
    also have "abs (upd_proc i (\<lambda>p. p\<lparr>p_kstack := stack\<rparr>) k2) = abs k1"
      unfolding a2 [symmetric] by (rule abs_upd_same) (simp add: sk_def)
    finally have "abs k' = aupd i (\<lambda>p. p\<lparr>a_pid := nextpid k, a_state := UNUSED\<rparr>) ((abs k)\<lparr>a_nextpid := nextpid k + 1\<rparr>)"
      unfolding a1 using i(1) by (simp add: aupd_def)
    then show ?thesis using i r(1) by (intro disjI2 exI [of _ i]) simp
  next
    case False
    have k': "r = Some i \<and> abs k' = abs k2"
      using assms Some ka False
      by (auto simp: allocproc_def k1_def [symmetric] Let_def sk_def abs_upd_same)
    then show ?thesis using i a1 a2 by (intro disjI2 exI [of _ i]) simp
  qed
qed


lemma fork_open_abs:
  assumes np: "np < length (ptable k)"
  shows "abs (fork_open np cur k) = aupd np (\<lambda>p. p\<lparr>a_parent := Some cur\<rparr>) (abs k)"
proof -
  let ?f = "\<lambda>p. p\<lparr>p_sz := p_sz (ptable k ! cur), p_parent := Some cur,
    p_tf := (p_tf (ptable k ! cur))\<lparr>tf_eax := 0\<rparr>,
    p_ofile := map (\<lambda>(o1, o2). if o1 \<noteq> None then o1 else o2) (zip (p_ofile (ptable k ! cur)) (p_ofile p))\<rparr>"
  have "abs (fork_open np cur k) = abs (upd_proc np ?f k)"
    unfolding fork_open_def Let_def by (cases "p_cwd (ptable k ! cur)") (simp_all only: option.case abs_call abs_files)
  also have "\<dots> = aupd np (\<lambda>p. p\<lparr>a_parent := Some cur\<rparr>) (abs k)"
    by (rule abs_upd_proc [OF np]) (simp add: sk_def)
  finally show ?thesis .
qed

lemma fork_child_abs:
  assumes np: "np < length (ptable k)"
  shows "abs (fork_child np cur k) = aupd np (\<lambda>p. p\<lparr>a_parent := Some cur, a_state := RUNNABLE\<rparr>) (abs k)"
proof -
  have l: "np < length (ptable (fork_open np cur k))"
    using arg_cong [OF fork_open_abs [OF np, of cur], of "\<lambda>a. length (a_procs a)"] np by simp
  have "abs (fork_child np cur k) = aupd np (\<lambda>p. p\<lparr>a_state := RUNNABLE\<rparr>) (abs (fork_open np cur k))"
    unfolding fork_child_def by (rule abs_upd_proc [OF l]) (simp add: sk_def fork_meta_def)
  then show ?thesis unfolding fork_open_abs [OF np] using np by (simp add: aupd_def)
qed

lemma fork_undo_abs:
  assumes "fork_undo np k = Ok k'" and np: "np < length (ptable k)"
  shows "abs k' = aupd np (\<lambda>p. p\<lparr>a_state := UNUSED\<rparr>) (abs k)"
proof -
  obtain k3 where k3: "kfree (p_kstack (ptable k ! np)) k = Ok k3"
    "k' = upd_proc np (\<lambda>p. p\<lparr>p_kstack := 0, p_state := UNUSED\<rparr>) k3"
    using assms by (auto simp: fork_undo_def bindR_Ok_iff)
  have a3: "abs k3 = abs k" by (rule abs_more) (rule kfree_more [OF k3(1)])
  show ?thesis
    unfolding k3(2) a3 [symmetric] by (rule abs_upd_proc) (use np length_ptable_abs [OF a3] in \<open>simp_all add: sk_def\<close>)
qed

lemma fork_abs:
  assumes f: "fork kdata cur k = Ok (r, k')" and c: "running k c = Some cur"
  shows "astep (abs k) (abs k')"
proof -
  obtain o1 k1 where al: "allocproc k = (o1, k1)" by (cases "allocproc k")
  note aa = allocproc_abs [OF al]
  have fail: "astep (abs k) (abs k')"
    if "i < length (ptable k)" "p_state (ptable k ! i) = UNUSED"
      "abs k' = aupd i (\<lambda>p. p\<lparr>a_pid := nextpid k, a_state := UNUSED\<rparr>) ((abs k)\<lparr>a_nextpid := nextpid k + 1\<rparr>)" for i
  proof -
    have "abs k' = aupd i (\<lambda>p. p\<lparr>a_pid := a_nextpid (abs k)\<rparr>) ((abs k)\<lparr>a_nextpid := a_nextpid (abs k) + 1\<rparr>)"
      using that by (simp add: aupd_def sk_def)
    then show ?thesis using astep.spawn_fail [of "abs k" c cur i] c that(1,2) by simp
  qed
  show ?thesis
  proof (cases o1)
    case None
    then have "k' = k1" using f al by (simp add: fork_def)
    with aa None show ?thesis using fail astep.idle by auto
  next
    case (Some np)
    with aa have np: "np < length (ptable k)" "p_state (ptable k ! np) = UNUSED"
      and a1: "abs k1 = aupd np (\<lambda>p. p\<lparr>a_pid := nextpid k, a_state := EMBRYO\<rparr>) ((abs k)\<lparr>a_nextpid := nextpid k + 1\<rparr>)"
      by auto
    obtain d v where co: "copyuvm kdata (p_pgdir (ptable k1 ! cur)) (p_sz (ptable k1 ! cur)) (view cur k1) = Ok (d, v)"
      using f al Some by (auto simp: fork_def Let_def bindR_Ok_iff)
    define k2 where "k2 = upd_proc np (\<lambda>p. p\<lparr>p_pgdir := d\<rparr>) (put cur v k1)"
    have rest: "(if d = 0 then bindR (fork_undo np k2) (\<lambda>k. Ok (-1, k)) else Ok (p_pid (ptable (fork_child np cur k2) ! np), fork_child np cur k2)) = Ok (r, k')"
      using f al Some co by (auto simp: fork_def Let_def k2_def split: if_splits)
    have a2: "abs k2 = abs k1" unfolding k2_def by (subst abs_upd_same) (simp_all add: sk_def)
    have l2: "np < length (ptable k2)" using length_ptable_abs [OF a2] np(1) arg_cong [OF a1, of "\<lambda>a. length (a_procs a)"] by simp
    show ?thesis
    proof (cases "d = 0")
      case True
      then have "fork_undo np k2 = Ok k'" using rest by (auto simp: bindR_Ok_iff)
      from fork_undo_abs [OF this l2] show ?thesis
        by (intro fail [OF np]) (use np in \<open>simp add: a2 a1 aupd_def\<close>)
    next
      case False
      then have "abs k' = aupd np (\<lambda>p. p\<lparr>a_parent := Some cur, a_state := RUNNABLE\<rparr>) (abs k2)"
        using rest fork_child_abs [OF l2, of cur] by simp
      also have "\<dots> = aupd np (\<lambda>p. p\<lparr>a_state := RUNNABLE, a_pid := a_nextpid (abs k), a_parent := Some cur\<rparr>)
          ((abs k)\<lparr>a_nextpid := a_nextpid (abs k) + 1\<rparr>)"
        unfolding a2 a1 using np by (simp add: aupd_def sk_def)
      finally show ?thesis using astep.spawn [of "abs k" c cur np] c np by simp
    qed
  qed
qed

section \<open>Exit\<close>

text \<open>What the sleepers and children of the exiting process see: its parent and the initial
  process may be woken, its children get a new parent.\<close>

definition adopted :: "nat option \<Rightarrow> nat \<Rightarrow> skel \<Rightarrow> skel \<Rightarrow> bool" where
  "adopted ini cur p q \<longleftrightarrow> a_pid q = a_pid p \<and> a_chan q = a_chan p \<and>
     (a_state q = a_state p \<or> a_state p = SLEEPING \<and> a_state q = RUNNABLE) \<and>
     a_parent q = (if a_parent p = Some cur then ini else a_parent p)"

definition woken :: "skel \<Rightarrow> skel \<Rightarrow> bool" where
  "woken p q \<longleftrightarrow> a_pid q = a_pid p \<and> a_chan q = a_chan p \<and> a_parent q = a_parent p \<and>
     (a_state q = a_state p \<or> a_state p = SLEEPING \<and> a_state q = RUNNABLE)"

lemma woken_refl [simp]: "woken p p"
  by (simp add: woken_def)

lemma woken_trans: "woken p q \<Longrightarrow> woken q r \<Longrightarrow> woken p r"
  by (auto simp: woken_def)

lemma woken_awake: "woken p (awake ch p)"
  by (simp add: woken_def awake_def)

lemma abs_wakeup1: "abs (wakeup1 ch k) = (abs k)\<lparr>a_procs := map (awake ch) (a_procs (abs k))\<rparr>"
  by (auto simp: abs_def wakeup1_def awake_def sk_def)

lemma wakeup1_simps [simp]:
  "running (wakeup1 ch k) = running k" "initproc (wakeup1 ch k) = initproc k" "nextpid (wakeup1 ch k) = nextpid k"
  "length (ptable (wakeup1 ch k)) = length (ptable k)"
  by (simp_all add: wakeup1_def)

text \<open>Going through the table, the processes seen so far are adopted and the others at most woken.\<close>

definition reparent_rel :: "nat option \<Rightarrow> nat \<Rightarrow> nat set \<Rightarrow> kern \<Rightarrow> kern \<Rightarrow> bool" where
  "reparent_rel ini cur S k k' \<longleftrightarrow> length (ptable k') = length (ptable k) \<and> running k' = running k \<and>
     initproc k' = initproc k \<and> nextpid k' = nextpid k \<and>
     (\<forall>i < length (ptable k). (if i \<in> S then adopted ini cur else woken) (sk (ptable k ! i)) (sk (ptable k' ! i)))"

lemma reparent_relD:
  "reparent_rel ini cur S k k' \<Longrightarrow> i < length (ptable k) \<Longrightarrow> i \<in> S \<Longrightarrow> adopted ini cur (sk (ptable k ! i)) (sk (ptable k' ! i))"
  "reparent_rel ini cur S k k' \<Longrightarrow> i < length (ptable k) \<Longrightarrow> i \<notin> S \<Longrightarrow> woken (sk (ptable k ! i)) (sk (ptable k' ! i))"
  "reparent_rel ini cur S k k' \<Longrightarrow> length (ptable k') = length (ptable k) \<and> initproc k' = initproc k"
  by (auto simp: reparent_rel_def)

lemma wakeup1_nth: "i < length (ptable k) \<Longrightarrow> sk (ptable (wakeup1 ch k) ! i) = awake ch (sk (ptable k ! i))"
  by (simp add: wakeup1_def awake_def sk_def)

lemma adopted_awake: "adopted ini cur p q \<Longrightarrow> adopted ini cur p (awake ch q)"
  by (auto simp: adopted_def awake_def)

lemma reparent_rel_wakeup: "reparent_rel ini cur S k k' \<Longrightarrow> reparent_rel ini cur S k (wakeup1 ch k')"
  by (auto simp: reparent_rel_def wakeup1_nth adopted_awake woken_trans [OF _ woken_awake])

lemma reparent_rel_adopt:
  assumes "reparent_rel ini cur S k k'" "i \<notin> S" "initproc k = ini" "i < length (ptable k)"
  shows "reparent_rel ini cur (insert i S) k (if p_parent (ptable k' ! i) = Some cur then upd_proc i (\<lambda>p. p\<lparr>p_parent := initproc k'\<rparr>) k' else k')"
proof -
  have w: "woken (sk (ptable k ! i)) (sk (ptable k' ! i))" using reparent_relD(2) [OF assms(1,4,2)] .
  note l = reparent_relD(3) [OF assms(1)]
  have a: "adopted ini cur (sk (ptable k ! i)) (sk (ptable k' ! i))" if "p_parent (ptable k' ! i) \<noteq> Some cur"
    using w that by (auto simp: woken_def adopted_def)
  have b: "adopted ini cur (sk (ptable k ! i)) (sk ((ptable k' ! i)\<lparr>p_parent := ini\<rparr>))" if "p_parent (ptable k' ! i) = Some cur"
    using w that by (auto simp: woken_def adopted_def sk_def)
  show ?thesis
    using assms a b l unfolding reparent_rel_def by (auto simp: ptable_upd_nth)
qed

lemma reparent_rel_ok:
  "reparent_rel ini cur S k0 k \<Longrightarrow> distinct is \<Longrightarrow> set is \<inter> S = {} \<Longrightarrow> (\<forall>i \<in> set is. i < length (ptable k0)) \<Longrightarrow> initproc k0 = ini \<Longrightarrow>
   reparent_rel ini cur (S \<union> set is) k0 (reparent cur is k)"
proof (induction "is" arbitrary: S k)
  case (Cons i "is")
  let ?k1 = "if p_parent (ptable k ! i) = Some cur then upd_proc i (\<lambda>p. p\<lparr>p_parent := initproc k\<rparr>) k else k"
  have r1: "reparent_rel ini cur (insert i S) k0 ?k1"
    by (rule reparent_rel_adopt) (use Cons.prems in auto)
  define k2 where "k2 = (if p_parent (ptable k ! i) = Some cur
     then (case initproc ?k1 of Some ip \<Rightarrow> if p_state (ptable ?k1 ! i) = ZOMBIE then wakeup1 (ChProc ip) ?k1 else ?k1 | None \<Rightarrow> ?k1)
     else k)"
  have k2: "reparent cur (i # is) k = reparent cur is k2" "k2 = ?k1 \<or> (\<exists>ch. k2 = wakeup1 ch ?k1)"
    by (auto simp: k2_def Let_def split: option.splits)
  have "reparent_rel ini cur (insert i S) k0 k2" using k2(2) r1 reparent_rel_wakeup by auto
  from Cons.IH [OF this] show ?case using Cons.prems k2(1) by simp
qed simp

lemma sched_abs:
  "sched kpgdir c k = Ok k' \<Longrightarrow> abs k' = (abs k)\<lparr>a_running := (running k)(c := None)\<rparr>"
  by (auto simp: sched_def split: option.splits if_splits)

lemma reparent_rel_refl: "reparent_rel ini cur {} k k"
  by (simp add: reparent_rel_def)

lemma reparent_rel_same: "abs k1 = abs k \<Longrightarrow> reparent_rel ini cur {} k k1"
  by (simp add: reparent_rel_def abs_def list_eq_iff_nth_eq)

lemma exit_release_abs: "abs (exit_release cur k) = abs k"
proof -
  define cp where "cp = ptable k ! cur"
  define k1 where "k1 = upd_proc cur (\<lambda>p. p\<lparr>p_ofile := replicate NOFILE None\<rparr>) (close_files (p_ofile cp) k)"
  define k2 where "k2 = (if p_pid cp > 2 then call (RemoveSwapFile (p_pid cp)) (upd_proc cur (\<lambda>p. p\<lparr>p_swap := []\<rparr>) k1) else k1)"
  define k3 where "k3 = upd_proc cur (\<lambda>p. p\<lparr>p_phys := unused_all (p_phys p), p_disc := unused_all (p_disc p)\<rparr>) k2"
  define k4 where "k4 = (case p_cwd cp of Some i \<Rightarrow> call End_op (call (Iput i) (call Begin_op k3)) | None \<Rightarrow> k3)"
  have "abs k1 = abs k" unfolding k1_def by (subst abs_upd_same) (simp_all add: sk_def)
  then have "abs k2 = abs k" unfolding k2_def by (cases "p_pid cp > 2") (simp_all add: abs_upd_same sk_def)
  then have "abs k3 = abs k" unfolding k3_def by (subst abs_upd_same) (simp_all add: sk_def)
  then have "abs k4 = abs k" unfolding k4_def by (cases "p_cwd cp") simp_all
  moreover have "exit_release cur k = upd_proc cur (\<lambda>p. p\<lparr>p_cwd := None\<rparr>) k4"
    unfolding exit_release_def Let_def k4_def k3_def k2_def k1_def cp_def ..
  ultimately show ?thesis by (simp add: abs_upd_same sk_def)
qed

lemma exit_family_rel: "reparent_rel (initproc k) cur {0 ..< length (ptable k)} k (exit_family cur k)"
proof -
  define k1 where "k1 = (case p_parent (ptable k ! cur) of Some q \<Rightarrow> wakeup1 (ChProc q) k | None \<Rightarrow> k)"
  have r1: "reparent_rel (initproc k) cur {} k k1"
    using reparent_rel_refl reparent_rel_wakeup unfolding k1_def by (cases "p_parent (ptable k ! cur)") auto
  then have "length (ptable k1) = length (ptable k)" by (simp add: reparent_rel_def)
  then show ?thesis
    using reparent_rel_ok [OF r1, of "[0 ..< length (ptable k1)]"]
    unfolding exit_family_def Let_def k1_def [symmetric] by simp
qed

lemma exit_abs:
  assumes e: "exit_proc kpgdir c k = Ok k'" and ok: "running_ok (abs k)"
  shows "astep (abs k) (abs k')"
proof -
  obtain cur where c: "running k c = Some cur" and ini: "initproc k \<noteq> Some cur"
    using e by (auto simp: exit_proc_def split: option.splits if_splits)
  define k5 where "k5 = exit_release cur k"
  define k7 where "k7 = exit_family cur k5"
  have s: "sched kpgdir c (upd_proc cur (\<lambda>p. p\<lparr>p_state := ZOMBIE\<rparr>) k7) = Ok k'"
    using e c ini unfolding exit_proc_def by (simp add: k5_def k7_def)
  have a5: "abs k5 = abs k" unfolding k5_def by (rule exit_release_abs)
  have r7: "reparent_rel (initproc k5) cur {0 ..< length (ptable k5)} k5 k7"
    unfolding k7_def by (rule exit_family_rel)
  have l7: "cur < length (ptable k7)"
    using running_okD(1) [OF ok, of c cur] c r7 length_ptable_abs [OF a5] by (simp add: reparent_rel_def)
  define ps where "ps = map sk (ptable k7)"
  have la: "list_all2 (adopted (a_init (abs k5)) cur) (a_procs (abs k5)) ps"
    unfolding list_all2_conv_all_nth using r7 by (simp add: ps_def reparent_rel_def)
  have a7: "abs k7 = (abs k5)\<lparr>a_procs := ps\<rparr>"
    using r7 by (simp add: reparent_rel_def abs_def ps_def)
  have "abs (upd_proc cur (\<lambda>p. p\<lparr>p_state := ZOMBIE\<rparr>) k7) = aupd cur (\<lambda>p. p\<lparr>a_state := ZOMBIE\<rparr>) (abs k7)"
    by (rule abs_upd_proc [OF l7]) (simp add: sk_def)
  moreover have "running k7 = a_running (abs k)" using a5 a7 by (metis abs_simps(4) askel.select_convs(4) askel.update_convs(1) askel.surjective)
  ultimately have "abs k' = aupd cur (\<lambda>p. p\<lparr>a_state := ZOMBIE\<rparr>)
      ((abs k)\<lparr>a_procs := ps, a_running := (a_running (abs k))(c := None)\<rparr>)"
    unfolding sched_abs [OF s] a7 a5 by (simp add: aupd_def)
  then show ?thesis
    using astep.exit [of "abs k" c cur ps] c ini la unfolding adopted_def a5 by simp
qed

section \<open>The other steps\<close>

lemma abs_running_upd:
  "i < length (ptable k) \<Longrightarrow> sk (f (ptable k ! i)) = g (sk (ptable k ! i)) \<Longrightarrow>
   (abs (upd_proc i f k))\<lparr>a_running := r\<rparr> = aupd i g ((abs k)\<lparr>a_running := r\<rparr>)"
  by (simp add: abs_upd_proc aupd_def)

lemma yield_abs:
  assumes "yield kpgdir c k = Ok k'" "running_ok (abs k)" shows "astep (abs k) (abs k')"
proof -
  obtain i where c: "running k c = Some i" and s: "sched kpgdir c (upd_proc i (\<lambda>p. p\<lparr>p_state := RUNNABLE\<rparr>) k) = Ok k'"
    using assms(1) by (auto simp: yield_def split: option.splits)
  have i: "i < length (ptable k)" using running_okD(1) [OF assms(2), of c i] c by simp
  have "abs k' = aupd i (\<lambda>p. p\<lparr>a_state := RUNNABLE\<rparr>) ((abs k)\<lparr>a_running := (a_running (abs k))(c := None)\<rparr>)"
    unfolding sched_abs [OF s] by (simp add: upd_proc_simps, rule abs_running_upd [OF i]) (simp add: sk_def)
  then show ?thesis using astep.yield [of "abs k" c i] c by simp
qed

lemma sleep_abs:
  assumes "sleep_on kpgdir c ch k = Ok k'" "running_ok (abs k)" shows "astep (abs k) (abs k')"
proof -
  obtain i where c: "running k c = Some i"
    and s: "sched kpgdir c (upd_proc i (\<lambda>p. p\<lparr>p_chan := Some ch, p_state := SLEEPING\<rparr>) k) = Ok k'"
    using assms(1) by (auto simp: sleep_on_def split: option.splits)
  have i: "i < length (ptable k)" using running_okD(1) [OF assms(2), of c i] c by simp
  have "abs k' = aupd i (\<lambda>p. p\<lparr>a_chan := Some ch, a_state := SLEEPING\<rparr>) ((abs k)\<lparr>a_running := (a_running (abs k))(c := None)\<rparr>)"
    unfolding sched_abs [OF s] by (simp add: upd_proc_simps, rule abs_running_upd [OF i]) (simp add: sk_def)
  then show ?thesis using astep.sleep [of "abs k" c i ch] c by simp
qed

lemma awoken_abs:
  assumes "running k c = Some i" "running_ok (abs k)" shows "astep (abs k) (abs (sleep_return i k))"
proof -
  have i: "i < length (ptable k)" using running_okD(1) [OF assms(2), of c i] assms(1) by simp
  have "abs (sleep_return i k) = aupd i (\<lambda>p. p\<lparr>a_chan := None\<rparr>) (abs k)"
    unfolding sleep_return_def by (rule abs_upd_proc [OF i]) (simp add: sk_def)
  then show ?thesis using astep.awoken [of "abs k" c i] assms(1) by simp
qed

lemma wakeup_abs: "astep (abs k) (abs (wakeup ch k))"
  unfolding wakeup_def abs_wakeup1 by (rule astep.wake)

lemma kill_abs:
  assumes "kill pid k = (r, k')" shows "astep (abs k) (abs k')"
proof (cases "find_idx (\<lambda>p. p_pid p = pid) (ptable k)")
  case None
  then show ?thesis using assms astep.idle by (simp add: kill_def)
next
  case (Some i)
  note i = find_idx_SomeD [OF Some]
  have "abs k' = aupd i (\<lambda>p. p\<lparr>a_state := (if a_state p = SLEEPING then RUNNABLE else a_state p)\<rparr>) (abs k)"
    using assms Some by (auto simp: kill_def sk_def intro!: abs_upd_proc [OF i(1)])
  then show ?thesis using astep.kill [of i "abs k"] i(1) by simp
qed

lemma run_abs:
  assumes "running k c = None" "scheduler_next start k = Some i" "scheduler_run c i k = Ok k'"
  shows "astep (abs k) (abs k')"
proof -
  obtain j where j: "find_idx (\<lambda>p. p_state p = RUNNABLE) (drop start (ptable k)) = Some j" "i = start + j"
    using assms(2) by (auto simp: scheduler_next_def)
  note f = find_idx_SomeD [OF j(1)]
  have i: "i < length (ptable k)" "p_state (ptable k ! i) = RUNNABLE" using f j(2) by (auto simp: add.commute)
  have k': "k' = upd_proc i (\<lambda>p. p\<lparr>p_state := RUNNING\<rparr>) (k\<lparr>running := (running k)(c := Some i), cr3 := V2P (p_pgdir (ptable k ! i))\<rparr>)"
    using assms(3) by (auto simp: scheduler_run_def Let_def split: if_splits)
  have "abs k' = aupd i (\<lambda>p. p\<lparr>a_state := RUNNING\<rparr>) (abs (k\<lparr>running := (running k)(c := Some i), cr3 := V2P (p_pgdir (ptable k ! i))\<rparr>))"
    unfolding k' by (rule abs_upd_proc) (use i in \<open>simp_all add: sk_def\<close>)
  then show ?thesis using astep.run [of "abs k" c i] i assms(1) by simp
qed

lemma wait_abs:
  assumes w: "wait_pass kpgdir c k = Ok (x, k')" and ok: "running_ok (abs k)"
  shows "astep (abs k) (abs k')"
proof -
  obtain cur where c: "running k c = Some cur"
    using w by (auto simp: wait_pass_def split: option.splits)
  show ?thesis
  proof (cases "find_idx (\<lambda>p. p_parent p = Some cur \<and> p_state p = ZOMBIE) (ptable k)")
    case None
    then have "k' = k \<or> sleep_on kpgdir c (ChProc cur) k = Ok k'"
      using w c by (auto simp: wait_pass_def bindR_Ok_iff split: if_splits)
    then show ?thesis using sleep_abs [OF _ ok] astep.idle by auto
  next
    case (Some i)
    note i = find_idx_SomeD [OF Some]
    obtain k1 v where k1: "kfree (p_kstack (ptable k ! i)) k = Ok k1"
      and k': "k' = upd_proc i (\<lambda>p. p\<lparr>p_pid := 0, p_parent := None, p_name := [], p_killed := False,
          p_state := UNUSED, p_phys := unused_all (p_phys p), p_disc := unused_all (p_disc p)\<rparr>)
        (put cur v (upd_proc i (\<lambda>p. p\<lparr>p_kstack := 0\<rparr>) k1))"
      using w c Some by (auto simp: wait_pass_def bindR_Ok_iff Let_def)
    have a1: "abs (put cur v (upd_proc i (\<lambda>p. p\<lparr>p_kstack := 0\<rparr>) k1)) = abs k"
      using abs_more [OF kfree_more [OF k1]] by (simp add: abs_upd_same sk_def)
    have "abs k' = aupd i (\<lambda>p. p\<lparr>a_pid := 0, a_parent := None, a_state := UNUSED\<rparr>) (abs k)"
      unfolding k' a1 [symmetric] by (rule abs_upd_proc) (use i(1) length_ptable_abs [OF a1] in \<open>simp_all add: sk_def\<close>)
    then show ?thesis using astep.reap [of "abs k" c cur i] c i by simp
  qed
qed

lemma age_all_abs: "age_all is k = Ok k' \<Longrightarrow> abs k' = abs k"
proof (induction "is" k rule: age_all.induct)
  case (2 i "is" k)
  then show ?case by (fastforce simp: bindR_Ok_iff Let_def split: if_splits)
qed simp

lemmas kstep_abs = run_abs yield_abs sleep_abs awoken_abs wakeup_abs kill_abs fork_abs exit_abs wait_abs

lemma kstep_astep:
  assumes "kstep kdata kpgdir k k'" "running_ok (abs k)" shows "astep (abs k) (abs k')"
  using assms(1)
proof cases
  case k_age
  then have "abs k' = abs k" unfolding updateAgeForAllProcess_def by (rule age_all_abs)
  then show ?thesis using astep.idle by simp
qed (use assms(2) in \<open>auto intro: kstep_abs\<close>)

section \<open>Reachable states\<close>

definition kreach :: "u32 \<Rightarrow> u32 \<Rightarrow> kern \<Rightarrow> kern \<Rightarrow> bool" where
  "kreach kdata kpgdir = (kstep kdata kpgdir)\<^sup>*\<^sup>*"

text \<open>The state \<^verbatim>\<open>userinit\<close> starts from: an empty table, nothing running.\<close>

definition boot_ok :: "kern \<Rightarrow> bool" where
  "boot_ok k \<longleftrightarrow> nextpid k = 1 \<and> running k = (\<lambda>c. None) \<and>
     (\<forall>p \<in> set (ptable k). p_state p = UNUSED \<and> p_parent p = None \<and> p_pid p = 0)"

lemma boot_nth: "boot_ok k \<Longrightarrow> i < length (ptable k) \<Longrightarrow>
    p_state (ptable k ! i) = UNUSED \<and> p_parent (ptable k ! i) = None \<and> p_pid (ptable k ! i) = 0"
  by (simp add: boot_ok_def)

lemma length_put [simp]: "length (ptable (put i v k)) = length (ptable k)"
  by (simp add: put_def)

lemma userinit_abs:
  assumes "userinit kdata initcode rootino k = Ok k'"
  obtains i where "i < length (ptable k)" "p_state (ptable k ! i) = UNUSED"
    "abs k' = aupd i (\<lambda>p. p\<lparr>a_pid := nextpid k, a_state := RUNNABLE\<rparr>)
       ((abs k)\<lparr>a_nextpid := nextpid k + 1, a_init := Some i\<rparr>)"
proof -
  obtain i k1 where al: "allocproc k = (Some i, k1)"
    using assms by (auto simp: userinit_def split: prod.splits option.splits)
  obtain d v where sk: "setupkvm kdata (view i (k1\<lparr>initproc := Some i\<rparr>)) = Ok (d, v)"
    using assms al by (auto simp: userinit_def Let_def bindR_Ok_iff)
  define k3 where "k3 = upd_proc i (\<lambda>p. p\<lparr>p_pgdir := d\<rparr>) (put i v (k1\<lparr>initproc := Some i\<rparr>))"
  obtain v1 where v1: "inituvm d initcode (view i k3) = Ok v1"
    using assms al sk by (auto simp: userinit_def Let_def bindR_Ok_iff k3_def split: if_splits)
  define fin where "fin = (\<lambda>p::proc. p\<lparr>p_sz := PGSIZE,
      p_tf := \<lparr>tf_eax = 0, tf_eip0 = 0, tf_esp0 = PGSIZE, tf_cs = (3 * 8) OR 3, tf_ds = (4 * 8) OR 3, tf_eflags = 0x200\<rparr>,
      p_name := map (\<lambda>c. of_nat c) [105, 110, 105, 116, 99, 111, 100, 101],
      p_cwd := Some rootino, p_state := RUNNABLE\<rparr>)"
  have k': "k' = upd_proc i fin (put i v1 k3)"
    using assms al sk v1 by (simp add: userinit_def Let_def k3_def [symmetric] fin_def split: if_splits)
  from allocproc_abs [OF al] have i: "i < length (ptable k)" "p_state (ptable k ! i) = UNUSED"
    and a1: "abs k1 = aupd i (\<lambda>p. p\<lparr>a_pid := nextpid k, a_state := EMBRYO\<rparr>) ((abs k)\<lparr>a_nextpid := nextpid k + 1\<rparr>)"
    by auto
  have "abs k3 = abs (put i v (k1\<lparr>initproc := Some i\<rparr>))"
    unfolding k3_def by (rule abs_upd_same) (simp add: sk_def)
  then have a3: "abs (put i v1 k3) = (abs k1)\<lparr>a_init := Some i\<rparr>"
    by (simp add: abs_def [of "k1\<lparr>initproc := Some i\<rparr>"])
  have l: "i < length (ptable (put i v1 k3))"
    using arg_cong [OF a1, of "\<lambda>a. length (a_procs a)"] i(1) by (simp add: k3_def)
  have "abs k' = aupd i (\<lambda>p. p\<lparr>a_state := RUNNABLE\<rparr>) (abs (put i v1 k3))"
    unfolding k' by (rule abs_upd_proc [OF l]) (simp add: sk_def fin_def)
  also have "\<dots> = aupd i (\<lambda>p. p\<lparr>a_pid := nextpid k, a_state := RUNNABLE\<rparr>)
       ((abs k)\<lparr>a_nextpid := nextpid k + 1, a_init := Some i\<rparr>)"
    unfolding a3 a1 using i(1) by (simp add: aupd_def)
  finally show thesis using that i by blast
qed

lemma userinit_life_ok:
  assumes "userinit kdata initcode rootino k = Ok k'" "boot_ok k"
  shows "life_ok (abs k')"
proof -
  obtain i where i: "i < length (ptable k)" and a: "abs k' = aupd i (\<lambda>p. p\<lparr>a_pid := nextpid k, a_state := RUNNABLE\<rparr>)
       ((abs k)\<lparr>a_nextpid := nextpid k + 1, a_init := Some i\<rparr>)"
    using userinit_abs [OF assms(1)] by blast
  have n: "a_state (a_procs (abs k') ! j) = (if j = i then RUNNABLE else UNUSED)"
    "a_pid (a_procs (abs k') ! j) = (if j = i then 1 else 0)" "a_parent (a_procs (abs k') ! j) = None"
    if "j < length (ptable k)" for j
    using that i assms(2) boot_nth [OF assms(2) that] unfolding a by (auto simp: aupd_def boot_ok_def nth_list_update)
  have l: "length (a_procs (abs k')) = length (ptable k)" "a_running (abs k') = (\<lambda>c. None)" "a_nextpid (abs k') = 2" "a_init (abs k') = Some i"
    using assms(2) unfolding a by (simp_all add: boot_ok_def aupd_def)
  show ?thesis
    unfolding life_ok_def running_ok_def pids_ok_def parents_ok_def sleepers_ok_def l
    using i by (simp add: n del: abs_simps)
qed

lemma kreach_life_ok: "kreach kdata kpgdir k k' \<Longrightarrow> life_ok (abs k) \<Longrightarrow> life_ok (abs k')"
  unfolding kreach_def
proof (induction rule: rtranclp_induct)
  case (step y z)
  then show ?case using astep_life_ok kstep_astep by (metis life_ok_def)
qed

lemma booted_life_ok:
  "userinit kdata initcode rootino k0 = Ok k \<Longrightarrow> boot_ok k0 \<Longrightarrow> kreach kdata kpgdir k k' \<Longrightarrow> life_ok (abs k')"
  using userinit_life_ok kreach_life_ok by blast

section \<open>The properties\<close>

text \<open>C1: every step of proc.c is a step of the abstract process life cycle, so the model of
  \<^verbatim>\<open>fork\<close>, \<^verbatim>\<open>exit\<close>, \<^verbatim>\<open>wait\<close>, \<^verbatim>\<open>sleep\<close>, \<^verbatim>\<open>wakeup\<close>, \<^verbatim>\<open>kill\<close>, \<^verbatim>\<open>yield\<close> and the
  scheduler implements it on every branch that does not panic.\<close>

theorem proc_refines_life_cycle:
  assumes "kstep kdata kpgdir k k'" "running_ok (abs k)"
  shows "astep (abs k) (abs k')"
  using assms by (rule kstep_astep)


definition demo_proc :: proc where
  "demo_proc = \<lparr>p_sz = PGSIZE, p_pgdir = 0x80001000, p_kstack = 0x80002000, p_state = RUNNING, p_pid = 1, p_parent = None,
     p_tf = \<lparr>tf_eax = 0, tf_eip0 = 0, tf_esp0 = PGSIZE, tf_cs = 27, tf_ds = 35, tf_eflags = 0x200\<rparr>,
     p_chan = None, p_killed = False, p_ofile = [], p_cwd = None, p_name = [], p_swap = [], p_phys = [], p_disc = [],
     p_timer = 0, p_pageFault = 0\<rparr>"

definition demo_kern :: kern where
  "demo_kern = \<lparr>mem = (\<lambda>f o1. 0), freelist = 0, kend = 0x80110000, cr3 = 0, ptable = [demo_proc],
     nextpid = 2, initproc = Some 0, running = (\<lambda>c. if c = 0 then Some 0 else None), kbuffer = [], calls = []\<rparr>"

lemma demo_life_ok: "life_ok (abs demo_kern)"
  by (simp add: life_ok_def running_ok_def pids_ok_def parents_ok_def sleepers_ok_def demo_kern_def abs_def sk_def demo_proc_def)

lemma demo_yield: "kstep 0 0 demo_kern ((upd_proc 0 (\<lambda>p. p\<lparr>p_state := RUNNABLE\<rparr>) demo_kern)\<lparr>cr3 := V2P 0, running := (\<lambda>c. None)\<rparr>)"
  by (rule k_yield [of _ 0]) (auto simp: yield_def sched_def demo_kern_def upd_proc_def demo_proc_def fun_upd_def)

theorem proc_refines_life_cycle_witness:
  "astep (abs demo_kern) (abs ((upd_proc 0 (\<lambda>p. p\<lparr>p_state := RUNNABLE\<rparr>) demo_kern)\<lparr>cr3 := V2P 0, running := (\<lambda>c. None)\<rparr>))"
  using proc_refines_life_cycle [OF demo_yield] demo_life_ok by (simp add: life_ok_def)


end
