(* ===== verification/PagingDemo.thy ===== *)
theory PagingDemo
  imports Paging
begin

text \<open>
  A small concrete machine the properties of the page tables and of the swapper are applied
  to: the page directory in frame 1, one page table in frame 2, and one entry, for virtual
  page 0; frame 3 is a user frame and frame 4 the only free page.
\<close>

definition demo_mem :: "u32 \<Rightarrow> frame \<Rightarrow> widx \<Rightarrow> u32" where
  "demo_mem e f i = (if f = 1 \<and> i = 0 then 0x2007 else if f = 2 \<and> i = 0 then e else 0)"

definition demo_page :: "bool \<Rightarrow> u32 \<Rightarrow> pageData" where
  "demo_page u va = \<lparr>pageDirectory = 0x80001000, isUsed = u, virtualAddress = va, timer = 0, ageCounter = 0, isImportant = 0\<rparr>"

definition demo_phys :: "u32 \<Rightarrow> phys" where
  "demo_phys e = \<lparr>mem = demo_mem e, freelist = 0x80004000, kend = 0x80003000, cr3 = 0x1000\<rparr>"

definition demo_vproc :: "u32 \<Rightarrow> pageData list \<Rightarrow> pageData list \<Rightarrow> vproc" where
  "demo_vproc e rs ds = \<lparr>mem = demo_mem e, freelist = 0x80004000, kend = 0x80003000, cr3 = 0x1000,
     cpid = 3, pgdir = 0x80001000, pagesInPhysicalMemory = rs, pagesInDisc = ds, ptimer = 1, pageFault = 0,
     swapFile = replicate 4096 7, buffer = replicate 4096 0\<rparr>"

definition demo_out :: vproc where
  "demo_out = demo_vproc 0x206 (replicate 15 (demo_page False 0x1000))
     (demo_page True 0 # replicate 14 (demo_page False 0x1000))"

definition demo_in :: vproc where
  "demo_in = demo_vproc 0x3007 (demo_page True 0 # replicate 14 (demo_page False 0x1000))
     (replicate 15 (demo_page False 0x1000))"

lemma demo_mem_simps [simp]:
  "demo_mem e 1 i = (if i = 0 then 0x2007 else 0)" "demo_mem e 2 i = (if i = 0 then e else 0)"
  "demo_mem e 3 i = 0" "demo_mem e 4 i = 0"
  by (simp_all add: demo_mem_def)

lemma present_2007: "present 0x2007" "pframe 0x2007 = 2"
  by (simp_all add: present_def pframe_def)

lemma demo_pt_frames:
  assumes "mem s = demo_mem e" shows "pt_frames s 1 = {1, 2}"
  unfolding pt_frames_def assms by (auto simp: present_2007)

lemma demo_entry:
  assumes "mem s = demo_mem e" shows "entry s 1 va = (if vpn va = 0 then e else 0)"
    "pte_at s 1 0 = Some e"
proof -
  have z: "vpn va = 0 \<longleftrightarrow> pdx va = 0 \<and> ptx va = 0"
    using vpn_eq_iff [of va 0] by (simp add: vpn_def pdx_def ptx_def PDX_def PTX_def)
  show "entry s 1 va = (if vpn va = 0 then e else 0)"
    by (simp add: entry_def pte_at_def Let_def assms present_2007 z)
  show "pte_at s 1 0 = Some e"
    by (simp add: pte_at_def Let_def assms present_2007 pdx_def ptx_def PDX_def PTX_def)
qed

lemma demo_kmem_ok:
  assumes "mem s = demo_mem e" "freelist s = 0x80004000" "kend s = 0x80003000"
  shows "kmem_ok s [0x80004000]"
  using assms by (simp add: kmem_ok_def load32_def valid_page_def page_aligned_def V2P_def vframe_def vidx_def pframe_def pidx_def)

lemma demo_pt_ok:
  assumes "mem s = demo_mem e" "freelist s = 0x80004000" "kend s = 0x80003000"
  shows "pt_ok s 1 [0x80004000]"
  unfolding pt_ok_def demo_pt_frames [OF assms(1)]
proof (intro conjI)
  show "kmem_ok s [0x80004000]" using demo_kmem_ok [OF assms] .
  have p: "present (mem s 1 i) \<longleftrightarrow> i = 0" for i by (simp add: assms present_2007)
  then show "\<forall>i. present (mem s 1 i) \<longrightarrow> pframe (mem s 1 i) \<noteq> 1"
    by (simp add: assms present_2007)
  show "inj_on (\<lambda>i. pframe (mem s 1 i)) {i. present (mem s 1 i)}"
    by (simp add: p inj_on_def)
qed (simp_all add: frames_def vframe_def V2P_def pframe_def)

lemma uva_0: "uva 0" and vpn_0: "vpn 0 = 0"
  by (simp_all add: uva_def page_aligned_def vpn_def)

lemma uva_vpn_0: "uva va \<Longrightarrow> vpn va = 0 \<longleftrightarrow> va = 0"
  using uva_vpn [OF uva_0, of va] by (simp add: vpn_0)

lemma demo_entry_flags: "paged_out 0x206" "pframe 0x206 = 0" "\<not> present 0x206" "present 0x3007" "\<not> paged_out 0x3007"
    "pframe 0x3007 = 3" "\<not> paged_out 0"
  by (simp_all add: paged_out_def present_def pframe_def)

lemma kva_frames: "kva 1 = 0x80001000" "kva 3 = 0x80003000" "pa_of 1 = 0x1000"
  by (simp_all add: kva_def pa_of_def P2V_def)

lemma demo_out_ok: "paging_ok demo_out 1 [0x80004000]"
proof -
  have m: "mem demo_out = demo_mem 0x206" "freelist demo_out = 0x80004000" "kend demo_out = 0x80003000"
    by (simp_all add: demo_out_def demo_vproc_def)
  note en = demo_entry [OF m(1)]
  have "slot_of demo_out 0 = Some 0"
    by (simp add: slot_of_def demo_out_def demo_vproc_def demo_page_def)
  then have "disc_ok demo_out 1"
    unfolding disc_ok_def Let_def en
    by (auto simp: demo_out_def demo_vproc_def demo_page_def nth_Cons' kva_frames uva_0 demo_entry_flags vpn_0 uva_vpn_0)
  moreover have "resident_ok demo_out 1"
    by (simp add: resident_ok_def Let_def demo_out_def demo_vproc_def demo_page_def)
  moreover have "frames_ok demo_out 1 [0x80004000]"
    by (simp add: frames_ok_def en demo_entry_flags)
  moreover have "pgdir demo_out = kva 1" "cr3 demo_out = pa_of 1"
    by (simp_all add: demo_out_def demo_vproc_def kva_frames)
  ultimately show ?thesis using demo_pt_ok [OF m] by (simp add: paging_ok_def)
qed

lemma demo_in_ok: "paging_ok demo_in 1 [0x80004000]"
proof -
  have m: "mem demo_in = demo_mem 0x3007" "freelist demo_in = 0x80004000" "kend demo_in = 0x80003000"
    by (simp_all add: demo_in_def demo_vproc_def)
  note en = demo_entry [OF m(1)]
  have r: "pagesInPhysicalMemory demo_in = demo_page True 0 # replicate 14 (demo_page False 0x1000)"
    by (simp add: demo_in_def demo_vproc_def)
  have "disc_ok demo_in 1"
    unfolding disc_ok_def Let_def en
    by (auto simp: demo_in_def demo_vproc_def demo_page_def demo_entry_flags)
  moreover have "resident_ok demo_in 1"
    by (auto simp: resident_ok_def Let_def en r demo_page_def nth_Cons' kva_frames uva_0 vpn_0 demo_entry_flags)
  moreover have "frames_ok demo_in 1 [0x80004000]"
    unfolding frames_ok_def en demo_pt_frames [OF m(1)]
    by (auto simp: demo_entry_flags uva_vpn_0 kva_frames valid_page_def page_aligned_def m V2P_def frames_def vframe_def pframe_def)
  moreover have "pgdir demo_in = kva 1" "cr3 demo_in = pa_of 1"
    by (simp_all add: demo_in_def demo_vproc_def kva_frames)
  ultimately show ?thesis using demo_pt_ok [OF m] by (simp add: paging_ok_def)
qed



theorem reallocatePageInDisk_ok_witness:
  "\<exists>s'. reallocatePageInDisk 1 0 demo_in = Ok (1, s') \<and>
    paging_ok s' 1 (kva (pframe (entry demo_in 1 (virtualAddress (pagesInPhysicalMemory demo_in ! nat (getReplacementPageIndexPhyMem 1 0 (pagesInPhysicalMemory demo_in)))))) # [0x80004000]) \<and>
    paged_out (entry s' 1 (virtualAddress (pagesInPhysicalMemory demo_in ! nat (getReplacementPageIndexPhyMem 1 0 (pagesInPhysicalMemory demo_in))))) \<and>
    spaceAvialableInMemory s' = 1 \<and> (\<forall>w. uva w \<longrightarrow> vpage s' 1 w = vpage demo_in 1 w)"
  by (rule reallocatePageInDisk_ok [OF demo_in_ok])
    (simp_all add: demo_in_def demo_vproc_def demo_page_def spaceAvialableInDisk_def getReplacementPageIndexPhyMem_def getReplacementPageIndexFIFO_def numeral_eq_Suc)


lemma demo_user_ok: "user_ok (demo_phys 0x3007) 1"
proof -
  have m: "mem (demo_phys 0x3007) = demo_mem 0x3007" by (simp add: demo_phys_def)
  show ?thesis
    unfolding user_ok_def demo_entry(1) [OF m] demo_pt_frames [OF m] by (auto simp: demo_entry_flags)
qed

lemma demo_tables_cover: "tables_cover (demo_phys 0x3007) 1 0 2"
proof -
  have m: "mem (demo_phys 0x3007) = demo_mem 0x3007" by (simp add: demo_phys_def)
  have "pte_at (demo_phys 0x3007) 1 (of_nat k) \<noteq> None" if "k < 2" for k
  proof -
    have "vpn (of_nat k) = vpn 0" using that by (auto simp: less_2_cases_iff vpn_def)
    from pte_at_vpn [OF this, of "demo_phys 0x3007" 1] show ?thesis using demo_entry(2) [OF m] by simp
  qed
  then show ?thesis by (simp add: tables_cover_def)
qed


end
