(* ===== verification/ByteOps.thy ===== *)
theory ByteOps
  imports Xv6_Prelude
begin

text \<open>
  Integers in byte buffers: reading and writing the little-endian fields of the structures
  the kernel overlays on file and disk blocks.
\<close>

section \<open>Little-endian fields\<close>

definition le16 :: "u8 list \<Rightarrow> nat \<Rightarrow> u32" where
  "le16 bs k = ucast (bs ! k) OR push_bit 8 (ucast (bs ! (k + 1)))"

definition le32 :: "u8 list \<Rightarrow> nat \<Rightarrow> u32" where
  "le32 bs k = ucast (bs ! k) OR push_bit 8 (ucast (bs ! (k + 1))) OR
     push_bit 16 (ucast (bs ! (k + 2))) OR push_bit 24 (ucast (bs ! (k + 3)))"

definition bytes32 :: "u32 \<Rightarrow> u8 list" where
  "bytes32 w = [ucast w, ucast (drop_bit 8 w), ucast (drop_bit 16 w), ucast (drop_bit 24 w)]"

lemma le32_bytes32: "k + 4 \<le> length bs \<Longrightarrow> take 4 (drop k bs) = bytes32 w \<Longrightarrow> le32 bs k = w"
proof -
  assume k: "k + 4 \<le> length bs" and t: "take 4 (drop k bs) = bytes32 w"
  have n: "bs ! (k + i) = bytes32 w ! i" if "i < 4" for i
    using k t that by (metis add_leD1 nth_drop nth_take)
  have "le32 bs k = ucast (ucast w :: u8) OR push_bit 8 (ucast (ucast (drop_bit 8 w) :: u8)) OR
      push_bit 16 (ucast (ucast (drop_bit 16 w) :: u8)) OR push_bit 24 (ucast (ucast (drop_bit 24 w) :: u8))"
    using n [of 0] n [of 1] n [of 2] n [of 3] by (simp add: le32_def bytes32_def)
  also have "\<dots> = w"
  proof (rule bit_word_eqI)
    fix m :: nat assume "m < LENGTH(32)"
    then consider "m < 8" | "8 \<le> m" "m < 16" | "16 \<le> m" "m < 24" | "24 \<le> m" "m < 32" by fastforce
    then show "bit (ucast (ucast w :: u8) OR push_bit 8 (ucast (ucast (drop_bit 8 w) :: u8)) OR
      push_bit 16 (ucast (ucast (drop_bit 16 w) :: u8)) OR push_bit 24 (ucast (ucast (drop_bit 24 w) :: u8)) :: u32) m = bit w m"
      by cases (simp_all add: bit_simps, arith+)
  qed
  finally show ?thesis .
qed

section \<open>Overwriting a part of a buffer\<close>

definition splice :: "nat \<Rightarrow> 'a list \<Rightarrow> 'a list \<Rightarrow> 'a list" where
  "splice k xs bs = take k bs @ xs @ drop (k + length xs) bs"

lemma length_splice [simp]: "k + length xs \<le> length bs \<Longrightarrow> length (splice k xs bs) = length bs"
  by (simp add: splice_def)

lemma nth_splice:
  "k + length xs \<le> length bs \<Longrightarrow> j < length bs \<Longrightarrow>
   splice k xs bs ! j = (if k \<le> j \<and> j < k + length xs then xs ! (j - k) else bs ! j)"
  by (auto simp: splice_def nth_append min_def)

lemma splice_get: "k + length xs \<le> length bs \<Longrightarrow> take (length xs) (drop k (splice k xs bs)) = xs"
  by (simp add: splice_def)

lemma splice_get_other:
  assumes "k + length xs \<le> length bs" "j + n \<le> k \<or> k + length xs \<le> j"
  shows "take n (drop j (splice k xs bs)) = take n (drop j bs)"
proof (cases "j + n \<le> k")
  case True
  then have "take n (drop j (splice k xs bs)) = take n (drop j (take k bs))"
    using assms(1) by (simp add: splice_def)
  also have "\<dots> = take n (drop j bs)" using True by (simp add: drop_take min_def)
  finally show ?thesis .
next
  case False
  then have "k + length xs \<le> j" using assms(2) by simp
  then have "drop j (splice k xs bs) = drop j bs" using assms(1) by (simp add: splice_def)
  then show ?thesis by simp
qed

definition put32 :: "nat \<Rightarrow> u32 \<Rightarrow> u8 list \<Rightarrow> u8 list" where
  "put32 k w bs = splice k (bytes32 w) bs"

definition bytes16 :: "u32 \<Rightarrow> u8 list" where
  "bytes16 w = [ucast w, ucast (drop_bit 8 w)]"

definition put16 :: "nat \<Rightarrow> u32 \<Rightarrow> u8 list \<Rightarrow> u8 list" where
  "put16 k w bs = splice k (bytes16 w) bs"

lemma length_bytes32 [simp]: "length (bytes32 w) = 4" and length_bytes16 [simp]: "length (bytes16 w) = 2"
  by (simp_all add: bytes32_def bytes16_def)

lemma length_put32 [simp]: "k + 4 \<le> length bs \<Longrightarrow> length (put32 k w bs) = length bs"
  by (simp add: put32_def)

lemma length_put16 [simp]: "k + 2 \<le> length bs \<Longrightarrow> length (put16 k w bs) = length bs"
  by (simp add: put16_def)

lemma le32_cong: "take 4 (drop k bs) = take 4 (drop k cs) \<Longrightarrow> k + 4 \<le> length bs \<Longrightarrow> k + 4 \<le> length cs \<Longrightarrow> le32 bs k = le32 cs k"
proof -
  assume t: "take 4 (drop k bs) = take 4 (drop k cs)" and l: "k + 4 \<le> length bs" "k + 4 \<le> length cs"
  have "bs ! (k + i) = cs ! (k + i)" if "i < 4" for i
    using t l that by (metis add_leD1 nth_drop nth_take)
  from this [of 0] this [of 1] this [of 2] this [of 3] show ?thesis by (simp add: le32_def)
qed

lemma le32_put32 [simp]: "k + 4 \<le> length bs \<Longrightarrow> le32 (put32 k w bs) k = w"
  using splice_get [of k "bytes32 w" bs] by (intro le32_bytes32) (simp_all add: put32_def)

lemma le32_put32_other:
  "k + 4 \<le> length bs \<Longrightarrow> j + 4 \<le> length bs \<Longrightarrow> j + 4 \<le> k \<or> k + 4 \<le> j \<Longrightarrow> le32 (put32 k w bs) j = le32 bs j"
  by (rule le32_cong) (simp_all add: put32_def splice_get_other)

lemma le16_put16: "k + 2 \<le> length bs \<Longrightarrow> w < 2 ^ 16 \<Longrightarrow> le16 (put16 k w bs) k = w"
proof -
  assume k: "k + 2 \<le> length bs" and w: "w < 2 ^ 16"
  have n: "put16 k w bs ! k = ucast w" "put16 k w bs ! (k + 1) = ucast (drop_bit 8 w)"
    using k by (simp_all add: put16_def nth_splice bytes16_def)
  have b: "\<not> bit w m" if "16 \<le> m" for m
  proof -
    have "w = take_bit 16 w" using less_mask_eq [of w 16] w by (simp add: take_bit_eq_mask)
    then show ?thesis using that by (metis bit_take_bit_iff not_less)
  qed
  have "ucast (ucast w :: u8) OR push_bit 8 (ucast (ucast (drop_bit 8 w) :: u8)) = w"
  proof (rule bit_word_eqI)
    fix m :: nat assume "m < LENGTH(32)"
    then consider "m < 8" | "8 \<le> m" "m < 16" | "16 \<le> m" by fastforce
    then show "bit (ucast (ucast w :: u8) OR push_bit 8 (ucast (ucast (drop_bit 8 w) :: u8)) :: u32) m = bit w m"
      by cases (use b in \<open>simp_all add: bit_simps, arith\<close>)
  qed
  then show ?thesis using n by (simp only: le16_def)
qed

lemma le16_cong: "bs ! k = cs ! k \<Longrightarrow> bs ! (k + 1) = cs ! (k + 1) \<Longrightarrow> le16 bs k = le16 cs k"
  by (simp add: le16_def)

lemma nth_put16:
  "k + 2 \<le> length bs \<Longrightarrow> j < length bs \<Longrightarrow> j < k \<or> k + 2 \<le> j \<Longrightarrow> put16 k w bs ! j = bs ! j"
  by (auto simp: put16_def nth_splice)

lemma nth_put32:
  "k + 4 \<le> length bs \<Longrightarrow> j < length bs \<Longrightarrow> j < k \<or> k + 4 \<le> j \<Longrightarrow> put32 k w bs ! j = bs ! j"
  by (auto simp: put32_def nth_splice)

lemma le16_put_other:
  "k + 2 \<le> length bs \<Longrightarrow> j + 2 \<le> length bs \<Longrightarrow> j + 2 \<le> k \<or> k + 2 \<le> j \<Longrightarrow> le16 (put16 k w bs) j = le16 bs j"
  "k + 4 \<le> length bs \<Longrightarrow> j + 2 \<le> length bs \<Longrightarrow> j + 2 \<le> k \<or> k + 4 \<le> j \<Longrightarrow> le16 (put32 k w bs) j = le16 bs j"
  by (rule le16_cong; (subst nth_put16 | subst nth_put32); auto)+

lemma le32_put16_other:
  "k + 2 \<le> length bs \<Longrightarrow> j + 4 \<le> length bs \<Longrightarrow> j + 4 \<le> k \<or> k + 2 \<le> j \<Longrightarrow> le32 (put16 k w bs) j = le32 bs j"
  by (rule le32_cong) (simp_all add: put16_def splice_get_other)

lemma le32_nth_cong:
  assumes "\<And>j. j < 4 \<Longrightarrow> bs ! (k + j) = cs ! (k + j)"
  shows "le32 bs k = le32 cs k"
  using assms [of 0] assms [of 1] assms [of 2] assms [of 3] by (simp add: le32_def)

lemma u16_roundtrip [simp]: "(ucast (ucast (w :: u16) :: u32) :: u16) = w" "(ucast (w :: u16) :: u32) < 2 ^ 16"
proof -
  show "(ucast (ucast (w :: u16) :: u32) :: u16) = w" by (rule bit_word_eqI) (simp add: bit_simps)
  have "take_bit 16 (ucast w :: u32) = ucast w" by (rule bit_word_eqI) (auto simp: bit_simps dest: bit_imp_le_length)
  then show "(ucast (w :: u16) :: u32) < 2 ^ 16" using and_mask_less_size [of 16 "ucast w :: u32"] by (simp add: take_bit_eq_mask word_size)
qed

end
