(* ===== verification/Exec.thy ===== *)
theory Exec
  imports Uvm ByteOps
begin

text \<open>
  \<^verbatim>\<open>exec\<close> (exec.c, elf.h): reading the ELF header and the program headers of a file,
  building the new address space segment by segment, the two stack pages with the guard page
  below, the argument block on the stack, and the commit that replaces the old space. The
  file is given by the content of its inode (\<open>None\<close> if the path names none).
\<close>

section \<open>The ELF structures\<close>

record elfhdr =
  elf_magic :: u32
  elf_entry :: u32
  elf_phoff :: u32
  elf_phnum :: u32

definition read_elfhdr :: "u8 list \<Rightarrow> elfhdr" where
  "read_elfhdr bs = \<lparr>elf_magic = le32 bs 0, elf_entry = le32 bs 24, elf_phoff = le32 bs 28, elf_phnum = le16 bs 44\<rparr>"

record proghdr =
  ph_type :: u32
  ph_off :: u32
  ph_vaddr :: u32
  ph_filesz :: u32
  ph_memsz :: u32

definition read_proghdr :: "u8 list \<Rightarrow> proghdr" where
  "read_proghdr bs = \<lparr>ph_type = le32 bs 0, ph_off = le32 bs 4, ph_vaddr = le32 bs 8,
     ph_filesz = le32 bs 16, ph_memsz = le32 bs 20\<rparr>"

section \<open>exec\<close>

text \<open>The loop over the program headers; \<open>None\<close> is a jump to \<^verbatim>\<open>bad\<close>.\<close>

fun exec_segments ::
  "nat \<Rightarrow> nat \<Rightarrow> u8 list \<Rightarrow> u32 \<Rightarrow> nat \<Rightarrow> u32 \<Rightarrow> u32 \<Rightarrow> 'a uproc_scheme \<Rightarrow> (u32 option \<times> 'a uproc_scheme) res" where
  "exec_segments ralgo opt ip dir 0 off sz s = Ok (Some sz, s)"
| "exec_segments ralgo opt ip dir (Suc n) off sz s =
     (case file_read ip off 32 of
        None \<Rightarrow> Ok (None, s)
      | Some bs \<Rightarrow>
          if length bs \<noteq> 32 then Ok (None, s)
          else let ph = read_proghdr bs
               in if ph_type ph \<noteq> 1 then exec_segments ralgo opt ip dir n (off + 32) sz s
                  else if ph_memsz ph < ph_filesz ph then Ok (None, s)
                  else if ph_vaddr ph + ph_memsz ph < ph_vaddr ph then Ok (None, s)
                  else bindR (allocuvm ralgo opt dir sz (ph_vaddr ph + ph_memsz ph) 1 s) (\<lambda>(sz1, s1).
                       if sz1 = 0 then Ok (None, s1)
                       else if ph_vaddr ph mod PGSIZE \<noteq> 0 then Ok (None, s1)
                       else bindR (loaduvm dir (ph_vaddr ph) ip (ph_off ph) (ph_filesz ph) s1) (\<lambda>(r, s2).
                            if r < 0 then Ok (None, s2)
                            else exec_segments ralgo opt ip dir n (off + 32) sz1 s2)))"

text \<open>The loop that pushes the argument strings: the stack pointer after it and the
  addresses of the strings.\<close>

fun exec_args ::
  "u32 \<Rightarrow> nat \<Rightarrow> u8 list list \<Rightarrow> u32 \<Rightarrow> u32 list \<Rightarrow> 'a uproc_scheme \<Rightarrow> ((u32 \<times> u32 list) option \<times> 'a uproc_scheme) res" where
  "exec_args dir argc [] sp ustack s = Ok (Some (sp, ustack), s)"
| "exec_args dir argc (arg # argv) sp ustack s =
     (if argc \<ge> 32 then Ok (None, s)
      else let sp1 = (sp - (of_nat (length arg) + 1)) AND NOT 3
           in bindR (copyout dir sp1 (arg @ [0]) s) (\<lambda>(r, s1).
              if r < 0 then Ok (None, s1)
              else exec_args dir (argc + 1) argv sp1 (ustack @ [sp1]) s1))"

text \<open>The name after the last slash of the path.\<close>

fun last_elem :: "u8 list \<Rightarrow> u8 list \<Rightarrow> u8 list" where
  "last_elem [] acc = acc"
| "last_elem (c # cs) acc = (if c = 0x2F then last_elem cs cs else last_elem cs acc)"

definition exec_commit ::
  "u32 \<Rightarrow> u32 \<Rightarrow> u32 \<Rightarrow> u32 \<Rightarrow> u8 list \<Rightarrow> 'a uproc_scheme \<Rightarrow> (int \<times> 'a uproc_scheme) res" where
  "exec_commit dir sz sp entr path s =
     (let oldpgdir = pgdir s;
          s1 = s\<lparr>pname := take 15 (last_elem path path), pgdir := dir, psz := sz, tf_eip := entr, tf_esp := sp\<rparr>;
          s2 = (if cpid s1 > 2 then s1\<lparr>swapFile := []\<rparr> else s1)
      in bindR (switchuvm s2) (\<lambda>s3. bindR (freevm oldpgdir s3) (\<lambda>s4. Ok (0, s4))))"

definition exec_bad :: "u32 \<Rightarrow> 'a uproc_scheme \<Rightarrow> (int \<times> 'a uproc_scheme) res" where
  "exec_bad dir s = (if dir \<noteq> 0 then bindR (freevm dir s) (\<lambda>s1. Ok (-1, s1)) else Ok (-1, s))"

definition exec_stack ::
  "nat \<Rightarrow> nat \<Rightarrow> u32 \<Rightarrow> u32 \<Rightarrow> u32 \<Rightarrow> u8 list \<Rightarrow> u8 list list \<Rightarrow> 'a uproc_scheme \<Rightarrow> (int \<times> 'a uproc_scheme) res" where
  "exec_stack ralgo opt dir sz0 entr path argv s =
     (let sz1 = PGROUNDUP sz0
      in bindR (allocuvm ralgo opt dir sz1 (sz1 + PGSIZE) 0 s) (\<lambda>(sz2, s1).
         if sz2 = 0 then exec_bad dir s1
         else bindR (allocuvm ralgo opt dir sz2 (sz2 + PGSIZE) 1 s1) (\<lambda>(sz, s2).
         if sz = 0 then exec_bad dir s2
         else bindR (clearpteu dir (sz - 2 * PGSIZE) s2) (\<lambda>s3.
         bindR (exec_args dir 0 argv sz [] s3) (\<lambda>(r, s4).
         case r of
           None \<Rightarrow> exec_bad dir s4
         | Some (sp, ustack) \<Rightarrow>
             let argc = of_nat (length argv);
                 block = [0xffffffff, argc, sp - (argc + 1) * 4] @ ustack @ [0];
                 sp1 = sp - (3 + argc + 1) * 4
             in bindR (copyout dir sp1 (concat (map bytes32 block)) s4) (\<lambda>(r, s5).
                if r < 0 then exec_bad dir s5
                else exec_commit dir sz sp1 entr path s5)))))) "

definition exec ::
  "nat \<Rightarrow> nat \<Rightarrow> u32 \<Rightarrow> u8 list \<Rightarrow> u8 list option \<Rightarrow> u8 list list \<Rightarrow> 'a uproc_scheme \<Rightarrow> (int \<times> 'a uproc_scheme) res" where
  "exec ralgo opt kdata path file argv s =
     (case file of
        None \<Rightarrow> Ok (-1, s)
      | Some ip \<Rightarrow>
          (case file_read ip 0 52 of
             None \<Rightarrow> Ok (-1, s)
           | Some hb \<Rightarrow>
               if length hb \<noteq> 52 then Ok (-1, s)
               else let elf = read_elfhdr hb
                    in if elf_magic elf \<noteq> 0x464C457F then Ok (-1, s)
                       else bindR (setupkvm kdata s) (\<lambda>(dir, s1).
                            if dir = 0 then Ok (-1, s1)
                            else bindR (exec_segments ralgo opt ip dir (unat (elf_phnum elf)) (elf_phoff elf) 0 s1) (\<lambda>(r, s2).
                                 case r of
                                   None \<Rightarrow> exec_bad dir s2
                                 | Some sz \<Rightarrow> exec_stack ralgo opt dir sz (elf_entry elf) path argv s2))))"

end
