(* ===== verification/KString.thy ===== *)
theory KString
  imports Xv6_Prelude
begin

text \<open>
  The memory and string routines of string.c, on a byte-addressed memory. Addresses are
  natural numbers: no object wraps around the end of the address space.
\<close>

type_synonym bytes = "nat \<Rightarrow> u8"

section \<open>Filling and moving memory\<close>

text \<open>\<^verbatim>\<open>stosb\<close> and \<^verbatim>\<open>stosl\<close> (x86.h) store a byte, or a little-endian word, \<open>n\<close> times.\<close>

fun stosb :: "nat \<Rightarrow> u8 \<Rightarrow> nat \<Rightarrow> bytes \<Rightarrow> bytes" where
  "stosb a c 0 m = m"
| "stosb a c (Suc n) m = stosb (a + 1) c n (m(a := c))"

definition stos32 :: "nat \<Rightarrow> u32 \<Rightarrow> bytes \<Rightarrow> bytes" where
  "stos32 a w m = m(a := ucast w, a + 1 := ucast (drop_bit 8 w), a + 2 := ucast (drop_bit 16 w),
                   a + 3 := ucast (drop_bit 24 w))"

fun stosl :: "nat \<Rightarrow> u32 \<Rightarrow> nat \<Rightarrow> bytes \<Rightarrow> bytes" where
  "stosl a w 0 m = m"
| "stosl a w (Suc n) m = stosl (a + 4) w n (stos32 a w m)"

definition kmemset :: "nat \<Rightarrow> u32 \<Rightarrow> nat \<Rightarrow> bytes \<Rightarrow> bytes" where
  "kmemset dst c n m =
     (if dst mod 4 = 0 \<and> n mod 4 = 0
      then let b = c AND 0xFF
           in stosl dst (push_bit 24 b OR push_bit 16 b OR push_bit 8 b OR b) (n div 4) m
      else stosb dst (ucast c) n m)"

fun copy_up :: "nat \<Rightarrow> nat \<Rightarrow> nat \<Rightarrow> bytes \<Rightarrow> bytes" where
  "copy_up d s 0 m = m"
| "copy_up d s (Suc n) m = copy_up (d + 1) (s + 1) n (m(d := m s))"

fun copy_down :: "nat \<Rightarrow> nat \<Rightarrow> nat \<Rightarrow> bytes \<Rightarrow> bytes" where
  "copy_down d s 0 m = m"
| "copy_down d s (Suc n) m = copy_down d s n (m(d + n := m (s + n)))"

definition kmemmove :: "nat \<Rightarrow> nat \<Rightarrow> nat \<Rightarrow> bytes \<Rightarrow> bytes" where
  "kmemmove dst src n m =
     (if src < dst \<and> src + n > dst then copy_down dst src n m else copy_up dst src n m)"

definition kmemcpy :: "nat \<Rightarrow> nat \<Rightarrow> nat \<Rightarrow> bytes \<Rightarrow> bytes" where
  "kmemcpy dst src n m = kmemmove dst src n m"

section \<open>Comparing\<close>

fun kmemcmp :: "nat \<Rightarrow> nat \<Rightarrow> nat \<Rightarrow> bytes \<Rightarrow> int" where
  "kmemcmp s1 s2 0 m = 0"
| "kmemcmp s1 s2 (Suc n) m =
     (if m s1 \<noteq> m s2 then uint (m s1) - uint (m s2) else kmemcmp (s1 + 1) (s2 + 1) n m)"

fun kstrncmp :: "nat \<Rightarrow> nat \<Rightarrow> nat \<Rightarrow> bytes \<Rightarrow> int" where
  "kstrncmp p q 0 m = 0"
| "kstrncmp p q (Suc n) m =
     (if m p \<noteq> 0 \<and> m p = m q then kstrncmp (p + 1) (q + 1) n m
      else uint (m p) - uint (m q))"

section \<open>Strings\<close>

fun strncpy_pad :: "nat \<Rightarrow> nat \<Rightarrow> bytes \<Rightarrow> bytes" where
  "strncpy_pad s 0 m = m"
| "strncpy_pad s (Suc n) m = strncpy_pad (s + 1) n (m(s := 0))"

fun kstrncpy :: "nat \<Rightarrow> nat \<Rightarrow> nat \<Rightarrow> bytes \<Rightarrow> bytes" where
  "kstrncpy s t 0 m = m"
| "kstrncpy s t (Suc n) m =
     (let m1 = m(s := m t)
      in if m t \<noteq> 0 then kstrncpy (s + 1) (t + 1) n m1 else strncpy_pad (s + 1) n m1)"

fun safestrcpy_loop :: "nat \<Rightarrow> nat \<Rightarrow> nat \<Rightarrow> bytes \<Rightarrow> bytes" where
  "safestrcpy_loop s t 0 m = m(s := 0)"
| "safestrcpy_loop s t (Suc n) m =
     (let m1 = m(s := m t)
      in if m t \<noteq> 0 then safestrcpy_loop (s + 1) (t + 1) n m1 else m1(s + 1 := 0))"

text \<open>As written, the loop stores the terminator and then stores \<^verbatim>\<open>*s = 0\<close> one past it.\<close>

definition ksafestrcpy :: "nat \<Rightarrow> nat \<Rightarrow> int \<Rightarrow> bytes \<Rightarrow> bytes" where
  "ksafestrcpy s t n m = (if n \<le> 0 then m else safestrcpy_loop s t (nat n - 1) m)"

text \<open>\<^verbatim>\<open>strlen\<close> of a pointer with no terminator after it never returns.\<close>

partial_function (option) strlen_from :: "bytes \<Rightarrow> nat \<Rightarrow> nat \<Rightarrow> nat option" where
  "strlen_from m s n = (if m (s + n) \<noteq> 0 then strlen_from m s (n + 1) else Some n)"

definition kstrlen :: "bytes \<Rightarrow> nat \<Rightarrow> nat option" where
  "kstrlen m s = strlen_from m s 0"

section \<open>Facts\<close>

lemma stosb_at: "stosb a c n m x = (if a \<le> x \<and> x < a + n then c else m x)"
  by (induction n arbitrary: a m) auto

lemma copy_up_at: "\<not> (s < d \<and> d < s + n) \<Longrightarrow> copy_up d s n m x = (if d \<le> x \<and> x < d + n then m (s + (x - d)) else m x)"
proof (induction n arbitrary: d s m)
  case 0
  then show ?case by auto
next
  case (Suc n)
  have "copy_up (d + 1) (s + 1) n (m(d := m s)) x =
      (if d + 1 \<le> x \<and> x < d + 1 + n then (m(d := m s)) (s + 1 + (x - (d + 1))) else (m(d := m s)) x)"
    using Suc.prems by (intro Suc.IH) auto
  also have "\<dots> = (if d \<le> x \<and> x < d + Suc n then m (s + (x - d)) else m x)"
  proof (cases "d + 1 \<le> x \<and> x < d + 1 + n")
    case True
    have "s + 1 + (x - (d + 1)) \<noteq> d" using Suc.prems True by auto
    moreover have e: "s + 1 + (x - (d + 1)) = s + (x - d)" using True by arith
    ultimately show ?thesis unfolding e using True by auto
  next
    case False
    then show ?thesis by (cases "x = d") auto
  qed
  finally show ?case by simp
qed

lemma copy_down_at: "s \<le> d \<Longrightarrow> copy_down d s n m x = (if d \<le> x \<and> x < d + n then m (s + (x - d)) else m x)"
proof (induction n arbitrary: m)
  case 0
  then show ?case by auto
next
  case (Suc n)
  then show ?case by (cases "x = d + n") auto
qed

lemma ucast_byte_word:
  fixes c :: u32
  defines "w \<equiv> push_bit 24 (c AND 0xFF) OR push_bit 16 (c AND 0xFF) OR push_bit 8 (c AND 0xFF) OR (c AND 0xFF)"
  shows "(ucast w :: u8) = ucast c" "(ucast (drop_bit 8 w) :: u8) = ucast c"
    "(ucast (drop_bit 16 w) :: u8) = ucast c" "(ucast (drop_bit 24 w) :: u8) = ucast c"
proof -
  have m: "bit (c AND 0xFF) n \<longleftrightarrow> n < 8 \<and> bit c n" for n by (auto simp: bit_and_iff)
  show "(ucast w :: u8) = ucast c" "(ucast (drop_bit 8 w) :: u8) = ucast c"
    "(ucast (drop_bit 16 w) :: u8) = ucast c" "(ucast (drop_bit 24 w) :: u8) = ucast c"
    unfolding w_def by (rule bit_word_eqI; auto simp: bit_simps m)+
qed

lemma stosl_bytes:
  assumes "ucast w = c" "ucast (drop_bit 8 w) = c" "ucast (drop_bit 16 w) = c" "ucast (drop_bit 24 w) = c"
  shows "stosl a w n m x = (if a \<le> x \<and> x < a + 4 * n then c else m x)"
proof (induction n arbitrary: a m)
  case 0
  then show ?case by auto
next
  case (Suc n)
  then show ?case using assms by (auto simp: stos32_def)
qed

lemma kmemset_at: "kmemset dst c n m x = (if dst \<le> x \<and> x < dst + n then ucast c else m x)"
proof (cases "dst mod 4 = 0 \<and> n mod 4 = 0")
  case True
  then have "4 * (n div 4) = n" by presburger
  then show ?thesis
    using True stosl_bytes [OF ucast_byte_word [of c]] by (simp add: kmemset_def Let_def)
next
  case False
  then show ?thesis by (auto simp: kmemset_def stosb_at)
qed

lemma kmemmove_at: "kmemmove dst src n m x = (if dst \<le> x \<and> x < dst + n then m (src + (x - dst)) else m x)"
  by (cases "src < dst \<and> dst < src + n") (simp_all add: kmemmove_def copy_down_at copy_up_at)

lemma strlen_from_Some:
  assumes "m (s + k) = 0" "n \<le> k" "\<forall>j. n \<le> j \<and> j < k \<longrightarrow> m (s + j) \<noteq> 0"
  shows "strlen_from m s n = Some k"
  using assms
proof (induction "k - n" arbitrary: n)
  case 0
  then show ?case by (subst strlen_from.simps) simp
next
  case (Suc d)
  then have "strlen_from m s (n + 1) = Some k" by (intro Suc.hyps(1)) auto
  moreover have "m (s + n) \<noteq> 0" using Suc.hyps(2) Suc.prems by auto
  ultimately show ?case by (subst strlen_from.simps) simp
qed

text \<open>The string at an address: the bytes up to the terminator.\<close>

definition cstring :: "bytes \<Rightarrow> nat \<Rightarrow> u8 list \<Rightarrow> bool" where
  "cstring m s cs \<longleftrightarrow> (\<forall>k < length cs. m (s + k) = cs ! k) \<and> m (s + length cs) = 0 \<and> 0 \<notin> set cs"

lemma cstring_Cons: "cstring m s (c # cs) \<longleftrightarrow> m s = c \<and> c \<noteq> 0 \<and> cstring m (s + 1) cs"
  by (auto simp: cstring_def All_less_Suc2)

lemma kstrlen_cstring: "cstring m s cs \<Longrightarrow> kstrlen m s = Some (length cs)"
  unfolding kstrlen_def by (rule strlen_from_Some) (auto simp: cstring_def, metis nth_mem)

text \<open>\<^verbatim>\<open>strncmp\<close> says equal exactly on equal prefixes.\<close>

lemma kstrncmp_zero:
  "cstring m p cs \<Longrightarrow> cstring m q ds \<Longrightarrow> kstrncmp p q n m = 0 \<longleftrightarrow> take n cs = take n ds"
proof (induction n arbitrary: p q cs ds)
  case 0
  then show ?case by simp
next
  case (Suc n)
  show ?case
  proof (cases cs)
    case Nil
    then have "m p = 0" using Suc.prems by (simp add: cstring_def)
    then show ?thesis using Suc.prems Nil by (cases ds) (auto simp: cstring_Cons, auto simp: cstring_def uint_0_iff)
  next
    case (Cons c cs')
    then show ?thesis
    proof (cases ds)
      case Nil
      then have "m q = 0" using Suc.prems by (simp add: cstring_def)
      then show ?thesis using Suc.prems Cons Nil by (auto simp: cstring_Cons uint_0_iff)
    next
      case (Cons d ds')
      with \<open>cs = c # cs'\<close> Suc show ?thesis by (auto simp: cstring_Cons dest: unsigned_word_eqI)
    qed
  qed
qed

end
