(* ===== verification/Rand.thy ===== *)
theory Rand
  imports Xv6_Prelude
begin

text \<open>
  The random number generator of the lottery scheduler (rand.c): the Mersenne Twister
  \<^verbatim>\<open>genrand\<close> and \<^verbatim>\<open>random_at_most\<close>, which draws until the number falls below the last
  whole bin. \<^verbatim>\<open>long\<close> has 32 bits on this machine.
\<close>

section \<open>The generator\<close>

abbreviation MT_N :: nat where "MT_N \<equiv> 624"
abbreviation MT_M :: nat where "MT_M \<equiv> 397"
abbreviation MATRIX_A :: u32 where "MATRIX_A \<equiv> 0x9908b0df"
abbreviation UPPER_MASK :: u32 where "UPPER_MASK \<equiv> 0x80000000"
abbreviation LOWER_MASK :: u32 where "LOWER_MASK \<equiv> 0x7fffffff"
abbreviation RAND_MAX :: u32 where "RAND_MAX \<equiv> 0x7fffffff"

record rng =
  mt :: "u32 list"
  mti :: nat

definition rng_init :: rng where
  "rng_init = \<lparr>mt = replicate MT_N 0, mti = MT_N + 1\<rparr>"

fun sgen_loop :: "nat \<Rightarrow> nat \<Rightarrow> u32 list \<Rightarrow> u32 list" where
  "sgen_loop i 0 m = m"
| "sgen_loop i (Suc n) m = sgen_loop (i + 1) n (m[i := 69069 * m ! (i - 1)])"

definition sgenrand :: "u32 \<Rightarrow> rng \<Rightarrow> rng" where
  "sgenrand seed s = \<lparr>mt = sgen_loop 1 (MT_N - 1) ((mt s)[0 := seed]), mti = MT_N\<rparr>"

definition mag01 :: "u32 \<Rightarrow> u32" where
  "mag01 x = (if x = 0 then 0 else MATRIX_A)"

definition twist :: "u32 \<Rightarrow> u32 \<Rightarrow> u32 \<Rightarrow> u32" where
  "twist cur next far =
     (let y = (cur AND UPPER_MASK) OR (next AND LOWER_MASK)
      in (far XOR drop_bit 1 y) XOR mag01 (y AND 1))"

fun twist_loop :: "nat list \<Rightarrow> (nat \<Rightarrow> nat) \<Rightarrow> u32 list \<Rightarrow> u32 list" where
  "twist_loop [] far m = m"
| "twist_loop (kk # ks) far m = twist_loop ks far (m[kk := twist (m ! kk) (m ! (kk + 1)) (m ! far kk)])"

definition regenerate :: "u32 list \<Rightarrow> u32 list" where
  "regenerate m =
     (let m1 = twist_loop [0 ..< MT_N - MT_M] (\<lambda>kk. kk + MT_M) m;
          m2 = twist_loop [MT_N - MT_M ..< MT_N - 1] (\<lambda>kk. kk - (MT_N - MT_M)) m1
      in m2[MT_N - 1 := twist (m2 ! (MT_N - 1)) (m2 ! 0) (m2 ! (MT_M - 1))])"

definition temper :: "u32 \<Rightarrow> u32" where
  "temper y0 =
     (let y1 = y0 XOR drop_bit 11 y0;
          y2 = y1 XOR (push_bit 7 y1 AND 0x9d2c5680);
          y3 = y2 XOR (push_bit 15 y2 AND 0xefc60000);
          y4 = y3 XOR drop_bit 18 y3
      in y4 AND RAND_MAX)"

definition genrand :: "rng \<Rightarrow> u32 \<times> rng" where
  "genrand s =
     (let s1 = (if mti s \<ge> MT_N
                then let s0 = (if mti s = MT_N + 1 then sgenrand 4357 s else s)
                     in \<lparr>mt = regenerate (mt s0), mti = 0\<rparr>
                else s)
      in (temper (mt s1 ! mti s1), s1\<lparr>mti := mti s1 + 1\<rparr>))"

section \<open>random_at_most\<close>

partial_function (option) draw :: "u32 \<Rightarrow> rng \<Rightarrow> (u32 \<times> rng) option" where
  "draw limit s =
     (let (x, s1) = genrand s
      in if limit \<le> x then draw limit s1 else Some (x, s1))"

text \<open>The two divisions trap when the divisor is 0, as it is for a negative argument.\<close>

definition random_at_most :: "u32 \<Rightarrow> rng \<Rightarrow> (u32 \<times> rng) res" where
  "random_at_most mx s =
     (let num_bins = mx + 1;
          num_rand = RAND_MAX + 1
      in if num_bins = 0 then Panic ''trap''
         else let bin_size = num_rand div num_bins;
                  defect = num_rand mod num_bins
              in case draw (num_rand - defect) s of
                   None \<Rightarrow> Hang
                 | Some (x, s1) \<Rightarrow> if bin_size = 0 then Panic ''trap'' else Ok (x div bin_size, s1))"

section \<open>Facts\<close>

lemma length_sgen_loop [simp]: "length (sgen_loop i n m) = length m"
  by (induction n arbitrary: i m) auto

lemma length_twist_loop [simp]: "length (twist_loop ks f m) = length m"
proof (induction ks arbitrary: m)
  case (Cons k ks)
  then show ?case by (simp only: twist_loop.simps length_list_update)
qed simp

lemma length_regenerate [simp]: "length (regenerate m) = length m"
  unfolding regenerate_def Let_def by (simp only: length_list_update length_twist_loop)

definition rng_ok :: "rng \<Rightarrow> bool" where
  "rng_ok s \<longleftrightarrow> length (mt s) = MT_N \<and> mti s \<le> MT_N + 1"

lemma temper_bound: "temper y \<le> RAND_MAX"
proof -
  have "(x :: u32) AND RAND_MAX \<le> RAND_MAX" for x by (simp add: word_and_le1)
  then show ?thesis unfolding temper_def Let_def by blast
qed

text \<open>Every call reads inside the state array and keeps it well formed.\<close>

lemma genrand_ok:
  assumes "rng_ok s" "genrand s = (x, s')"
  shows "rng_ok s'" "x \<le> RAND_MAX" "0 < mti s'" "mti s' \<le> MT_N"
  using assms temper_bound by (auto simp: genrand_def rng_ok_def Let_def sgenrand_def split: if_splits)

lemma draw_ok:
  assumes "draw limit s = Some r"
  shows "rng_ok s \<longrightarrow> fst r < limit \<and> fst r \<le> RAND_MAX \<and> rng_ok (snd r)"
proof (rule draw.raw_induct [OF _ assms, of "\<lambda>limit s r. rng_ok s \<longrightarrow> fst r < limit \<and> fst r \<le> RAND_MAX \<and> rng_ok (snd r)"], goal_cases)
  case (1 f limit s r)
  obtain x s1 where g: "genrand s = (x, s1)" by (cases "genrand s")
  show ?case
  proof
    assume "rng_ok s"
    note ok = genrand_ok [OF this g]
    show "fst r < limit \<and> fst r \<le> RAND_MAX \<and> rng_ok (snd r)"
    proof (cases "limit \<le> x")
      case True
      then have "f limit s1 = Some r" using 1(2) g by simp
      then show ?thesis using 1(1) ok(1) by blast
    next
      case False
      then have "r = (x, s1)" using 1(2) g by simp
      then show ?thesis using ok False by simp
    qed
  qed
qed

lemma bins_nat:
  assumes "mx \<le> RAND_MAX"
  shows "unat (mx + 1) = unat mx + 1" "unat ((RAND_MAX + 1) div (mx + 1)) = 2 ^ 31 div (unat mx + 1)"
    "unat ((RAND_MAX + 1) - (RAND_MAX + 1) mod (mx + 1)) = 2 ^ 31 div (unat mx + 1) * (unat mx + 1)"
    "0 < 2 ^ 31 div (unat mx + 1)"
proof -
  have m: "unat mx \<le> 2147483647" using assms by (simp add: word_le_nat_alt)
  show b: "unat (mx + 1) = unat mx + 1" using m by (simp add: unat_word_ariths)
  show "unat ((RAND_MAX + 1) div (mx + 1)) = 2 ^ 31 div (unat mx + 1)" unfolding unat_div b by simp
  have le: "(RAND_MAX + 1) mod (mx + 1) \<le> RAND_MAX + 1" unfolding word_le_nat_alt unat_mod by simp
  then have "unat ((RAND_MAX + 1) - (RAND_MAX + 1) mod (mx + 1)) = 2 ^ 31 - 2 ^ 31 mod (unat mx + 1)"
    unfolding unat_sub [OF le] unat_mod b by simp
  then show "unat ((RAND_MAX + 1) - (RAND_MAX + 1) mod (mx + 1)) = 2 ^ 31 div (unat mx + 1) * (unat mx + 1)"
    by (simp add: minus_mod_eq_div_mult)
  show "0 < 2 ^ 31 div (unat mx + 1)" using m by (simp add: div_greater_zero_iff)
qed

text \<open>An accepted draw is mapped to \<open>[0, max]\<close>, and every value of that closed interval has the
  same number of draws.\<close>

definition accepted :: "u32 \<Rightarrow> u32 set" where
  "accepted mx = {x. x < (RAND_MAX + 1) - (RAND_MAX + 1) mod (mx + 1)}"

definition bin_of :: "u32 \<Rightarrow> u32 \<Rightarrow> u32" where
  "bin_of mx x = x div ((RAND_MAX + 1) div (mx + 1))"

lemma random_at_most_cases:
  assumes "mx \<le> RAND_MAX" "rng_ok s"
  shows "random_at_most mx s = Hang \<or>
    (\<exists>x s'. random_at_most mx s = Ok (bin_of mx x, s') \<and> x \<in> accepted mx \<and> rng_ok s')"
proof -
  note b = bins_nat [OF assms(1)]
  have "mx + 1 \<noteq> 0" using b(1) by (metis Suc_eq_plus1 nat.distinct(1) unat_0)
  moreover have "(RAND_MAX + 1) div (mx + 1) \<noteq> 0" using b(2,4) by (metis less_numeral_extra(3) unat_0)
  ultimately show ?thesis
    using draw_ok [of "(RAND_MAX + 1) - (RAND_MAX + 1) mod (mx + 1)" s] assms(2)
    unfolding random_at_most_def Let_def accepted_def bin_of_def
    by (cases "draw ((RAND_MAX + 1) - (RAND_MAX + 1) mod (mx + 1)) s") (auto split: prod.split)
qed

lemma unat_bin_of: "mx \<le> RAND_MAX \<Longrightarrow> unat (bin_of mx x) = unat x div (2 ^ 31 div (unat mx + 1))"
  unfolding bin_of_def by (subst unat_div, subst bins_nat(2)) simp_all

lemma bin_of_le:
  assumes "mx \<le> RAND_MAX" "x \<in> accepted mx"
  shows "bin_of mx x \<le> mx"
proof -
  note b = bins_nat [OF assms(1)]
  have "unat x < (unat mx + 1) * (2 ^ 31 div (unat mx + 1))"
    using assms(2) b(3) by (simp add: accepted_def word_less_nat_alt mult.commute)
  then have "unat x div (2 ^ 31 div (unat mx + 1)) < unat mx + 1" by (rule less_mult_imp_div_less)
  then show ?thesis unfolding word_le_nat_alt unat_bin_of [OF assms(1)] by simp
qed

lemma card_bin:
  assumes "mx \<le> RAND_MAX" "v \<le> mx"
  shows "card {x \<in> accepted mx. bin_of mx x = v} = 2 ^ 31 div (unat mx + 1)"
proof -
  note b = bins_nat [OF assms(1)]
  let ?B = "2 ^ 31 div (unat mx + 1)"
  have v: "unat v < unat mx + 1" using assms(2) by (simp add: word_le_nat_alt)
  have lim: "?B * (unat mx + 1) \<le> 2 ^ 31" by (rule div_times_less_eq_dividend)
  have "unat ` {x \<in> accepted mx. bin_of mx x = v} = {unat v * ?B ..< (unat v + 1) * ?B}"
  proof (intro set_eqI iffI)
    fix n assume "n \<in> unat ` {x \<in> accepted mx. bin_of mx x = v}"
    then obtain x where x: "n = unat x" "bin_of mx x = v" by auto
    then have "n div ?B = unat v" using unat_bin_of [OF assms(1)] by metis
    then show "n \<in> {unat v * ?B ..< (unat v + 1) * ?B}"
      using b(4) div_times_less_eq_dividend [of n ?B] dividend_less_times_div [of ?B n] by (simp add: algebra_simps)
  next
    fix n assume n: "n \<in> {unat v * ?B ..< (unat v + 1) * ?B}"
    have m: "(unat v + 1) * ?B \<le> (unat mx + 1) * ?B" using v by (intro mult_right_mono) auto
    have n1: "n < (unat v + 1) * ?B" using n by simp
    have n2: "n < ?B * (unat mx + 1)" using less_le_trans [OF n1 m] by (simp only: mult.commute)
    then have n3: "n < 2 ^ 31" using lim by simp
    let ?x = "of_nat n :: u32"
    have ux: "unat ?x = n" using n3 by (simp add: unsigned_of_nat take_bit_nat_eq_self)
    have "n div ?B = unat v" using n b(4) by (intro div_nat_eqI) (auto simp: mult.commute)
    then have "unat (bin_of mx ?x) = unat v" unfolding unat_bin_of [OF assms(1)] ux .
    then have "bin_of mx ?x = v" by (rule unsigned_word_eqI)
    moreover have "?x \<in> accepted mx" unfolding accepted_def mem_Collect_eq word_less_nat_alt b(3) ux by (rule n2)
    ultimately show "n \<in> unat ` {x \<in> accepted mx. bin_of mx x = v}" 
      by (intro image_eqI [of _ _ ?x]) (simp_all only: ux mem_Collect_eq simp_thms)
  qed
  moreover have "inj_on unat {x \<in> accepted mx. bin_of mx x = v}" by (meson inj_onI unsigned_word_eqI)
  ultimately have "card {x \<in> accepted mx. bin_of mx x = v} = card {unat v * ?B ..< (unat v + 1) * ?B}"
    using card_image [of unat "{x \<in> accepted mx. bin_of mx x = v}"] by (simp only:)
  also have "\<dots> = ?B" unfolding card_atLeastLessThan add_mult_distrib by simp
  finally show ?thesis .
qed

text \<open>If the number of bins divides \<open>2 ^ 31\<close> no draw is rejected and the loop ends at once.\<close>

lemma random_at_most_returns:
  assumes "mx \<le> RAND_MAX" "rng_ok s" "(unat mx + 1) dvd 2 ^ 31"
  shows "random_at_most mx s \<noteq> Hang"
proof -
  note b = bins_nat [OF assms(1)]
  let ?l = "(RAND_MAX + 1) - (RAND_MAX + 1) mod (mx + 1)"
  obtain x s1 where g: "genrand s = (x, s1)" by (cases "genrand s")
  have "unat ?l = 2 ^ 31" unfolding b(3) using assms(3) by (rule dvd_div_mult_self)
  moreover have "x \<le> RAND_MAX" using genrand_ok(2) [OF assms(2) g] .
  ultimately have "\<not> ?l \<le> x" unfolding word_le_nat_alt by simp
  then have "draw ?l s = Some (x, s1)" using g by (subst draw.simps) simp
  then show ?thesis unfolding random_at_most_def Let_def by (simp only: option.case prod.case split: if_splits) simp
qed

end
