(* ===== verification/Lottery.thy ===== *)
theory Lottery
  imports Rand
begin

text \<open>
  The lottery scheduler (proc.c and pstat.h of Offline 3): \<^verbatim>\<open>settickets\<close>,
  \<^verbatim>\<open>getpinfo\<close>, the count of the runnable tickets and one round of \<^verbatim>\<open>scheduler\<close>. The
  process table holds the fields these read and write. \<^verbatim>\<open>int\<close> and \<^verbatim>\<open>long\<close> are 32-bit
  words read as signed numbers.
\<close>

section \<open>State\<close>

record lproc =
  lstate :: procstate
  lpid :: int
  ticket :: u32
  tick :: u32

record lottery =
  ltable :: "lproc list"
  lrng :: rng
  lticks :: u32

record pstat =
  ps_inuse :: "bool list"
  ps_ticket :: "u32 list"
  ps_pid :: "int list"
  ps_tick :: "u32 list"

section \<open>Operations\<close>

text \<open>The fields \<^verbatim>\<open>allocproc\<close> and \<^verbatim>\<open>fork\<close> initialise.\<close>

definition alloc_lottery :: "lproc \<Rightarrow> lproc" where
  "alloc_lottery p = p\<lparr>ticket := 10, tick := 0\<rparr>"

definition fork_lottery :: "lproc \<Rightarrow> lproc \<Rightarrow> lproc" where
  "fork_lottery cur np = np\<lparr>ticket := ticket cur\<rparr>"

definition settickets :: "int \<Rightarrow> u32 \<Rightarrow> lottery \<Rightarrow> int \<times> lottery" where
  "settickets mypid number s =
     (case find_idx (\<lambda>p. lpid p = mypid) (ltable s) of
        Some i \<Rightarrow> (0, s\<lparr>ltable := (ltable s)[i := (ltable s ! i)\<lparr>ticket := number\<rparr>]\<rparr>)
      | None \<Rightarrow> (0, s))"

text \<open>\<^verbatim>\<open>sys_settickets\<close> (sysproc.c): the argument as fetched, \<open>None\<close> if \<^verbatim>\<open>argint\<close> failed;
  its result is not checked, so then the number is whatever the stack slot held.\<close>

definition sys_settickets :: "int \<Rightarrow> u32 option \<Rightarrow> u32 \<Rightarrow> lottery \<Rightarrow> int \<times> lottery" where
  "sys_settickets mypid arg garbage s =
     (let number = (case arg of Some n \<Rightarrow> n | None \<Rightarrow> garbage)
      in if sint number < 0 then (-1, s)
         else if sint number = 0 then settickets mypid 10 s
         else settickets mypid number s)"

definition getpinfo :: "lottery \<Rightarrow> pstat" where
  "getpinfo s =
     \<lparr>ps_inuse = map (\<lambda>p. lstate p \<noteq> UNUSED) (ltable s), ps_ticket = map ticket (ltable s),
      ps_pid = map lpid (ltable s), ps_tick = map tick (ltable s)\<rparr>"

fun tickets_loop :: "lproc list \<Rightarrow> u32 \<Rightarrow> u32" where
  "tickets_loop [] tot = tot"
| "tickets_loop (p # ps) tot =
     (if lstate p = RUNNABLE then tickets_loop ps (tot + ticket p) else tickets_loop ps tot)"

definition getRunnableProcTickets :: "lproc list \<Rightarrow> u32" where
  "getRunnableProcTickets ps = tickets_loop ps 0"

text \<open>The scan for the winner; the comparison is signed.\<close>

fun winner_loop :: "nat \<Rightarrow> lproc list \<Rightarrow> u32 \<Rightarrow> u32 \<Rightarrow> nat option" where
  "winner_loop i [] cur_total win = None"
| "winner_loop i (p # ps) cur_total win =
     (if lstate p = RUNNABLE
      then if sint (cur_total + ticket p) > sint win then Some i
           else winner_loop (i + 1) ps (cur_total + ticket p) win
      else winner_loop (i + 1) ps cur_total win)"

text \<open>One round up to the switch: the winner, if there is one, is marked running.\<close>

definition schedule_round :: "lottery \<Rightarrow> (nat option \<times> lottery) res" where
  "schedule_round s =
     (let tot = getRunnableProcTickets (ltable s)
      in bindR (random_at_most tot (lrng s)) (\<lambda>(win, g).
         let s1 = s\<lparr>lrng := g\<rparr>
         in case winner_loop 0 (ltable s1) 0 win of
              None \<Rightarrow> Ok (None, s1)
            | Some i \<Rightarrow> Ok (Some i, s1\<lparr>ltable := (ltable s1)[i := (ltable s1 ! i)\<lparr>lstate := RUNNING\<rparr>]\<rparr>)))"

text \<open>The switch back: the ticks that passed are added to the process.\<close>

definition account_ticks :: "nat \<Rightarrow> u32 \<Rightarrow> lottery \<Rightarrow> lottery" where
  "account_ticks i tick_start s =
     s\<lparr>ltable := (ltable s)[i := (ltable s ! i)\<lparr>tick := tick (ltable s ! i) + (lticks s - tick_start)\<rparr>]\<rparr>"

section \<open>The total and the winner as natural numbers\<close>

definition runnable_tickets :: "lproc list \<Rightarrow> nat" where
  "runnable_tickets ps = (\<Sum>p \<leftarrow> ps. if lstate p = RUNNABLE then unat (ticket p) else 0)"

text \<open>Tickets are never negative (\<^verbatim>\<open>sys_settickets\<close>), and their sum fits an \<^verbatim>\<open>int\<close>.\<close>

definition lottery_ok :: "lproc list \<Rightarrow> bool" where
  "lottery_ok ps \<longleftrightarrow> runnable_tickets ps < 2 ^ 31"

lemma runnable_tickets_simps [simp]:
  "runnable_tickets [] = 0"
  "runnable_tickets (p # ps) = (if lstate p = RUNNABLE then unat (ticket p) else 0) + runnable_tickets ps"
  by (simp_all add: runnable_tickets_def)

lemma sint_small: "unat (x :: u32) < 2 ^ 31 \<Longrightarrow> sint x = int (unat x)"
proof -
  assume a: "unat x < 2 ^ 31"
  have u: "uint x = int (unat x)" by simp
  have "uint x < 2 ^ 31" unfolding u using a by (metis of_nat_less_iff of_nat_numeral of_nat_power)
  then have "sint x = uint x" unfolding sint_uint using order_trans [of "- 2147483648" 0 "uint x"] by (intro signed_take_bit_int_eq_self) simp_all
  then show ?thesis unfolding u .
qed

lemma tickets_loop_sum:
  "unat tot + runnable_tickets ps < 2 ^ 31 \<Longrightarrow> unat (tickets_loop ps tot) = unat tot + runnable_tickets ps"
proof (induction ps arbitrary: tot)
  case Nil
  then show ?case by simp
next
  case (Cons p ps)
  then have "lstate p = RUNNABLE \<Longrightarrow> unat (tot + ticket p) = unat tot + unat (ticket p)"
    by (simp add: unat_word_ariths)
  with Cons show ?case by auto
qed

lemma getRunnableProcTickets_sum: "lottery_ok ps \<Longrightarrow> unat (getRunnableProcTickets ps) = runnable_tickets ps"
  using tickets_loop_sum [of 0 ps] by (simp add: getRunnableProcTickets_def lottery_ok_def)

text \<open>The winner is the process whose ticket interval holds the number drawn.\<close>

lemma winner_loop_iff:
  assumes "unat cur + runnable_tickets ps < 2 ^ 31" "unat cur \<le> unat win" "unat win < 2 ^ 31"
  shows "winner_loop i ps cur win = Some (i + k) \<longleftrightarrow>
    k < length ps \<and> lstate (ps ! k) = RUNNABLE \<and>
    unat cur + runnable_tickets (take k ps) \<le> unat win \<and>
    unat win < unat cur + runnable_tickets (take k ps) + unat (ticket (ps ! k))"
  using assms
proof (induction ps arbitrary: i cur k)
  case Nil
  then show ?case by simp
next
  case (Cons p ps)
  have idx: "winner_loop (Suc i) ps c win = Some j \<Longrightarrow> Suc i \<le> j" for c j
    by (induction ps arbitrary: i c) (fastforce split: if_splits dest: Suc_leD)+
  show ?case
  proof (cases "lstate p = RUNNABLE")
    case False
    then show ?thesis
      using Cons.IH [of cur "i + 1" "k - 1"] Cons.prems idx [of cur i] by (cases k) auto
  next
    case True
    then have u: "unat (cur + ticket p) = unat cur + unat (ticket p)"
      using Cons.prems by (simp add: unat_word_ariths)
    have s: "sint (cur + ticket p) > sint win \<longleftrightarrow> unat win < unat cur + unat (ticket p)"
    proof -
      have a: "unat (cur + ticket p) < 2 ^ 31" using u Cons.prems(1) True by simp
      show ?thesis unfolding sint_small [OF a] sint_small [OF Cons.prems(3)] u by (simp only: of_nat_less_iff)
    qed
    show ?thesis
    proof (cases "unat win < unat cur + unat (ticket p)")
      case True
      then show ?thesis using \<open>lstate p = RUNNABLE\<close> s Cons.prems by (cases k) auto
    next
      case False
      then show ?thesis
        using \<open>lstate p = RUNNABLE\<close> s u Cons.IH [of "cur + ticket p" "i + 1" "k - 1"] Cons.prems
          idx [of "cur + ticket p" i] by (cases k) auto
    qed
  qed
qed

lemma winner_iff:
  assumes "lottery_ok ps" "win \<le> getRunnableProcTickets ps"
  shows "winner_loop 0 ps 0 win = Some k \<longleftrightarrow> k < length ps \<and> lstate (ps ! k) = RUNNABLE \<and>
    runnable_tickets (take k ps) \<le> unat win \<and> unat win < runnable_tickets (take k ps) + unat (ticket (ps ! k))"
proof -
  have "unat win < 2 ^ 31"
    using assms getRunnableProcTickets_sum [OF assms(1)] by (simp add: lottery_ok_def word_le_nat_alt)
  then show ?thesis using winner_loop_iff [of 0 ps win 0 k] assms(1) by (simp add: lottery_ok_def)
qed

lemma runnable_tickets_take:
  "k < length ps \<Longrightarrow> lstate (ps ! k) = RUNNABLE \<Longrightarrow>
    runnable_tickets (take k ps) + unat (ticket (ps ! k)) \<le> runnable_tickets ps"
proof (induction ps arbitrary: k)
  case (Cons p ps)
  then show ?case by (cases k) auto
qed simp

lemma exists_winner:
  "w < runnable_tickets ps \<Longrightarrow> \<exists>k < length ps. lstate (ps ! k) = RUNNABLE \<and>
    runnable_tickets (take k ps) \<le> w \<and> w < runnable_tickets (take k ps) + unat (ticket (ps ! k))"
proof (induction ps arbitrary: w)
  case (Cons p ps)
  let ?t = "if lstate p = RUNNABLE then unat (ticket p) else 0"
  show ?case
  proof (cases "w < ?t")
    case True
    then show ?thesis by (intro exI [of _ 0]) (auto split: if_splits)
  next
    case False
    then have "w - ?t < runnable_tickets ps" using Cons.prems unfolding runnable_tickets_simps by linarith
    from Cons.IH [OF this] obtain k where "k < length ps" "lstate (ps ! k) = RUNNABLE"
      "runnable_tickets (take k ps) \<le> w - ?t" "w - ?t < runnable_tickets (take k ps) + unat (ticket (ps ! k))"
      by blast
    with False show ?thesis by (intro exI [of _ "Suc k"]) auto
  qed
qed simp

lemma card_words_between:
  assumes "a + n \<le> 2 ^ 31"
  shows "card {v :: u32. a \<le> unat v \<and> unat v < a + n} = n"
proof -
  have "unat ` {v :: u32. a \<le> unat v \<and> unat v < a + n} = {a ..< a + n}"
  proof (intro set_eqI iffI)
    fix m assume m: "m \<in> {a ..< a + n}"
    then have "unat (of_nat m :: u32) = m" using assms by (simp add: unsigned_of_nat take_bit_nat_eq_self)
    then show "m \<in> unat ` {v :: u32. a \<le> unat v \<and> unat v < a + n}"
      using m by (intro image_eqI [of _ _ "of_nat m"]) simp_all
  qed auto
  moreover have "inj_on unat {v :: u32. a \<le> unat v \<and> unat v < a + n}" by (meson inj_onI unsigned_word_eqI)
  ultimately show ?thesis using card_image [of unat "{v :: u32. a \<le> unat v \<and> unat v < a + n}"] by simp
qed

lemma getRunnable_bounds:
  assumes "lottery_ok ps"
  shows "getRunnableProcTickets ps \<le> RAND_MAX" "unat (getRunnableProcTickets ps) = runnable_tickets ps"
  using getRunnableProcTickets_sum [OF assms] assms by (simp_all add: lottery_ok_def word_le_nat_alt)

text \<open>C33: the lottery is fair. Among the generator outputs the draw accepts, each runnable process
  wins for exactly its number of tickets times one common bin size.\<close>

theorem lottery_fair:
  assumes "lottery_ok ps" "k < length ps" "lstate (ps ! k) = RUNNABLE"
  shows "card {x \<in> accepted (getRunnableProcTickets ps).
      winner_loop 0 ps 0 (bin_of (getRunnableProcTickets ps) x) = Some k} =
    unat (ticket (ps ! k)) * (2 ^ 31 div (runnable_tickets ps + 1))"
proof -
  let ?T = "getRunnableProcTickets ps" and ?a = "runnable_tickets (take k ps)" and ?t = "unat (ticket (ps ! k))"
  note T = getRunnable_bounds [OF assms(1)]
  let ?V = "{v :: u32. ?a \<le> unat v \<and> unat v < ?a + ?t}"
  have le: "?a + ?t \<le> runnable_tickets ps" by (rule runnable_tickets_take [OF assms(2,3)])
  then have b: "?a + ?t \<le> 2 ^ 31" using assms(1) by (simp add: lottery_ok_def)
  have V: "v \<le> ?T" if "v \<in> ?V" for v
    using that le T(2) by (simp add: word_le_nat_alt)
  have eq: "{x \<in> accepted ?T. winner_loop 0 ps 0 (bin_of ?T x) = Some k} = (\<Union>v \<in> ?V. {x \<in> accepted ?T. bin_of ?T x = v})"
  proof (intro set_eqI iffI)
    fix x assume x: "x \<in> {x \<in> accepted ?T. winner_loop 0 ps 0 (bin_of ?T x) = Some k}"
    then have "x \<in> accepted ?T" by simp
    from x winner_iff [OF assms(1) bin_of_le [OF T(1) this]]
    show "x \<in> (\<Union>v \<in> ?V. {x \<in> accepted ?T. bin_of ?T x = v})" by simp
  next
    fix x assume x: "x \<in> (\<Union>v \<in> ?V. {x \<in> accepted ?T. bin_of ?T x = v})"
    then have "x \<in> accepted ?T" "bin_of ?T x \<in> ?V" by auto
    with winner_iff [OF assms(1) bin_of_le [OF T(1) this(1)]] assms(2,3)
    show "x \<in> {x \<in> accepted ?T. winner_loop 0 ps 0 (bin_of ?T x) = Some k}" by simp
  qed
  have "card (\<Union>v \<in> ?V. {x \<in> accepted ?T. bin_of ?T x = v}) = (\<Sum>v \<in> ?V. card {x \<in> accepted ?T. bin_of ?T x = v})"
    by (rule card_UN_disjoint) auto
  also have "\<dots> = (\<Sum>v \<in> ?V. 2 ^ 31 div (runnable_tickets ps + 1))"
    by (rule sum.cong [OF refl]) (simp only: card_bin [OF T(1) V] T(2))
  also have "\<dots> = ?t * (2 ^ 31 div (runnable_tickets ps + 1))"
    using card_words_between [OF b] by simp
  finally show ?thesis unfolding eq .
qed


end
