(* ===== verification/Properties.thy ===== *)
theory Properties
  imports PagingDemo Exec KString Lottery
begin

text \<open>
  Properties of the leaf components, stated over the definitions of the model and proved
  from the lemmas and interpretations of their theories.
\<close>

section \<open>Allocator and page tables\<close>

text \<open>C39: from a free list of at least \<open>n\<close> pages \<^verbatim>\<open>kalloc\<close> hands out \<open>n\<close> different pages, never
  a null pointer, and a page that is given back is the next one handed out.\<close>

theorem kalloc_kfree_pool:
  assumes "kmem_ok s xs" "n \<le> length xs" "valid_page s v" "v \<notin> set xs"
  shows "distinct (fst (alloc_many kalloc n s)) \<and> 0 \<notin> set (fst (alloc_many kalloc n s)) \<and>
    (\<exists>s1 s2. kfree v s = Ok s1 \<and> kalloc s1 = (v, s2) \<and> kmem_ok s2 xs)"
  using kmem.alloc_many_distinct [OF assms(1,2)] kmem.free_then_alloc [OF assms(1,3,4)] by blast

theorem kalloc_kfree_pool_witness:
  "distinct (fst (alloc_many kalloc 1 (demo_phys 0))) \<and> 0 \<notin> set (fst (alloc_many kalloc 1 (demo_phys 0))) \<and>
    (\<exists>s1 s2. kfree 0x80005000 (demo_phys 0) = Ok s1 \<and> kalloc s1 = (0x80005000, s2) \<and> kmem_ok s2 [0x80004000])"
proof (rule kalloc_kfree_pool)
  show "kmem_ok (demo_phys 0) [0x80004000]" by (rule demo_kmem_ok) (simp_all add: demo_phys_def)
  show "valid_page (demo_phys 0) 0x80005000" by (simp add: valid_page_def demo_phys_def page_aligned_def V2P_def)
qed simp_all

text \<open>\<^verbatim>\<open>kfree\<close> accepts exactly the page-aligned addresses between the end of the kernel and
  the top of physical memory, and panics on any other.\<close>

theorem kfree_accepts:
  "(kfree v s = Panic ''kfree'' \<longleftrightarrow> \<not> valid_page s v) \<and> ((\<exists>s'. kfree v s = Ok s') \<longleftrightarrow> valid_page s v)"
  by (simp add: kfree_def valid_page_def Let_def page_aligned_mod not_le not_less)

text \<open>the free list after \<^verbatim>\<open>freerange\<close> holds exactly the whole pages of the range, besides
  the pages it held before.\<close>

theorem freerange_pages:
  assumes "kmem_ok s xs" "KERNBASE \<le> kend s" "kend s \<le> PGROUNDUP vstart"
    and "PGROUNDUP vstart \<le> 0x8E000000" "vend \<le> 0x8E000000" "\<forall>x \<in> set xs. x < PGROUNDUP vstart"
  shows "\<exists>s' zs. freerange vstart vend s = Ok s' \<and> kmem_ok s' zs \<and>
     set zs = set xs \<union> {v. page_aligned v \<and> PGROUNDUP vstart \<le> v \<and> unat v + 4096 \<le> unat vend}"
proof -
  have "page_aligned (PGROUNDUP vstart)"
    by (simp add: page_aligned_def PGROUNDUP_def word_bw_assocs)
  from freerange_loop_ok [OF assms(1) this assms(2-6)] show ?thesis
    unfolding freerange_def by blast
qed

definition demo_empty :: phys where
  "demo_empty = \<lparr>mem = demo_mem 0, freelist = 0, kend = 0x80003000, cr3 = 0\<rparr>"

theorem freerange_pages_witness:
  "\<exists>s' zs. freerange 0x80003001 0x80006000 demo_empty = Ok s' \<and> kmem_ok s' zs \<and>
     set zs = set [] \<union> {v. page_aligned v \<and> PGROUNDUP 0x80003001 \<le> v \<and> unat v + 4096 \<le> unat (0x80006000 :: u32)}"
  by (rule freerange_pages) (simp_all add: kmem_ok_def demo_empty_def PGROUNDUP_def)

text \<open>C37: \<^verbatim>\<open>mappages\<close> (from a page-aligned address, no page of the range mapped) either maps
  every page of the range to the consecutive physical pages with the given permissions and
  leaves the rest of the address space alone, or fails for lack of pages for the tables.\<close>

theorem mappages_maps:
  assumes "pt_ok s d xs" "mappages (kva d) va n pa perm s = Ok (r, s')"
  shows "\<exists>xs'. pt_step s s' d xs xs' \<and>
     (r = 0 \<and> (\<forall>w. entry s' d w =
         (if vpn w - vpn va \<le> vpn (va + n - 1) - vpn va then mapped_entry (vpn va) pa perm (vpn w) else entry s d w)) \<or>
      r = -1 \<and> xs' = [])"
  using mappages_loop_ok [OF assms(1) assms(2) [unfolded mappages_def Let_def vpn_PGROUNDDOWN]] .


theorem mappages_maps_witness:
  "\<exists>s' xs'. mappages (kva 1) 0 PGSIZE 0x3000 6 (demo_phys 0) = Ok (0, s') \<and> pt_step (demo_phys 0) s' 1 [0x80004000] xs' \<and>
     (\<forall>w. entry s' 1 w =
         (if vpn w - vpn 0 \<le> vpn (0 + PGSIZE - 1) - vpn 0 then mapped_entry (vpn 0) 0x3000 6 (vpn w) else entry (demo_phys 0) 1 w))"
proof -
  have m: "mem (demo_phys 0) = demo_mem 0" "freelist (demo_phys 0) = 0x80004000" "kend (demo_phys 0) = 0x80003000"
    by (simp_all add: demo_phys_def)
  note pt = demo_pt_ok [OF m]
  have v: "vpn (PGROUNDDOWN 0) = 0" "vpn (PGROUNDDOWN (0 + PGSIZE - 1)) = 0"
    by (simp_all add: vpn_def PGROUNDDOWN_def)
  have w: "walkpgdir (kva 1) (page_va 0) True (demo_phys 0) = (slot 2 0, demo_phys 0)"
    using walkpgdir_present [of "demo_phys 0" 1 "page_va 0" True]
    by (simp add: m present_2007 page_va_def pdx_def ptx_def PDX_def PTX_def)
  have "mappages (kva 1) 0 PGSIZE 0x3000 6 (demo_phys 0) = Ok (0, store32 (slot 2 0) (0x3000 OR 6 OR PTE_P) (demo_phys 0))"
    unfolding mappages_def v by (subst mappages_loop.simps) (simp add: w m)
  from mappages_maps [OF pt this] this show ?thesis by auto
qed

section \<open>Page replacement\<close>

text \<open>C40: each policy picks a resident page whenever one is eligible, and the one it is meant
  to: FIFO the oldest (skipping important pages under the optimisation), aging the one with
  the least age, LIFO the youngest. LIFO never picks a page with timer 0 and aging never one
  with the greatest age.\<close>

theorem replacement_victims:
  "(getReplacementPageIndexPhyMem ralgo opt ps = -1 \<longleftrightarrow>
      (\<forall>p \<in> set ps. \<not> (if ralgo = 1 then fifo_cand opt p else if ralgo = 2 then aging_cand p else lifo_cand p))) \<and>
   (getReplacementPageIndexPhyMem ralgo opt ps = int i \<longleftrightarrow>
      (if ralgo = 1 then min_candidate (fifo_cand opt) timer ps i
       else if ralgo = 2 then min_candidate aging_cand (\<lambda>p. uint (ageCounter p)) ps i
       else min_candidate lifo_cand (\<lambda>p. - timer p) ps i))"
  unfolding getReplacementPageIndexPhyMem_def
  using fifo.pick_fails_iff [of opt ps] aging.pick_fails_iff [of ps] lifo.pick_fails_iff [of ps]
    fifo.pick_iff [of opt ps i] aging.pick_iff [of ps i] lifo.pick_iff [of ps i] by simp

theorem replacement_victims_witness:
  "(getReplacementPageIndexPhyMem 1 1 [demo_page False 0, demo_page True 0] = -1 \<longleftrightarrow>
      (\<forall>p \<in> set [demo_page False 0, demo_page True 0]. \<not> fifo_cand 1 p)) \<and>
   (getReplacementPageIndexPhyMem 1 1 [demo_page False 0, demo_page True 0] = int 1 \<longleftrightarrow>
      min_candidate (fifo_cand 1) timer [demo_page False 0, demo_page True 0] 1)"
  using replacement_victims [of 1 1 "[demo_page False 0, demo_page True 0]" 1] by simp

section \<open>String functions\<close>

text \<open>\<^verbatim>\<open>memmove\<close> copies correctly also when source and destination overlap, \<^verbatim>\<open>memset\<close>
  fills exactly its range with the low byte of its argument, whether it stores words or bytes.\<close>

theorem memmove_memset_bytes:
  "kmemmove dst src n m x = (if dst \<le> x \<and> x < dst + n then m (src + (x - dst)) else m x) \<and>
   kmemset dst c n m x = (if dst \<le> x \<and> x < dst + n then ucast c else m x)"
  using kmemmove_at kmemset_at by blast

text \<open>on strings that are terminated, \<^verbatim>\<open>strlen\<close> returns the length, and \<^verbatim>\<open>strncmp\<close> is zero
  exactly when the first \<open>n\<close> characters agree.\<close>

theorem strlen_strncmp_strings:
  assumes "cstring m p cs" "cstring m q ds"
  shows "kstrlen m p = Some (length cs) \<and> (kstrncmp p q n m = 0 \<longleftrightarrow> take n cs = take n ds)"
  using kstrlen_cstring [OF assms(1)] kstrncmp_zero [OF assms] by blast

definition demo_bytes :: bytes where
  "demo_bytes x = (if x = 1 \<or> x = 11 then 104 else if x = 2 then 105 else if x = 12 then 111 else 0)"

theorem strlen_strncmp_strings_witness:
  "kstrlen demo_bytes 1 = Some (length [104, 105 :: u8]) \<and>
   (kstrncmp 1 11 2 demo_bytes = 0 \<longleftrightarrow> take 2 [104, 105 :: u8] = take 2 [104, 111])"
  by (rule strlen_strncmp_strings) (simp_all add: cstring_Cons, simp_all add: cstring_def demo_bytes_def)

section \<open>The random number generator and the lottery\<close>

text \<open>\<^verbatim>\<open>random_at_most\<close> on a valid range never delivers a number above its argument, each
  value is taken by equally many of the generator outputs it accepts, and when the number of
  values divides the number of outputs it returns at once.\<close>

theorem random_at_most_uniform:
  assumes "mx \<le> RAND_MAX" "rng_ok s"
  shows "(random_at_most mx s = Hang \<or>
      (\<exists>x s'. random_at_most mx s = Ok (bin_of mx x, s') \<and> x \<in> accepted mx \<and> bin_of mx x \<le> mx \<and> rng_ok s')) \<and>
    (\<forall>v \<le> mx. card {x \<in> accepted mx. bin_of mx x = v} = 2 ^ 31 div (unat mx + 1)) \<and>
    ((unat mx + 1) dvd 2 ^ 31 \<longrightarrow> random_at_most mx s \<noteq> Hang)"
  using random_at_most_cases [OF assms] bin_of_le [OF assms(1)] card_bin [OF assms(1)] random_at_most_returns [OF assms]
  by blast

lemma rng_init_ok: "rng_ok rng_init"
  by (simp add: rng_ok_def rng_init_def)

theorem random_at_most_uniform_witness:
  "(\<exists>x s'. random_at_most 3 rng_init = Ok (bin_of 3 x, s') \<and> x \<in> accepted 3 \<and> bin_of 3 x \<le> 3 \<and> rng_ok s') \<and>
    card {x \<in> accepted 3. bin_of 3 x = 2} = 2 ^ 29"
proof -
  have "(3 :: u32) \<le> RAND_MAX" "(2 :: u32) \<le> 3" "(unat (3 :: u32) + 1) dvd 2 ^ 31" by simp_all
  with random_at_most_uniform [OF this(1) rng_init_ok] show ?thesis by auto
qed

definition demo_lottery :: lottery where
  "demo_lottery = \<lparr>ltable = [\<lparr>lstate = RUNNABLE, lpid = 1, ticket = 10, tick = 0\<rparr>,
     \<lparr>lstate = SLEEPING, lpid = 2, ticket = 10, tick = 0\<rparr>, \<lparr>lstate = RUNNABLE, lpid = 3, ticket = 20, tick = 0\<rparr>],
     lrng = rng_init, lticks = 0\<rparr>"

lemma demo_lottery_ok: "lottery_ok (ltable demo_lottery)"
  by (simp add: lottery_ok_def demo_lottery_def)

theorem lottery_fair_witness:
  "card {x \<in> accepted (getRunnableProcTickets (ltable demo_lottery)).
      winner_loop 0 (ltable demo_lottery) 0 (bin_of (getRunnableProcTickets (ltable demo_lottery)) x) = Some 2} =
    unat (ticket (ltable demo_lottery ! 2)) * (2 ^ 31 div (runnable_tickets (ltable demo_lottery) + 1))"
  by (rule lottery_fair [OF demo_lottery_ok]) (simp_all add: demo_lottery_def)


section \<open>Words in files\<close>

text \<open>reading the little-endian words exec reads from a program file inverts writing them
  at any offset.\<close>

theorem le32_roundtrip:
  "le32 (pre @ bytes32 w @ post) (length pre) = w"
  by (rule le32_bytes32) (simp_all add: bytes32_def)

end
