(* ===== verification/Bcache.thy ===== *)
theory Bcache
  imports ByteOps
begin

text \<open>
  The buffer cache (bio.c) over the disk driver (ide.c): \<^verbatim>\<open>bget\<close>, \<^verbatim>\<open>bread\<close>,
  \<^verbatim>\<open>bwrite\<close>, \<^verbatim>\<open>brelse\<close>. The doubly linked list of buffers is the list \<open>mru\<close> of their
  indices, \<^verbatim>\<open>head.next\<close> first. A disk transfer is atomic; \<open>bwrites\<close> is the history of
  completed block writes, which is what a crash leaves behind. \<^verbatim>\<open>acquiresleep\<close> on a buffer
  that another process holds does not return in a sequential execution (\<open>Hang\<close>).
\<close>

section \<open>State\<close>

abbreviation BSIZE :: nat where "BSIZE \<equiv> 512"
abbreviation FSSIZE :: nat where "FSSIZE \<equiv> 1000"
abbreviation NBUF :: nat where "NBUF \<equiv> 30"

record buf =
  bdev :: nat
  bblockno :: nat
  bvalid :: bool
  bdirty :: bool
  bheld :: bool
  brefcnt :: nat
  bdata :: "u8 list"

record bcache =
  bdisk :: "nat \<Rightarrow> nat \<Rightarrow> u8 list"
  bwrites :: "(nat \<times> nat \<times> u8 list) list"
  havedisk1 :: bool
  bufs :: "buf list"
  mru :: "nat list"

definition upd_buf :: "nat \<Rightarrow> (buf \<Rightarrow> buf) \<Rightarrow> bcache \<Rightarrow> bcache" where
  "upd_buf i f s = s\<lparr>bufs := (bufs s)[i := f (bufs s ! i)]\<rparr>"

definition bkey :: "buf \<Rightarrow> nat \<times> nat" where
  "bkey b = (bdev b, bblockno b)"

section \<open>Operations\<close>

definition binit :: "(nat \<Rightarrow> nat \<Rightarrow> u8 list) \<Rightarrow> bool \<Rightarrow> bcache" where
  "binit d disk1 = \<lparr>bdisk = d, bwrites = [], havedisk1 = disk1,
     bufs = replicate NBUF \<lparr>bdev = 0, bblockno = 0, bvalid = False, bdirty = False, bheld = False, brefcnt = 0,
       bdata = replicate BSIZE 0\<rparr>,
     mru = rev [0 ..< NBUF]\<rparr>"

definition acquire_buf :: "nat \<Rightarrow> bcache \<Rightarrow> (nat \<times> bcache) res" where
  "acquire_buf i s = (if bheld (bufs s ! i) then Hang else Ok (i, upd_buf i (\<lambda>b. b\<lparr>bheld := True\<rparr>) s))"

definition bget :: "nat \<Rightarrow> nat \<Rightarrow> bcache \<Rightarrow> (nat \<times> bcache) res" where
  "bget dev blockno s =
     (case find (\<lambda>i. bdev (bufs s ! i) = dev \<and> bblockno (bufs s ! i) = blockno) (mru s) of
        Some i \<Rightarrow> acquire_buf i (upd_buf i (\<lambda>b. b\<lparr>brefcnt := brefcnt b + 1\<rparr>) s)
      | None \<Rightarrow>
          (case find (\<lambda>i. brefcnt (bufs s ! i) = 0 \<and> \<not> bdirty (bufs s ! i)) (rev (mru s)) of
             Some i \<Rightarrow> acquire_buf i (upd_buf i (\<lambda>b. b\<lparr>bdev := dev, bblockno := blockno,
                         bvalid := False, bdirty := False, brefcnt := 1\<rparr>) s)
           | None \<Rightarrow> Panic ''bget: no buffers''))"

text \<open>\<^verbatim>\<open>iderw\<close> up to the completion of its request (\<^verbatim>\<open>idestart\<close>, \<^verbatim>\<open>ideintr\<close>).\<close>

definition iderw :: "nat \<Rightarrow> bcache \<Rightarrow> bcache res" where
  "iderw i s =
     (let b = bufs s ! i
      in if \<not> bheld b then Panic ''iderw: buf not locked''
         else if bvalid b \<and> \<not> bdirty b then Panic ''iderw: nothing to do''
         else if bdev b \<noteq> 0 \<and> \<not> havedisk1 s then Panic ''iderw: ide disk 1 not present''
         else if bblockno b \<ge> FSSIZE then Panic ''incorrect blockno''
         else if bdirty b
         then Ok (upd_buf i (\<lambda>b. b\<lparr>bvalid := True, bdirty := False\<rparr>)
                (s\<lparr>bdisk := (bdisk s)(bdev b := (bdisk s (bdev b))(bblockno b := bdata b)),
                   bwrites := bwrites s @ [(bdev b, bblockno b, bdata b)]\<rparr>))
         else Ok (upd_buf i (\<lambda>b. b\<lparr>bdata := bdisk s (bdev b) (bblockno b), bvalid := True, bdirty := False\<rparr>) s))"

definition bread :: "nat \<Rightarrow> nat \<Rightarrow> bcache \<Rightarrow> (nat \<times> bcache) res" where
  "bread dev blockno s =
     bindR (bget dev blockno s) (\<lambda>(i, s1).
       if \<not> bvalid (bufs s1 ! i) then bindR (iderw i s1) (\<lambda>s2. Ok (i, s2)) else Ok (i, s1))"

definition bwrite :: "nat \<Rightarrow> bcache \<Rightarrow> bcache res" where
  "bwrite i s =
     (if \<not> bheld (bufs s ! i) then Panic ''bwrite''
      else iderw i (upd_buf i (\<lambda>b. b\<lparr>bdirty := True\<rparr>) s))"

definition brelse :: "nat \<Rightarrow> bcache \<Rightarrow> bcache res" where
  "brelse i s =
     (if \<not> bheld (bufs s ! i) then Panic ''brelse''
      else let s1 = upd_buf i (\<lambda>b. b\<lparr>bheld := False, brefcnt := brefcnt b - 1\<rparr>) s
           in Ok (if brefcnt (bufs s1 ! i) = 0 then s1\<lparr>mru := i # remove1 i (mru s1)\<rparr> else s1))"

text \<open>A caller that holds the buffer writes its data in place.\<close>

definition bfill :: "nat \<Rightarrow> u8 list \<Rightarrow> bcache \<Rightarrow> bcache" where
  "bfill i xs s = upd_buf i (\<lambda>b. b\<lparr>bdata := xs\<rparr>) s"

section \<open>The invariant and the content of a block\<close>

text \<open>Between operations of one process: a buffer is locked exactly while it is referenced; no
  block is cached twice (block 0 of device 0 marks buffers never used); a dirty buffer is
  valid; and a valid clean buffer that nobody holds agrees with the disk.\<close>

definition bcache_ok :: "bcache \<Rightarrow> bool" where
  "bcache_ok s \<longleftrightarrow> distinct (mru s) \<and> set (mru s) = {..< length (bufs s)} \<and> havedisk1 s \<and>
     (\<forall>i < length (bufs s). \<forall>j < length (bufs s).
        bkey (bufs s ! i) = bkey (bufs s ! j) \<longrightarrow> bkey (bufs s ! i) \<noteq> (0, 0) \<longrightarrow> i = j) \<and>
     (\<forall>i < length (bufs s). brefcnt (bufs s ! i) = (if bheld (bufs s ! i) then 1 else 0)) \<and>
     (\<forall>i < length (bufs s). bheld (bufs s ! i) \<or> bdirty (bufs s ! i) \<longrightarrow> bkey (bufs s ! i) \<noteq> (0, 0)) \<and>
     (\<forall>i < length (bufs s). bdirty (bufs s ! i) \<longrightarrow> bvalid (bufs s ! i)) \<and>
     (\<forall>i < length (bufs s). bvalid (bufs s ! i) \<longrightarrow> \<not> bdirty (bufs s ! i) \<longrightarrow> \<not> bheld (bufs s ! i) \<longrightarrow>
        bdata (bufs s ! i) = bdisk s (bdev (bufs s ! i)) (bblockno (bufs s ! i)))"

definition cached :: "bcache \<Rightarrow> nat \<Rightarrow> nat \<Rightarrow> nat option" where
  "cached s dev b = find (\<lambda>i. bdev (bufs s ! i) = dev \<and> bblockno (bufs s ! i) = b) (mru s)"

definition cblk :: "bcache \<Rightarrow> nat \<Rightarrow> nat \<Rightarrow> u8 list" where
  "cblk s dev b =
     (case cached s dev b of
        Some i \<Rightarrow> if bvalid (bufs s ! i) then bdata (bufs s ! i) else bdisk s dev b
      | None \<Rightarrow> bdisk s dev b)"

text \<open>The buffers that cannot be recycled, and the blocks that are dirty in the cache.\<close>

definition pinned :: "bcache \<Rightarrow> nat set" where
  "pinned s = {i. i < length (bufs s) \<and> (bheld (bufs s ! i) \<or> bdirty (bufs s ! i))}"

definition dirty :: "bcache \<Rightarrow> (nat \<times> nat) set" where
  "dirty s = {bkey (bufs s ! i) |i. i < length (bufs s) \<and> bdirty (bufs s ! i)}"

definition held :: "bcache \<Rightarrow> (nat \<times> nat) set" where
  "held s = {bkey (bufs s ! i) |i. i < length (bufs s) \<and> bheld (bufs s ! i)}"

lemma upd_buf_simps [simp]:
  "length (bufs (upd_buf i f s)) = length (bufs s)" "mru (upd_buf i f s) = mru s" "bdisk (upd_buf i f s) = bdisk s"
  "bwrites (upd_buf i f s) = bwrites s" "havedisk1 (upd_buf i f s) = havedisk1 s"
  by (simp_all add: upd_buf_def)

lemma bufs_upd_buf: "j < length (bufs s) \<Longrightarrow> bufs (upd_buf i f s) ! j = (if j = i then f (bufs s ! i) else bufs s ! j)"
  by (simp add: upd_buf_def)

lemma bcache_okD:
  assumes "bcache_ok s" "i < length (bufs s)"
  shows "brefcnt (bufs s ! i) = (if bheld (bufs s ! i) then 1 else 0)" "bdirty (bufs s ! i) \<Longrightarrow> bvalid (bufs s ! i)"
    "bvalid (bufs s ! i) \<Longrightarrow> \<not> bdirty (bufs s ! i) \<Longrightarrow> \<not> bheld (bufs s ! i) \<Longrightarrow>
       bdata (bufs s ! i) = bdisk s (bdev (bufs s ! i)) (bblockno (bufs s ! i))"
    "j < length (bufs s) \<Longrightarrow> bkey (bufs s ! i) = bkey (bufs s ! j) \<Longrightarrow> bkey (bufs s ! i) \<noteq> (0, 0) \<Longrightarrow> i = j"
    "bheld (bufs s ! i) \<or> bdirty (bufs s ! i) \<Longrightarrow> bkey (bufs s ! i) \<noteq> (0, 0)"
  using assms unfolding bcache_ok_def by blast+

lemma find_SomeD: "find P xs = Some x \<Longrightarrow> P x \<and> x \<in> set xs"
  by (induction xs) (auto split: if_splits)

lemma find_exists: "x \<in> set xs \<Longrightarrow> P x \<Longrightarrow> \<exists>y. find P xs = Some y"
  by (induction xs) auto

lemma mru_set: "bcache_ok s \<Longrightarrow> i \<in> set (mru s) \<longleftrightarrow> i < length (bufs s)"
  by (simp add: bcache_ok_def)

lemma cached_SomeD: "bcache_ok s \<Longrightarrow> cached s dev b = Some i \<Longrightarrow> i < length (bufs s) \<and> bkey (bufs s ! i) = (dev, b)"
  unfolding cached_def by (drule find_SomeD) (simp add: mru_set bkey_def)

lemma cached_Some:
  assumes "bcache_ok s" "(dev, b) \<noteq> (0, 0)"
  shows "cached s dev b = Some i \<longleftrightarrow> i < length (bufs s) \<and> bkey (bufs s ! i) = (dev, b)"
proof
  assume i: "i < length (bufs s) \<and> bkey (bufs s ! i) = (dev, b)"
  then have "i \<in> set (mru s)" "bdev (bufs s ! i) = dev \<and> bblockno (bufs s ! i) = b"
    using assms(1) by (simp_all add: mru_set bkey_def)
  from find_exists [of i _ "\<lambda>i. bdev (bufs s ! i) = dev \<and> bblockno (bufs s ! i) = b", OF this]
  obtain j where j: "cached s dev b = Some j" unfolding cached_def by blast
  note k = cached_SomeD [OF assms(1) j]
  have "j = i" using bcache_okD(4) [OF assms(1), of j i] i k assms(2) by simp
  then show "cached s dev b = Some i" using j by simp
qed (rule cached_SomeD [OF assms(1)])

lemma cached_None:
  assumes "bcache_ok s"
  shows "cached s dev b = None \<longleftrightarrow> (\<forall>i < length (bufs s). bkey (bufs s ! i) \<noteq> (dev, b))"
  using assms unfolding cached_def find_None_iff bcache_ok_def bkey_def by auto

lemma cblk_hit:
  "bcache_ok s \<Longrightarrow> i < length (bufs s) \<Longrightarrow> bkey (bufs s ! i) = (d, c) \<Longrightarrow> (d, c) \<noteq> (0, 0) \<Longrightarrow>
   cblk s d c = (if bvalid (bufs s ! i) then bdata (bufs s ! i) else bdisk s d c)"
  using cached_Some [of s d c i] by (simp add: cblk_def)

lemma cblk_miss: "bcache_ok s \<Longrightarrow> \<forall>i < length (bufs s). bkey (bufs s ! i) \<noteq> (d, c) \<Longrightarrow> cblk s d c = bdisk s d c"
  using cached_None [of s d c] by (simp add: cblk_def)

lemma cblk_cases:
  assumes "bcache_ok s" "(d, c) \<noteq> (0, 0)"
  obtains (hit) i where "i < length (bufs s)" "bkey (bufs s ! i) = (d, c)"
      "cblk s d c = (if bvalid (bufs s ! i) then bdata (bufs s ! i) else bdisk s d c)"
  | (miss) "\<forall>i < length (bufs s). bkey (bufs s ! i) \<noteq> (d, c)" "cblk s d c = bdisk s d c"
  using cblk_hit [OF assms(1) _ _ assms(2)] cblk_miss [OF assms(1)] by blast

text \<open>A buffer that nobody holds and that is not dirty may be thrown away.\<close>

lemma cblk_clean:
  assumes "bcache_ok s" "(d, c) \<noteq> (0, 0)" "i < length (bufs s)" "bkey (bufs s ! i) = (d, c)"
    "\<not> bheld (bufs s ! i)" "\<not> bdirty (bufs s ! i)"
  shows "cblk s d c = bdisk s d c"
  using cblk_hit [OF assms(1,3,4,2)] bcache_okD(3) [OF assms(1,3) _ assms(6,5)] assms(4) by (auto simp: bkey_def)

section \<open>Replacing one buffer\<close>

definition set_buf :: "nat \<Rightarrow> buf \<Rightarrow> bcache \<Rightarrow> bcache" where
  "set_buf i b s = s\<lparr>bufs := (bufs s)[i := b]\<rparr>"

lemma upd_buf_set: "upd_buf i f s = set_buf i (f (bufs s ! i)) s"
  by (simp add: upd_buf_def set_buf_def)

lemma set_buf_simps [simp]:
  "length (bufs (set_buf i b s)) = length (bufs s)" "mru (set_buf i b s) = mru s" "bdisk (set_buf i b s) = bdisk s"
  "bwrites (set_buf i b s) = bwrites s" "havedisk1 (set_buf i b s) = havedisk1 s"
  "set_buf i b (set_buf i b' s) = set_buf i b s"
  by (simp_all add: set_buf_def)

lemma bufs_set_buf: "j < length (bufs s) \<Longrightarrow> bufs (set_buf i b s) ! j = (if j = i then b else bufs s ! j)"
  by (simp add: set_buf_def)

lemma set_buf_ok:
  assumes ok: "bcache_ok s" and i: "i < length (bufs s)"
    and u: "\<And>j. j < length (bufs s) \<Longrightarrow> j \<noteq> i \<Longrightarrow> bkey (bufs s ! j) \<noteq> bkey b"
    and z: "bheld b \<or> bdirty b \<Longrightarrow> bkey b \<noteq> (0, 0)"
    and b: "brefcnt b = (if bheld b then 1 else 0)" "bdirty b \<Longrightarrow> bvalid b"
      "bvalid b \<Longrightarrow> \<not> bdirty b \<Longrightarrow> \<not> bheld b \<Longrightarrow> bdata b = bdisk s (bdev b) (bblockno b)"
  shows "bcache_ok (set_buf i b s)"
  unfolding bcache_ok_def set_buf_simps
proof (intro conjI allI impI)
  show "distinct (mru s)" "set (mru s) = {..< length (bufs s)}" "havedisk1 s" using ok by (simp_all add: bcache_ok_def)
  fix j assume j: "j < length (bufs s)"
  note n = bufs_set_buf [OF j, of i b]
  show "brefcnt (bufs (set_buf i b s) ! j) = (if bheld (bufs (set_buf i b s) ! j) then 1 else 0)"
    unfolding n using b(1) bcache_okD(1) [OF ok j] by simp
  show "bheld (bufs (set_buf i b s) ! j) \<or> bdirty (bufs (set_buf i b s) ! j) \<Longrightarrow> bkey (bufs (set_buf i b s) ! j) \<noteq> (0, 0)"
    unfolding n using z bcache_okD(5) [OF ok j] by (simp split: if_splits)
  show "bdirty (bufs (set_buf i b s) ! j) \<Longrightarrow> bvalid (bufs (set_buf i b s) ! j)"
    unfolding n using b(2) bcache_okD(2) [OF ok j] by (simp split: if_splits)
  show "bvalid (bufs (set_buf i b s) ! j) \<Longrightarrow> \<not> bdirty (bufs (set_buf i b s) ! j) \<Longrightarrow> \<not> bheld (bufs (set_buf i b s) ! j) \<Longrightarrow>
      bdata (bufs (set_buf i b s) ! j) = bdisk s (bdev (bufs (set_buf i b s) ! j)) (bblockno (bufs (set_buf i b s) ! j))"
    unfolding n using b(3) bcache_okD(3) [OF ok j] by (simp split: if_splits)
  fix k assume k: "k < length (bufs s)"
  show "bkey (bufs (set_buf i b s) ! j) = bkey (bufs (set_buf i b s) ! k) \<Longrightarrow> bkey (bufs (set_buf i b s) ! j) \<noteq> (0, 0) \<Longrightarrow> j = k"
    unfolding n bufs_set_buf [OF k] using u [OF j] u [OF k] bcache_okD(4) [OF ok j k] by (auto split: if_splits)
qed

text \<open>The logical content under a replacement of buffer \<open>i\<close>: its new block takes the new data,
  the block it held before falls back to the disk, the others stay.\<close>

lemma cblk_set_buf:
  assumes ok: "bcache_ok s" and ok': "bcache_ok (set_buf i b s)" and i: "i < length (bufs s)" and dc: "(d, c) \<noteq> (0, 0)"
  shows "cblk (set_buf i b s) d c =
    (if (d, c) = bkey b then (if bvalid b then bdata b else bdisk s d c)
     else if (d, c) = bkey (bufs s ! i) then bdisk s d c else cblk s d c)"
proof (cases "(d, c) = bkey b")
  case True
  then show ?thesis using cblk_hit [OF ok', of i d c] i dc by (simp add: bufs_set_buf)
next
  case False
  show ?thesis
  proof (cases "(d, c) = bkey (bufs s ! i)")
    case True
    have "bkey (bufs (set_buf i b s) ! j) \<noteq> (d, c)" if "j < length (bufs s)" for j
      using that False True bcache_okD(4) [OF ok i that] dc by (auto simp: bufs_set_buf)
    then have "cblk (set_buf i b s) d c = bdisk s d c" using cblk_miss [OF ok', of d c] by simp
    then show ?thesis using False True by simp
  next
    case ne: False
    show ?thesis
    proof (rule cblk_cases [OF ok dc])
      fix j assume j: "j < length (bufs s)" "bkey (bufs s ! j) = (d, c)"
        "cblk s d c = (if bvalid (bufs s ! j) then bdata (bufs s ! j) else bdisk s d c)"
      then have "j \<noteq> i" using ne by auto
      then show ?thesis using cblk_hit [OF ok', of j d c] j dc False ne by (simp add: bufs_set_buf)
    next
      assume m: "\<forall>j < length (bufs s). bkey (bufs s ! j) \<noteq> (d, c)" "cblk s d c = bdisk s d c"
      have "bkey (bufs (set_buf i b s) ! j) \<noteq> (d, c)" if "j < length (bufs s)" for j
        using that m False by (auto simp: bufs_set_buf)
      then show ?thesis using cblk_miss [OF ok', of d c] m False ne by simp
    qed
  qed
qed

lemma pinned_set_buf: "i < length (bufs s) \<Longrightarrow>
    pinned (set_buf i b s) = (if bheld b \<or> bdirty b then insert i (pinned s) else pinned s - {i})"
  by (auto simp: pinned_def bufs_set_buf split: if_splits)

lemma finite_pinned [simp]: "finite (pinned s)"
  by (simp add: pinned_def)

section \<open>Reading a block into the cache\<close>

definition loaded :: "nat \<Rightarrow> nat \<Rightarrow> bool \<Rightarrow> u8 list \<Rightarrow> buf" where
  "loaded dev b d xs = \<lparr>bdev = dev, bblockno = b, bvalid = True, bdirty = d, bheld = True, brefcnt = 1, bdata = xs\<rparr>"

lemma loaded_simps [simp]:
  "bkey (loaded dev b d xs) = (dev, b)" "bvalid (loaded dev b d xs)" "bdirty (loaded dev b d xs) = d" "bheld (loaded dev b d xs)"
  "brefcnt (loaded dev b d xs) = 1" "bdata (loaded dev b d xs) = xs" "bdev (loaded dev b d xs) = dev" "bblockno (loaded dev b d xs) = b"
  by (simp_all add: loaded_def bkey_def)

lemma loaded_inject: "loaded dev b d xs = loaded dev' b' d' xs' \<longleftrightarrow> dev = dev' \<and> b = b' \<and> d = d' \<and> xs = xs'"
  by (simp add: loaded_def)

lemma hold_loaded: "bvalid b \<Longrightarrow> b\<lparr>brefcnt := 1, bheld := True\<rparr> = loaded (bdev b) (bblockno b) (bdirty b) (bdata b)"
  by (cases b) (simp add: loaded_def)

lemma read_loaded: "b\<lparr>brefcnt := Suc 0, bheld := True, bdata := xs, bvalid := True, bdirty := False\<rparr> = loaded (bdev b) (bblockno b) False xs"
  by (cases b) (simp add: loaded_def)

lemma recycle_loaded:
  "b\<lparr>bdev := dev, bblockno := c, brefcnt := Suc 0, bheld := True, bdata := xs, bvalid := True, bdirty := False\<rparr> = loaded dev c False xs"
  by (cases b) (simp add: loaded_def)

lemma buf_loaded: "bkey b = (dev, c) \<Longrightarrow> bvalid b \<Longrightarrow> bheld b \<Longrightarrow> brefcnt b = 1 \<Longrightarrow> b = loaded dev c (bdirty b) (bdata b)"
  by (cases b) (simp add: loaded_def bkey_def)

lemma card_pinned_room:
  assumes "bcache_ok s" "card (pinned s) < length (bufs s)"
  obtains i where "i < length (bufs s)" "\<not> bheld (bufs s ! i)" "\<not> bdirty (bufs s ! i)"
proof -
  have "pinned s \<noteq> {..< length (bufs s)}" using assms(2) by (metis card_lessThan less_irrefl)
  moreover have "pinned s \<subseteq> {..< length (bufs s)}" by (auto simp: pinned_def)
  ultimately obtain i where "i < length (bufs s)" "i \<notin> pinned s" by (metis lessThan_iff subsetI subset_antisym)
  then show thesis by (intro that [of i]) (simp_all add: pinned_def)
qed

lemma bread_loads:
  assumes ok: "bcache_ok s" and k: "(dev, b) \<noteq> (0, 0)" and nh: "(dev, b) \<notin> held s"
    and room: "(dev, b) \<in> dirty s \<or> card (pinned s) < length (bufs s)" and bn: "b < FSSIZE"
  obtains i where "i < length (bufs s)" "\<not> bheld (bufs s ! i)"
    "bread dev b s = Ok (i, set_buf i (loaded dev b (bkey (bufs s ! i) = (dev, b) \<and> bdirty (bufs s ! i)) (cblk s dev b)) s)"
    "\<forall>j < length (bufs s). j \<noteq> i \<longrightarrow> bkey (bufs s ! j) \<noteq> (dev, b)"
    "bkey (bufs s ! i) \<noteq> (dev, b) \<longrightarrow> \<not> bdirty (bufs s ! i)"
proof -
  have hd: "havedisk1 s" using ok by (simp add: bcache_ok_def)
  show thesis
  proof (cases "cached s dev b")
    case (Some i)
    then have i: "i < length (bufs s)" "bkey (bufs s ! i) = (dev, b)" using cached_Some [OF ok k] by auto
    then have h: "\<not> bheld (bufs s ! i)" using nh by (force simp: held_def)
    then have r: "brefcnt (bufs s ! i) = 0" using bcache_okD(1) [OF ok i(1)] by simp
    have key: "bdev (bufs s ! i) = dev" "bblockno (bufs s ! i) = b" using i(2) by (simp_all add: bkey_def)
    have g: "bget dev b s = Ok (i, set_buf i ((bufs s ! i)\<lparr>brefcnt := 1, bheld := True\<rparr>) s)"
      using Some h r i(1) by (simp add: bget_def cached_def acquire_buf_def upd_buf_set bufs_set_buf)
    have u: "\<forall>j < length (bufs s). j \<noteq> i \<longrightarrow> bkey (bufs s ! j) \<noteq> (dev, b)"
      using bcache_okD(4) [OF ok i(1)] i(2) k by auto
    have c: "cblk s dev b = (if bvalid (bufs s ! i) then bdata (bufs s ! i) else bdisk s dev b)"
      by (rule cblk_hit [OF ok i k])
    have e: "bread dev b s = Ok (i, set_buf i (loaded dev b (bdirty (bufs s ! i)) (cblk s dev b)) s)"
    proof (cases "bvalid (bufs s ! i)")
      case True
      have "bread dev b s = Ok (i, set_buf i ((bufs s ! i)\<lparr>brefcnt := 1, bheld := True\<rparr>) s)"
        using g i(1) True by (simp add: bread_def bufs_set_buf)
      then show ?thesis unfolding hold_loaded [OF True] using key c True by simp
    next
      case False
      then have "\<not> bdirty (bufs s ! i)" using bcache_okD(2) [OF ok i(1)] by auto
      then show ?thesis using g i(1) key c False hd bn
        by (simp add: bread_def bufs_set_buf iderw_def Let_def upd_buf_set read_loaded)
    qed
    show thesis by (rule that [OF i(1) h _ u]) (use e i(2) in simp_all)
  next
    case None
    note m = iffD1 [OF cached_None [OF ok] None]
    have room': "card (pinned s) < length (bufs s)" using room m by (auto simp: dirty_def)
    obtain j where "j < length (bufs s)" "\<not> bheld (bufs s ! j)" "\<not> bdirty (bufs s ! j)"
      by (rule card_pinned_room [OF ok room'])
    then have "j \<in> set (rev (mru s))" "brefcnt (bufs s ! j) = 0 \<and> \<not> bdirty (bufs s ! j)"
      using ok bcache_okD(1) [OF ok] by (simp_all add: mru_set)
    from find_exists [of j _ "\<lambda>i. brefcnt (bufs s ! i) = 0 \<and> \<not> bdirty (bufs s ! i)", OF this]
    obtain i where f: "find (\<lambda>i. brefcnt (bufs s ! i) = 0 \<and> \<not> bdirty (bufs s ! i)) (rev (mru s)) = Some i" by blast
    from find_SomeD [OF f] have i: "i < length (bufs s)" "brefcnt (bufs s ! i) = 0" "\<not> bdirty (bufs s ! i)"
      by (simp_all add: mru_set [OF ok])
    then have h: "\<not> bheld (bufs s ! i)" using bcache_okD(1) [OF ok i(1)] by (simp split: if_splits)
    have c: "cblk s dev b = bdisk s dev b" using cblk_miss [OF ok m] .
    have e: "bread dev b s = Ok (i, set_buf i (loaded dev b False (cblk s dev b)) s)"
      using None f i(1) h c hd bn
      by (simp add: bread_def bget_def cached_def acquire_buf_def upd_buf_set bufs_set_buf iderw_def Let_def recycle_loaded)
    show thesis by (rule that [OF i(1) h]) (use e m i in auto)
  qed
qed


lemma card_pinned:
  assumes "bcache_ok s" shows "card (pinned s) = card (dirty s \<union> held s)"
proof -
  have "dirty s \<union> held s = (\<lambda>i. bkey (bufs s ! i)) ` pinned s"
    by (auto simp: dirty_def held_def pinned_def)
  moreover have "inj_on (\<lambda>i. bkey (bufs s ! i)) (pinned s)"
    using bcache_okD(4,5) [OF assms] by (fastforce simp: inj_on_def pinned_def)
  ultimately show ?thesis by (simp add: card_image)
qed

section \<open>What each operation does\<close>

text \<open>A buffer this process holds: its number, its block and its data.\<close>

definition holds :: "bcache \<Rightarrow> nat \<Rightarrow> nat \<Rightarrow> nat \<Rightarrow> u8 list \<Rightarrow> bool" where
  "holds s i dev b xs \<longleftrightarrow> i < length (bufs s) \<and> (\<exists>d. bufs s ! i = loaded dev b d xs)"

text \<open>The steps agree on everything but the named fields.\<close>

definition same_blocks :: "bcache \<Rightarrow> bcache \<Rightarrow> bool" where
  "same_blocks s s' \<longleftrightarrow> length (bufs s') = length (bufs s) \<and>
     (\<forall>d c. (d, c) \<noteq> (0, 0) \<longrightarrow> cblk s' d c = cblk s d c)"

definition keys_but :: "(buf \<Rightarrow> bool) \<Rightarrow> nat \<Rightarrow> bcache \<Rightarrow> (nat \<times> nat) set" where
  "keys_but P i s = {bkey (bufs s ! j) |j. j < length (bufs s) \<and> j \<noteq> i \<and> P (bufs s ! j)}"

lemma keys_but_set_buf [simp]: "keys_but P i (set_buf i b s) = keys_but P i s"
  unfolding keys_but_def set_buf_simps by (rule Collect_cong) (metis bufs_set_buf)

lemma keys_split:
  assumes "i < length (bufs s)"
  shows "held s = keys_but bheld i s \<union> (if bheld (bufs s ! i) then {bkey (bufs s ! i)} else {})"
    "dirty s = keys_but bdirty i s \<union> (if bdirty (bufs s ! i) then {bkey (bufs s ! i)} else {})"
  using assms by (auto simp: held_def dirty_def keys_but_def)

lemma keys_set_buf:
  assumes "i < length (bufs s)"
  shows "held (set_buf i b s) = keys_but bheld i s \<union> (if bheld b then {bkey b} else {})"
    "dirty (set_buf i b s) = keys_but bdirty i s \<union> (if bdirty b then {bkey b} else {})"
  using keys_split [of i "set_buf i b s"] assms by (simp_all add: bufs_set_buf)

lemma bread_ok:
  assumes ok: "bcache_ok s" and k: "(dev, b) \<noteq> (0, 0)" and nh: "(dev, b) \<notin> held s"
    and room: "(dev, b) \<in> dirty s \<or> card (dirty s \<union> held s) < length (bufs s)" and bn: "b < FSSIZE"
  obtains i s' where "bread dev b s = Ok (i, s')" "bcache_ok s'" "holds s' i dev b (cblk s dev b)" "same_blocks s s'"
    "bdisk s' = bdisk s" "bwrites s' = bwrites s" "held s' = insert (dev, b) (held s)" "dirty s' = dirty s"
    "\<And>j d c xs. holds s j d c xs \<Longrightarrow> holds s' j d c xs"
proof -
  have room': "(dev, b) \<in> dirty s \<or> card (pinned s) < length (bufs s)" using room card_pinned [OF ok] by simp
  obtain i where i: "i < length (bufs s)" "\<not> bheld (bufs s ! i)"
    and r: "bread dev b s = Ok (i, set_buf i (loaded dev b (bkey (bufs s ! i) = (dev, b) \<and> bdirty (bufs s ! i)) (cblk s dev b)) s)"
    and u: "\<forall>j < length (bufs s). j \<noteq> i \<longrightarrow> bkey (bufs s ! j) \<noteq> (dev, b)"
    and nd: "bkey (bufs s ! i) \<noteq> (dev, b) \<longrightarrow> \<not> bdirty (bufs s ! i)"
    by (rule bread_loads [OF ok k nh room' bn])
  define b' where "b' = loaded dev b (bkey (bufs s ! i) = (dev, b) \<and> bdirty (bufs s ! i)) (cblk s dev b)"
  define s' where "s' = set_buf i b' s"
  have b': "bkey b' = (dev, b)" "bheld b'" "bvalid b'" "brefcnt b' = 1" "bdata b' = cblk s dev b"
    by (simp_all add: b'_def)
  have ok': "bcache_ok s'"
    unfolding s'_def by (rule set_buf_ok [OF ok i(1)]) (use u b' k in auto)
  have "cblk s' d c = cblk s d c" if dc: "(d, c) \<noteq> (0, 0)" for d c
  proof -
    have e: "cblk s d c = bdisk s d c" if "(d, c) = bkey (bufs s ! i)" "(d, c) \<noteq> (dev, b)"
      using cblk_clean [OF ok dc i(1) _ i(2)] nd that by auto
    note s = cblk_set_buf [OF ok ok' [unfolded s'_def] i(1) dc, folded s'_def]
    show ?thesis
    proof (cases "(d, c) = (dev, b)")
      case True
      then show ?thesis using s b' by simp
    next
      case False
      then show ?thesis unfolding s using e b'(1) by (cases "(d, c) = bkey (bufs s ! i)") auto
    qed
  qed
  then have sb: "same_blocks s s'" by (simp add: same_blocks_def s'_def)
  have h: "held s' = insert (dev, b) (held s)"
    unfolding s'_def keys_set_buf [OF i(1)] keys_split [OF i(1)] using b' i(2) by simp
  have d: "dirty s' = dirty s"
    unfolding s'_def keys_set_buf [OF i(1)] keys_split [OF i(1)] using nd by (simp add: b'_def)
  have o: "holds s' j d c xs" if "holds s j d c xs" for j d c xs
    using that i(2) by (auto simp: holds_def s'_def bufs_set_buf)
  have "holds s' i dev b (cblk s dev b)" using i(1) by (auto simp: holds_def s'_def bufs_set_buf b'_def)
  then show thesis
    using r by (intro that [of i s', OF _ ok' _ sb _ _ h d o]) (simp_all add: b'_def s'_def)
qed

lemma holdsD:
  assumes "bcache_ok s" "holds s i dev b xs"
  shows "i < length (bufs s)" "bkey (bufs s ! i) = (dev, b)" "bheld (bufs s ! i)" "bvalid (bufs s ! i)"
    "bdata (bufs s ! i) = xs" "(dev, b) \<noteq> (0, 0)" "cblk s dev b = xs" "(dev, b) \<in> held s"
proof -
  show i: "i < length (bufs s)" "bkey (bufs s ! i) = (dev, b)" "bheld (bufs s ! i)" "bvalid (bufs s ! i)" "bdata (bufs s ! i) = xs"
    using assms(2) by (auto simp: holds_def)
  show z: "(dev, b) \<noteq> (0, 0)" using bcache_okD(5) [OF assms(1) i(1)] i(2,3) by simp
  show "cblk s dev b = xs" using cblk_hit [OF assms(1) i(1,2) z] i by simp
  show "(dev, b) \<in> held s" using i by (force simp: held_def)
qed

lemma holds_unique:
  assumes "bcache_ok s" "holds s i dev b xs" "j < length (bufs s)" "j \<noteq> i"
  shows "bkey (bufs s ! j) \<noteq> (dev, b)"
  using bcache_okD(4) [OF assms(1) holdsD(1) [OF assms(1,2)] assms(3)] holdsD [OF assms(1,2)] assms(4) by auto

lemma bfill_ok:
  assumes ok: "bcache_ok s" and h: "holds s i dev b xs"
  shows "bcache_ok (bfill i ys s)" "holds (bfill i ys s) i dev b ys"
    "(d, c) \<noteq> (0, 0) \<Longrightarrow> cblk (bfill i ys s) d c = (if (d, c) = (dev, b) then ys else cblk s d c)"
    "bdisk (bfill i ys s) = bdisk s" "bwrites (bfill i ys s) = bwrites s" "held (bfill i ys s) = held s" "dirty (bfill i ys s) = dirty s"
    "length (bufs (bfill i ys s)) = length (bufs s)"
    "holds s j d' c' zs \<Longrightarrow> j \<noteq> i \<Longrightarrow> holds (bfill i ys s) j d' c' zs"
proof -
  obtain dd where b: "bufs s ! i = loaded dev b dd xs" and i: "i < length (bufs s)" using h by (auto simp: holds_def)
  have f: "bfill i ys s = set_buf i (loaded dev b dd ys) s" by (simp add: bfill_def upd_buf_set b loaded_def)
  show ok': "bcache_ok (bfill i ys s)"
    unfolding f by (rule set_buf_ok [OF ok i]) (use holds_unique [OF ok h] holdsD [OF ok h] in auto)
  show "holds (bfill i ys s) i dev b ys" unfolding f using i by (auto simp: holds_def bufs_set_buf)
  show "(d, c) \<noteq> (0, 0) \<Longrightarrow> cblk (bfill i ys s) d c = (if (d, c) = (dev, b) then ys else cblk s d c)"
    unfolding f by (subst cblk_set_buf [OF ok ok' [unfolded f] i]) (use b in auto)
  show "held (bfill i ys s) = held s" "dirty (bfill i ys s) = dirty s"
    unfolding f keys_set_buf [OF i] keys_split [OF i] using b by simp_all
  show "bdisk (bfill i ys s) = bdisk s" "bwrites (bfill i ys s) = bwrites s" "length (bufs (bfill i ys s)) = length (bufs s)"
    unfolding f by simp_all
  show "holds s j d' c' zs \<Longrightarrow> j \<noteq> i \<Longrightarrow> holds (bfill i ys s) j d' c' zs"
    unfolding f by (auto simp: holds_def bufs_set_buf)
qed


lemma bwrite_ok:
  assumes ok: "bcache_ok s" and h: "holds s i dev b xs" and bn: "b < FSSIZE"
  obtains s' where "bwrite i s = Ok s'" "bcache_ok s'" "holds s' i dev b xs" "same_blocks s s'"
    "bdisk s' = (bdisk s)(dev := (bdisk s dev)(b := xs))" "bwrites s' = bwrites s @ [(dev, b, xs)]"
    "held s' = held s" "dirty s' = dirty s - {(dev, b)}" "\<And>j d c ys. holds s j d c ys \<Longrightarrow> holds s' j d c ys"
proof -
  obtain dd where bb: "bufs s ! i = loaded dev b dd xs" and i: "i < length (bufs s)" using h by (auto simp: holds_def)
  define s1 where "s1 = s\<lparr>bdisk := (bdisk s)(dev := (bdisk s dev)(b := xs)), bwrites := bwrites s @ [(dev, b, xs)]\<rparr>"
  define s' where "s' = set_buf i (loaded dev b False xs) s1"
  have hd: "havedisk1 s" using ok by (simp add: bcache_ok_def)
  have w: "bwrite i s = Ok s'"
    using hd bn i
    by (simp add: bwrite_def iderw_def Let_def upd_buf_set bufs_set_buf bb s'_def s1_def)
      (simp add: set_buf_def loaded_def)
  have n: "bufs s1 = bufs s" "mru s1 = mru s" "havedisk1 s1 = havedisk1 s" by (simp_all add: s1_def)
  have other: "bkey (bufs s ! j) \<noteq> (dev, b)" if "j < length (bufs s)" "j \<noteq> i" for j
    using holds_unique [OF ok h that] .
  have b': "bufs s' ! j = (if j = i then loaded dev b False xs else bufs s ! j)" if "j < length (bufs s)" for j
    using that by (simp add: s'_def bufs_set_buf n)
  have l: "length (bufs s') = length (bufs s)" "mru s' = mru s" "havedisk1 s' = havedisk1 s" by (simp_all add: s'_def n)
  have d: "bdisk s' = (bdisk s)(dev := (bdisk s dev)(b := xs))" "bwrites s' = bwrites s @ [(dev, b, xs)]" by (simp_all add: s'_def s1_def)
  have dk: "bdisk s' (bdev (bufs s ! j)) (bblockno (bufs s ! j)) = bdisk s (bdev (bufs s ! j)) (bblockno (bufs s ! j))"
    if "j < length (bufs s)" "j \<noteq> i" for j using other [OF that] by (auto simp: d bkey_def)
  have ok': "bcache_ok s'"
    unfolding bcache_ok_def l
  proof (intro conjI allI impI)
    show "distinct (mru s)" "set (mru s) = {..< length (bufs s)}" "havedisk1 s" using ok by (simp_all add: bcache_ok_def)
    fix j assume j: "j < length (bufs s)"
    show "brefcnt (bufs s' ! j) = (if bheld (bufs s' ! j) then 1 else 0)" using bcache_okD(1) [OF ok j] by (simp add: b' [OF j])
    show "bheld (bufs s' ! j) \<or> bdirty (bufs s' ! j) \<Longrightarrow> bkey (bufs s' ! j) \<noteq> (0, 0)"
      using bcache_okD(5) [OF ok j] holdsD(6) [OF ok h] by (simp add: b' [OF j] split: if_splits)
    show "bdirty (bufs s' ! j) \<Longrightarrow> bvalid (bufs s' ! j)" using bcache_okD(2) [OF ok j] by (simp add: b' [OF j] split: if_splits)
    show "bvalid (bufs s' ! j) \<Longrightarrow> \<not> bdirty (bufs s' ! j) \<Longrightarrow> \<not> bheld (bufs s' ! j) \<Longrightarrow>
        bdata (bufs s' ! j) = bdisk s' (bdev (bufs s' ! j)) (bblockno (bufs s' ! j))"
      using bcache_okD(3) [OF ok j] dk [OF j] by (simp add: b' [OF j] split: if_splits)
    fix k assume k: "k < length (bufs s)"
    show "bkey (bufs s' ! j) = bkey (bufs s' ! k) \<Longrightarrow> bkey (bufs s' ! j) \<noteq> (0, 0) \<Longrightarrow> j = k"
      unfolding b' [OF j] b' [OF k] using other [OF j] other [OF k] bcache_okD(4) [OF ok j k] by (auto split: if_splits)
  qed
  have h': "holds s' i dev b xs" using i by (auto simp: holds_def l b')
  have "cblk s' d c = cblk s d c" if dc: "(d, c) \<noteq> (0, 0)" for d c
  proof (rule cblk_cases [OF ok dc])
    fix j assume j: "j < length (bufs s)" "bkey (bufs s ! j) = (d, c)"
      "cblk s d c = (if bvalid (bufs s ! j) then bdata (bufs s ! j) else bdisk s d c)"
    have "bkey (bufs s' ! j) = (d, c)" using j bb by (auto simp: b')
    from cblk_hit [OF ok' _ this dc] have "cblk s' d c = (if bvalid (bufs s' ! j) then bdata (bufs s' ! j) else bdisk s' d c)"
      using j(1) l by simp
    moreover have "bdisk s' d c = bdisk s d c" if "j \<noteq> i" using other [OF j(1) that] j(2) by (auto simp: d)
    ultimately show ?thesis using j bb by (cases "j = i") (simp_all add: b')
  next
    assume m: "\<forall>j < length (bufs s). bkey (bufs s ! j) \<noteq> (d, c)" "cblk s d c = bdisk s d c"
    then have "\<forall>j < length (bufs s'). bkey (bufs s' ! j) \<noteq> (d, c)" using bb i by (auto simp: l b')
    from cblk_miss [OF ok' this] show ?thesis using m i bb by (auto simp: d)
  qed
  then have sb: "same_blocks s s'" by (simp add: same_blocks_def l)
  have kb: "keys_but P i s1 = keys_but P i s" for P by (simp add: keys_but_def n)
  have "(dev, b) \<notin> keys_but bdirty i s" using other unfolding keys_but_def mem_Collect_eq by metis
  then have hs: "held s' = held s" "dirty s' = dirty s - {(dev, b)}"
    unfolding s'_def using keys_set_buf [of i s1 "loaded dev b False xs"] keys_split [OF i] i bb by (simp_all add: n kb)
  show thesis
  proof (rule that [OF w ok' h' sb d hs])
    show "holds s j d c ys \<Longrightarrow> holds s' j d c ys" for j d c ys
      using bb i by (cases "j = i") (auto simp: holds_def l b' loaded_inject)
  qed
qed


text \<open>A buffer is released clean, or dirty because the log has it.\<close>

lemma brelse_ok:
  assumes ok: "bcache_ok s" and h: "holds s i dev b xs" and c: "(dev, b) \<in> dirty s \<or> bdisk s dev b = xs"
  obtains s' where "brelse i s = Ok s'" "bcache_ok s'" "same_blocks s s'" "bdisk s' = bdisk s" "bwrites s' = bwrites s"
    "held s' = held s - {(dev, b)}" "dirty s' = dirty s" "\<And>j d c ys. j \<noteq> i \<Longrightarrow> holds s j d c ys \<Longrightarrow> holds s' j d c ys"
proof -
  obtain dd where bb: "bufs s ! i = loaded dev b dd xs" and i: "i < length (bufs s)" using h by (auto simp: holds_def)
  define b' where "b' = (loaded dev b dd xs)\<lparr>bheld := False, brefcnt := 0\<rparr>"
  define s1 where "s1 = set_buf i b' s"
  define s' where "s' = s1\<lparr>mru := i # remove1 i (mru s1)\<rparr>"
  have b': "bkey b' = (dev, b)" "\<not> bheld b'" "bvalid b'" "brefcnt b' = 0" "bdata b' = xs" "bdirty b' = dd" "bdev b' = dev" "bblockno b' = b"
    by (simp_all add: b'_def bkey_def)
  have r: "brelse i s = Ok s'"
    using i by (simp add: brelse_def upd_buf_set bb bufs_set_buf s'_def s1_def b'_def)
  have nd: "(dev, b) \<notin> keys_but bdirty i s"
    using holds_unique [OF ok h] unfolding keys_but_def mem_Collect_eq by metis
  have nh: "(dev, b) \<notin> keys_but bheld i s"
    using holds_unique [OF ok h] unfolding keys_but_def mem_Collect_eq by metis
  have cl: "\<not> dd \<Longrightarrow> bdisk s dev b = xs" using c nd by (simp add: keys_split [OF i] bb)
  have ok1: "bcache_ok s1"
    unfolding s1_def by (rule set_buf_ok [OF ok i]) (use holds_unique [OF ok h] holdsD(6) [OF ok h] b' cl in auto)
  have f: "bufs s' = bufs s1" "bdisk s' = bdisk s" "bwrites s' = bwrites s" "havedisk1 s' = havedisk1 s1" "bdisk s1 = bdisk s"
    by (simp_all add: s'_def s1_def)
  have m: "distinct (mru s')" "set (mru s') = {..< length (bufs s1)}"
    using ok1 i by (auto simp: s'_def bcache_ok_def s1_def)
  have ok': "bcache_ok s'" using ok1 m unfolding bcache_ok_def f by blast
  have c1: "cblk s1 d c = cblk s d c" if dc: "(d, c) \<noteq> (0, 0)" for d c
    unfolding s1_def using holdsD(7) [OF ok h] b' bb
    by (subst cblk_set_buf [OF ok ok1 [unfolded s1_def] i dc]) auto
  have "cblk s' d c = cblk s1 d c" if dc: "(d, c) \<noteq> (0, 0)" for d c
  proof (rule cblk_cases [OF ok1 dc])
    fix j assume j: "j < length (bufs s1)" "bkey (bufs s1 ! j) = (d, c)"
      "cblk s1 d c = (if bvalid (bufs s1 ! j) then bdata (bufs s1 ! j) else bdisk s1 d c)"
    then show ?thesis using cblk_hit [OF ok', of j d c] dc by (simp add: f)
  next
    assume "\<forall>j < length (bufs s1). bkey (bufs s1 ! j) \<noteq> (d, c)" "cblk s1 d c = bdisk s1 d c"
    then show ?thesis using cblk_miss [OF ok', of d c] by (simp add: f)
  qed
  then have sb: "same_blocks s s'" using c1 by (simp add: same_blocks_def f s1_def)
  have "held s' = held s1" "dirty s' = dirty s1" by (simp_all add: held_def dirty_def f)
  then have hs: "held s' = held s - {(dev, b)}" "dirty s' = dirty s"
    unfolding s1_def using keys_set_buf [OF i] keys_split [OF i] bb b' nh by simp_all
  show thesis
  proof (rule that [OF r ok' sb f(2,3) hs])
    show "j \<noteq> i \<Longrightarrow> holds s j d c ys \<Longrightarrow> holds s' j d c ys" for j d c ys
      by (auto simp: holds_def f s1_def bufs_set_buf)
  qed
qed

lemma card_room_finite [simp]: "finite (dirty s)" "finite (held s)"
  by (simp_all add: dirty_def held_def)

lemma clean_block:
  assumes "bcache_ok s" "(d, c) \<noteq> (0, 0)" "(d, c) \<notin> dirty s" "(d, c) \<notin> held s"
  shows "cblk s d c = bdisk s d c"
proof (cases "\<forall>i < length (bufs s). bkey (bufs s ! i) \<noteq> (d, c)")
  case True
  then show ?thesis by (rule cblk_miss [OF assms(1)])
next
  case False
  then obtain i where i: "i < length (bufs s)" "bkey (bufs s ! i) = (d, c)" by blast
  then have "\<not> bheld (bufs s ! i)" "\<not> bdirty (bufs s ! i)"
    using assms(3,4) by (force simp: dirty_def held_def)+
  then show ?thesis by (rule cblk_clean [OF assms(1,2) i])
qed

lemma binit_ok:
  "bcache_ok (binit D True)" "dirty (binit D True) = {}" "held (binit D True) = {}" "length (bufs (binit D True)) = NBUF"
  "bdisk (binit D True) = D" "bwrites (binit D True) = []" "(d, c) \<noteq> (0, 0) \<Longrightarrow> cblk (binit D True) d c = D d c"
proof -
  have n: "bufs (binit D True) ! i = \<lparr>bdev = 0, bblockno = 0, bvalid = False, bdirty = False, bheld = False, brefcnt = 0,
       bdata = replicate BSIZE 0\<rparr>" if "i < NBUF" for i
    unfolding binit_def using nth_replicate [OF that] by simp
  show l: "length (bufs (binit D True)) = NBUF" and b: "bdisk (binit D True) = D" "bwrites (binit D True) = []"
    by (simp_all add: binit_def)
  have m: "mru (binit D True) = rev [0 ..< NBUF]" "havedisk1 (binit D True)" by (simp_all add: binit_def)
  have s: "set (mru (binit D True)) = {..< NBUF}" "distinct (mru (binit D True))" unfolding m by (auto simp del: upt_rec_numeral)
  show ok: "bcache_ok (binit D True)"
    unfolding bcache_ok_def l using s m(2) by (auto simp: n bkey_def)
  show e: "dirty (binit D True) = {}" "held (binit D True) = {}"
    unfolding dirty_def held_def l using n by auto
  show "(d, c) \<noteq> (0, 0) \<Longrightarrow> cblk (binit D True) d c = D d c"
    using clean_block [OF ok] e b by simp
qed

text \<open>What \<^verbatim>\<open>log_write\<close> does to the buffer: it becomes dirty, which pins it.\<close>

definition bpin :: "nat \<Rightarrow> bcache \<Rightarrow> bcache" where
  "bpin i s = upd_buf i (\<lambda>b. b\<lparr>bdirty := True\<rparr>) s"

lemma bpin_ok:
  assumes ok: "bcache_ok s" and h: "holds s i dev b xs"
  shows "bcache_ok (bpin i s)" "holds (bpin i s) i dev b xs" "same_blocks s (bpin i s)"
    "bdisk (bpin i s) = bdisk s" "bwrites (bpin i s) = bwrites s" "held (bpin i s) = held s" "dirty (bpin i s) = insert (dev, b) (dirty s)"
    "holds s j d' c' zs \<Longrightarrow> holds (bpin i s) j d' c' zs"
proof -
  obtain dd where b: "bufs s ! i = loaded dev b dd xs" and i: "i < length (bufs s)" using h by (auto simp: holds_def)
  have f: "bpin i s = set_buf i (loaded dev b True xs) s" by (simp add: bpin_def upd_buf_set b loaded_def)
  show ok': "bcache_ok (bpin i s)"
    unfolding f by (rule set_buf_ok [OF ok i]) (use holds_unique [OF ok h] holdsD [OF ok h] in auto)
  show "holds (bpin i s) i dev b xs" unfolding f using i by (auto simp: holds_def bufs_set_buf)
  have "cblk (bpin i s) d c = cblk s d c" if dc: "(d, c) \<noteq> (0, 0)" for d c
    unfolding f by (subst cblk_set_buf [OF ok ok' [unfolded f] i dc]) (use b holdsD(7) [OF ok h] in auto)
  then show "same_blocks s (bpin i s)" by (simp add: same_blocks_def f)
  show "held (bpin i s) = held s" "dirty (bpin i s) = insert (dev, b) (dirty s)"
    unfolding f keys_set_buf [OF i] keys_split [OF i] using b by simp_all
  show "bdisk (bpin i s) = bdisk s" "bwrites (bpin i s) = bwrites s" unfolding f by simp_all
  show "holds s j d' c' zs \<Longrightarrow> holds (bpin i s) j d' c' zs"
    unfolding f using b i by (cases "j = i") (auto simp: holds_def bufs_set_buf loaded_inject)
qed

end
