(* ===== verification/Log.thy ===== *)
theory Log
  imports Bcache
begin

text \<open>
  The write-ahead log (log.c) over the buffer cache: header, installation, recovery, commit,
  and the system-call brackets \<^verbatim>\<open>begin_op\<close> / \<^verbatim>\<open>end_op\<close>. A crash leaves the disk as a
  prefix of the completed block writes makes it; the theory shows that recovery then finds
  either the whole transaction or nothing of it.
\<close>

section \<open>State\<close>

abbreviation MAXOPBLOCKS :: nat where "MAXOPBLOCKS \<equiv> 10"
abbreviation LOGSIZE :: nat where "LOGSIZE \<equiv> 30"

record superblock =
  sb_size :: nat
  sb_nblocks :: nat
  sb_ninodes :: nat
  sb_nlog :: nat
  sb_logstart :: nat
  sb_inodestart :: nat
  sb_bmapstart :: nat

text \<open>\<open>lhb\<close> is the used part of \<^verbatim>\<open>log.lh.block\<close>, \<^verbatim>\<open>log.lh.n\<close> its length.\<close>

record logst =
  lstart :: nat
  lsize :: nat
  outstanding :: int
  committing :: bool
  ldev :: nat
  lhb :: "nat list"

fun eachR :: "('a \<Rightarrow> 's \<Rightarrow> 's res) \<Rightarrow> 'a list \<Rightarrow> 's \<Rightarrow> 's res" where
  "eachR f [] s = Ok s"
| "eachR f (x # xs) s = bindR (f x s) (eachR f xs)"

section \<open>The header block\<close>

definition hdr_read :: "u8 list \<Rightarrow> nat list" where
  "hdr_read d = map (\<lambda>i. unat (le32 d (4 + 4 * i))) [0 ..< nat (sint (le32 d 0))]"

definition hdr_write :: "nat list \<Rightarrow> u8 list \<Rightarrow> u8 list" where
  "hdr_write bs d = fold (\<lambda>i. put32 (4 + 4 * i) (of_nat (bs ! i))) [0 ..< length bs] (put32 0 (of_nat (length bs)) d)"

definition read_head :: "logst \<Rightarrow> bcache \<Rightarrow> (logst \<times> bcache) res" where
  "read_head l s =
     bindR (bread (ldev l) (lstart l) s) (\<lambda>(i, s1).
     bindR (brelse i s1) (\<lambda>s2. Ok (l\<lparr>lhb := hdr_read (bdata (bufs s1 ! i))\<rparr>, s2)))"

definition write_head :: "logst \<Rightarrow> bcache \<Rightarrow> bcache res" where
  "write_head l s =
     bindR (bread (ldev l) (lstart l) s) (\<lambda>(i, s1).
     bindR (bwrite i (bfill i (hdr_write (lhb l) (bdata (bufs s1 ! i))) s1)) (brelse i))"

section \<open>Copying between the log and the home blocks\<close>

definition install_one :: "logst \<Rightarrow> nat \<Rightarrow> bcache \<Rightarrow> bcache res" where
  "install_one l tail s =
     bindR (bread (ldev l) (lstart l + tail + 1) s) (\<lambda>(lbuf, s1).
     bindR (bread (ldev l) (lhb l ! tail) s1) (\<lambda>(dbuf, s2).
     bindR (bwrite dbuf (bfill dbuf (bdata (bufs s2 ! lbuf)) s2)) (\<lambda>s3.
     bindR (brelse lbuf s3) (brelse dbuf))))"

definition install_trans :: "logst \<Rightarrow> bcache \<Rightarrow> bcache res" where
  "install_trans l = eachR (install_one l) [0 ..< length (lhb l)]"

definition write_log_one :: "logst \<Rightarrow> nat \<Rightarrow> bcache \<Rightarrow> bcache res" where
  "write_log_one l tail s =
     bindR (bread (ldev l) (lstart l + tail + 1) s) (\<lambda>(to, s1).
     bindR (bread (ldev l) (lhb l ! tail) s1) (\<lambda>(from, s2).
     bindR (bwrite to (bfill to (bdata (bufs s2 ! from)) s2)) (\<lambda>s3.
     bindR (brelse from s3) (brelse to))))"

definition write_log :: "logst \<Rightarrow> bcache \<Rightarrow> bcache res" where
  "write_log l = eachR (write_log_one l) [0 ..< length (lhb l)]"

section \<open>Recovery, commit and the operations\<close>

definition recover_from_log :: "logst \<Rightarrow> bcache \<Rightarrow> (logst \<times> bcache) res" where
  "recover_from_log l s =
     bindR (read_head l s) (\<lambda>(l1, s1).
     bindR (install_trans l1 s1) (\<lambda>s2.
     bindR (write_head (l1\<lparr>lhb := []\<rparr>) s2) (\<lambda>s3. Ok (l1\<lparr>lhb := []\<rparr>, s3))))"

definition sb_of :: "u8 list \<Rightarrow> superblock" where
  "sb_of d = \<lparr>sb_size = unat (le32 d 0), sb_nblocks = unat (le32 d 4), sb_ninodes = unat (le32 d 8),
     sb_nlog = unat (le32 d 12), sb_logstart = unat (le32 d 16), sb_inodestart = unat (le32 d 20),
     sb_bmapstart = unat (le32 d 24)\<rparr>"

definition readsb :: "nat \<Rightarrow> bcache \<Rightarrow> (superblock \<times> bcache) res" where
  "readsb dev s =
     bindR (bread dev 1 s) (\<lambda>(i, s1).
     bindR (brelse i s1) (\<lambda>s2. Ok (sb_of (bdata (bufs s1 ! i)), s2)))"

text \<open>\<^verbatim>\<open>sizeof(struct logheader)\<close> is \<open>4 + 4 * LOGSIZE\<close>; the static check on it compares two constants.
  \<^verbatim>\<open>outstanding\<close> and \<^verbatim>\<open>committing\<close> are zero-initialised statics.\<close>

definition initlog :: "nat \<Rightarrow> bcache \<Rightarrow> (logst \<times> bcache) res" where
  "initlog dev s =
     (if 4 + 4 * LOGSIZE \<ge> BSIZE then Panic ''initlog: too big logheader''
      else bindR (readsb dev s) (\<lambda>(sb, s1).
        recover_from_log \<lparr>lstart = sb_logstart sb, lsize = sb_nlog sb, outstanding = 0, committing = False,
          ldev = dev, lhb = []\<rparr> s1))"

text \<open>One turn of the loop in \<^verbatim>\<open>begin_op\<close>: \<open>None\<close> is going to sleep on the log.\<close>

definition begin_op :: "logst \<Rightarrow> logst option" where
  "begin_op l =
     (if committing l then None
      else if int (length (lhb l)) + (outstanding l + 1) * int MAXOPBLOCKS > int LOGSIZE then None
      else Some (l\<lparr>outstanding := outstanding l + 1\<rparr>))"

definition commit :: "logst \<Rightarrow> bcache \<Rightarrow> (logst \<times> bcache) res" where
  "commit l s =
     (if length (lhb l) > 0
      then bindR (write_log l s) (\<lambda>s1.
           bindR (write_head l s1) (\<lambda>s2.
           bindR (install_trans l s2) (\<lambda>s3.
           bindR (write_head (l\<lparr>lhb := []\<rparr>) s3) (\<lambda>s4. Ok (l\<lparr>lhb := []\<rparr>, s4)))))
      else Ok (l, s))"

text \<open>\<^verbatim>\<open>end_op\<close>: the first critical section says whether this caller commits, then the
  commit runs, then the second critical section lets others in. The wakeups go to processes
  that sleep in \<open>begin_op\<close>; they retry.\<close>

definition end_op_first :: "logst \<Rightarrow> (bool \<times> logst) res" where
  "end_op_first l =
     (let l1 = l\<lparr>outstanding := outstanding l - 1\<rparr>
      in if committing l1 then Panic ''log.committing''
         else if outstanding l1 = 0 then Ok (True, l1\<lparr>committing := True\<rparr>)
         else Ok (False, l1))"

definition end_op :: "logst \<Rightarrow> bcache \<Rightarrow> (logst \<times> bcache) res" where
  "end_op l s =
     bindR (end_op_first l) (\<lambda>(do_commit, l1).
       if do_commit
       then bindR (commit l1 s) (\<lambda>(l2, s2). Ok (l2\<lparr>committing := False\<rparr>, s2))
       else Ok (l1, s))"

text \<open>\<^verbatim>\<open>log_write\<close> on the header: the block is appended unless it is there (absorption).\<close>

definition log_record :: "nat \<Rightarrow> logst \<Rightarrow> logst res" where
  "log_record b l =
     (if length (lhb l) \<ge> LOGSIZE \<or> length (lhb l) + 1 \<ge> lsize l then Panic ''too big a transaction''
      else if outstanding l < 1 then Panic ''log_write outside of trans''
      else Ok (if b \<in> set (lhb l) then l else l\<lparr>lhb := lhb l @ [b]\<rparr>))"

definition log_write :: "nat \<Rightarrow> logst \<Rightarrow> bcache \<Rightarrow> (logst \<times> bcache) res" where
  "log_write i l s = bindR (log_record (bblockno (bufs s ! i)) l) (\<lambda>l1. Ok (l1, bpin i s))"

section \<open>The header round trip\<close>

lemma length_hdr_fold:
  "4 + 4 * n \<le> length d \<Longrightarrow> length (fold (\<lambda>i. put32 (4 + 4 * i) (w i)) [0 ..< n] d) = length d"
  by (induction n) auto

lemma le32_hdr_fold:
  assumes "4 + 4 * n \<le> length d"
  shows "i < n \<Longrightarrow> le32 (fold (\<lambda>i. put32 (4 + 4 * i) (w i)) [0 ..< n] d) (4 + 4 * i) = w i"
    "le32 (fold (\<lambda>i. put32 (4 + 4 * i) (w i)) [0 ..< n] d) 0 = le32 d 0"
  using assms
proof (induction n)
  case (Suc n)
  note l = length_hdr_fold [of n d w]
  { case 1
    then show ?case using Suc.IH(1) l by (cases "i = n") (simp_all add: le32_put32_other)
  next
    case 2
    then show ?case using Suc.IH(2) l by (simp add: le32_put32_other) }
qed auto

lemma length_hdr_write [simp]: "4 + 4 * length bs \<le> length d \<Longrightarrow> length (hdr_write bs d) = length d"
  by (simp add: hdr_write_def length_hdr_fold)

lemma hdr_read_write:
  assumes "4 + 4 * length bs \<le> length d" "length d \<le> BSIZE" "\<forall>b \<in> set bs. b < 2 ^ 32"
  shows "hdr_read (hdr_write bs d) = bs"
proof -
  have n: "le32 (hdr_write bs d) 0 = of_nat (length bs)"
    using assms(1) by (simp add: hdr_write_def le32_hdr_fold)
  have "length bs < 2 ^ 31" using assms(1,2) by simp
  then have s: "sint (of_nat (length bs) :: u32) = int (length bs)"
    by (simp add: signed_of_nat signed_take_bit_int_eq_self)
  show ?thesis
  proof (rule nth_equalityI)
    show l: "length (hdr_read (hdr_write bs d)) = length bs" by (simp add: hdr_read_def n s)
    fix i assume "i < length (hdr_read (hdr_write bs d))"
    then have i: "i < length bs" using l by simp
    have "le32 (hdr_write bs d) (4 + 4 * i) = of_nat (bs ! i)"
      unfolding hdr_write_def using assms(1) i by (subst le32_hdr_fold) simp_all
    moreover have "unat (of_nat (bs ! i) :: u32) = bs ! i"
      using assms(3) i by (simp add: unsigned_of_nat take_bit_nat_eq_self)
    ultimately show "hdr_read (hdr_write bs d) ! i = bs ! i"
      using i by (simp add: hdr_read_def n s)
  qed
qed


section \<open>Copying one block\<close>

lemma same_blocksD: "same_blocks s s' \<Longrightarrow> (d, c) \<noteq> (0, 0) \<Longrightarrow> cblk s' d c = cblk s d c"
  unfolding same_blocks_def by blast

type_synonym bstore = "nat \<Rightarrow> nat \<Rightarrow> u8 list"

definition dwrite :: "nat \<times> nat \<times> u8 list \<Rightarrow> bstore \<Rightarrow> bstore" where
  "dwrite w D = D(fst w := (D (fst w))(fst (snd w) := snd (snd w)))"

definition after_writes :: "(nat \<times> nat \<times> u8 list) list \<Rightarrow> bstore \<Rightarrow> bstore" where
  "after_writes ws D = fold dwrite ws D"

lemma after_writes_simps [simp]:
  "after_writes [] D = D" "after_writes (ws @ vs) D = after_writes vs (after_writes ws D)"
  "after_writes [(d, b, x)] D = D(d := (D d)(b := x))"
  by (simp_all add: after_writes_def dwrite_def)

lemma after_writes_Cons: "after_writes (w # ws) D = after_writes ws (dwrite w D)"
  by (simp add: after_writes_def)

text \<open>A quiet cache: no buffer is held. The state after writing \<open>x\<close> to block \<open>b\<close> of \<open>dev\<close>
  through the cache, with nothing else changed.\<close>

definition quiet :: "bcache \<Rightarrow> bool" where
  "quiet s \<longleftrightarrow> bcache_ok s \<and> held s = {}"

definition wrote :: "nat \<Rightarrow> nat \<Rightarrow> u8 list \<Rightarrow> bcache \<Rightarrow> bcache \<Rightarrow> bool" where
  "wrote dev b x s s' \<longleftrightarrow> quiet s' \<and> length (bufs s') = length (bufs s) \<and>
     (\<forall>d c. (d, c) \<noteq> (0, 0) \<longrightarrow> cblk s' d c = (if (d, c) = (dev, b) then x else cblk s d c)) \<and>
     bdisk s' = after_writes [(dev, b, x)] (bdisk s) \<and> bwrites s' = bwrites s @ [(dev, b, x)] \<and>
     dirty s' = dirty s - {(dev, b)}"

lemma wroteD: "wrote dev b x s s' \<Longrightarrow> (d, c) \<noteq> (0, 0) \<Longrightarrow> cblk s' d c = (if (d, c) = (dev, b) then x else cblk s d c)"
  unfolding wrote_def by blast

definition room_for :: "nat \<Rightarrow> nat \<Rightarrow> bcache \<Rightarrow> bool" where
  "room_for dev b s \<longleftrightarrow> (if (dev, b) \<in> dirty s then card (dirty s) < length (bufs s) else Suc (card (dirty s)) < length (bufs s))"

lemma room_for_wrote: "wrote dev a x s s' \<Longrightarrow> b \<noteq> a \<Longrightarrow> room_for dev b s \<Longrightarrow> room_for dev b s'"
proof -
  assume "wrote dev a x s s'" "b \<noteq> a" "room_for dev b s"
  moreover have "card (dirty s - {(dev, a)}) \<le> card (dirty s)" by (simp add: card_mono)
  ultimately show ?thesis by (auto simp: wrote_def room_for_def split: if_splits)
qed

text \<open>The pattern both copies share: read the log block \<open>a\<close>, then the home block \<open>h\<close>, move
  the data of one into the other, write it, release the source and then the destination.\<close>

lemma copy_pair:
  assumes q: "quiet s" and a: "0 < a" "a < FSSIZE" "(dev, a) \<notin> dirty s" and h: "0 < h" "h < FSSIZE" and ne: "a \<noteq> h"
    and room: "room_for dev h s"
  obtains i s1 j s2 where "bread dev a s = Ok (i, s1)" "bread dev h s1 = Ok (j, s2)"
    "bcache_ok s2" "i \<noteq> j" "holds s2 i dev a (cblk s dev a)" "holds s2 j dev h (cblk s dev h)" "same_blocks s s2"
    "bdisk s2 = bdisk s" "bwrites s2 = bwrites s" "held s2 = {(dev, a), (dev, h)}" "dirty s2 = dirty s"
proof -
  have ok: "bcache_ok s" and hs: "held s = {}" using q by (simp_all add: quiet_def)
  have r1: "(dev, a) \<in> dirty s \<or> card (dirty s \<union> held s) < length (bufs s)"
    using room hs by (simp add: room_for_def split: if_splits)
  have a0: "(dev, a) \<noteq> (0, 0)" "(dev, a) \<notin> held s" and h0: "(dev, h) \<noteq> (0, 0)" using a h hs by simp_all
  obtain i s1 where s1: "bread dev a s = Ok (i, s1)" "bcache_ok s1" "holds s1 i dev a (cblk s dev a)" "same_blocks s s1"
    "bdisk s1 = bdisk s" "bwrites s1 = bwrites s" "held s1 = insert (dev, a) (held s)" "dirty s1 = dirty s"
    by (rule bread_ok [OF ok a0 r1 a(2)])
  have l1: "length (bufs s1) = length (bufs s)" using s1(4) by (simp add: same_blocks_def)
  have r2: "(dev, h) \<in> dirty s1 \<or> card (dirty s1 \<union> held s1) < length (bufs s1)"
    using room hs a(3) l1 by (simp add: room_for_def s1 split: if_splits)
  have h1: "(dev, h) \<notin> held s1" using ne hs by (simp add: s1)
  obtain j s2 where s2: "bread dev h s1 = Ok (j, s2)" "bcache_ok s2" "holds s2 j dev h (cblk s1 dev h)" "same_blocks s1 s2"
    "bdisk s2 = bdisk s1" "bwrites s2 = bwrites s1" "held s2 = insert (dev, h) (held s1)" "dirty s2 = dirty s1"
    "\<And>j d c xs. holds s1 j d c xs \<Longrightarrow> holds s2 j d c xs"
    by (rule bread_ok [OF s1(2) h0 h1 r2 h(2)]) blast
  have hi: "holds s2 i dev a (cblk s dev a)" by (rule s2(9) [OF s1(3)])
  have ij: "i \<noteq> j" using holdsD(2) [OF s2(2) hi] holdsD(2) [OF s2(2,3)] ne by auto
  show thesis
    by (rule that [OF s1(1) s2(1,2) ij hi])
      (use s2 s1 hs h0 in \<open>auto simp: same_blocks_def\<close>)
qed


lemma copy_finish:
  assumes ok: "bcache_ok s2" and pq: "p \<noteq> q" and p: "holds s2 p dev b (cblk s dev b)" and q: "holds s2 q dev c y"
    and bn: "c < FSSIZE" and bc: "b \<noteq> c" and sb: "same_blocks s s2"
    and d: "bdisk s2 = bdisk s" "bwrites s2 = bwrites s" "held s2 = {(dev, b), (dev, c)}" "dirty s2 = dirty s"
    and qs: "quiet s"
  shows "bdata (bufs s2 ! p) = cblk s dev b"
    "\<exists>s3 s4 s5. bwrite q (bfill q (cblk s dev b) s2) = Ok s3 \<and> brelse p s3 = Ok s4 \<and> brelse q s4 = Ok s5 \<and>
       wrote dev c (cblk s dev b) s s5"
proof -
  let ?x = "cblk s dev b"
  show "bdata (bufs s2 ! p) = ?x" by (rule holdsD(5) [OF ok p])
  define sf where "sf = bfill q ?x s2"
  note f = bfill_ok [OF ok q, where ys = ?x, folded sf_def]
  have pf: "holds sf p dev b ?x" by (rule f(9) [OF p pq])
  obtain s3 where s3: "bwrite q sf = Ok s3" "bcache_ok s3" "holds s3 q dev c ?x" "same_blocks sf s3"
    "bdisk s3 = (bdisk sf)(dev := (bdisk sf dev)(c := ?x))" "bwrites s3 = bwrites sf @ [(dev, c, ?x)]"
    "held s3 = held sf" "dirty s3 = dirty sf - {(dev, c)}" "\<And>j d c ys. holds sf j d c ys \<Longrightarrow> holds s3 j d c ys"
    by (rule bwrite_ok [OF f(1,2) bn]) blast
  have p3: "holds s3 p dev b ?x" by (rule s3(9) [OF pf])
  have b0: "(dev, b) \<noteq> (0, 0)" by (rule holdsD(6) [OF ok p])
  have "(dev, b) \<in> dirty s \<or> bdisk s dev b = ?x"
    using qs clean_block [of s dev b] b0 by (cases "(dev, b) \<in> dirty s") (simp_all add: quiet_def)
  then have c3: "(dev, b) \<in> dirty s3 \<or> bdisk s3 dev b = ?x"
    using bc by (auto simp: s3(5,8) f d)
  obtain s4 where s4: "brelse p s3 = Ok s4" "bcache_ok s4" "same_blocks s3 s4" "bdisk s4 = bdisk s3" "bwrites s4 = bwrites s3"
    "held s4 = held s3 - {(dev, b)}" "dirty s4 = dirty s3" "\<And>j d c ys. j \<noteq> p \<Longrightarrow> holds s3 j d c ys \<Longrightarrow> holds s4 j d c ys"
    by (rule brelse_ok [OF s3(2) p3 c3]) blast
  have q4: "holds s4 q dev c ?x" using s4(8) [OF pq [symmetric] s3(3)] .
  have c4: "(dev, c) \<in> dirty s4 \<or> bdisk s4 dev c = ?x" by (simp add: s4(4) s3(5))
  obtain s5 where s5: "brelse q s4 = Ok s5" "bcache_ok s5" "same_blocks s4 s5" "bdisk s5 = bdisk s4" "bwrites s5 = bwrites s4"
    "held s5 = held s4 - {(dev, c)}" "dirty s5 = dirty s4"
    by (rule brelse_ok [OF s4(2) q4 c4]) blast
  have "wrote dev c ?x s s5"
    unfolding wrote_def quiet_def
  proof (intro conjI allI impI)
    show "bcache_ok s5" by (rule s5(2))
    show "held s5 = {}" by (auto simp: s5(6) s4(6) s3(7) f d)
    show "length (bufs s5) = length (bufs s)"
      using sb s3(4) s4(3) s5(3) f(8) by (simp add: same_blocks_def)
    show "cblk s5 d' c' = (if (d', c') = (dev, c) then ?x else cblk s d' c')" if "(d', c') \<noteq> (0, 0)" for d' c'
    proof -
      have "cblk s5 d' c' = cblk sf d' c'" "cblk s2 d' c' = cblk s d' c'"
        using same_blocksD [OF sb that] same_blocksD [OF s3(4) that] same_blocksD [OF s4(3) that] same_blocksD [OF s5(3) that] by simp_all
      then show ?thesis using f(3) [OF that] by simp
    qed
    show "bdisk s5 = after_writes [(dev, c, ?x)] (bdisk s)" "bwrites s5 = bwrites s @ [(dev, c, ?x)]"
      "dirty s5 = dirty s - {(dev, c)}"
      by (simp_all add: s5 s4 s3 f d)
  qed
  then show "\<exists>s3 s4 s5. bwrite q (bfill q ?x s2) = Ok s3 \<and> brelse p s3 = Ok s4 \<and> brelse q s4 = Ok s5 \<and> wrote dev c ?x s s5"
    using s3(1) s4(1) s5(1) unfolding sf_def by blast
qed

lemma install_one_wrote:
  assumes q: "quiet s" and a: "0 < lstart l" "lstart l + t + 1 < FSSIZE" "(ldev l, lstart l + t + 1) \<notin> dirty s"
    and h: "0 < lhb l ! t" "lhb l ! t < FSSIZE" and ne: "lstart l + t + 1 \<noteq> lhb l ! t" and room: "room_for (ldev l) (lhb l ! t) s"
  shows "\<exists>s'. install_one l t s = Ok s' \<and> wrote (ldev l) (lhb l ! t) (cblk s (ldev l) (lstart l + t + 1)) s s'"
proof -
  have a': "0 < lstart l + t + 1" by simp
  obtain i s1 j s2 where c: "bread (ldev l) (lstart l + t + 1) s = Ok (i, s1)" "bread (ldev l) (lhb l ! t) s1 = Ok (j, s2)"
    "bcache_ok s2" "i \<noteq> j" "holds s2 i (ldev l) (lstart l + t + 1) (cblk s (ldev l) (lstart l + t + 1))"
    "holds s2 j (ldev l) (lhb l ! t) (cblk s (ldev l) (lhb l ! t))" "same_blocks s s2"
    "bdisk s2 = bdisk s" "bwrites s2 = bwrites s" "held s2 = {(ldev l, lstart l + t + 1), (ldev l, lhb l ! t)}" "dirty s2 = dirty s"
    by (rule copy_pair [OF q a' a(2,3) h ne room])
  note f = copy_finish [OF c(3-6) h(2) ne c(7-11) q]
  from f(2) show ?thesis unfolding install_one_def using c(1,2) f(1) by auto
qed

lemma write_log_one_wrote:
  assumes q: "quiet s" and a: "0 < lstart l" "lstart l + t + 1 < FSSIZE" "(ldev l, lstart l + t + 1) \<notin> dirty s"
    and h: "0 < lhb l ! t" "lhb l ! t < FSSIZE" and ne: "lstart l + t + 1 \<noteq> lhb l ! t" and room: "room_for (ldev l) (lhb l ! t) s"
  shows "\<exists>s'. write_log_one l t s = Ok s' \<and> wrote (ldev l) (lstart l + t + 1) (cblk s (ldev l) (lhb l ! t)) s s'"
proof -
  have a': "0 < lstart l + t + 1" by simp
  obtain i s1 j s2 where c: "bread (ldev l) (lstart l + t + 1) s = Ok (i, s1)" "bread (ldev l) (lhb l ! t) s1 = Ok (j, s2)"
    "bcache_ok s2" "i \<noteq> j" "holds s2 i (ldev l) (lstart l + t + 1) (cblk s (ldev l) (lstart l + t + 1))"
    "holds s2 j (ldev l) (lhb l ! t) (cblk s (ldev l) (lhb l ! t))" "same_blocks s s2"
    "bdisk s2 = bdisk s" "bwrites s2 = bwrites s" "held s2 = {(ldev l, lstart l + t + 1), (ldev l, lhb l ! t)}" "dirty s2 = dirty s"
    by (rule copy_pair [OF q a' a(2,3) h ne room])
  have hd: "held s2 = {(ldev l, lhb l ! t), (ldev l, lstart l + t + 1)}" using c(10) by auto
  note f = copy_finish [OF c(3) c(4) [symmetric] c(6,5) a(2) ne [symmetric] c(7-9) hd c(11) q]
  from f(2) show ?thesis unfolding write_log_one_def using c(1,2) f(1) by auto
qed


section \<open>Copying all blocks of a transaction\<close>

lemma eachR_append: "eachR f (xs @ ys) s = bindR (eachR f xs s) (eachR f ys)"
  by (induction xs arbitrary: s) (simp_all split: bindR_split)

text \<open>A log header within the log area, which mkfs makes \<open>LOGSIZE\<close> blocks long, naming distinct
  blocks outside it.\<close>

definition log_wf :: "logst \<Rightarrow> bool" where
  "log_wf l \<longleftrightarrow> 0 < lstart l \<and> lstart l + lsize l \<le> FSSIZE \<and> length (lhb l) < lsize l \<and> lsize l \<le> LOGSIZE \<and>
     distinct (lhb l) \<and> (\<forall>b \<in> set (lhb l). 0 < b \<and> b < FSSIZE \<and> \<not> (lstart l \<le> b \<and> b < lstart l + lsize l))"

definition log_clean :: "logst \<Rightarrow> bcache \<Rightarrow> bool" where
  "log_clean l s \<longleftrightarrow> (\<forall>b. lstart l \<le> b \<longrightarrow> b < lstart l + lsize l \<longrightarrow> (ldev l, b) \<notin> dirty s)"

lemma log_wfD:
  assumes "log_wf l" "t < length (lhb l)"
  shows "0 < lstart l" "lstart l + t + 1 < FSSIZE" "lstart l + t + 1 < lstart l + lsize l" "0 < lhb l ! t" "lhb l ! t < FSSIZE"
    "\<not> (lstart l \<le> lhb l ! t \<and> lhb l ! t < lstart l + lsize l)"
    "t' < length (lhb l) \<Longrightarrow> lhb l ! t = lhb l ! t' \<Longrightarrow> t = t'" "t' < length (lhb l) \<Longrightarrow> lstart l + t + 1 \<noteq> lhb l ! t'"
    "t' < length (lhb l) \<Longrightarrow> lstart l + t' + 1 \<noteq> lhb l ! t"
proof -
  note w = assms(1) [unfolded log_wf_def]
  have m: "lhb l ! i \<in> set (lhb l)" "0 < lhb l ! i" "lhb l ! i < FSSIZE" "\<not> (lstart l \<le> lhb l ! i \<and> lhb l ! i < lstart l + lsize l)"
    if "i < length (lhb l)" for i
    using nth_mem [OF that] w by blast+
  show "0 < lstart l" "lstart l + t + 1 < FSSIZE" "lstart l + t + 1 < lstart l + lsize l" using w assms(2) by linarith+
  show "0 < lhb l ! t" "lhb l ! t < FSSIZE" "\<not> (lstart l \<le> lhb l ! t \<and> lhb l ! t < lstart l + lsize l)" by (rule m [OF assms(2)])+
  show "lhb l ! t = lhb l ! t' \<Longrightarrow> t = t'" if "t' < length (lhb l)"
    using w assms(2) that by (simp add: nth_eq_iff_index_eq)
  show "lstart l + t + 1 \<noteq> lhb l ! t'" "lstart l + t' + 1 \<noteq> lhb l ! t" if "t' < length (lhb l)"
    using m(4) [OF that] m(4) [OF assms(2)] that assms(2) w by linarith+
qed

definition copied :: "(logst \<Rightarrow> nat \<Rightarrow> nat) \<Rightarrow> (logst \<Rightarrow> nat \<Rightarrow> nat) \<Rightarrow> logst \<Rightarrow> nat \<Rightarrow> bcache \<Rightarrow> bcache \<Rightarrow> bool" where
  "copied src dst l k s s' \<longleftrightarrow> quiet s' \<and> length (bufs s') = length (bufs s) \<and>
     (let ws = map (\<lambda>t. (ldev l, dst l t, cblk s (ldev l) (src l t))) [0 ..< k]
      in bwrites s' = bwrites s @ ws \<and> bdisk s' = after_writes ws (bdisk s)) \<and>
     dirty s' = dirty s - {(ldev l, dst l t) |t. t < k} \<and>
     (\<forall>t < k. cblk s' (ldev l) (dst l t) = cblk s (ldev l) (src l t)) \<and>
     (\<forall>d c. (d, c) \<noteq> (0, 0) \<longrightarrow> (\<forall>t < k. (d, c) \<noteq> (ldev l, dst l t)) \<longrightarrow> cblk s' d c = cblk s d c)"

lemma copiedD:
  "copied src dst l k s s' \<Longrightarrow> (d, c) \<noteq> (0, 0) \<Longrightarrow> (\<And>t. t < k \<Longrightarrow> (d, c) \<noteq> (ldev l, dst l t)) \<Longrightarrow> cblk s' d c = cblk s d c"
  unfolding copied_def by blast

locale block_copy =
  fixes step :: "logst \<Rightarrow> nat \<Rightarrow> bcache \<Rightarrow> bcache res" and src dst :: "logst \<Rightarrow> nat \<Rightarrow> nat"
  assumes step_wrote: "log_wf l \<Longrightarrow> t < length (lhb l) \<Longrightarrow> quiet s \<Longrightarrow> log_clean l s \<Longrightarrow> room_for (ldev l) (lhb l ! t) s \<Longrightarrow>
      \<exists>s'. step l t s = Ok s' \<and> wrote (ldev l) (dst l t) (cblk s (ldev l) (src l t)) s s'"
    and dst_inj: "log_wf l \<Longrightarrow> t < length (lhb l) \<Longrightarrow> t' < length (lhb l) \<Longrightarrow> dst l t = dst l t' \<Longrightarrow> t = t'"
    and src_dst: "log_wf l \<Longrightarrow> t < length (lhb l) \<Longrightarrow> t' < length (lhb l) \<Longrightarrow> src l t \<noteq> dst l t'"
    and pos: "log_wf l \<Longrightarrow> t < length (lhb l) \<Longrightarrow> 0 < src l t \<and> 0 < dst l t"
    and dst_home: "log_wf l \<Longrightarrow> t < t' \<Longrightarrow> t' < length (lhb l) \<Longrightarrow> dst l t \<noteq> lhb l ! t'"
begin

lemma copies:
  assumes w: "log_wf l" and q: "quiet s" and c: "log_clean l s" and r: "\<forall>t < length (lhb l). room_for (ldev l) (lhb l ! t) s"
  shows "k \<le> length (lhb l) \<Longrightarrow> \<exists>s'. eachR (step l) [0 ..< k] s = Ok s' \<and> copied src dst l k s s' \<and>
    (\<forall>t. k \<le> t \<longrightarrow> t < length (lhb l) \<longrightarrow> room_for (ldev l) (lhb l ! t) s')"
proof (induction k)
  case 0
  then show ?case using q r by (simp add: copied_def)
next
  case (Suc k)
  then have k: "k < length (lhb l)" by simp
  from Suc obtain s' where s': "eachR (step l) [0 ..< k] s = Ok s'" "copied src dst l k s s'"
    "\<forall>t. k \<le> t \<longrightarrow> t < length (lhb l) \<longrightarrow> room_for (ldev l) (lhb l ! t) s'" by auto
  have p: "0 < src l k" using pos [OF w k] by simp
  have "\<forall>t < k. src l k \<noteq> dst l t" using src_dst [OF w k] k by auto
  then have x: "cblk s' (ldev l) (src l k) = cblk s (ldev l) (src l k)"
    using s'(2) p unfolding copied_def by auto
  have "log_clean l s'" using c s'(2) unfolding log_clean_def copied_def by auto
  then obtain s2 where s2: "step l k s' = Ok s2" "wrote (ldev l) (dst l k) (cblk s (ldev l) (src l k)) s' s2"
    using step_wrote [OF w k _ _ s'(3) [rule_format, OF le_refl k]] s'(2) x by (auto simp: copied_def)
  have nd: "dst l t \<noteq> dst l k" if "t < k" for t using dst_inj [OF w _ k] that k by (metis less_trans less_irrefl)
  have "copied src dst l (Suc k) s s2"
    unfolding copied_def
  proof (intro conjI)
    show "quiet s2" "length (bufs s2) = length (bufs s)" using s2(2) s'(2) by (simp_all add: wrote_def copied_def)
    show "let ws = map (\<lambda>t. (ldev l, dst l t, cblk s (ldev l) (src l t))) [0 ..< Suc k]
      in bwrites s2 = bwrites s @ ws \<and> bdisk s2 = after_writes ws (bdisk s)"
      using s2(2) s'(2) by (simp add: wrote_def copied_def Let_def)
    show "dirty s2 = dirty s - {(ldev l, dst l t) |t. t < Suc k}"
      using s2(2) s'(2) by (auto simp: wrote_def copied_def less_Suc_eq)
    have d0: "0 < dst l t" if "t < Suc k" for t using pos [OF w] that k by simp
    show "\<forall>t < Suc k. cblk s2 (ldev l) (dst l t) = cblk s (ldev l) (src l t)"
    proof (intro allI impI)
      fix t assume t: "t < Suc k"
      have "cblk s2 (ldev l) (dst l t) = (if dst l t = dst l k then cblk s (ldev l) (src l k) else cblk s' (ldev l) (dst l t))"
        using wroteD [OF s2(2), of "ldev l" "dst l t"] d0 [OF t] by simp
      then show "cblk s2 (ldev l) (dst l t) = cblk s (ldev l) (src l t)"
        using t nd s'(2) by (cases "t = k") (simp_all add: copied_def)
    qed
    show "\<forall>d c. (d, c) \<noteq> (0, 0) \<longrightarrow> (\<forall>t < Suc k. (d, c) \<noteq> (ldev l, dst l t)) \<longrightarrow> cblk s2 d c = cblk s d c"
    proof (intro allI impI)
      fix d c :: nat assume dc: "(d, c) \<noteq> (0, 0)" and o: "\<forall>t < Suc k. (d, c) \<noteq> (ldev l, dst l t)"
      then have "(d, c) \<noteq> (ldev l, dst l k)" by blast
      then have "cblk s2 d c = cblk s' d c" using wroteD [OF s2(2) dc] by (simp only: if_False)
      also have "\<dots> = cblk s d c"
        by (rule copiedD [OF s'(2) dc]) (use o in auto)
      finally show "cblk s2 d c = cblk s d c" .
    qed
  qed
  moreover have "\<forall>t. Suc k \<le> t \<longrightarrow> t < length (lhb l) \<longrightarrow> room_for (ldev l) (lhb l ! t) s2"
    using s'(3) room_for_wrote [OF s2(2)] dst_home [OF w] by (metis Suc_le_lessD less_imp_le)
  ultimately show ?case using s'(1) s2(1) by (auto simp: eachR_append)
qed

end


interpretation ins: block_copy install_one "\<lambda>l t. lstart l + t + 1" "\<lambda>l t. lhb l ! t"
proof
  fix l t s
  assume w: "log_wf l" "t < length (lhb l)" and q: "quiet s" "log_clean l s" "room_for (ldev l) (lhb l ! t) s"
  note d = log_wfD [OF w]
  have "(ldev l, lstart l + t + 1) \<notin> dirty s" using q(2) d(3) by (simp add: log_clean_def)
  then show "\<exists>s'. install_one l t s = Ok s' \<and> wrote (ldev l) (lhb l ! t) (cblk s (ldev l) (lstart l + t + 1)) s s'"
    by (rule install_one_wrote [OF q(1) d(1,2) _ d(4,5) d(8) [OF w(2)] q(3)])
next
  show "log_wf l \<Longrightarrow> t < length (lhb l) \<Longrightarrow> t' < length (lhb l) \<Longrightarrow> lhb l ! t = lhb l ! t' \<Longrightarrow> t = t'" for l t t'
    by (rule log_wfD(7))
  show "log_wf l \<Longrightarrow> t < length (lhb l) \<Longrightarrow> t' < length (lhb l) \<Longrightarrow> lstart l + t + 1 \<noteq> lhb l ! t'" for l t t'
    by (rule log_wfD(8))
  show "log_wf l \<Longrightarrow> t < length (lhb l) \<Longrightarrow> 0 < lstart l + t + 1 \<and> 0 < lhb l ! t" for l t
    using log_wfD(4) by simp
  show "log_wf l \<Longrightarrow> t < t' \<Longrightarrow> t' < length (lhb l) \<Longrightarrow> lhb l ! t \<noteq> lhb l ! t'" for l t t'
    using log_wfD(7) [of l t t'] by auto
qed

interpretation wlog: block_copy write_log_one "\<lambda>l t. lhb l ! t" "\<lambda>l t. lstart l + t + 1"
proof
  fix l t s
  assume w: "log_wf l" "t < length (lhb l)" and q: "quiet s" "log_clean l s" "room_for (ldev l) (lhb l ! t) s"
  note d = log_wfD [OF w]
  have "(ldev l, lstart l + t + 1) \<notin> dirty s" using q(2) d(3) by (simp add: log_clean_def)
  then show "\<exists>s'. write_log_one l t s = Ok s' \<and> wrote (ldev l) (lstart l + t + 1) (cblk s (ldev l) (lhb l ! t)) s s'"
    by (rule write_log_one_wrote [OF q(1) d(1,2) _ d(4,5) d(8) [OF w(2)] q(3)])
next
  show "log_wf l \<Longrightarrow> t < length (lhb l) \<Longrightarrow> t' < length (lhb l) \<Longrightarrow> lstart l + t + 1 = lstart l + t' + 1 \<Longrightarrow> t = t'" for l t t'
    by simp
  show "log_wf l \<Longrightarrow> t < length (lhb l) \<Longrightarrow> t' < length (lhb l) \<Longrightarrow> lhb l ! t \<noteq> lstart l + t' + 1" for l t t'
    using log_wfD(9) [of l t t'] by auto
  show "log_wf l \<Longrightarrow> t < length (lhb l) \<Longrightarrow> 0 < lhb l ! t \<and> 0 < lstart l + t + 1" for l t
    using log_wfD(4) by simp
  show "log_wf l \<Longrightarrow> t < t' \<Longrightarrow> t' < length (lhb l) \<Longrightarrow> lstart l + t + 1 \<noteq> lhb l ! t'" for l t t'
    using log_wfD(8) [of l t t'] by simp
qed


section \<open>Reading and writing the header through the cache\<close>

lemma read_head_ok:
  assumes q: "quiet s" and a: "0 < lstart l" "lstart l < FSSIZE" and r: "card (dirty s) < length (bufs s)"
  obtains s' where "read_head l s = Ok (l\<lparr>lhb := hdr_read (cblk s (ldev l) (lstart l))\<rparr>, s')" "quiet s'" "same_blocks s s'"
    "bdisk s' = bdisk s" "bwrites s' = bwrites s" "dirty s' = dirty s"
proof -
  let ?d = "ldev l" and ?a = "lstart l"
  have ok: "bcache_ok s" and hs: "held s = {}" using q by (simp_all add: quiet_def)
  have p: "(?d, ?a) \<noteq> (0, 0)" "(?d, ?a) \<notin> held s" "(?d, ?a) \<in> dirty s \<or> card (dirty s \<union> held s) < length (bufs s)"
    using a hs r by simp_all
  obtain i s1 where s1: "bread ?d ?a s = Ok (i, s1)" "bcache_ok s1" "holds s1 i ?d ?a (cblk s ?d ?a)" "same_blocks s s1"
    "bdisk s1 = bdisk s" "bwrites s1 = bwrites s" "held s1 = insert (?d, ?a) (held s)" "dirty s1 = dirty s"
    by (rule bread_ok [OF ok p a(2)])
  have c: "(?d, ?a) \<in> dirty s1 \<or> bdisk s1 ?d ?a = cblk s ?d ?a"
    using clean_block [OF ok p(1)] p(2) by (cases "(?d, ?a) \<in> dirty s") (simp_all add: s1)
  obtain s2 where s2: "brelse i s1 = Ok s2" "bcache_ok s2" "same_blocks s1 s2" "bdisk s2 = bdisk s1" "bwrites s2 = bwrites s1"
    "held s2 = held s1 - {(?d, ?a)}" "dirty s2 = dirty s1"
    by (rule brelse_ok [OF s1(2,3) c]) blast
  show thesis
    by (rule that [of s2])
      (use s1 s2 hs holdsD(5) [OF s1(2,3)] in \<open>auto simp: read_head_def quiet_def same_blocks_def\<close>)
qed

lemma write_head_wrote:
  assumes q: "quiet s" and a: "0 < lstart l" "lstart l < FSSIZE" and r: "card (dirty s) < length (bufs s)"
  obtains s' where "write_head l s = Ok s'" "wrote (ldev l) (lstart l) (hdr_write (lhb l) (cblk s (ldev l) (lstart l))) s s'"
proof -
  let ?d = "ldev l" and ?a = "lstart l"
  let ?x = "hdr_write (lhb l) (cblk s ?d ?a)"
  have ok: "bcache_ok s" and hs: "held s = {}" using q by (simp_all add: quiet_def)
  have p: "(?d, ?a) \<noteq> (0, 0)" "(?d, ?a) \<notin> held s" "(?d, ?a) \<in> dirty s \<or> card (dirty s \<union> held s) < length (bufs s)"
    using a hs r by simp_all
  obtain i s1 where s1: "bread ?d ?a s = Ok (i, s1)" "bcache_ok s1" "holds s1 i ?d ?a (cblk s ?d ?a)" "same_blocks s s1"
    "bdisk s1 = bdisk s" "bwrites s1 = bwrites s" "held s1 = insert (?d, ?a) (held s)" "dirty s1 = dirty s"
    by (rule bread_ok [OF ok p a(2)])
  define sf where "sf = bfill i ?x s1"
  note f = bfill_ok [OF s1(2,3), where ys = ?x, folded sf_def]
  obtain s3 where s3: "bwrite i sf = Ok s3" "bcache_ok s3" "holds s3 i ?d ?a ?x" "same_blocks sf s3"
    "bdisk s3 = (bdisk sf)(?d := (bdisk sf ?d)(?a := ?x))" "bwrites s3 = bwrites sf @ [(?d, ?a, ?x)]"
    "held s3 = held sf" "dirty s3 = dirty sf - {(?d, ?a)}"
    by (rule bwrite_ok [OF f(1,2) a(2)]) blast
  have c: "(?d, ?a) \<in> dirty s3 \<or> bdisk s3 ?d ?a = ?x" by (simp add: s3(5))
  obtain s4 where s4: "brelse i s3 = Ok s4" "bcache_ok s4" "same_blocks s3 s4" "bdisk s4 = bdisk s3" "bwrites s4 = bwrites s3"
    "held s4 = held s3 - {(?d, ?a)}" "dirty s4 = dirty s3"
    by (rule brelse_ok [OF s3(2,3) c]) blast
  have "wrote ?d ?a ?x s s4"
    unfolding wrote_def quiet_def
  proof (intro conjI allI impI)
    show "bcache_ok s4" by (rule s4(2))
    show "held s4 = {}" using hs by (simp add: s4 s3 f s1)
    show "length (bufs s4) = length (bufs s)" using s4(3) s3(4) s1(4) f(8) by (simp add: same_blocks_def)
    show "cblk s4 d c = (if (d, c) = (?d, ?a) then ?x else cblk s d c)" if "(d, c) \<noteq> (0, 0)" for d c
      using same_blocksD [OF s4(3) that] same_blocksD [OF s3(4) that] same_blocksD [OF s1(4) that] f(3) [OF that] by simp
  qed (simp_all add: s4 s3 f s1)
  moreover have "write_head l s = Ok s4"
    using s1(1) s3(1) s4(1) holdsD(5) [OF s1(2,3)] by (simp add: write_head_def sf_def)
  ultimately show thesis by (rule that [rotated])
qed

section \<open>What recovery would find on a disk\<close>

definition rec_view :: "logst \<Rightarrow> bstore \<Rightarrow> nat \<Rightarrow> u8 list" where
  "rec_view l D c =
     (case find_idx (\<lambda>b. b = c) (hdr_read (D (ldev l) (lstart l))) of
        Some t \<Rightarrow> D (ldev l) (lstart l + t + 1)
      | None \<Rightarrow> D (ldev l) c)"

definition in_log :: "logst \<Rightarrow> nat \<Rightarrow> bool" where
  "in_log l b \<longleftrightarrow> lstart l \<le> b \<and> b < lstart l + lsize l"

definition disk_wf :: "logst \<Rightarrow> bstore \<Rightarrow> bool" where
  "disk_wf l D \<longleftrightarrow> length (D (ldev l) (lstart l)) = BSIZE \<and> log_wf (l\<lparr>lhb := hdr_read (D (ldev l) (lstart l))\<rparr>)"

lemma find_idx_nth: "distinct bs \<Longrightarrow> t < length bs \<Longrightarrow> find_idx (\<lambda>b. b = bs ! t) bs = Some t"
  by (auto simp: find_idx_Some nth_eq_iff_index_eq)

lemma rec_view_simps:
  "hdr_read (D (ldev l) (lstart l)) = bs \<Longrightarrow> distinct bs \<Longrightarrow> t < length bs \<Longrightarrow> rec_view l D (bs ! t) = D (ldev l) (lstart l + t + 1)"
  "hdr_read (D (ldev l) (lstart l)) = bs \<Longrightarrow> c \<notin> set bs \<Longrightarrow> rec_view l D c = D (ldev l) c"
proof -
  show "hdr_read (D (ldev l) (lstart l)) = bs \<Longrightarrow> distinct bs \<Longrightarrow> t < length bs \<Longrightarrow> rec_view l D (bs ! t) = D (ldev l) (lstart l + t + 1)"
    by (simp add: rec_view_def find_idx_nth)
  assume "hdr_read (D (ldev l) (lstart l)) = bs" "c \<notin> set bs"
  moreover from this(2) have "find_idx (\<lambda>b. b = c) bs = None" by (auto simp: find_idx_None)
  ultimately show "rec_view l D c = D (ldev l) c" by (simp add: rec_view_def)
qed

lemma after_copies_other:
  "\<forall>t < k. h t \<noteq> c \<Longrightarrow> after_writes (map (\<lambda>t. (d, h t, X t)) [0 ..< k]) D d c = D d c"
  by (induction k) (auto simp: less_Suc_eq)

lemma after_copies_same:
  "inj_on h {..< k} \<Longrightarrow> t < k \<Longrightarrow> after_writes (map (\<lambda>t. (d, h t, X t)) [0 ..< k]) D d (h t) = X t"
proof (induction k)
  case (Suc k)
  show ?case
  proof (cases "t = k")
    case False
    then have "t < k" using Suc.prems(2) by simp
    then have "h t \<noteq> h k" using inj_onD [OF Suc.prems(1), of t k] by auto
    moreover have "inj_on h {..< k}" by (rule inj_on_subset [OF Suc.prems(1)]) auto
    ultimately show ?thesis using Suc.IH \<open>t < k\<close> by simp
  qed simp
qed simp


section \<open>The views of a disk while the log is being written\<close>

lemma log_home_inj: "log_wf l \<Longrightarrow> k \<le> length (lhb l) \<Longrightarrow> inj_on (\<lambda>t. lhb l ! t) {..< k}"
  by (auto simp: inj_on_def intro: log_wfD(7))

lemma log_wf_in_log:
  assumes "log_wf l" "t < length (lhb l)"
  shows "\<not> in_log l (lhb l ! t)" "in_log l (lstart l + t + 1)" "in_log l (lstart l)" "lhb l ! t \<noteq> lstart l"
  using log_wfD [OF assms] by (auto simp: in_log_def)

lemma view_install:
  fixes D :: bstore and X
  assumes w: "log_wf l" and h: "hdr_read (D (ldev l) (lstart l)) = lhb l" and k: "k \<le> length (lhb l)"
    and x: "\<forall>t < length (lhb l). D (ldev l) (lstart l + t + 1) = X t"
  defines "D' \<equiv> after_writes (map (\<lambda>t. (ldev l, lhb l ! t, X t)) [0 ..< k]) D"
  shows "D' (ldev l) (lstart l) = D (ldev l) (lstart l)" "rec_view l D' c = rec_view l D c"
proof -
  show e: "D' (ldev l) (lstart l) = D (ldev l) (lstart l)"
    unfolding D'_def by (rule after_copies_other) (use log_wf_in_log(4) [OF w] k in auto)
  have dist: "distinct (lhb l)" using w by (simp add: log_wf_def)
  show "rec_view l D' c = rec_view l D c"
  proof (cases "c \<in> set (lhb l)")
    case True
    then obtain t where t: "t < length (lhb l)" "c = lhb l ! t" by (metis in_set_conv_nth)
    have "D' (ldev l) (lstart l + t + 1) = D (ldev l) (lstart l + t + 1)"
      unfolding D'_def
    proof (rule after_copies_other, intro allI impI)
      fix u assume "u < k"
      then show "lhb l ! u \<noteq> lstart l + t + 1" using log_wfD(9) [OF w _ t(1), of u] k by (metis less_le_trans)
    qed
    then show ?thesis using t e h rec_view_simps(1) [of _ l "lhb l" t, OF _ dist] by simp
  next
    case False
    have "D' (ldev l) c = D (ldev l) c"
      unfolding D'_def by (rule after_copies_other) (use False k in auto)
    then show ?thesis using e h False by (simp add: rec_view_simps(2))
  qed
qed

lemma view_cleared:
  fixes D :: bstore and X
  assumes w: "log_wf l" and h: "hdr_read (D (ldev l) (lstart l)) = lhb l" and z: "hdr_read z = []" and c: "c \<noteq> lstart l"
    and x: "\<forall>t < length (lhb l). D (ldev l) (lstart l + t + 1) = X t"
  defines "D' \<equiv> after_writes (map (\<lambda>t. (ldev l, lhb l ! t, X t)) [0 ..< length (lhb l)] @ [(ldev l, lstart l, z)]) D"
  shows "D' (ldev l) (lstart l) = z" "D' (ldev l) c = rec_view l D c" "rec_view l D' c = rec_view l D c"
proof -
  let ?W = "map (\<lambda>t. (ldev l, lhb l ! t, X t)) [0 ..< length (lhb l)]"
  show e: "D' (ldev l) (lstart l) = z" by (simp add: D'_def)
  have dist: "distinct (lhb l)" using w by (simp add: log_wf_def)
  show d: "D' (ldev l) c = rec_view l D c"
  proof (cases "c \<in> set (lhb l)")
    case True
    then obtain t where t: "t < length (lhb l)" "c = lhb l ! t" by (metis in_set_conv_nth)
    have "D' (ldev l) c = after_writes ?W D (ldev l) (lhb l ! t)" using c t(2) by (simp add: D'_def)
    also have "\<dots> = X t" by (rule after_copies_same [OF log_home_inj [OF w le_refl] t(1)])
    finally show ?thesis using x t rec_view_simps(1) [of D l "lhb l" t, OF h dist] by simp
  next
    case False
    have "D' (ldev l) c = after_writes ?W D (ldev l) c" using c by (simp add: D'_def)
    also have "\<dots> = D (ldev l) c" by (rule after_copies_other) (use False in auto)
    finally show ?thesis using rec_view_simps(2) [of D l "lhb l" c, OF h False] by simp
  qed
  then show "rec_view l D' c = rec_view l D c"
    using rec_view_simps(2) [of D' l "[]" c] e z by simp
qed

lemma view_logging:
  fixes D :: bstore and X
  assumes w: "log_wf l" and k: "k \<le> length (lhb l)" and z: "hdr_read (D (ldev l) (lstart l)) = []" and c: "\<not> in_log l c"
  defines "D' \<equiv> after_writes (map (\<lambda>t. (ldev l, lstart l + t + 1, X t)) [0 ..< k]) D"
  shows "D' (ldev l) (lstart l) = D (ldev l) (lstart l)" "D' (ldev l) c = D (ldev l) c" "rec_view l D' c = D (ldev l) c"
proof -
  show e: "D' (ldev l) (lstart l) = D (ldev l) (lstart l)" unfolding D'_def by (rule after_copies_other) simp
  show d: "D' (ldev l) c = D (ldev l) c"
    unfolding D'_def
  proof (rule after_copies_other, intro allI impI)
    fix t assume "t < k"
    then have "in_log l (lstart l + t + 1)" using log_wf_in_log(2) [OF w] k by simp
    then show "lstart l + t + 1 \<noteq> c" using c by auto
  qed
  show "rec_view l D' c = D (ldev l) c" using rec_view_simps(2) [of D' l "[]" c] e z d by simp
qed

lemma view_committed:
  fixes D :: bstore and X
  assumes w: "log_wf l" and h: "hdr_read x = lhb l"
  defines "D' \<equiv> after_writes (map (\<lambda>t. (ldev l, lstart l + t + 1, X t)) [0 ..< length (lhb l)] @ [(ldev l, lstart l, x)]) D"
  shows "D' (ldev l) (lstart l) = x" "t < length (lhb l) \<Longrightarrow> D' (ldev l) (lstart l + t + 1) = X t"
    "t < length (lhb l) \<Longrightarrow> rec_view l D' (lhb l ! t) = X t"
    "c \<notin> set (lhb l) \<Longrightarrow> \<not> in_log l c \<Longrightarrow> lhb l \<noteq> [] \<Longrightarrow> rec_view l D' c = D (ldev l) c"
proof -
  let ?W = "map (\<lambda>t. (ldev l, lstart l + t + 1, X t)) [0 ..< length (lhb l)]"
  show e: "D' (ldev l) (lstart l) = x" by (simp add: D'_def)
  have dist: "distinct (lhb l)" using w by (simp add: log_wf_def)
  show d: "D' (ldev l) (lstart l + t + 1) = X t" if "t < length (lhb l)" for t
    using after_copies_same [of "\<lambda>t. lstart l + t + 1" "length (lhb l)" t "ldev l" X D] that by (simp add: D'_def inj_on_def)
  show "t < length (lhb l) \<Longrightarrow> rec_view l D' (lhb l ! t) = X t"
    using d rec_view_simps(1) [of D' l "lhb l" t, OF _ dist] e h by simp
  assume c: "c \<notin> set (lhb l)" "\<not> in_log l c" "lhb l \<noteq> []"
  have cs: "c \<noteq> lstart l" using log_wf_in_log(3) [OF w, of 0] c(2,3) by auto
  have "D' (ldev l) c = after_writes ?W D (ldev l) c" using cs by (simp add: D'_def)
  also have "\<dots> = D (ldev l) c"
  proof (rule after_copies_other, intro allI impI)
    fix t assume "t < length (lhb l)"
    then have "in_log l (lstart l + t + 1)" by (rule log_wf_in_log(2) [OF w])
    then show "lstart l + t + 1 \<noteq> c" using c(2) by auto
  qed
  finally show "rec_view l D' c = D (ldev l) c" using rec_view_simps(2) [of D' l "lhb l" c] e h c(1) by simp
qed

section \<open>Recovery\<close>

lemma rec_view_lhb [simp]: "rec_view (l\<lparr>lhb := bs\<rparr>) D = rec_view l D"
  by (simp add: rec_view_def fun_eq_iff split: option.split)

definition recovery_writes :: "logst \<Rightarrow> bstore \<Rightarrow> (nat \<times> nat \<times> u8 list) list" where
  "recovery_writes l D =
     (let bs = hdr_read (D (ldev l) (lstart l))
      in map (\<lambda>t. (ldev l, bs ! t, D (ldev l) (lstart l + t + 1))) [0 ..< length bs] @
         [(ldev l, lstart l, hdr_write [] (D (ldev l) (lstart l)))])"

lemma hdr_read_empty: "length d = BSIZE \<Longrightarrow> hdr_read (hdr_write [] d) = []"
  by (rule hdr_read_write) simp_all

lemma wrote_ioD:
  "wrote dev b x s s' \<Longrightarrow> bwrites s' = bwrites s @ [(dev, b, x)]"
  "wrote dev b x s s' \<Longrightarrow> bdisk s' = after_writes [(dev, b, x)] (bdisk s)"
  by (simp_all only: wrote_def)

lemma copied_bdisk:
  assumes "copied src dst l k s s'"
  shows "bwrites s' = bwrites s @ map (\<lambda>t. (ldev l, dst l t, cblk s (ldev l) (src l t))) [0 ..< k]"
    "bdisk s' = after_writes (map (\<lambda>t. (ldev l, dst l t, cblk s (ldev l) (src l t))) [0 ..< k]) (bdisk s)"
    "quiet s'" "length (bufs s') = length (bufs s)" "dirty s' = dirty s - {(ldev l, dst l t) |t. t < k}"
  using assms by (simp_all add: copied_def Let_def)

lemma recover_ok:
  assumes q: "quiet s" and d: "dirty s = {}" and n: "length (bufs s) = NBUF" and wf: "disk_wf l (bdisk s)"
  obtains s' where "recover_from_log l s = Ok (l\<lparr>lhb := []\<rparr>, s')" "quiet s'" "dirty s' = {}" "length (bufs s') = NBUF"
    "bwrites s' = bwrites s @ recovery_writes l (bdisk s)" "bdisk s' = after_writes (recovery_writes l (bdisk s)) (bdisk s)"
proof -
  let ?D = "bdisk s" and ?d = "ldev l" and ?a = "lstart l"
  define l1 where "l1 = l\<lparr>lhb := hdr_read (?D ?d ?a)\<rparr>"
  have w: "log_wf l1" using wf by (simp add: disk_wf_def l1_def)
  have a: "0 < ?a" "?a < FSSIZE" using w by (simp_all add: log_wf_def l1_def)
  have ok: "bcache_ok s" "held s = {}" using q by (simp_all add: quiet_def)
  have cl: "cblk s e c = ?D e c" if "(e, c) \<noteq> (0, 0)" for e c
    using clean_block [OF ok(1) that] d ok(2) by simp
  have r0: "card (dirty s) < length (bufs s)" using d n by simp
  obtain s1 where s1: "read_head l s = Ok (l\<lparr>lhb := hdr_read (cblk s ?d ?a)\<rparr>, s1)" "quiet s1" "same_blocks s s1"
    "bdisk s1 = ?D" "bwrites s1 = bwrites s" "dirty s1 = dirty s"
    by (rule read_head_ok [OF q a r0])
  have n1: "length (bufs s1) = NBUF" using s1(3) n by (simp add: same_blocks_def)
  have cl1: "cblk s1 e c = ?D e c" if "(e, c) \<noteq> (0, 0)" for e c
    using same_blocksD [OF s1(3) that] cl [OF that] by simp
  have rh: "read_head l s = Ok (l1, s1)" using s1(1) a cl by (simp add: l1_def)
  have c1: "log_clean l1 s1" "\<forall>t < length (lhb l1). room_for (ldev l1) (lhb l1 ! t) s1"
    using s1(6) d n1 by (simp_all add: log_clean_def room_for_def)
  obtain s2 where s2: "eachR (install_one l1) [0 ..< length (lhb l1)] s1 = Ok s2"
    "copied (\<lambda>l t. lstart l + t + 1) (\<lambda>l t. lhb l ! t) l1 (length (lhb l1)) s1 s2"
    using ins.copies [OF w s1(2) c1 le_refl] by blast
  note b2 = copied_bdisk [OF s2(2)]
  have i2: "install_trans l1 s1 = Ok s2" using s2(1) by (simp add: install_trans_def)
  have d2: "dirty s2 = {}" using b2(5) s1(6) d by simp
  have r2: "card (dirty s2) < length (bufs s2)" using d2 b2(4) n1 by simp
  have a': "0 < lstart (l1\<lparr>lhb := []\<rparr>)" "lstart (l1\<lparr>lhb := []\<rparr>) < FSSIZE" using a by (simp_all add: l1_def)
  obtain s3 where s3: "write_head (l1\<lparr>lhb := []\<rparr>) s2 = Ok s3"
    "wrote ?d ?a (hdr_write [] (cblk s2 ?d ?a)) s2 s3"
    using write_head_wrote [OF b2(3) a' r2] by (auto simp: l1_def)
  have ha: "lhb l1 ! t \<noteq> ?a" if "t < length (lhb l1)" for t
    using log_wf_in_log(4) [OF w that] by (simp add: l1_def)
  have "cblk s2 ?d ?a = cblk s1 ?d ?a"
    using copiedD [OF s2(2), of ?d ?a] a ha by (force simp: l1_def)
  then have h2: "cblk s2 ?d ?a = ?D ?d ?a" using cl1 a by simp
  have ws: "map (\<lambda>t. (ldev l1, lhb l1 ! t, cblk s1 (ldev l1) (lstart l1 + t + 1))) [0 ..< length (lhb l1)] @
      [(?d, ?a, hdr_write [] (cblk s2 ?d ?a))] = recovery_writes l ?D"
    using cl1 h2 by (simp add: recovery_writes_def l1_def Let_def)
  show thesis
  proof (rule that [of s3])
    show "recover_from_log l s = Ok (l\<lparr>lhb := []\<rparr>, s3)"
      using rh i2 s3(1) by (simp add: recover_from_log_def) (simp add: l1_def)
    show "quiet s3" "dirty s3 = {}" "length (bufs s3) = NBUF"
      using s3(2) d2 b2(4) n1 by (simp_all add: wrote_def)
    show "bwrites s3 = bwrites s @ recovery_writes l ?D" "bdisk s3 = after_writes (recovery_writes l ?D) ?D"
      unfolding ws [symmetric] using s3(2) b2(1,2) s1(4,5) by (simp_all add: wrote_def)
  qed
qed

text \<open>Recovery installs what its disk holds, wherever it is cut off.\<close>

lemma recovery_cut:
  assumes wf: "disk_wf l D" and k: "k \<le> length (recovery_writes l D)" and c: "\<not> in_log l c"
  defines "D' \<equiv> after_writes (take k (recovery_writes l D)) D"
  shows "rec_view l D' c = rec_view l D c" "disk_wf l D'"
proof -
  define bs where "bs = hdr_read (D (ldev l) (lstart l))"
  define l1 where "l1 = l\<lparr>lhb := bs\<rparr>"
  have w: "log_wf l1" using wf by (simp add: disk_wf_def l1_def bs_def)
  have h: "hdr_read (D (ldev l1) (lstart l1)) = lhb l1" by (simp add: l1_def bs_def)
  have len: "length (D (ldev l) (lstart l)) = BSIZE" using wf by (simp add: disk_wf_def)
  have v: "rec_view l1 E = rec_view l E" for E by (simp add: l1_def)
  let ?X = "\<lambda>t. D (ldev l) (lstart l + t + 1)"
  have rw: "recovery_writes l D = map (\<lambda>t. (ldev l1, lhb l1 ! t, ?X t)) [0 ..< length (lhb l1)] @
      [(ldev l1, lstart l1, hdr_write [] (D (ldev l) (lstart l)))]"
    by (simp add: recovery_writes_def l1_def bs_def Let_def)
  have "rec_view l D' c = rec_view l D c \<and> disk_wf l D'"
  proof (cases "k \<le> length (lhb l1)")
    case True
    have e: "D' = after_writes (map (\<lambda>t. (ldev l1, lhb l1 ! t, ?X t)) [0 ..< k]) D"
      unfolding D'_def rw using True by (simp add: take_map)
    have x: "\<forall>t < length (lhb l1). D (ldev l1) (lstart l1 + t + 1) = ?X t" by (simp add: l1_def)
    note vi = view_install [where D = D and X = ?X, OF w h True x, folded e]
    have "disk_wf l D'" using vi(1) wf by (simp add: disk_wf_def l1_def)
    then show ?thesis using vi(2) v by simp
  next
    case False
    then have e: "D' = after_writes (map (\<lambda>t. (ldev l1, lhb l1 ! t, ?X t)) [0 ..< length (lhb l1)] @
        [(ldev l1, lstart l1, hdr_write [] (D (ldev l) (lstart l)))]) D"
      unfolding D'_def using k by (simp add: rw)
    have x: "\<forall>t < length (lhb l1). D (ldev l1) (lstart l1 + t + 1) = ?X t" by (simp add: l1_def)
    have z: "hdr_read (hdr_write [] (D (ldev l) (lstart l))) = []" by (rule hdr_read_empty [OF len])
    have cs: "c \<noteq> lstart l1" using c w by (auto simp: in_log_def l1_def log_wf_def)
    note vc = view_cleared [where D = D and X = ?X, OF w h z cs x, folded e]
    have "disk_wf l D'" using vc(1) z w len by (simp add: disk_wf_def l1_def log_wf_def)
    then show ?thesis using vc(3) v by simp
  qed
  then show "rec_view l D' c = rec_view l D c" "disk_wf l D'" by simp_all
qed

lemma recovery_installs:
  assumes wf: "disk_wf l D" and c: "\<not> in_log l c"
  shows "after_writes (recovery_writes l D) D (ldev l) c = rec_view l D c"
    "hdr_read (after_writes (recovery_writes l D) D (ldev l) (lstart l)) = []"
proof -
  have len: "length (D (ldev l) (lstart l)) = BSIZE" using wf by (simp add: disk_wf_def)
  show "hdr_read (after_writes (recovery_writes l D) D (ldev l) (lstart l)) = []"
    by (simp add: recovery_writes_def Let_def hdr_read_empty [OF len])
  define l1 where "l1 = l\<lparr>lhb := hdr_read (D (ldev l) (lstart l))\<rparr>"
  have w: "log_wf l1" using wf by (simp add: disk_wf_def l1_def)
  have h: "hdr_read (D (ldev l1) (lstart l1)) = lhb l1" by (simp add: l1_def)
  have cs: "c \<noteq> lstart l1" using c w by (auto simp: in_log_def l1_def log_wf_def)
  have x: "\<forall>t < length (lhb l1). D (ldev l1) (lstart l1 + t + 1) = D (ldev l) (lstart l + t + 1)" by (simp add: l1_def)
  have "rec_view l1 D c = rec_view l D c" by (simp add: l1_def)
  then show "after_writes (recovery_writes l D) D (ldev l) c = rec_view l D c"
    using view_cleared(2) [where D = D and X = "\<lambda>t. D (ldev l) (lstart l + t + 1)", OF w h hdr_read_empty [OF len] cs x]
    by (simp add: recovery_writes_def l1_def Let_def)
qed


section \<open>Commit\<close>

definition commit_writes :: "logst \<Rightarrow> bcache \<Rightarrow> (nat \<times> nat \<times> u8 list) list" where
  "commit_writes l s =
     (let hd = hdr_write (lhb l) (cblk s (ldev l) (lstart l))
      in map (\<lambda>t. (ldev l, lstart l + t + 1, cblk s (ldev l) (lhb l ! t))) [0 ..< length (lhb l)] @ [(ldev l, lstart l, hd)] @
         map (\<lambda>t. (ldev l, lhb l ! t, cblk s (ldev l) (lhb l ! t))) [0 ..< length (lhb l)] @ [(ldev l, lstart l, hdr_write [] hd)])"

text \<open>Before a commit the dirty buffers are those the header names.\<close>

definition commit_ready :: "logst \<Rightarrow> bcache \<Rightarrow> bool" where
  "commit_ready l s \<longleftrightarrow> quiet s \<and> length (bufs s) = NBUF \<and> log_wf l \<and> dirty s = {(ldev l, b) |b. b \<in> set (lhb l)} \<and>
     length (bdisk s (ldev l) (lstart l)) = BSIZE \<and> hdr_read (bdisk s (ldev l) (lstart l)) = []"

lemma commit_readyD:
  assumes "commit_ready l s"
  shows "card (dirty s) = length (lhb l)" "length (lhb l) < NBUF" "log_clean l s"
    "\<forall>t < length (lhb l). room_for (ldev l) (lhb l ! t) s" "0 < lstart l" "lstart l < FSSIZE"
    "lhb l \<noteq> [] \<Longrightarrow> cblk s (ldev l) (lstart l) = bdisk s (ldev l) (lstart l)"
    "c \<notin> set (lhb l) \<Longrightarrow> 0 < c \<Longrightarrow> cblk s (ldev l) c = bdisk s (ldev l) c"
proof -
  note a = assms [unfolded commit_ready_def]
  have w: "log_wf l" using a by blast
  have d: "dirty s = Pair (ldev l) ` set (lhb l)" using a by auto
  show c: "card (dirty s) = length (lhb l)"
    unfolding d using w by (simp add: card_image inj_on_def log_wf_def distinct_card)
  show n: "length (lhb l) < NBUF" using w by (simp add: log_wf_def)
  show "log_clean l s" using w d by (auto simp: log_clean_def log_wf_def)
  show "\<forall>t < length (lhb l). room_for (ldev l) (lhb l ! t) s"
    using c n a d by (simp add: room_for_def)
  show p: "0 < lstart l" "lstart l < FSSIZE" using w by (auto simp: log_wf_def)
  have q: "bcache_ok s" "held s = {}" using a by (simp_all add: quiet_def)
  show cl: "cblk s (ldev l) c = bdisk s (ldev l) c" if "c \<notin> set (lhb l)" "0 < c" for c
    using clean_block [OF q(1), of "ldev l" c] q(2) d that by auto
  have "lstart l \<notin> set (lhb l)" if "lhb l \<noteq> []" using w that by (auto simp: log_wf_def)
  then show "lhb l \<noteq> [] \<Longrightarrow> cblk s (ldev l) (lstart l) = bdisk s (ldev l) (lstart l)" using cl p by blast
qed

lemma commit_ok:
  assumes rdy: "commit_ready l s" and ne: "lhb l \<noteq> []"
  obtains s' where "commit l s = Ok (l\<lparr>lhb := []\<rparr>, s')" "quiet s'" "dirty s' = {}" "length (bufs s') = NBUF"
    "bwrites s' = bwrites s @ commit_writes l s" "bdisk s' = after_writes (commit_writes l s) (bdisk s)"
    "\<And>c. 0 < c \<Longrightarrow> \<not> in_log l c \<Longrightarrow> cblk s' (ldev l) c = cblk s (ldev l) c"
proof -
  let ?d = "ldev l" and ?a = "lstart l" and ?n = "length (lhb l)"
  let ?h = "hdr_write (lhb l) (cblk s ?d ?a)"
  note r = commit_readyD [OF rdy]
  have q: "quiet s" and n: "length (bufs s) = NBUF" and w: "log_wf l" and ds: "dirty s = {(?d, b) |b. b \<in> set (lhb l)}"
    using rdy by (simp_all add: commit_ready_def)
  have hpos: "0 < lhb l ! t" if "t < ?n" for t using log_wfD(4) [OF w that] .
  obtain s1 where s1: "eachR (write_log_one l) [0 ..< ?n] s = Ok s1"
    "copied (\<lambda>l t. lhb l ! t) (\<lambda>l t. lstart l + t + 1) l ?n s s1"
    using wlog.copies [OF w q r(3,4) le_refl] by blast
  note b1 = copied_bdisk [OF s1(2)]
  have lg: "(?d, ?a + t + 1) \<notin> dirty s" if "t < ?n" for t
    using r(3) log_wfD(3) [OF w that] by (simp add: log_clean_def)
  have d1: "dirty s1 = dirty s" using b1(5) lg by auto
  have c1: "cblk s1 ?d c = cblk s ?d c" if "0 < c" "\<And>t. t < ?n \<Longrightarrow> c \<noteq> ?a + t + 1" for c
    using copiedD [OF s1(2), of ?d c] that by auto
  have c1h: "cblk s1 ?d ?a = cblk s ?d ?a" by (rule c1) (use r(5) in auto)
  have rm: "card (dirty s1) < length (bufs s1)" using r(1,2) d1 b1(4) n by simp
  obtain s2 where s2: "write_head l s1 = Ok s2" "wrote ?d ?a ?h s1 s2"
    using write_head_wrote [OF b1(3) r(5,6) rm] c1h by metis
  have ha: "(?d, ?a) \<notin> dirty s" using ds log_wf_in_log(4) [OF w] by (auto simp: in_set_conv_nth)
  have d2: "dirty s2 = dirty s" "quiet s2" "length (bufs s2) = NBUF"
    using s2(2) d1 ha b1(4) n by (simp_all add: wrote_def)
  have "room_for e b s2 = room_for e b s" for e b by (simp only: room_for_def d2 n)
  then have k2: "log_clean l s2" "\<forall>t < ?n. room_for ?d (lhb l ! t) s2"
    using r(3,4) d2(1) by (simp_all add: log_clean_def)
  obtain s3 where s3: "eachR (install_one l) [0 ..< ?n] s2 = Ok s3"
    "copied (\<lambda>l t. lstart l + t + 1) (\<lambda>l t. lhb l ! t) l ?n s2 s3"
    using ins.copies [OF w d2(2) k2 le_refl] by blast
  note b3 = copied_bdisk [OF s3(2)]
  have x2: "cblk s2 ?d (?a + t + 1) = cblk s ?d (lhb l ! t)" if "t < ?n" for t
    using wroteD [OF s2(2), of ?d "?a + t + 1"] s1(2) that by (simp add: copied_def)
  have ws3: "map (\<lambda>t. (?d, lhb l ! t, cblk s2 ?d (?a + t + 1))) [0 ..< ?n] =
      map (\<lambda>t. (?d, lhb l ! t, cblk s ?d (lhb l ! t))) [0 ..< ?n]" using x2 by simp
  have d3: "dirty s3 = {}" using b3(5) d2(1) ds by (auto simp: in_set_conv_nth)
  have c3h: "cblk s3 ?d ?a = ?h"
    using copiedD [OF s3(2), of ?d ?a] log_wf_in_log(4) [OF w] r(5) wroteD [OF s2(2), of ?d ?a] by force
  have n3: "card (dirty s3) < length (bufs s3)" using d3 b3(4) d2(3) by simp
  have a': "0 < lstart (l\<lparr>lhb := []\<rparr>)" "lstart (l\<lparr>lhb := []\<rparr>) < FSSIZE" using r(5,6) by simp_all
  obtain s4 where s4: "write_head (l\<lparr>lhb := []\<rparr>) s3 = Ok s4" "wrote ?d ?a (hdr_write [] ?h) s3 s4"
    using write_head_wrote [OF b3(3) a' n3] c3h by auto
  show thesis
  proof (rule that [of s4])
    show "commit l s = Ok (l\<lparr>lhb := []\<rparr>, s4)"
      using ne s1(1) s2(1) s3(1) s4(1) by (simp add: commit_def write_log_def install_trans_def)
    show "quiet s4" "dirty s4 = {}" "length (bufs s4) = NBUF" using s4(2) d3 b3(4) d2(3) by (simp_all add: wrote_def)
    show "bwrites s4 = bwrites s @ commit_writes l s"
      unfolding wrote_ioD [OF s4(2)] b3(1) ws3 wrote_ioD [OF s2(2)] b1(1) by (simp add: commit_writes_def Let_def)
    have "bdisk s4 = after_writes [(?d, ?a, hdr_write [] ?h)]
        (after_writes (map (\<lambda>t. (?d, lhb l ! t, cblk s ?d (lhb l ! t))) [0 ..< ?n]) (after_writes [(?d, ?a, ?h)]
        (after_writes (map (\<lambda>t. (?d, ?a + t + 1, cblk s ?d (lhb l ! t))) [0 ..< ?n]) (bdisk s))))"
      unfolding wrote_ioD [OF s4(2)] b3(2) ws3 wrote_ioD [OF s2(2)] b1(2) ..
    then show "bdisk s4 = after_writes (commit_writes l s) (bdisk s)"
      by (simp only: commit_writes_def Let_def after_writes_simps(2))
    fix c assume c: "0 < c" "\<not> in_log l c"
    have cl: "c \<noteq> ?a" "\<And>t. t < ?n \<Longrightarrow> c \<noteq> ?a + t + 1"
      using c(2) log_wf_in_log(2,3) [OF w] ne by auto
    have e4: "cblk s4 ?d c = cblk s3 ?d c" using wroteD [OF s4(2), of ?d c] c cl by simp
    have e2: "cblk s2 ?d c = cblk s ?d c" using wroteD [OF s2(2), of ?d c] c cl c1 [of c] by simp
    show "cblk s4 ?d c = cblk s ?d c"
    proof (cases "c \<in> set (lhb l)")
      case True
      then obtain t where t: "t < ?n" "c = lhb l ! t" by (metis in_set_conv_nth)
      then show ?thesis using e4 s3(2) x2 by (simp add: copied_def)
    next
      case False
      then show ?thesis using e4 e2 copiedD [OF s3(2), of ?d c] c by (force simp: in_set_conv_nth)
    qed
  qed
qed


section \<open>A crash at any point of a commit\<close>

lemma commit_cut:
  assumes rdy: "commit_ready l s" and ne: "lhb l \<noteq> []" and k: "k \<le> length (commit_writes l s)" and c: "0 < c" "\<not> in_log l c"
  defines "D' \<equiv> after_writes (take k (commit_writes l s)) (bdisk s)"
  shows "rec_view l D' c = (if k \<le> length (lhb l) then bdisk s (ldev l) c else cblk s (ldev l) c)" "disk_wf l D'"
proof -
  let ?d = "ldev l" and ?a = "lstart l" and ?n = "length (lhb l)" and ?D = "bdisk s"
  let ?X = "\<lambda>t. cblk s ?d (lhb l ! t)"
  define h where "h = hdr_write (lhb l) (cblk s ?d ?a)"
  define W1 where "W1 = map (\<lambda>t. (?d, ?a + t + 1, ?X t)) [0 ..< ?n]"
  define W2 where "W2 = map (\<lambda>t. (?d, lhb l ! t, ?X t)) [0 ..< ?n]"
  define z where "z = hdr_write [] h"
  note r = commit_readyD [OF rdy]
  have w: "log_wf l" and len: "length (?D ?d ?a) = BSIZE" and h0: "hdr_read (?D ?d ?a) = []"
    using rdy by (simp_all add: commit_ready_def)
  have cw: "commit_writes l s = (W1 @ [(?d, ?a, h)]) @ W2 @ [(?d, ?a, z)]"
    by (simp add: commit_writes_def Let_def h_def W1_def W2_def z_def)
  have n: "length W1 = ?n" "length W2 = ?n" by (simp_all add: W1_def W2_def)
  have n4: "4 + 4 * ?n \<le> BSIZE" using w by (simp add: log_wf_def)
  have lh: "length h = BSIZE" using r(7) [OF ne] len n4 by (simp add: h_def)
  have b32: "\<forall>b \<in> set (lhb l). b < 2 ^ 32" using w by (auto simp: log_wf_def)
  have hh: "hdr_read h = lhb l" unfolding h_def by (rule hdr_read_write) (use r(7) [OF ne] len n4 b32 in auto)
  have hz: "hdr_read z = []" "length z = BSIZE" unfolding z_def by (rule hdr_read_empty [OF lh]) (simp add: lh)
  have w0: "log_wf (l\<lparr>lhb := []\<rparr>)" "log_wf (l\<lparr>lhb := lhb l\<rparr>)" using w by (simp_all add: log_wf_def)
  define D1 where "D1 = after_writes (W1 @ [(?d, ?a, h)]) ?D"
  note v1 = view_committed [where D = ?D and X = ?X, OF w hh, folded W1_def, folded D1_def]
  have new: "rec_view l D1 c = cblk s ?d c"
  proof (cases "c \<in> set (lhb l)")
    case True
    then obtain t where "t < ?n" "c = lhb l ! t" by (metis in_set_conv_nth)
    then show ?thesis using v1(3) by simp
  next
    case False
    then show ?thesis using v1(4) [OF False c(2) ne] r(8) [OF False c(1)] by simp
  qed
  have h1: "hdr_read (D1 ?d ?a) = lhb l" using v1(1) hh by simp
  have x1: "\<forall>t < ?n. D1 ?d (?a + t + 1) = ?X t" using v1(2) by simp
  have ca: "c \<noteq> ?a" using log_wf_in_log(3) [OF w, of 0] c(2) ne by auto
  consider "k \<le> ?n" | "?n < k" "k - (?n + 1) \<le> ?n" | "k = 2 * ?n + 2" using k by (simp add: cw n) linarith
  then have "rec_view l D' c = (if k \<le> ?n then ?D ?d c else cblk s ?d c) \<and> disk_wf l D'"
  proof cases
    case 1
    then have e: "D' = after_writes (map (\<lambda>t. (?d, ?a + t + 1, ?X t)) [0 ..< k]) ?D"
      unfolding D'_def cw by (simp add: n) (simp add: W1_def take_map)
    note v = view_logging [where D = ?D and X = ?X, OF w 1 h0 c(2), folded e]
    show ?thesis using v(1,3) 1 len h0 w0 by (simp add: disk_wf_def)
  next
    case 2
    define j where "j = k - (?n + 1)"
    have kj: "k = length (W1 @ [(?d, ?a, h)]) + j" using 2(1) by (simp add: j_def n)
    have j: "j \<le> ?n" using 2 by (simp add: j_def)
    have "take k (commit_writes l s) = (W1 @ [(?d, ?a, h)]) @ take j W2"
      unfolding cw kj using j by (simp add: n)
    moreover have "take j W2 = map (\<lambda>t. (?d, lhb l ! t, ?X t)) [0 ..< j]" using j by (simp add: W2_def take_map)
    ultimately have e: "D' = after_writes (map (\<lambda>t. (?d, lhb l ! t, ?X t)) [0 ..< j]) D1"
      by (simp only: D'_def D1_def after_writes_simps(2))
    note v = view_install [where D = D1 and X = ?X, OF w h1 j x1, folded e]
    show ?thesis using v new 2(1) v1(1) lh hh w0 by (simp add: disk_wf_def)
  next
    case 3
    have e: "D' = after_writes (map (\<lambda>t. (?d, lhb l ! t, ?X t)) [0 ..< ?n] @ [(?d, ?a, z)]) D1"
      unfolding D'_def cw 3 D1_def after_writes_simps(2) [symmetric] W2_def [symmetric] by (simp add: n)
    note v = view_cleared [where D = D1 and X = ?X, OF w h1 hz(1) ca x1, folded e]
    show ?thesis using v new 3 hz w0 by (simp add: disk_wf_def)
  qed
  then show "rec_view l D' c = (if k \<le> ?n then ?D ?d c else cblk s ?d c)" "disk_wf l D'" by simp_all
qed

text \<open>A machine that starts on a disk sees what recovery makes of it.\<close>

definition reboots_to :: "logst \<Rightarrow> bstore \<Rightarrow> (nat \<Rightarrow> u8 list) \<Rightarrow> bool" where
  "reboots_to l D v \<longleftrightarrow>
     (\<exists>s. recover_from_log l (binit D True) = Ok (l\<lparr>lhb := []\<rparr>, s) \<and> quiet s \<and> dirty s = {} \<and>
       (\<forall>c. if 0 < c \<and> \<not> in_log l c then cblk s (ldev l) c = v c \<and> bdisk s (ldev l) c = v c else True))"

lemma reboots:
  assumes wf: "disk_wf l D" and v: "\<And>c. 0 < c \<Longrightarrow> \<not> in_log l c \<Longrightarrow> rec_view l D c = v c"
  shows "reboots_to l D v"
proof -
  note b = binit_ok [where D = D]
  have q: "quiet (binit D True)" using b by (simp add: quiet_def)
  have wf': "disk_wf l (bdisk (binit D True))" using wf b(5) by simp
  obtain s where s: "recover_from_log l (binit D True) = Ok (l\<lparr>lhb := []\<rparr>, s)" "quiet s" "dirty s = {}"
    "bdisk s = after_writes (recovery_writes l (bdisk (binit D True))) (bdisk (binit D True))"
    by (rule recover_ok [OF q b(2,4) wf'])
  have "cblk s (ldev l) c = v c \<and> bdisk s (ldev l) c = v c" if c: "0 < c" "\<not> in_log l c" for c
  proof -
    have "bdisk s (ldev l) c = v c"
      using s(4) recovery_installs(1) [OF wf c(2)] v [OF c] b(5) by simp
    moreover have "cblk s (ldev l) c = bdisk s (ldev l) c"
      using clean_block [of s "ldev l" c] s(2,3) c by (simp add: quiet_def)
    ultimately show ?thesis by simp
  qed
  then show ?thesis unfolding reboots_to_def using s(1-3) by auto
qed

lemma commit_crash:
  assumes rdy: "commit_ready l s" and ne: "lhb l \<noteq> []"
  shows "\<exists>s' ws. commit l s = Ok (l\<lparr>lhb := []\<rparr>, s') \<and> bwrites s' = bwrites s @ ws \<and> bdisk s' = after_writes ws (bdisk s) \<and>
    (\<forall>k. if k \<le> length ws
         then reboots_to l (after_writes (take k ws) (bdisk s))
                (if k \<le> length (lhb l) then bdisk s (ldev l) else cblk s (ldev l))
         else True)"
proof -
  obtain s' where s': "commit l s = Ok (l\<lparr>lhb := []\<rparr>, s')" "bwrites s' = bwrites s @ commit_writes l s"
    "bdisk s' = after_writes (commit_writes l s) (bdisk s)"
    by (rule commit_ok [OF rdy ne]) blast
  have "reboots_to l (after_writes (take k (commit_writes l s)) (bdisk s))
      (if k \<le> length (lhb l) then bdisk s (ldev l) else cblk s (ldev l))"
    if k: "k \<le> length (commit_writes l s)" for k
  proof (rule reboots)
    have "0 < lstart l + lsize l" "\<not> in_log l (lstart l + lsize l)" using rdy by (simp_all add: commit_ready_def log_wf_def in_log_def)
    from commit_cut(2) [OF rdy ne k this] show "disk_wf l (after_writes (take k (commit_writes l s)) (bdisk s))" .
    fix c assume "0 < c" "\<not> in_log l c"
    from commit_cut(1) [OF rdy ne k this]
    show "rec_view l (after_writes (take k (commit_writes l s)) (bdisk s)) c =
      (if k \<le> length (lhb l) then bdisk s (ldev l) else cblk s (ldev l)) c" by simp
  qed
  then show ?thesis using s' by auto
qed

lemma recovery_crash:
  assumes wf: "disk_wf l D"
  shows "\<exists>s'. recover_from_log l (binit D True) = Ok (l\<lparr>lhb := []\<rparr>, s') \<and> bdisk s' = after_writes (bwrites s') D \<and>
    (\<forall>k. if k \<le> length (bwrites s') then reboots_to l (after_writes (take k (bwrites s')) D) (rec_view l D) else True)"
proof -
  note b = binit_ok [where D = D]
  have q: "quiet (binit D True)" using b by (simp add: quiet_def)
  have wf': "disk_wf l (bdisk (binit D True))" using wf b(5) by simp
  obtain s where s: "recover_from_log l (binit D True) = Ok (l\<lparr>lhb := []\<rparr>, s)"
    "bwrites s = bwrites (binit D True) @ recovery_writes l (bdisk (binit D True))"
    "bdisk s = after_writes (recovery_writes l (bdisk (binit D True))) (bdisk (binit D True))"
    by (rule recover_ok [OF q b(2,4) wf'])
  have ws: "bwrites s = recovery_writes l D" "bdisk s = after_writes (recovery_writes l D) D" using s b(5,6) by simp_all
  have out: "\<not> in_log l (lstart l + lsize l)" by (simp add: in_log_def)
  have "reboots_to l (after_writes (take k (recovery_writes l D)) D) (rec_view l D)"
    if k: "k \<le> length (recovery_writes l D)" for k
    by (rule reboots [OF recovery_cut(2) [OF wf k out]]) (rule recovery_cut(1) [OF wf k])
  then show ?thesis using s(1) ws by auto
qed

section \<open>System calls sharing the log\<close>

text \<open>The log as concurrent system calls drive it. \<open>ops\<close> lists, for the calls between
  \<^verbatim>\<open>begin_op\<close> and \<^verbatim>\<open>end_op\<close>, how many more blocks each may log of the \<^verbatim>\<open>MAXOPBLOCKS\<close> it
  reserved. Every step is one critical section of \<^verbatim>\<open>log.lock\<close>; \<open>committed\<close> is the second
  one of \<^verbatim>\<open>end_op\<close>, after \<^verbatim>\<open>commit()\<close>.\<close>

inductive lstep :: "logst \<times> nat list \<Rightarrow> logst \<times> nat list \<Rightarrow> bool" where
  begun: "begin_op l = Some l' \<Longrightarrow> lstep (l, ops) (l', MAXOPBLOCKS # ops)"
| logged: "Suc n \<in> set ops \<Longrightarrow> b \<notin> set (lhb l) \<Longrightarrow> log_record b l = Ok l' \<Longrightarrow> lstep (l, ops) (l', n # remove1 (Suc n) ops)"
| absorbed: "n \<in> set ops \<Longrightarrow> b \<in> set (lhb l) \<Longrightarrow> log_record b l = Ok l' \<Longrightarrow> lstep (l, ops) (l', ops)"
| ended: "n \<in> set ops \<Longrightarrow> end_op_first l = Ok (c, l') \<Longrightarrow> lstep (l, ops) (l', remove1 n ops)"
| committed: "committing l \<Longrightarrow> lstep (l, []) (l\<lparr>lhb := [], committing := False\<rparr>, [])"

inductive_cases lstepE: "lstep (l, ops) c'"

inductive lreach :: "nat \<Rightarrow> logst \<times> nat list \<Rightarrow> bool" for sz where
  start: "outstanding l = 0 \<Longrightarrow> \<not> committing l \<Longrightarrow> lhb l = [] \<Longrightarrow> lsize l = sz \<Longrightarrow> lreach sz (l, [])"
| step: "lreach sz c \<Longrightarrow> lstep c c' \<Longrightarrow> lreach sz c'"

definition log_inv :: "nat \<Rightarrow> logst \<times> nat list \<Rightarrow> bool" where
  "log_inv sz c \<longleftrightarrow> (case c of (l, ops) \<Rightarrow>
     lsize l = sz \<and> outstanding l = int (length ops) \<and> list_all (\<lambda>n. n \<le> MAXOPBLOCKS) ops \<and>
     length (lhb l) + sum_list ops \<le> LOGSIZE \<and> distinct (lhb l) \<and>
     (if committing l then ops = [] else ops = [] \<longrightarrow> lhb l = []))"

lemma log_record_Ok:
  "log_record b l = Ok l' \<longleftrightarrow> length (lhb l) < LOGSIZE \<and> length (lhb l) + 1 < lsize l \<and> 1 \<le> outstanding l \<and>
     l' = (if b \<in> set (lhb l) then l else l\<lparr>lhb := lhb l @ [b]\<rparr>)"
  by (auto simp: log_record_def)

lemma begin_op_Some:
  "begin_op l = Some l' \<longleftrightarrow> \<not> committing l \<and> int (length (lhb l)) + (outstanding l + 1) * int MAXOPBLOCKS \<le> int LOGSIZE \<and>
     l' = l\<lparr>outstanding := outstanding l + 1\<rparr>"
  by (auto simp: begin_op_def)

lemma end_op_first_Ok:
  "end_op_first l = Ok (c, l') \<longleftrightarrow> \<not> committing l \<and> c = (outstanding l = 1) \<and>
     l' = l\<lparr>outstanding := outstanding l - 1, committing := c\<rparr>"
  by (cases l) (auto simp: end_op_first_def Let_def)

lemma sum_list_remove1: "x \<in> set xs \<Longrightarrow> sum_list xs = x + sum_list (remove1 x xs)" for x :: nat
  by (induction xs) auto

lemma list_all_remove1: "list_all P xs \<Longrightarrow> list_all P (remove1 x xs)"
  by (induction xs) auto

lemma sum_list_le: "list_all (\<lambda>n. n \<le> k) xs \<Longrightarrow> sum_list xs \<le> length xs * k" for k :: nat
  by (induction xs) auto

lemma lstep_inv: "lstep c c' \<Longrightarrow> log_inv sz c \<Longrightarrow> log_inv sz c'"
proof (induction rule: lstep.induct)
  case (begun l l' ops)
  then have "int (length (lhb l)) + (int (length ops) + 1) * 10 \<le> 30" "list_all (\<lambda>n. n \<le> MAXOPBLOCKS) ops"
    by (auto simp: log_inv_def begin_op_Some)
  moreover from this(2) have "sum_list ops \<le> length ops * 10" by (rule sum_list_le)
  ultimately have "length (lhb l) + sum_list (MAXOPBLOCKS # ops) \<le> LOGSIZE" by simp
  then show ?case using begun by (auto simp: log_inv_def begin_op_Some split: if_splits)
next
  case (logged n ops b l l')
  have "list_all (\<lambda>n. n \<le> MAXOPBLOCKS) (n # remove1 (Suc n) ops)"
    using logged by (auto simp: log_inv_def list_all_remove1 list_all_iff dest: notin_set_remove1)
  then show ?case using logged sum_list_remove1 [OF logged(1)]
    by (auto simp: log_inv_def log_record_Ok length_remove1 Suc_diff_Suc split: if_splits)
next
  case (absorbed n ops b l l')
  then show ?case by (simp add: log_record_Ok)
next
  case (ended n ops l c l')
  have p: "0 < length ops" using ended(1) by (cases ops) auto
  have l: "int (length (remove1 n ops)) = int (length ops) - 1"
    using p ended(1) by (simp add: length_remove1 of_nat_diff Suc_leI)
  moreover have "remove1 n ops = [] \<longleftrightarrow> length ops = 1" "ops \<noteq> []"
    using p l by (auto simp flip: length_0_conv)
  ultimately show ?case using ended sum_list_remove1 [OF ended(1)]
    by (auto simp: log_inv_def end_op_first_Ok list_all_remove1)
next
  case (committed l)
  then show ?case by (simp add: log_inv_def)
qed

lemma lreach_inv: "lreach sz c \<Longrightarrow> log_inv sz c"
  by (induction rule: lreach.induct) (auto simp: log_inv_def [of _ "(_, [])"] intro: lstep_inv)

lemma log_calls_safe:
  assumes "lreach sz (l, ops)"
  shows "length (lhb l) + sum_list ops \<le> LOGSIZE" "outstanding l = int (length ops)" "distinct (lhb l)"
    "ops = [] \<Longrightarrow> \<not> committing l \<Longrightarrow> lhb l = []"
    "ops \<noteq> [] \<Longrightarrow> \<exists>c l'. end_op_first l = Ok (c, l') \<and> (c \<longleftrightarrow> length ops = 1)"
    "Suc n \<in> set ops \<Longrightarrow> length (lhb l) + 1 < sz \<Longrightarrow> \<exists>l'. log_record b l = Ok l' \<and> set (lhb l') = insert b (set (lhb l))"
    "Suc n \<in> set ops \<Longrightarrow> sz = LOGSIZE \<Longrightarrow> length (lhb l) = 29 \<Longrightarrow> log_record b l = Panic ''too big a transaction''"
proof -
  have i: "log_inv sz (l, ops)" by (rule lreach_inv [OF assms])
  then show a: "length (lhb l) + sum_list ops \<le> LOGSIZE" "outstanding l = int (length ops)" "distinct (lhb l)"
    "ops = [] \<Longrightarrow> \<not> committing l \<Longrightarrow> lhb l = []" by (auto simp: log_inv_def)
  show "ops \<noteq> [] \<Longrightarrow> \<exists>c l'. end_op_first l = Ok (c, l') \<and> (c \<longleftrightarrow> length ops = 1)"
    using i by (auto simp: log_inv_def end_op_first_Ok split: if_splits)
  { assume n: "Suc n \<in> set ops"
    then have s: "Suc n \<le> sum_list ops" using sum_list_remove1 [OF n] by simp
    have o: "1 \<le> outstanding l" using n a(2) by (cases ops) auto
    have z: "lsize l = sz" using i by (simp add: log_inv_def)
    show "length (lhb l) + 1 < sz \<Longrightarrow> \<exists>l'. log_record b l = Ok l' \<and> set (lhb l') = insert b (set (lhb l))"
      using s o z a(1) by (auto simp: log_record_Ok)
    show "sz = LOGSIZE \<Longrightarrow> length (lhb l) = 29 \<Longrightarrow> log_record b l = Panic ''too big a transaction''"
      using z by (simp add: log_record_def) }
qed


text \<open>The reservation counts \<^verbatim>\<open>LOGSIZE\<close> blocks, but the log of \<^verbatim>\<open>mkfs\<close> has that size with its
  header included: three calls within their reservation can meet the panic.\<close>

lemma drain:
  "lreach sz (l, n # rest) \<Longrightarrow> k \<le> n \<Longrightarrow> length (lhb l) + k < sz \<Longrightarrow> sz \<le> LOGSIZE \<Longrightarrow>
   \<exists>l'. lreach sz (l', (n - k) # rest) \<and> length (lhb l') = length (lhb l) + k"
proof (induction k)
  case (Suc k)
  then obtain l1 where l1: "lreach sz (l1, (n - k) # rest)" "length (lhb l1) = length (lhb l) + k" by auto
  have i: "log_inv sz (l1, (n - k) # rest)" by (rule lreach_inv [OF l1(1)])
  obtain b where b: "b \<notin> set (lhb l1)" using ex_new_if_finite [of "set (lhb l1)"] infinite_UNIV_nat by blast
  have e: "n - k = Suc (n - Suc k)" using Suc.prems by simp
  have r: "log_record b l1 = Ok (l1\<lparr>lhb := lhb l1 @ [b]\<rparr>)"
    using i b l1(2) Suc.prems by (simp add: log_record_Ok log_inv_def)
  have "lstep (l1, (n - k) # rest) (l1\<lparr>lhb := lhb l1 @ [b]\<rparr>, (n - Suc k) # remove1 (Suc (n - Suc k)) ((n - k) # rest))"
    by (rule lstep.logged [OF _ b r]) (simp add: e)
  then have "lreach sz (l1\<lparr>lhb := lhb l1 @ [b]\<rparr>, (n - Suc k) # rest)"
    using lreach.step [OF l1(1)] by (simp add: e)
  then show ?case using l1(2) by (intro exI [of _ "l1\<lparr>lhb := lhb l1 @ [b]\<rparr>"]) simp
qed auto

lemma next_call:
  assumes "lreach sz (l, n # rest)" "Suc m \<in> set rest" "length (lhb l) + 1 < sz" "sz \<le> LOGSIZE" "n \<noteq> Suc m"
  shows "\<exists>l'. lreach sz (l', m # n # remove1 (Suc m) rest) \<and> length (lhb l') = length (lhb l) + 1"
proof -
  have i: "log_inv sz (l, n # rest)" by (rule lreach_inv [OF assms(1)])
  obtain b where b: "b \<notin> set (lhb l)" using ex_new_if_finite [of "set (lhb l)"] infinite_UNIV_nat by blast
  have r: "log_record b l = Ok (l\<lparr>lhb := lhb l @ [b]\<rparr>)"
    using i b assms(3,4) by (simp add: log_record_Ok log_inv_def)
  have "lstep (l, n # rest) (l\<lparr>lhb := lhb l @ [b]\<rparr>, m # remove1 (Suc m) (n # rest))"
    by (rule lstep.logged [OF _ b r]) (simp add: assms(2))
  then show ?thesis using lreach.step [OF assms(1)] assms(5) by (intro exI [of _ "l\<lparr>lhb := lhb l @ [b]\<rparr>"]) simp
qed

text \<open>The check of \<^verbatim>\<open>begin_op\<close> counts \<^verbatim>\<open>LOGSIZE\<close> blocks, but a log of that size holds one fewer behind
  its header: calls that stay within what they reserved reach the panic of \<^verbatim>\<open>log_write\<close>.\<close>

theorem log_reservation_short:
  "\<exists>l ops n. lreach LOGSIZE (l, ops) \<and> Suc n \<in> set ops \<and> log_record b l = Panic ''too big a transaction''"
proof -
  define l0 where "l0 = \<lparr>lstart = 2, lsize = LOGSIZE, outstanding = 0, committing = False, ldev = 1, lhb = []\<rparr>"
  have 0: "lreach LOGSIZE (l0, [])" by (rule lreach.start) (simp_all add: l0_def)
  have b: "lstep (l0\<lparr>outstanding := int k\<rparr>, ops) (l0\<lparr>outstanding := int k + 1\<rparr>, 10 # ops)" if "k < 3" for k ops
    by (rule lstep.begun) (use that in \<open>simp add: begin_op_Some l0_def\<close>)
  have e: "l0 = l0\<lparr>outstanding := int 0\<rparr>" by (simp add: l0_def)
  have 1: "lreach LOGSIZE (l0\<lparr>outstanding := 1\<rparr>, [10])" using lreach.step [OF 0] b [of 0 "[]"] e by simp
  have 2: "lreach LOGSIZE (l0\<lparr>outstanding := 2\<rparr>, [10, 10])" using lreach.step [OF 1] b [of 1 "[10]"] by simp
  have 3: "lreach LOGSIZE (l0\<lparr>outstanding := 3\<rparr>, [10, 10, 10])" using lreach.step [OF 2] b [of 2 "[10, 10]"] by simp
  have z: "length (lhb (l0\<lparr>outstanding := 3\<rparr>)) = 0" by (simp add: l0_def)
  obtain l1 where l1: "lreach LOGSIZE (l1, [0, 10, 10])" "length (lhb l1) = 10" using drain [OF 3, of 10] z by auto
  obtain l2 where l2: "lreach LOGSIZE (l2, [9, 0, 10])" "length (lhb l2) = 11" using next_call [OF l1(1), of 9] l1(2) by auto
  obtain l3 where l3: "lreach LOGSIZE (l3, [0, 0, 10])" "length (lhb l3) = 20" using drain [OF l2(1), of 9] l2(2) by auto
  obtain l4 where l4: "lreach LOGSIZE (l4, [9, 0, 0])" "length (lhb l4) = 21" using next_call [OF l3(1), of 9] l3(2) by auto
  obtain l5 where l5: "lreach LOGSIZE (l5, [1, 0, 0])" "length (lhb l5) = 29" using drain [OF l4(1), of 8] l4(2) by auto
  have "log_record b l5 = Panic ''too big a transaction''" by (rule log_calls_safe(7) [OF l5(1) _ refl l5(2), of 0]) simp
  then show ?thesis using l5(1) by (intro exI [of _ l5] exI [of _ "[1, 0, 0]"] exI [of _ 0]) simp
qed

end
