(* ===== verification/Fs.thy ===== *)
theory Fs
  imports Log KString
begin

text \<open>
  The file system (fs.c) above the log: block allocator, inodes, file content, directories
  and path names. A block is read with \<open>fread\<close> (\<^verbatim>\<open>bread\<close> of the block content the cache
  holds) and changed with \<open>fwrite\<close> (change \<^verbatim>\<open>bp->data\<close>, \<^verbatim>\<open>log_write\<close>, \<^verbatim>\<open>brelse\<close>); that the cache and
  the log implement the two is shown in \<^verbatim>\<open>FsBlocks\<close>. An inode in memory is named by its index
  in the inode cache. \<^verbatim>\<open>acquiresleep\<close> on an inode that is locked does not return (\<open>Hang\<close>).
\<close>

section \<open>State\<close>

abbreviation NDIRECT :: nat where "NDIRECT \<equiv> 12"
abbreviation NINDIRECT :: nat where "NINDIRECT \<equiv> 128"
abbreviation MAXFILE :: nat where "MAXFILE \<equiv> 140"
abbreviation IPB :: nat where "IPB \<equiv> 8"
abbreviation BPB :: nat where "BPB \<equiv> 4096"
abbreviation DIRSIZ :: nat where "DIRSIZ \<equiv> 14"
abbreviation DIRENT :: nat where "DIRENT \<equiv> 16"
abbreviation NINODE :: nat where "NINODE \<equiv> 50"
abbreviation NDEV :: nat where "NDEV \<equiv> 10"
abbreviation ROOTDEV :: nat where "ROOTDEV \<equiv> 1"
abbreviation ROOTINO :: nat where "ROOTINO \<equiv> 1"

abbreviation T_DIR :: u16 where "T_DIR \<equiv> 1"
abbreviation T_FILE :: u16 where "T_FILE \<equiv> 2"
abbreviation T_DEV :: u16 where "T_DEV \<equiv> 3"

record dinode =
  di_type :: u16
  di_major :: u16
  di_minor :: u16
  di_nlink :: u16
  di_size :: u32
  di_addrs :: "u32 list"

record inode =
  i_dev :: nat
  i_num :: nat
  i_ref :: nat
  i_locked :: bool
  i_valid :: bool
  i_d :: dinode

record fsys =
  fblk :: "nat \<Rightarrow> u8 list"
  flog :: logst
  fsb :: superblock
  icache :: "inode list"
  dev_read :: "nat \<Rightarrow> (nat \<Rightarrow> int \<times> u8 list) option"
  dev_write :: "nat \<Rightarrow> (u8 list \<Rightarrow> int) option"

abbreviation ino :: "'a fsys_scheme \<Rightarrow> nat \<Rightarrow> inode" where "ino fs i \<equiv> icache fs ! i"

definition upd_ino :: "nat \<Rightarrow> (inode \<Rightarrow> inode) \<Rightarrow> 'a fsys_scheme \<Rightarrow> 'a fsys_scheme" where
  "upd_ino i f fs = fs\<lparr>icache := (icache fs)[i := f (icache fs ! i)]\<rparr>"

definition upd_d :: "nat \<Rightarrow> (dinode \<Rightarrow> dinode) \<Rightarrow> 'a fsys_scheme \<Rightarrow> 'a fsys_scheme" where
  "upd_d i f fs = upd_ino i (\<lambda>p. p\<lparr>i_d := f (i_d p)\<rparr>) fs"

definition fread :: "nat \<Rightarrow> 'a fsys_scheme \<Rightarrow> u8 list res" where
  "fread b fs = (if b \<ge> FSSIZE then Panic ''incorrect blockno'' else Ok (fblk fs b))"

definition fwrite :: "nat \<Rightarrow> u8 list \<Rightarrow> 'a fsys_scheme \<Rightarrow> 'a fsys_scheme res" where
  "fwrite b d fs = bindR (log_record b (flog fs)) (\<lambda>l. Ok (fs\<lparr>flog := l, fblk := (fblk fs)(b := d)\<rparr>))"

section \<open>Blocks\<close>

definition BBLOCK :: "nat \<Rightarrow> superblock \<Rightarrow> nat" where
  "BBLOCK b sb = b div BPB + sb_bmapstart sb"

definition IBLOCK :: "nat \<Rightarrow> superblock \<Rightarrow> nat" where
  "IBLOCK i sb = i div IPB + sb_inodestart sb"

definition bit_mask :: "nat \<Rightarrow> u8" where
  "bit_mask bi = push_bit (bi mod 8) 1"

definition bzero :: "nat \<Rightarrow> 'a fsys_scheme \<Rightarrow> 'a fsys_scheme res" where
  "bzero bno fs = bindR (fread bno fs) (\<lambda>d. fwrite bno (replicate BSIZE 0) fs)"

text \<open>The inner loop of \<^verbatim>\<open>balloc\<close>: the first clear bit of \<open>d\<close> from \<open>bi\<close> on, below \<open>lim\<close>.\<close>

function balloc_bit :: "u8 list \<Rightarrow> nat \<Rightarrow> nat \<Rightarrow> nat option" where
  "balloc_bit d lim bi =
     (if bi < lim
      then if d ! (bi div 8) AND bit_mask bi = 0 then Some bi else balloc_bit d lim (bi + 1)
      else None)"
  by auto
termination by (relation "measure (\<lambda>(d, lim, bi). lim - bi)") auto

function balloc_from :: "nat \<Rightarrow> 'a fsys_scheme \<Rightarrow> (nat \<times> 'a fsys_scheme) res" where
  "balloc_from b fs =
     (if b < sb_size (fsb fs)
      then bindR (fread (BBLOCK b (fsb fs)) fs) (\<lambda>d.
           case balloc_bit d (min BPB (sb_size (fsb fs) - b)) 0 of
             Some bi \<Rightarrow>
               bindR (fwrite (BBLOCK b (fsb fs)) (d[bi div 8 := d ! (bi div 8) OR bit_mask bi]) fs) (\<lambda>fs1.
               bindR (bzero (b + bi) fs1) (\<lambda>fs2. Ok (b + bi, fs2)))
           | None \<Rightarrow> balloc_from (b + BPB) fs)
      else Panic ''balloc: out of blocks'')"
  by auto
termination by (relation "measure (\<lambda>(b, fs). sb_size (fsb fs) - b)") auto

declare balloc_bit.simps [simp del] balloc_from.simps [simp del]

definition balloc :: "'a fsys_scheme \<Rightarrow> (nat \<times> 'a fsys_scheme) res" where
  "balloc fs = balloc_from 0 fs"

definition bfree :: "nat \<Rightarrow> 'a fsys_scheme \<Rightarrow> 'a fsys_scheme res" where
  "bfree b fs =
     bindR (fread (BBLOCK b (fsb fs)) fs) (\<lambda>d.
       let bi = b mod BPB
       in if d ! (bi div 8) AND bit_mask bi = 0 then Panic ''freeing free block''
          else fwrite (BBLOCK b (fsb fs)) (d[bi div 8 := d ! (bi div 8) AND NOT (bit_mask bi)]) fs)"

section \<open>Inodes on disk\<close>

definition dinode_at :: "u8 list \<Rightarrow> nat \<Rightarrow> dinode" where
  "dinode_at d k = \<lparr>di_type = ucast (le16 d k), di_major = ucast (le16 d (k + 2)), di_minor = ucast (le16 d (k + 4)),
     di_nlink = ucast (le16 d (k + 6)), di_size = le32 d (k + 8),
     di_addrs = map (\<lambda>i. le32 d (k + 12 + 4 * i)) [0 ..< NDIRECT + 1]\<rparr>"

definition put_dinode :: "nat \<Rightarrow> dinode \<Rightarrow> u8 list \<Rightarrow> u8 list" where
  "put_dinode k p d =
     fold (\<lambda>i. put32 (k + 12 + 4 * i) (di_addrs p ! i)) [0 ..< NDIRECT + 1]
       (put32 (k + 8) (di_size p) (put16 (k + 6) (ucast (di_nlink p)) (put16 (k + 4) (ucast (di_minor p))
         (put16 (k + 2) (ucast (di_major p)) (put16 k (ucast (di_type p)) d)))))"

definition inode_off :: "nat \<Rightarrow> nat" where
  "inode_off inum = (inum mod IPB) * 64"

definition iget :: "nat \<Rightarrow> 'a fsys_scheme \<Rightarrow> (nat \<times> 'a fsys_scheme) res" where
  "iget inum fs =
     (case find_idx (\<lambda>p. i_ref p > 0 \<and> i_dev p = ROOTDEV \<and> i_num p = inum) (icache fs) of
        Some i \<Rightarrow> Ok (i, upd_ino i (\<lambda>p. p\<lparr>i_ref := i_ref p + 1\<rparr>) fs)
      | None \<Rightarrow>
          (case find_idx (\<lambda>p. i_ref p = 0) (icache fs) of
             Some i \<Rightarrow> Ok (i, upd_ino i (\<lambda>p. p\<lparr>i_dev := ROOTDEV, i_num := inum, i_ref := 1, i_valid := False\<rparr>) fs)
           | None \<Rightarrow> Panic ''iget: no inodes''))"

definition zero_dinode :: dinode where
  "zero_dinode = \<lparr>di_type = 0, di_major = 0, di_minor = 0, di_nlink = 0, di_size = 0, di_addrs = replicate (NDIRECT + 1) 0\<rparr>"

function ialloc_from :: "nat \<Rightarrow> u16 \<Rightarrow> 'a fsys_scheme \<Rightarrow> (nat \<times> 'a fsys_scheme) res" where
  "ialloc_from inum type fs =
     (if inum < sb_ninodes (fsb fs)
      then bindR (fread (IBLOCK inum (fsb fs)) fs) (\<lambda>d.
           if di_type (dinode_at d (inode_off inum)) = 0
           then bindR (fwrite (IBLOCK inum (fsb fs)) (put_dinode (inode_off inum) (zero_dinode\<lparr>di_type := type\<rparr>) d) fs)
                  (iget inum)
           else ialloc_from (inum + 1) type fs)
      else Panic ''ialloc: no inodes'')"
  by auto
termination by (relation "measure (\<lambda>(inum, ty, fs). sb_ninodes (fsb fs) - inum)") auto

declare ialloc_from.simps [simp del]

definition ialloc :: "u16 \<Rightarrow> 'a fsys_scheme \<Rightarrow> (nat \<times> 'a fsys_scheme) res" where
  "ialloc type fs = ialloc_from 1 type fs"

definition iupdate :: "nat \<Rightarrow> 'a fsys_scheme \<Rightarrow> 'a fsys_scheme res" where
  "iupdate i fs =
     (let b = IBLOCK (i_num (ino fs i)) (fsb fs)
      in bindR (fread b fs) (\<lambda>d. fwrite b (put_dinode (inode_off (i_num (ino fs i))) (i_d (ino fs i)) d) fs))"

section \<open>Inodes in memory\<close>

definition idup :: "nat \<Rightarrow> 'a fsys_scheme \<Rightarrow> 'a fsys_scheme" where
  "idup i fs = upd_ino i (\<lambda>p. p\<lparr>i_ref := i_ref p + 1\<rparr>) fs"

definition ilock :: "nat \<Rightarrow> 'a fsys_scheme \<Rightarrow> 'a fsys_scheme res" where
  "ilock i fs =
     (if i_ref (ino fs i) < 1 then Panic ''ilock''
      else if i_locked (ino fs i) then Hang
      else let fs1 = upd_ino i (\<lambda>p. p\<lparr>i_locked := True\<rparr>) fs
           in if i_valid (ino fs1 i) then Ok fs1
              else bindR (fread (IBLOCK (i_num (ino fs i)) (fsb fs)) fs1) (\<lambda>d.
                   let di = dinode_at d (inode_off (i_num (ino fs i)))
                   in if di_type di = 0 then Panic ''ilock: no type''
                      else Ok (upd_ino i (\<lambda>p. p\<lparr>i_d := di, i_valid := True\<rparr>) fs1)))"

definition iunlock :: "nat \<Rightarrow> 'a fsys_scheme \<Rightarrow> 'a fsys_scheme res" where
  "iunlock i fs =
     (if \<not> i_locked (ino fs i) \<or> i_ref (ino fs i) < 1 then Panic ''iunlock''
      else Ok (upd_ino i (\<lambda>p. p\<lparr>i_locked := False\<rparr>) fs))"

text \<open>\<^verbatim>\<open>itrunc\<close>: the direct blocks, then the blocks the indirect block lists, then that block.
  \<^verbatim>\<open>a[j]\<close> is read from the buffer of the indirect block at each turn.\<close>

definition itrunc_direct :: "nat \<Rightarrow> nat \<Rightarrow> 'a fsys_scheme \<Rightarrow> 'a fsys_scheme res" where
  "itrunc_direct i k fs =
     (let a = di_addrs (i_d (ino fs i)) ! k
      in if a \<noteq> 0
         then bindR (bfree (unat a) fs) (\<lambda>fs1. Ok (upd_d i (\<lambda>p. p\<lparr>di_addrs := (di_addrs p)[k := 0]\<rparr>) fs1))
         else Ok fs)"

definition itrunc_indirect :: "nat \<Rightarrow> nat \<Rightarrow> 'a fsys_scheme \<Rightarrow> 'a fsys_scheme res" where
  "itrunc_indirect ib j fs =
     (let a = le32 (fblk fs ib) (4 * j)
      in if a \<noteq> 0 then bfree (unat a) fs else Ok fs)"

definition itrunc :: "nat \<Rightarrow> 'a fsys_scheme \<Rightarrow> 'a fsys_scheme res" where
  "itrunc i fs =
     bindR (eachR (itrunc_direct i) [0 ..< NDIRECT] fs) (\<lambda>fs1.
     bindR (let ia = di_addrs (i_d (ino fs1 i)) ! NDIRECT
            in if ia \<noteq> 0
               then bindR (fread (unat ia) fs1) (\<lambda>d.
                    bindR (eachR (itrunc_indirect (unat ia)) [0 ..< NINDIRECT] fs1) (\<lambda>fs2.
                    bindR (bfree (unat ia) fs2) (\<lambda>fs3.
                    Ok (upd_d i (\<lambda>p. p\<lparr>di_addrs := (di_addrs p)[NDIRECT := 0]\<rparr>) fs3))))
               else Ok fs1)
       (\<lambda>fs4. iupdate i (upd_d i (\<lambda>p. p\<lparr>di_size := 0\<rparr>) fs4)))"

definition iput :: "nat \<Rightarrow> 'a fsys_scheme \<Rightarrow> 'a fsys_scheme res" where
  "iput i fs =
     (if i_locked (ino fs i) then Hang
      else let fs1 = upd_ino i (\<lambda>p. p\<lparr>i_locked := True\<rparr>) fs
           in bindR (if i_valid (ino fs1 i) \<and> di_nlink (i_d (ino fs1 i)) = 0 \<and> i_ref (ino fs1 i) = 1
                     then bindR (itrunc i fs1) (\<lambda>fs2.
                          bindR (iupdate i (upd_d i (\<lambda>p. p\<lparr>di_type := 0\<rparr>) fs2)) (\<lambda>fs3.
                          Ok (upd_ino i (\<lambda>p. p\<lparr>i_valid := False\<rparr>) fs3)))
                     else Ok fs1)
                (\<lambda>fs4. Ok (upd_ino i (\<lambda>p. p\<lparr>i_locked := False, i_ref := i_ref p - 1\<rparr>) fs4)))"

definition iunlockput :: "nat \<Rightarrow> 'a fsys_scheme \<Rightarrow> 'a fsys_scheme res" where
  "iunlockput i fs = bindR (iunlock i fs) (iput i)"

section \<open>File content\<close>

definition bmap :: "nat \<Rightarrow> nat \<Rightarrow> 'a fsys_scheme \<Rightarrow> (nat \<times> 'a fsys_scheme) res" where
  "bmap i bn fs =
     (if bn < NDIRECT
      then let a = di_addrs (i_d (ino fs i)) ! bn
           in if a = 0
              then bindR (balloc fs) (\<lambda>(b, fs1). Ok (b, upd_d i (\<lambda>p. p\<lparr>di_addrs := (di_addrs p)[bn := of_nat b]\<rparr>) fs1))
              else Ok (unat a, fs)
      else if bn - NDIRECT < NINDIRECT
      then let ia = di_addrs (i_d (ino fs i)) ! NDIRECT
           in bindR (if ia = 0
                     then bindR (balloc fs) (\<lambda>(b, fs1).
                            Ok (b, upd_d i (\<lambda>p. p\<lparr>di_addrs := (di_addrs p)[NDIRECT := of_nat b]\<rparr>) fs1))
                     else Ok (unat ia, fs))
                (\<lambda>(ib, fs1).
                   bindR (fread ib fs1) (\<lambda>d.
                   let a = le32 d (4 * (bn - NDIRECT))
                   in if a = 0
                      then bindR (balloc fs1) (\<lambda>(b, fs2).
                           bindR (fwrite ib (put32 (4 * (bn - NDIRECT)) (of_nat b) (fblk fs2 ib)) fs2) (\<lambda>fs3. Ok (b, fs3)))
                      else Ok (unat a, fs1)))
      else Panic ''bmap: out of range'')"

text \<open>The loop of \<^verbatim>\<open>readi\<close>; \<open>left\<close> is \<^verbatim>\<open>n - tot\<close>.\<close>

function readi_loop :: "nat \<Rightarrow> nat \<Rightarrow> nat \<Rightarrow> u8 list \<Rightarrow> 'a fsys_scheme \<Rightarrow> (u8 list \<times> 'a fsys_scheme) res" where
  "readi_loop i off left acc fs =
     (if left = 0 then Ok (acc, fs)
      else bindR (bmap i (off div BSIZE) fs) (\<lambda>(b, fs1).
           bindR (fread b fs1) (\<lambda>d.
           let m = min left (BSIZE - off mod BSIZE)
           in readi_loop i (off + m) (left - m) (acc @ take m (drop (off mod BSIZE) d)) fs1)))"
  by auto
termination by (relation "measure (\<lambda>(i, off, left, acc, fs). left)") auto

declare readi_loop.simps [simp del]

definition readi :: "nat \<Rightarrow> u32 \<Rightarrow> u32 \<Rightarrow> 'a fsys_scheme \<Rightarrow> (int \<times> u8 list \<times> 'a fsys_scheme) res" where
  "readi i off n fs =
     (let di = i_d (ino fs i)
      in if di_type di = T_DEV
         then (if sint (di_major di) < 0 \<or> sint (di_major di) \<ge> int NDEV then Ok (-1, [], fs)
               else case dev_read fs (unat (di_major di)) of
                      None \<Rightarrow> Ok (-1, [], fs)
                    | Some rd \<Rightarrow> (case rd (unat n) of (r, bs) \<Rightarrow> Ok (r, bs, fs)))
         else if off > di_size di \<or> off + n < off then Ok (-1, [], fs)
         else let n1 = (if off + n > di_size di then di_size di - off else n)
              in bindR (readi_loop i (unat off) (unat n1) [] fs) (\<lambda>(bs, fs1). Ok (int (unat n1), bs, fs1)))"

function writei_loop :: "nat \<Rightarrow> nat \<Rightarrow> u8 list \<Rightarrow> 'a fsys_scheme \<Rightarrow> 'a fsys_scheme res" where
  "writei_loop i off src fs =
     (if src = [] then Ok fs
      else bindR (bmap i (off div BSIZE) fs) (\<lambda>(b, fs1).
           bindR (fread b fs1) (\<lambda>d.
           let m = min (length src) (BSIZE - off mod BSIZE)
           in bindR (fwrite b (splice (off mod BSIZE) (take m src) d) fs1)
                (writei_loop i (off + m) (drop m src)))))"
  by auto
termination by (relation "measure (\<lambda>(i, off, src, fs). length src)") auto

declare writei_loop.simps [simp del]

text \<open>\<open>src\<close> holds the \<open>n\<close> bytes to write.\<close>

definition writei :: "nat \<Rightarrow> u8 list \<Rightarrow> u32 \<Rightarrow> u32 \<Rightarrow> 'a fsys_scheme \<Rightarrow> (int \<times> 'a fsys_scheme) res" where
  "writei i src off n fs =
     (let di = i_d (ino fs i)
      in if di_type di = T_DEV
         then (if sint (di_major di) < 0 \<or> sint (di_major di) \<ge> int NDEV then Ok (-1, fs)
               else case dev_write fs (unat (di_major di)) of
                      None \<Rightarrow> Ok (-1, fs)
                    | Some wr \<Rightarrow> Ok (wr src, fs))
         else if off > di_size di \<or> off + n < off then Ok (-1, fs)
         else if off + n > of_nat (MAXFILE * BSIZE) then Ok (-1, fs)
         else bindR (writei_loop i (unat off) src fs) (\<lambda>fs1.
              bindR (if n > 0 \<and> off + n > di_size (i_d (ino fs1 i))
                     then iupdate i (upd_d i (\<lambda>p. p\<lparr>di_size := off + n\<rparr>) fs1)
                     else Ok fs1)
                (\<lambda>fs2. Ok (sint n, fs2))))"

record xstat =
  st_type :: u16
  st_dev :: nat
  st_ino :: nat
  st_nlink :: u16
  st_size :: u32

definition stati :: "nat \<Rightarrow> 'a fsys_scheme \<Rightarrow> xstat" where
  "stati i fs = \<lparr>st_type = di_type (i_d (ino fs i)), st_dev = i_dev (ino fs i), st_ino = i_num (ino fs i),
     st_nlink = di_nlink (i_d (ino fs i)), st_size = di_size (i_d (ino fs i))\<rparr>"

section \<open>Directories\<close>

text \<open>A name in memory is the list of its bytes before the terminator.\<close>

definition cbytes :: "u8 list \<Rightarrow> nat \<Rightarrow> u8" where
  "cbytes xs k = (if k < length xs then xs ! k else 0)"

definition namecmp :: "u8 list \<Rightarrow> u8 list \<Rightarrow> int" where
  "namecmp s t = kstrncmp 0 DIRENT DIRSIZ (\<lambda>a. if a < DIRENT then cbytes s a else cbytes t (a - DIRENT))"

definition de_inum :: "u8 list \<Rightarrow> nat" where
  "de_inum de = unat (le16 de 0)"

definition de_name :: "u8 list \<Rightarrow> u8 list" where
  "de_name de = drop 2 de"

text \<open>The scans over the entries at offsets \<open>0\<close>, \<^verbatim>\<open>sizeof(de)\<close>, ... below \<^verbatim>\<open>dp->size\<close>, which
  \<^verbatim>\<open>readi\<close> does not change.\<close>

definition dir_offsets :: "nat \<Rightarrow> nat list" where
  "dir_offsets sz = map (\<lambda>k. DIRENT * k) [0 ..< (sz + 15) div DIRENT]"

fun dirlookup_loop :: "nat \<Rightarrow> u8 list \<Rightarrow> nat list \<Rightarrow> 'a fsys_scheme \<Rightarrow> ((nat \<times> nat) option \<times> 'a fsys_scheme) res" where
  "dirlookup_loop dp name [] fs = Ok (None, fs)"
| "dirlookup_loop dp name (off # offs) fs =
     bindR (readi dp (of_nat off) (of_nat DIRENT) fs) (\<lambda>(r, de, fs1).
       if r \<noteq> int DIRENT then Panic ''dirlookup read''
       else if de_inum de = 0 then dirlookup_loop dp name offs fs1
       else if namecmp name (de_name de) = 0
       then bindR (iget (de_inum de) fs1) (\<lambda>(ip, fs2). Ok (Some (ip, off), fs2))
       else dirlookup_loop dp name offs fs1)"

definition dirlookup :: "nat \<Rightarrow> u8 list \<Rightarrow> 'a fsys_scheme \<Rightarrow> ((nat \<times> nat) option \<times> 'a fsys_scheme) res" where
  "dirlookup dp name fs =
     (if di_type (i_d (ino fs dp)) \<noteq> T_DIR then Panic ''dirlookup not DIR''
      else dirlookup_loop dp name (dir_offsets (unat (di_size (i_d (ino fs dp))))) fs)"

fun empty_dirent :: "nat \<Rightarrow> nat list \<Rightarrow> 'a fsys_scheme \<Rightarrow> (nat option \<times> 'a fsys_scheme) res" where
  "empty_dirent dp [] fs = Ok (None, fs)"
| "empty_dirent dp (off # offs) fs =
     bindR (readi dp (of_nat off) (of_nat DIRENT) fs) (\<lambda>(r, de, fs1).
       if r \<noteq> int DIRENT then Panic ''dirlink read''
       else if de_inum de = 0 then Ok (Some off, fs1)
       else empty_dirent dp offs fs1)"

definition pad_name :: "u8 list \<Rightarrow> u8 list" where
  "pad_name name = map (kstrncpy DIRENT 0 DIRSIZ (cbytes name)) [DIRENT ..< DIRENT + DIRSIZ]"

definition dirent :: "u8 list \<Rightarrow> nat \<Rightarrow> u8 list" where
  "dirent name inum = bytes16 (of_nat inum) @ pad_name name"

definition dirlink :: "nat \<Rightarrow> u8 list \<Rightarrow> nat \<Rightarrow> 'a fsys_scheme \<Rightarrow> (int \<times> 'a fsys_scheme) res" where
  "dirlink dp name inum fs =
     bindR (dirlookup dp name fs) (\<lambda>(r, fs1).
       case r of
         Some (ip, off) \<Rightarrow> bindR (iput ip fs1) (\<lambda>fs2. Ok (-1, fs2))
       | None \<Rightarrow>
           (let offs = dir_offsets (unat (di_size (i_d (ino fs1 dp))))
            in bindR (empty_dirent dp offs fs1) (\<lambda>(o1, fs2).
               let off = (case o1 of Some k \<Rightarrow> k | None \<Rightarrow> DIRENT * length offs)
               in bindR (writei dp (dirent name inum) (of_nat off) (of_nat DIRENT) fs2) (\<lambda>(r2, fs3).
                  if r2 \<noteq> int DIRENT then Panic ''dirlink'' else Ok (0, fs3)))))"

section \<open>Path names\<close>

abbreviation slash :: u8 where "slash \<equiv> 47"

definition skipelem :: "u8 list \<Rightarrow> (u8 list \<times> u8 list) option" where
  "skipelem path0 =
     (let path = dropWhile (\<lambda>c. c = slash) path0
      in if path = [] then None
         else let s = takeWhile (\<lambda>c. c \<noteq> slash) path; rest = dropWhile (\<lambda>c. c \<noteq> slash) path
              in Some (dropWhile (\<lambda>c. c = slash) rest, if length s \<ge> DIRSIZ then take DIRSIZ s else s))"

lemma skipelem_shorter: "skipelem p = Some (p', name) \<Longrightarrow> length p' < length p"
proof -
  assume a: "skipelem p = Some (p', name)"
  define q where "q = dropWhile (\<lambda>c. c = slash) p"
  have q: "q \<noteq> []" and p': "p' = dropWhile (\<lambda>c. c = slash) (dropWhile (\<lambda>c. c \<noteq> slash) q)"
    using a by (auto simp: skipelem_def q_def Let_def split: if_splits)
  have "hd q \<noteq> slash" using q hd_dropWhile [of "\<lambda>c. c = slash" p] unfolding q_def by blast
  then obtain x xs where "q = x # xs" "x \<noteq> slash" using q by (cases q) auto
  then have "length p' < length q" unfolding p'
    by (auto intro: le_imp_less_Suc order_trans [OF length_dropWhile_le length_dropWhile_le])
  also have "\<dots> \<le> length p" unfolding q_def by (rule length_dropWhile_le)
  finally show ?thesis .
qed

function namex_loop :: "nat \<Rightarrow> u8 list \<Rightarrow> u8 list \<Rightarrow> bool \<Rightarrow> 'a fsys_scheme \<Rightarrow> ((nat \<times> u8 list) option \<times> 'a fsys_scheme) res" where
  "namex_loop ip path name nameiparent fs =
     (case skipelem path of
        None \<Rightarrow>
          if nameiparent then bindR (iput ip fs) (\<lambda>fs1. Ok (None, fs1)) else Ok (Some (ip, name), fs)
      | Some (path1, name1) \<Rightarrow>
          bindR (ilock ip fs) (\<lambda>fs1.
            if di_type (i_d (ino fs1 ip)) \<noteq> T_DIR then bindR (iunlockput ip fs1) (\<lambda>fs2. Ok (None, fs2))
            else if nameiparent \<and> path1 = [] then bindR (iunlock ip fs1) (\<lambda>fs2. Ok (Some (ip, name1), fs2))
            else bindR (dirlookup ip name1 fs1) (\<lambda>(r, fs2).
                 case r of
                   None \<Rightarrow> bindR (iunlockput ip fs2) (\<lambda>fs3. Ok (None, fs3))
                 | Some (nxt, off) \<Rightarrow> bindR (iunlockput ip fs2) (namex_loop nxt path1 name1 nameiparent))))"
  by auto
termination by (relation "measure (\<lambda>(ip, path, name, np, fs). length path)") (auto intro: skipelem_shorter)

declare namex_loop.simps [simp del]

definition namex :: "nat \<Rightarrow> u8 list \<Rightarrow> bool \<Rightarrow> 'a fsys_scheme \<Rightarrow> ((nat \<times> u8 list) option \<times> 'a fsys_scheme) res" where
  "namex cwd path nameiparent fs =
     bindR (if path \<noteq> [] \<and> hd path = slash then iget ROOTINO fs else Ok (cwd, idup cwd fs))
       (\<lambda>(ip, fs1). namex_loop ip path [] nameiparent fs1)"

definition namei :: "nat \<Rightarrow> u8 list \<Rightarrow> 'a fsys_scheme \<Rightarrow> (nat option \<times> 'a fsys_scheme) res" where
  "namei cwd path fs = bindR (namex cwd path False fs) (\<lambda>(r, fs1). Ok (map_option fst r, fs1))"

definition nameiparent :: "nat \<Rightarrow> u8 list \<Rightarrow> 'a fsys_scheme \<Rightarrow> ((nat \<times> u8 list) option \<times> 'a fsys_scheme) res" where
  "nameiparent cwd path fs = namex cwd path True fs"

section \<open>Names of swap files\<close>

text \<open>The digits of \<^verbatim>\<open>itoa\<close>, stored from the last to the first.\<close>

function itoa_digits :: "nat \<Rightarrow> u8 list \<Rightarrow> u8 list" where
  "itoa_digits i acc = (let acc1 = of_nat (48 + i mod 10) # acc in if i div 10 = 0 then acc1 else itoa_digits (i div 10) acc1)"
  by auto
termination by (relation "measure fst") auto

declare itoa_digits.simps [simp del]

definition itoa :: "int \<Rightarrow> u8 list" where
  "itoa i = (if i < 0 then 45 # itoa_digits (nat (- i)) [] else itoa_digits (nat i) [])"

definition swap_path :: "int \<Rightarrow> u8 list" where
  "swap_path pid = [47, 46, 115, 119, 97, 112] @ itoa pid"

end
