(* ===== verification/FsBlocks.thy ===== *)
theory FsBlocks
  imports Fs
begin

text \<open>
  The block interface of the file system on the cache and the log: \<open>fread\<close> and \<open>fwrite\<close> are
  what \<^verbatim>\<open>bread\<close>, a change of \<^verbatim>\<open>bp->data\<close>, \<^verbatim>\<open>log_write\<close> and \<^verbatim>\<open>brelse\<close> do to the content of
  the blocks. Between its block operations a transaction leaves the cache ready to commit.
\<close>

text \<open>The file system state \<open>fs\<close> and the cache \<open>s\<close> agree, outside the log area.\<close>

definition cache_of :: "'a fsys_scheme \<Rightarrow> bcache \<Rightarrow> bool" where
  "cache_of fs s \<longleftrightarrow> commit_ready (flog fs) s \<and>
     (\<forall>c. 0 < c \<longrightarrow> \<not> in_log (flog fs) c \<longrightarrow> fblk fs c = cblk s (ldev (flog fs)) c)"

definition fs_block :: "'a fsys_scheme \<Rightarrow> nat \<Rightarrow> bool" where
  "fs_block fs b \<longleftrightarrow> 0 < b \<and> b < FSSIZE \<and> \<not> in_log (flog fs) b"

definition bread_brelse :: "nat \<Rightarrow> nat \<Rightarrow> bcache \<Rightarrow> (u8 list \<times> bcache) res" where
  "bread_brelse dev b s =
     bindR (bread dev b s) (\<lambda>(i, s1). bindR (brelse i s1) (\<lambda>s2. Ok (bdata (bufs s1 ! i), s2)))"

definition update_block :: "logst \<Rightarrow> nat \<Rightarrow> u8 list \<Rightarrow> bcache \<Rightarrow> (logst \<times> bcache) res" where
  "update_block l b x s =
     bindR (bread (ldev l) b s) (\<lambda>(i, s1).
     bindR (log_write i l (bfill i x s1)) (\<lambda>(l', s2).
     bindR (brelse i s2) (\<lambda>s3. Ok (l', s3))))"

lemma cache_bread:
  assumes c: "commit_ready l s" and b: "0 < b" "b < FSSIZE"
  obtains i s1 where "bread (ldev l) b s = Ok (i, s1)" "bcache_ok s1" "holds s1 i (ldev l) b (cblk s (ldev l) b)" "same_blocks s s1"
    "bdisk s1 = bdisk s" "bwrites s1 = bwrites s" "held s1 = {(ldev l, b)}" "dirty s1 = dirty s"
proof -
  have ok: "bcache_ok s" "held s = {}" "length (bufs s) = NBUF" using c by (simp_all add: commit_ready_def quiet_def)
  note r = commit_readyD [OF c]
  have p: "(ldev l, b) \<noteq> (0, 0)" "(ldev l, b) \<notin> held s" "(ldev l, b) \<in> dirty s \<or> card (dirty s \<union> held s) < length (bufs s)"
    using b ok r(1,2) by simp_all
  obtain i s1 where s1: "bread (ldev l) b s = Ok (i, s1)" "bcache_ok s1" "holds s1 i (ldev l) b (cblk s (ldev l) b)" "same_blocks s s1"
    "bdisk s1 = bdisk s" "bwrites s1 = bwrites s" "held s1 = insert (ldev l, b) (held s)" "dirty s1 = dirty s"
    by (rule bread_ok [OF ok(1) p b(2)])
  show thesis by (rule that [OF s1(1-6) _ s1(8)]) (simp add: s1(7) ok(2))
qed

lemma cache_fread:
  assumes c: "cache_of fs s" and r: "fread b fs = Ok d" and fb: "fs_block fs b"
  obtains s' where "bread_brelse (ldev (flog fs)) b s = Ok (d, s')" "cache_of fs s'" "bdisk s' = bdisk s" "bwrites s' = bwrites s"
proof -
  let ?l = "flog fs"
  have bn: "b < FSSIZE" and d: "d = fblk fs b" using r by (auto simp: fread_def split: if_splits)
  have b: "0 < b" "\<not> in_log ?l b" using fb by (simp_all add: fs_block_def)
  have rdy: "commit_ready ?l s" and v: "\<And>c. 0 < c \<Longrightarrow> \<not> in_log ?l c \<Longrightarrow> fblk fs c = cblk s (ldev ?l) c" using c by (simp_all add: cache_of_def)
  have ok: "bcache_ok s" "held s = {}" using rdy by (simp_all add: commit_ready_def quiet_def)
  obtain i s1 where s1: "bread (ldev ?l) b s = Ok (i, s1)" "bcache_ok s1" "holds s1 i (ldev ?l) b (cblk s (ldev ?l) b)" "same_blocks s s1"
    "bdisk s1 = bdisk s" "bwrites s1 = bwrites s" "held s1 = {(ldev ?l, b)}" "dirty s1 = dirty s"
    by (rule cache_bread [OF rdy b(1) bn])
  have cl: "(ldev ?l, b) \<in> dirty s1 \<or> bdisk s1 (ldev ?l) b = cblk s (ldev ?l) b"
    using clean_block [OF ok(1), of "ldev ?l" b] b ok(2) by (cases "(ldev ?l, b) \<in> dirty s") (simp_all add: s1)
  obtain s2 where s2: "brelse i s1 = Ok s2" "bcache_ok s2" "same_blocks s1 s2" "bdisk s2 = bdisk s1" "bwrites s2 = bwrites s1"
    "held s2 = held s1 - {(ldev ?l, b)}" "dirty s2 = dirty s1"
    by (rule brelse_ok [OF s1(2,3) cl]) blast
  have "commit_ready ?l s2"
    using rdy s1 s2 by (simp add: commit_ready_def quiet_def same_blocks_def)
  moreover have "fblk fs c = cblk s2 (ldev ?l) c" if "0 < c" "\<not> in_log ?l c" for c
    using v [OF that] same_blocksD [OF s1(4), of "ldev ?l" c] same_blocksD [OF s2(3), of "ldev ?l" c] that by simp
  ultimately have "cache_of fs s2" by (simp add: cache_of_def)
  moreover have "bread_brelse (ldev ?l) b s = Ok (d, s2)"
    using s1(1) s2(1) holdsD(5) [OF s1(2,3)] v [OF b] by (simp add: bread_brelse_def d)
  ultimately show thesis using s1 s2 by (intro that [of s2]) simp_all
qed

lemma cache_fwrite:
  assumes c: "cache_of fs s" and w: "fwrite b x fs = Ok fs'" and b: "fs_block fs b"
  obtains s' where "update_block (flog fs) b x s = Ok (flog fs', s')" "cache_of fs' s'" "bdisk s' = bdisk s" "bwrites s' = bwrites s"
proof -
  let ?l = "flog fs"
  have b': "0 < b" "b < FSSIZE" "\<not> in_log ?l b" using b by (simp_all add: fs_block_def)
  obtain l' where l': "log_record b ?l = Ok l'" "fs' = fs\<lparr>flog := l', fblk := (fblk fs)(b := x)\<rparr>"
    using w by (auto simp: fwrite_def bindR_Ok_iff)
  note lr = l'(1) [unfolded log_record_Ok]
  have dl: "ldev l' = ldev ?l" "lstart l' = lstart ?l" "lsize l' = lsize ?l" using lr by (auto split: if_splits)
  have rdy: "commit_ready ?l s" and v: "\<And>c. 0 < c \<Longrightarrow> \<not> in_log ?l c \<Longrightarrow> fblk fs c = cblk s (ldev ?l) c" using c by (simp_all add: cache_of_def)
  obtain i s1 where s1: "bread (ldev ?l) b s = Ok (i, s1)" "bcache_ok s1" "holds s1 i (ldev ?l) b (cblk s (ldev ?l) b)" "same_blocks s s1"
    "bdisk s1 = bdisk s" "bwrites s1 = bwrites s" "held s1 = {(ldev ?l, b)}" "dirty s1 = dirty s"
    by (rule cache_bread [OF rdy b'(1,2)])
  define sf where "sf = bfill i x s1"
  note f = bfill_ok [OF s1(2,3), where ys = x, folded sf_def]
  define sp where "sp = bpin i sf"
  note p = bpin_ok [OF f(1,2), folded sp_def]
  have lw: "log_write i ?l sf = Ok (l', sp)"
    using l'(1) holdsD(2) [OF f(1,2)] by (simp add: log_write_def sp_def bkey_def)
  have cl: "(ldev ?l, b) \<in> dirty sp \<or> bdisk sp (ldev ?l) b = x" by (simp add: p(7))
  obtain s3 where s3: "brelse i sp = Ok s3" "bcache_ok s3" "same_blocks sp s3" "bdisk s3 = bdisk sp" "bwrites s3 = bwrites sp"
    "held s3 = held sp - {(ldev ?l, b)}" "dirty s3 = dirty sp"
    by (rule brelse_ok [OF p(1,2) cl]) blast
  have sl: "set (lhb l') = insert b (set (lhb ?l))" using lr by auto
  have wf: "log_wf l'"
    using rdy lr b' by (auto simp: commit_ready_def log_wf_def in_log_def)
  have "commit_ready l' s3"
    unfolding commit_ready_def dl
  proof (intro conjI)
    show "quiet s3" using s3 p f s1 by (simp add: quiet_def)
    show "length (bufs s3) = NBUF"
      using rdy s3(3) p(3) f(8) s1(4) by (simp add: commit_ready_def same_blocks_def)
    show "log_wf l'" by (rule wf)
    show "dirty s3 = {(ldev ?l, b) |b. b \<in> set (lhb l')}"
      using rdy s3(7) p(7) f(7) s1(8) sl by (auto simp: commit_ready_def)
    show "length (bdisk s3 (ldev ?l) (lstart ?l)) = BSIZE" "hdr_read (bdisk s3 (ldev ?l) (lstart ?l)) = []"
      using rdy s3(4) p(4) f(4) s1(5) by (simp_all add: commit_ready_def)
  qed
  moreover have "fblk fs' c = cblk s3 (ldev ?l) c" if c0: "0 < c" "\<not> in_log ?l c" for c
  proof -
    have d: "(ldev ?l, c) \<noteq> (0, 0)" using c0 by simp
    have "cblk s3 (ldev ?l) c = (if c = b then x else cblk s (ldev ?l) c)"
      using same_blocksD [OF s3(3) d] same_blocksD [OF p(3) d] f(3) [OF d] same_blocksD [OF s1(4) d] by simp
    then show ?thesis using v [OF c0] l'(2) by simp
  qed
  ultimately have "cache_of fs' s3" using l'(2) dl by (simp add: cache_of_def in_log_def)
  moreover have "update_block ?l b x s = Ok (flog fs', s3)"
    using s1(1) lw s3(1) l'(2) by (simp add: update_block_def sf_def)
  ultimately show thesis using s1 s3 p f by (intro that [of s3]) simp_all
qed

lemma cache_blocks:
  assumes "cache_of fs s" "fs_block fs b" "fread b fs = Ok d"
  shows "\<exists>s'. bread_brelse (ldev (flog fs)) b s = Ok (d, s') \<and> cache_of fs s'"
    "fwrite b x fs = Ok fs' \<Longrightarrow> \<exists>s'. update_block (flog fs) b x s = Ok (flog fs', s') \<and> cache_of fs' s' \<and> bwrites s' = bwrites s"
proof -
  show "\<exists>s'. bread_brelse (ldev (flog fs)) b s = Ok (d, s') \<and> cache_of fs s'"
    by (rule cache_fread [OF assms(1,3,2)]) blast
  show "fwrite b x fs = Ok fs' \<Longrightarrow> \<exists>s'. update_block (flog fs) b x s = Ok (flog fs', s') \<and> cache_of fs' s' \<and> bwrites s' = bwrites s"
    by (rule cache_fwrite [OF assms(1) _ assms(2)]) blast+
qed

section \<open>Transactions at the level of blocks\<close>

text \<open>\<^verbatim>\<open>begin_op\<close> returns if there is room in the log, else it sleeps. \<^verbatim>\<open>end_op\<close> of the last
  outstanding call commits: no block changes, and the log is empty again.\<close>

definition fs_begin :: "'a fsys_scheme \<Rightarrow> 'a fsys_scheme res" where
  "fs_begin fs = (case begin_op (flog fs) of None \<Rightarrow> Hang | Some l \<Rightarrow> Ok (fs\<lparr>flog := l\<rparr>))"

definition fs_end :: "'a fsys_scheme \<Rightarrow> 'a fsys_scheme res" where
  "fs_end fs =
     bindR (end_op_first (flog fs)) (\<lambda>(do_commit, l).
       Ok (fs\<lparr>flog := if do_commit then l\<lparr>lhb := [], committing := False\<rparr> else l\<rparr>))"

lemma cache_of_flog:
  assumes "lstart l = lstart (flog fs)" "lsize l = lsize (flog fs)" "ldev l = ldev (flog fs)" "lhb l = lhb (flog fs)"
  shows "cache_of (fs\<lparr>flog := l\<rparr>) s = cache_of fs s"
  using assms by (simp add: cache_of_def commit_ready_def log_wf_def in_log_def)

lemma commit_ready_cong:
  assumes "lstart l = lstart l'" "lsize l = lsize l'" "ldev l = ldev l'" "lhb l = lhb l'"
  shows "commit_ready l s = commit_ready l' s"
  using assms by (simp add: commit_ready_def log_wf_def)

lemma begin_keeps_cache:
  assumes "cache_of fs s" "fs_begin fs = Ok fs'"
  shows "cache_of fs' s" "fblk fs' = fblk fs"
  using assms by (auto simp: fs_begin_def begin_op_Some cache_of_flog split: option.splits)

lemma header_cleared:
  assumes "commit_ready l s" "lhb l \<noteq> []"
  shows "let x = after_writes (commit_writes l s) (bdisk s) (ldev l) (lstart l) in length x = BSIZE \<and> hdr_read x = []"
proof -
  note r = commit_readyD [OF assms(1)]
  define h where "h = hdr_write (lhb l) (cblk s (ldev l) (lstart l))"
  have "length (cblk s (ldev l) (lstart l)) = BSIZE" using r(7) assms by (simp add: commit_ready_def)
  then have "length h = BSIZE" using r(2) by (simp add: h_def)
  moreover have "\<exists>ws. commit_writes l s = ws @ [(ldev l, lstart l, hdr_write [] h)]"
    unfolding commit_writes_def Let_def h_def by (simp only: append_assoc [symmetric]) blast
  then have "after_writes (commit_writes l s) (bdisk s) (ldev l) (lstart l) = hdr_write [] h"
    by (auto simp: after_writes_simps dwrite_def)
  ultimately show ?thesis by (simp add: hdr_read_empty Let_def)
qed

lemma commit_keeps_cache:
  assumes c: "cache_of fs s"
  obtains s' where "commit (flog fs) s = Ok ((flog fs)\<lparr>lhb := []\<rparr>, s')" "cache_of (fs\<lparr>flog := (flog fs)\<lparr>lhb := []\<rparr>\<rparr>) s'"
proof (cases "lhb (flog fs) = []")
  case True
  then have e: "(flog fs)\<lparr>lhb := []\<rparr> = flog fs" by simp
  show ?thesis by (rule that [of s, unfolded e]) (simp_all add: commit_def True c)
next
  case False
  let ?l = "flog fs"
  have rdy: "commit_ready ?l s" using c by (simp add: cache_of_def)
  obtain s' where s': "commit ?l s = Ok (?l\<lparr>lhb := []\<rparr>, s')" "quiet s'" "dirty s' = {}" "length (bufs s') = NBUF"
    "bdisk s' = after_writes (commit_writes ?l s) (bdisk s)"
    "\<And>c. 0 < c \<Longrightarrow> \<not> in_log ?l c \<Longrightarrow> cblk s' (ldev ?l) c = cblk s (ldev ?l) c"
    by (rule commit_ok [OF rdy False]) blast
  have "commit_ready (?l\<lparr>lhb := []\<rparr>) s'"
    using rdy s' header_cleared [OF rdy False] by (auto simp: commit_ready_def log_wf_def Let_def)
  then have "cache_of (fs\<lparr>flog := ?l\<lparr>lhb := []\<rparr>\<rparr>) s'"
    using c s'(6) by (simp add: cache_of_def in_log_def)
  with s'(1) show ?thesis by (rule that)
qed

lemma end_keeps_cache:
  assumes c: "cache_of fs s" and e: "fs_end fs = Ok fs'"
  shows "\<exists>s'. end_op (flog fs) s = Ok (flog fs', s') \<and> cache_of fs' s' \<and> fblk fs' = fblk fs"
proof -
  obtain b l1 where l1: "end_op_first (flog fs) = Ok (b, l1)" and fs': "fs' = fs\<lparr>flog := if b then l1\<lparr>lhb := [], committing := False\<rparr> else l1\<rparr>"
    using e by (auto simp: fs_end_def bindR_Ok_iff)
  have same: "lstart l1 = lstart (flog fs)" "lsize l1 = lsize (flog fs)" "ldev l1 = ldev (flog fs)" "lhb l1 = lhb (flog fs)"
    using l1 by (auto simp: end_op_first_Ok split: if_splits)
  have c1: "cache_of (fs\<lparr>flog := l1\<rparr>) s" using c by (simp add: cache_of_flog [OF same])
  show ?thesis
  proof (cases b)
    case True
    obtain s' where s': "commit l1 s = Ok (l1\<lparr>lhb := []\<rparr>, s')" "cache_of (fs\<lparr>flog := l1\<lparr>lhb := []\<rparr>\<rparr>) s'"
      by (rule commit_keeps_cache [OF c1]) simp
    have "cache_of fs' s'"
      using s'(2) cache_of_flog [of "l1\<lparr>lhb := [], committing := False\<rparr>" "fs\<lparr>flog := l1\<lparr>lhb := []\<rparr>\<rparr>" s'] True by (simp add: fs')
    then show ?thesis using l1 s'(1) True by (auto simp: end_op_def fs')
  next
    case False
    then show ?thesis using l1 c1 by (auto simp: end_op_def fs')
  qed
qed

end
