(* ===== verification/FsAlloc.thy ===== *)
theory FsAlloc
  imports Fs
begin

text \<open>
  The block allocator (\<^verbatim>\<open>balloc\<close>, \<^verbatim>\<open>bfree\<close>, \<^verbatim>\<open>bzero\<close>) against its specification: the bitmap
  is the set of blocks in use, \<^verbatim>\<open>balloc\<close> takes the least free block and zeroes it,
  \<^verbatim>\<open>bfree\<close> gives one back. The layout is the one \<^verbatim>\<open>mkfs\<close> writes.
\<close>

section \<open>Layout\<close>

definition geom_ok :: "superblock \<Rightarrow> bool" where
  "geom_ok sb \<longleftrightarrow> 1 < sb_logstart sb \<and> sb_logstart sb + sb_nlog sb \<le> sb_inodestart sb \<and>
     sb_inodestart sb + sb_ninodes sb div IPB < sb_bmapstart sb \<and> sb_bmapstart sb + sb_size sb div BPB < sb_size sb \<and>
     sb_size sb \<le> FSSIZE"

definition data_block :: "superblock \<Rightarrow> nat \<Rightarrow> bool" where
  "data_block sb b \<longleftrightarrow> sb_bmapstart sb + sb_size sb div BPB < b \<and> b < sb_size sb"

definition bused :: "'a fsys_scheme \<Rightarrow> nat \<Rightarrow> bool" where
  "bused fs b \<longleftrightarrow> bit (fblk fs (BBLOCK b (fsb fs)) ! (b mod BPB div 8)) (b mod 8)"

definition blocks_ok :: "'a fsys_scheme \<Rightarrow> bool" where
  "blocks_ok fs \<longleftrightarrow> geom_ok (fsb fs) \<and> (\<forall>b < FSSIZE. length (fblk fs b) = BSIZE) \<and>
     (\<forall>b < sb_size (fsb fs). \<not> data_block (fsb fs) b \<longrightarrow> bused fs b)"

text \<open>Room in the transaction for \<open>k\<close> more block writes.\<close>

definition log_room :: "'a fsys_scheme \<Rightarrow> nat \<Rightarrow> bool" where
  "log_room fs k \<longleftrightarrow> length (lhb (flog fs)) + k < lsize (flog fs) \<and> length (lhb (flog fs)) + k \<le> LOGSIZE \<and> 1 \<le> outstanding (flog fs)"

lemma log_room_mono: "log_room fs k \<Longrightarrow> j \<le> k \<Longrightarrow> log_room fs j"
  by (auto simp: log_room_def)

section \<open>One block write\<close>

lemma fwrite_Ok:
  "fwrite b d fs = Ok fs' \<longleftrightarrow> (\<exists>l. log_record b (flog fs) = Ok l \<and> fs' = fs\<lparr>flog := l, fblk := (fblk fs)(b := d)\<rparr>)"
  by (auto simp: fwrite_def bindR_Ok_iff)

lemma fwriteD:
  assumes "fwrite b d fs = Ok fs'"
  shows "fblk fs' = (fblk fs)(b := d)" "icache fs' = icache fs" "fsb fs' = fsb fs" "dev_read fs' = dev_read fs"
    "dev_write fs' = dev_write fs" "fsys.more fs' = fsys.more fs"
  using assms by (auto simp: fwrite_Ok)

lemma fwrite_room:
  assumes "log_room fs (Suc k)"
  obtains fs' where "fwrite b d fs = Ok fs'" "log_room fs' k"
proof -
  have "log_record b (flog fs) = Ok (if b \<in> set (lhb (flog fs)) then flog fs else (flog fs)\<lparr>lhb := lhb (flog fs) @ [b]\<rparr>)"
    using assms by (auto simp: log_record_Ok log_room_def)
  then have "fwrite b d fs = Ok (fs\<lparr>flog := (if b \<in> set (lhb (flog fs)) then flog fs else (flog fs)\<lparr>lhb := lhb (flog fs) @ [b]\<rparr>),
      fblk := (fblk fs)(b := d)\<rparr>)" by (simp add: fwrite_def)
  then show thesis by (rule that) (use assms in \<open>simp add: log_room_def\<close>)
qed

lemma fread_Ok: "fread b fs = Ok d \<longleftrightarrow> b < FSSIZE \<and> d = fblk fs b"
  by (auto simp: fread_def)

section \<open>Bits\<close>

lemma bit_mask_test: "w AND bit_mask bi = 0 \<longleftrightarrow> \<not> bit w (bi mod 8)"
  by (simp add: bit_mask_def push_bit_of_1 and_exp_eq_0_iff_not_bit)

lemma bit_set_mask: "n < 8 \<Longrightarrow> bit (w OR bit_mask bi) n \<longleftrightarrow> n = bi mod 8 \<or> bit w n"
  by (auto simp: bit_mask_def bit_or_iff push_bit_of_1 bit_exp_iff)

lemma bit_clear_mask: "n < 8 \<Longrightarrow> bit (w AND NOT (bit_mask bi)) n \<longleftrightarrow> n \<noteq> bi mod 8 \<and> bit w n" for w :: u8
  by (auto simp: bit_mask_def bit_and_iff bit_not_iff push_bit_of_1 bit_exp_iff)

lemma balloc_bit_Some:
  "balloc_bit d lim bi = Some k \<longleftrightarrow> bi \<le> k \<and> k < lim \<and> \<not> bit (d ! (k div 8)) (k mod 8) \<and>
     (\<forall>j. bi \<le> j \<longrightarrow> j < k \<longrightarrow> bit (d ! (j div 8)) (j mod 8))"
proof (induction d lim bi rule: balloc_bit.induct)
  case (1 d lim bi)
  consider "\<not> bi < lim" | "bi < lim" "\<not> bit (d ! (bi div 8)) (bi mod 8)" | "bi < lim" "bit (d ! (bi div 8)) (bi mod 8)" by blast
  then show ?case
  proof cases
    case 1
    then show ?thesis by (simp add: balloc_bit.simps [of d lim bi])
  next
    case 2
    then show ?thesis by (auto simp: balloc_bit.simps [of d lim bi] bit_mask_test)
  next
    case 3
    then have "balloc_bit d lim bi = balloc_bit d lim (bi + 1)" by (simp add: balloc_bit.simps [of d lim bi] bit_mask_test)
    moreover have "d ! (bi div 8) AND bit_mask bi \<noteq> 0" using 3 by (simp add: bit_mask_test)
    ultimately show ?thesis
      using 1 3 by simp (metis Suc_leD Suc_leI le_neq_implies_less order_refl)
  qed
qed

lemma balloc_bit_None:
  "balloc_bit d lim bi = None \<longleftrightarrow> (\<forall>j. bi \<le> j \<longrightarrow> j < lim \<longrightarrow> bit (d ! (j div 8)) (j mod 8))"
proof (induction d lim bi rule: balloc_bit.induct)
  case (1 d lim bi)
  show ?case
  proof (cases "bi < lim \<and> bit (d ! (bi div 8)) (bi mod 8)")
    case True
    then have "balloc_bit d lim bi = balloc_bit d lim (bi + 1)" by (simp add: balloc_bit.simps [of d lim bi] bit_mask_test)
    moreover have "d ! (bi div 8) AND bit_mask bi \<noteq> 0" using True by (simp add: bit_mask_test)
    ultimately show ?thesis using 1 True by simp (metis Suc_leD Suc_leI le_neq_implies_less)
  next
    case False
    then show ?thesis by (auto simp: balloc_bit.simps [of d lim bi] bit_mask_test)
  qed
qed

section \<open>Geometry\<close>

lemma geomD:
  assumes "geom_ok sb"
  shows "sb_size sb \<le> FSSIZE" "sb_size sb div BPB = 0" "b < sb_size sb \<Longrightarrow> BBLOCK b sb = sb_bmapstart sb" "sb_bmapstart sb < sb_size sb"
    "0 < sb_bmapstart sb" "\<not> data_block sb (sb_bmapstart sb)" "b < sb_size sb \<Longrightarrow> b mod BPB = b" "b < sb_size sb \<Longrightarrow> b mod BPB div 8 < BSIZE"
    "inum < sb_ninodes sb \<Longrightarrow> IBLOCK inum sb < sb_bmapstart sb" "inum < sb_ninodes sb \<Longrightarrow> sb_logstart sb + sb_nlog sb \<le> IBLOCK inum sb"
    "1 < sb_logstart sb"
proof -
  show "sb_size sb \<le> FSSIZE" "sb_bmapstart sb < sb_size sb" "0 < sb_bmapstart sb" "1 < sb_logstart sb" using assms by (auto simp: geom_ok_def)
  then show "sb_size sb div BPB = 0" by simp
  then show "\<not> data_block sb (sb_bmapstart sb)" by (simp add: data_block_def)
  show "BBLOCK b sb = sb_bmapstart sb" "b mod BPB = b" "b mod BPB div 8 < BSIZE" if "b < sb_size sb"
    using that \<open>sb_size sb \<le> FSSIZE\<close> by (simp_all add: BBLOCK_def)
  assume "inum < sb_ninodes sb"
  then have "inum div IPB \<le> sb_ninodes sb div IPB" by (simp add: div_le_mono)
  then show "IBLOCK inum sb < sb_bmapstart sb" "sb_logstart sb + sb_nlog sb \<le> IBLOCK inum sb"
    using assms by (auto simp: geom_ok_def IBLOCK_def)
qed

lemma bused_bit: "geom_ok (fsb fs) \<Longrightarrow> b < sb_size (fsb fs) \<Longrightarrow> bused fs b \<longleftrightarrow> bit (fblk fs (sb_bmapstart (fsb fs)) ! (b div 8)) (b mod 8)"
  using geomD(3,7) [of "fsb fs" b] by (simp add: bused_def)

lemma blocks_okD:
  assumes "blocks_ok fs"
  shows "geom_ok (fsb fs)" "b < FSSIZE \<Longrightarrow> length (fblk fs b) = BSIZE" "b < sb_size (fsb fs) \<Longrightarrow> \<not> bused fs b \<Longrightarrow> data_block (fsb fs) b"
  using assms by (auto simp: blocks_ok_def)

lemma data_blockD: "geom_ok sb \<Longrightarrow> data_block sb b \<Longrightarrow> b < sb_size sb \<and> b < FSSIZE \<and> 0 < b \<and> sb_bmapstart sb < b"
  using geomD(1,2) [of sb] by (simp add: data_block_def)

text \<open>Writing a block other than the bitmap does not change which blocks are in use.\<close>

lemma bused_other:
  assumes "geom_ok (fsb fs)" "fsb fs' = fsb fs" "fblk fs' = (fblk fs)(c := d)" "c \<noteq> sb_bmapstart (fsb fs)" "b < sb_size (fsb fs)"
  shows "bused fs' b = bused fs b"
  using assms by (simp add: bused_def geomD(3))

lemma blocks_ok_write:
  assumes "blocks_ok fs" "fsb fs' = fsb fs" "fblk fs' = (fblk fs)(c := d)" "c \<noteq> sb_bmapstart (fsb fs)" "length d = BSIZE"
  shows "blocks_ok fs'"
  using assms bused_other [OF blocks_okD(1) [OF assms(1)] assms(2-4)] by (simp add: blocks_ok_def)

section \<open>The bitmap as a set\<close>

text \<open>Changing one bit of the bitmap.\<close>

lemma bitmap_update:
  assumes ok: "blocks_ok fs" and b: "b < sb_size (fsb fs)" and sb: "fsb fs' = fsb fs"
    and f: "fblk fs' (sb_bmapstart (fsb fs)) = (fblk fs (sb_bmapstart (fsb fs)))[b div 8 := w]"
    and w: "\<And>n. n < 8 \<Longrightarrow> bit w n = (if n = b mod 8 then u else bit (fblk fs (sb_bmapstart (fsb fs)) ! (b div 8)) n)"
    and c: "c < sb_size (fsb fs)"
  shows "bused fs' c = (if c = b then u else bused fs c)"
proof -
  note g = blocks_okD(1) [OF ok]
  have l: "length (fblk fs (sb_bmapstart (fsb fs))) = BSIZE" using blocks_okD(2) [OF ok] geomD(1,4) [OF g] by simp
  have b8: "b div 8 < BSIZE" using geomD(1) [OF g] b by simp
  have e: "c = b \<longleftrightarrow> c div 8 = b div 8 \<and> c mod 8 = b mod 8" by (metis div_mult_mod_eq)
  have "bused fs' c = bit ((fblk fs (sb_bmapstart (fsb fs)))[b div 8 := w] ! (c div 8)) (c mod 8)"
    using bused_bit [of fs' c] g c sb f by simp
  also have "\<dots> = (if c = b then u else bused fs c)"
    using bused_bit [OF g c] w [of "c mod 8"] l b8 e by (cases "c div 8 = b div 8") auto
  finally show ?thesis .
qed

definition balloced :: "nat \<Rightarrow> 'a fsys_scheme \<Rightarrow> 'a fsys_scheme \<Rightarrow> bool" where
  "balloced b fs fs' \<longleftrightarrow> blocks_ok fs' \<and> data_block (fsb fs) b \<and> \<not> bused fs b \<and> (\<forall>c < b. bused fs c) \<and>
     (\<forall>c < sb_size (fsb fs). bused fs' c = (c = b \<or> bused fs c)) \<and> fblk fs' b = replicate BSIZE 0 \<and>
     (\<forall>c. c \<noteq> b \<longrightarrow> c \<noteq> sb_bmapstart (fsb fs) \<longrightarrow> fblk fs' c = fblk fs c) \<and> fsb fs' = fsb fs \<and> icache fs' = icache fs \<and>
     dev_read fs' = dev_read fs \<and> dev_write fs' = dev_write fs \<and> fsys.more fs' = fsys.more fs"

lemma balloc_unfold:
  assumes "blocks_ok fs"
  shows "balloc fs = (case balloc_bit (fblk fs (sb_bmapstart (fsb fs))) (sb_size (fsb fs)) 0 of
      Some bi \<Rightarrow> bindR (fwrite (sb_bmapstart (fsb fs)) ((fblk fs (sb_bmapstart (fsb fs)))[bi div 8 :=
          fblk fs (sb_bmapstart (fsb fs)) ! (bi div 8) OR bit_mask bi]) fs) (\<lambda>fs1. bindR (bzero bi fs1) (\<lambda>fs2. Ok (bi, fs2)))
    | None \<Rightarrow> Panic ''balloc: out of blocks'')"
proof -
  note g = geomD [OF blocks_okD(1) [OF assms]]
  have "fread (BBLOCK 0 (fsb fs)) fs = Ok (fblk fs (sb_bmapstart (fsb fs)))" using g(1,4) g(3) [of 0] by (simp add: fread_def)
  moreover have "balloc_from BPB fs = Panic ''balloc: out of blocks''" using g(1) by (simp add: balloc_from.simps)
  moreover have "min BPB (sb_size (fsb fs)) = sb_size (fsb fs)" "0 < sb_size (fsb fs)" using g(1,4) by simp_all
  ultimately show ?thesis
    using g(3) [of 0] unfolding balloc_def by (subst balloc_from.simps) (simp split: option.split)
qed

lemma balloc_spec:
  assumes ok: "blocks_ok fs" and r: "balloc fs = Ok (b, fs')"
  shows "balloced b fs fs'"
proof -
  let ?m = "sb_bmapstart (fsb fs)"
  note g = blocks_okD(1) [OF ok]
  obtain fs1 where s: "balloc_bit (fblk fs ?m) (sb_size (fsb fs)) 0 = Some b"
    and w: "fwrite ?m ((fblk fs ?m)[b div 8 := fblk fs ?m ! (b div 8) OR bit_mask b]) fs = Ok fs1" and z: "bzero b fs1 = Ok fs'"
    using r unfolding balloc_unfold [OF ok] by (auto simp: bindR_Ok_iff split: option.splits)
  note s' = s [unfolded balloc_bit_Some]
  have b: "b < sb_size (fsb fs)" using s' by simp
  have nu: "\<not> bused fs b" using bused_bit [OF g b] s' by simp
  have lt: "\<forall>c < b. bused fs c" using bused_bit [OF g] s' b by auto
  have db: "data_block (fsb fs) b" by (rule blocks_okD(3) [OF ok b nu])
  have bm: "b \<noteq> ?m" using data_blockD [OF g db] by simp
  note f1 = fwriteD [OF w]
  have z': "fwrite b (replicate BSIZE 0) fs1 = Ok fs'" using z by (auto simp: bzero_def bindR_Ok_iff)
  note f2 = fwriteD [OF z']
  have l: "length (fblk fs ?m) = BSIZE" using blocks_okD(2) [OF ok] geomD(1,4) [OF g] by simp
  have u: "bused fs' c = (c = b \<or> bused fs c)" if c: "c < sb_size (fsb fs)" for c
  proof -
    have "bused fs' c = (if c = b then True else bused fs c)"
      by (rule bitmap_update [OF ok b _ _ _ c, where w = "fblk fs ?m ! (b div 8) OR bit_mask b"])
        (use bm in \<open>simp_all add: f1 f2 bit_set_mask\<close>)
    then show ?thesis by simp
  qed
  have sm: "\<not> data_block (fsb fs) c \<Longrightarrow> c < sb_size (fsb fs) \<Longrightarrow> bused fs c" for c using ok by (simp add: blocks_ok_def)
  have len: "length (fblk fs' c) = BSIZE" if "c < FSSIZE" for c
    using blocks_okD(2) [OF ok that] l by (simp add: f1 f2)
  have "blocks_ok fs'"
    unfolding blocks_ok_def using g u sm len by (simp add: f1 f2)
  then show ?thesis unfolding balloced_def using db nu lt u by (simp add: f1 f2)
qed

lemma balloc_total:
  assumes ok: "blocks_ok fs"
  shows "log_room fs (k + 2) \<Longrightarrow> b < sb_size (fsb fs) \<Longrightarrow> \<not> bused fs b \<Longrightarrow> \<exists>b' fs'. balloc fs = Ok (b', fs') \<and> log_room fs' k"
    "\<forall>b < sb_size (fsb fs). bused fs b \<Longrightarrow> balloc fs = Panic ''balloc: out of blocks''"
proof -
  let ?m = "sb_bmapstart (fsb fs)"
  note g = blocks_okD(1) [OF ok]
  show "\<forall>b < sb_size (fsb fs). bused fs b \<Longrightarrow> balloc fs = Panic ''balloc: out of blocks''"
    using bused_bit [OF g] by (simp add: balloc_unfold [OF ok] balloc_bit_None [THEN iffD2])
  assume r: "log_room fs (k + 2)" and b: "b < sb_size (fsb fs)" "\<not> bused fs b"
  have "balloc_bit (fblk fs ?m) (sb_size (fsb fs)) 0 \<noteq> None"
    unfolding balloc_bit_None using b bused_bit [OF g b(1)] by auto
  then obtain bi where bi: "balloc_bit (fblk fs ?m) (sb_size (fsb fs)) 0 = Some bi" by blast
  then have bl: "bi < FSSIZE" using geomD(1) [OF g] unfolding balloc_bit_Some by simp
  have r2: "log_room fs (Suc (Suc k))" using r by simp
  obtain fs1 where f1: "fwrite ?m ((fblk fs ?m)[bi div 8 := fblk fs ?m ! (bi div 8) OR bit_mask bi]) fs = Ok fs1" "log_room fs1 (Suc k)"
    by (rule fwrite_room [OF r2])
  obtain fs2 where f2: "fwrite bi (replicate BSIZE 0) fs1 = Ok fs2" "log_room fs2 k"
    by (rule fwrite_room [OF f1(2)])
  have "balloc fs = Ok (bi, fs2)" unfolding balloc_unfold [OF ok] using bi f1(1) f2(1) bl by (simp add: bzero_def fread_def)
  then show "\<exists>b' fs'. balloc fs = Ok (b', fs') \<and> log_room fs' k" using f2(2) by blast
qed

definition bfreed :: "nat \<Rightarrow> 'a fsys_scheme \<Rightarrow> 'a fsys_scheme \<Rightarrow> bool" where
  "bfreed b fs fs' \<longleftrightarrow> (data_block (fsb fs) b \<longrightarrow> blocks_ok fs') \<and>
     (\<forall>c < sb_size (fsb fs). bused fs' c = (c \<noteq> b \<and> bused fs c)) \<and>
     (\<forall>c. c \<noteq> sb_bmapstart (fsb fs) \<longrightarrow> fblk fs' c = fblk fs c) \<and> fsb fs' = fsb fs \<and> icache fs' = icache fs \<and>
     dev_read fs' = dev_read fs \<and> dev_write fs' = dev_write fs \<and> fsys.more fs' = fsys.more fs"

lemma bfree_unfold:
  assumes "blocks_ok fs" "b < sb_size (fsb fs)"
  shows "bfree b fs = (if bused fs b
    then fwrite (sb_bmapstart (fsb fs)) ((fblk fs (sb_bmapstart (fsb fs)))[b div 8 := fblk fs (sb_bmapstart (fsb fs)) ! (b div 8) AND NOT (bit_mask b)]) fs
    else Panic ''freeing free block'')"
proof -
  note g = blocks_okD(1) [OF assms(1)]
  have "fread (BBLOCK b (fsb fs)) fs = Ok (fblk fs (sb_bmapstart (fsb fs)))"
    using geomD(1,4) [OF g] geomD(3) [OF g assms(2)] by (simp add: fread_def)
  then show ?thesis
    using geomD(3,7) [OF g assms(2)] bused_bit [OF g assms(2)] by (simp add: bfree_def Let_def bit_mask_test)
qed

lemma bfree_spec:
  assumes ok: "blocks_ok fs" and b: "b < sb_size (fsb fs)"
  shows "bfree b fs = Ok fs' \<Longrightarrow> bused fs b \<and> bfreed b fs fs'"
    "bused fs b \<Longrightarrow> log_room fs (Suc k) \<Longrightarrow> \<exists>fs'. bfree b fs = Ok fs' \<and> log_room fs' k"
    "\<not> bused fs b \<Longrightarrow> bfree b fs = Panic ''freeing free block''"
proof -
  let ?m = "sb_bmapstart (fsb fs)"
  note g = blocks_okD(1) [OF ok] and un = bfree_unfold [OF ok b]
  show "\<not> bused fs b \<Longrightarrow> bfree b fs = Panic ''freeing free block''" by (simp add: un)
  show "\<exists>fs'. bfree b fs = Ok fs' \<and> log_room fs' k" if "bused fs b" "log_room fs (Suc k)"
    using fwrite_room [OF that(2)] that(1) unfolding un by (metis (full_types))
  assume r: "bfree b fs = Ok fs'"
  have u: "bused fs b" using r un by (auto split: if_splits)
  have w: "fwrite ?m ((fblk fs ?m)[b div 8 := fblk fs ?m ! (b div 8) AND NOT (bit_mask b)]) fs = Ok fs'" using r u by (simp add: un)
  note f = fwriteD [OF w]
  have us: "bused fs' c = (c \<noteq> b \<and> bused fs c)" if c: "c < sb_size (fsb fs)" for c
  proof -
    have "bused fs' c = (if c = b then False else bused fs c)"
      by (rule bitmap_update [OF ok b _ _ _ c, where w = "fblk fs ?m ! (b div 8) AND NOT (bit_mask b)"])
        (simp_all add: f bit_clear_mask)
    then show ?thesis by simp
  qed
  have len: "length (fblk fs' c) = BSIZE" if "c < FSSIZE" for c
    using blocks_okD(2) [OF ok that] blocks_okD(2) [OF ok, of ?m] geomD(1,4) [OF g] by (simp add: f)
  have "blocks_ok fs'" if "data_block (fsb fs) b"
    unfolding blocks_ok_def using g us len that ok by (auto simp: f blocks_ok_def)
  then have "bfreed b fs fs'" using us by (simp add: bfreed_def f)
  then show "bused fs b \<and> bfreed b fs fs'" using u by simp
qed

end
