(* ===== verification/FsInode.thy ===== *)
theory FsInode
  imports FsAlloc
begin

text \<open>
  Inodes: the on-disk form and its round trip, \<^verbatim>\<open>iupdate\<close>, \<^verbatim>\<open>ilock\<close>, \<^verbatim>\<open>ialloc\<close>, the
  inode cache (\<^verbatim>\<open>iget\<close>, \<^verbatim>\<open>idup\<close>, \<^verbatim>\<open>iunlock\<close>), and the blocks and bytes of a file:
  \<^verbatim>\<open>bmap\<close>, \<^verbatim>\<open>readi\<close> and \<^verbatim>\<open>writei\<close> against the content of the file as a function of
  the offset.
\<close>

section \<open>The on-disk inode\<close>

lemma le16_put16_ucast [simp]: "k + 2 \<le> length bs \<Longrightarrow> le16 (put16 k (ucast (w :: u16)) bs) k = ucast w"
  by (rule le16_put16 [OF _ u16_roundtrip(2)])

lemma length_put_addrs [simp]:
  "k + 12 + 4 * n \<le> length d \<Longrightarrow> length (fold (\<lambda>i. put32 (k + 12 + 4 * i) (w i)) [0 ..< n] d) = length d"
  by (induction n) auto

lemma le32_put_addrs:
  "k + 12 + 4 * n \<le> length d \<Longrightarrow> i < n \<Longrightarrow> le32 (fold (\<lambda>i. put32 (k + 12 + 4 * i) (w i)) [0 ..< n] d) (k + 12 + 4 * i) = w i"
proof (induction n)
  case (Suc n)
  then show ?case by (cases "i = n") (simp_all add: le32_put32_other)
qed simp

lemma nth_put_addrs:
  "k + 12 + 4 * n \<le> length d \<Longrightarrow> j < length d \<Longrightarrow> j < k + 12 \<or> k + 12 + 4 * n \<le> j \<Longrightarrow>
   fold (\<lambda>i. put32 (k + 12 + 4 * i) (w i)) [0 ..< n] d ! j = d ! j"
  by (induction n) (auto simp: nth_put32)

lemma length_put_dinode [simp]: "k + 64 \<le> length d \<Longrightarrow> length (put_dinode k p d) = length d"
  by (simp add: put_dinode_def del: upt_Suc)

lemma nth_put_dinode: "k + 64 \<le> length d \<Longrightarrow> j < length d \<Longrightarrow> j < k \<or> k + 64 \<le> j \<Longrightarrow> put_dinode k p d ! j = d ! j"
  unfolding put_dinode_def by (subst nth_put_addrs) (auto simp: nth_put32 nth_put16)

lemma dinode_at_put [simp]:
  assumes "k + 64 \<le> length d" "length (di_addrs p) = NDIRECT + 1"
  shows "dinode_at (put_dinode k p d) k = p"
proof -
  define d1 where "d1 = put32 (k + 8) (di_size p) (put16 (k + 6) (ucast (di_nlink p)) (put16 (k + 4) (ucast (di_minor p))
         (put16 (k + 2) (ucast (di_major p)) (put16 k (ucast (di_type p)) d))))"
  have l: "length d1 = length d" using assms(1) by (simp add: d1_def)
  define d2 where "d2 = fold (\<lambda>i. put32 (k + 12 + 4 * i) (di_addrs p ! i)) [0 ..< NDIRECT + 1] d1"
  have e: "put_dinode k p d = d2" by (simp only: put_dinode_def d2_def d1_def)
  have n: "d2 ! j = d1 ! j" if "j < k + 12" for j
    unfolding d2_def using that assms(1) l by (subst nth_put_addrs) auto
  have f16: "le16 d2 j = le16 d1 j" if "j + 2 \<le> k + 12" for j
    by (rule le16_cong) (use n that in auto)
  have f32: "le32 d2 (k + 8) = le32 d1 (k + 8)" by (rule le32_nth_cong) (use n in auto)
  have a: "map (\<lambda>i. le32 d2 (k + 12 + 4 * i)) [0 ..< NDIRECT + 1] = di_addrs p"
  proof (rule nth_equalityI)
    fix i assume "i < length (map (\<lambda>i. le32 d2 (k + 12 + 4 * i)) [0 ..< NDIRECT + 1])"
    then show "map (\<lambda>i. le32 d2 (k + 12 + 4 * i)) [0 ..< NDIRECT + 1] ! i = di_addrs p ! i"
      unfolding d2_def using assms(1) l by (simp add: le32_put_addrs del: upt_Suc)
  qed (use assms(2) in simp)
  have h: "le16 d1 k = ucast (di_type p)" "le16 d1 (k + 2) = ucast (di_major p)" "le16 d1 (k + 4) = ucast (di_minor p)"
    "le16 d1 (k + 6) = ucast (di_nlink p)" "le32 d1 (k + 8) = di_size p"
    unfolding d1_def using assms(1) by (simp_all add: le16_put_other)
  show ?thesis
    unfolding e dinode_at_def a using h f16 [of k] f16 [of "k + 2"] f16 [of "k + 4"] f16 [of "k + 6"] f32 by simp
qed

lemma dinode_at_cong:
  assumes "\<And>j. j < 64 \<Longrightarrow> d ! (k + j) = d' ! (k + j)"
  shows "dinode_at d k = dinode_at d' k"
proof -
  have a: "le16 d (k + j) = le16 d' (k + j)" if "j < 63" for j
    by (rule le16_cong) (use assms [of j] assms [of "j + 1"] that in \<open>simp_all add: add.assoc\<close>)
  have b: "le32 d (k + j) = le32 d' (k + j)" if "j < 61" for j
    by (rule le32_nth_cong) (use assms that in \<open>simp add: add.assoc\<close>)
  have c: "map (\<lambda>i. le32 d (k + 12 + 4 * i)) [0 ..< NDIRECT + 1] = map (\<lambda>i. le32 d' (k + 12 + 4 * i)) [0 ..< NDIRECT + 1]"
  proof (rule map_cong [OF refl])
    fix i assume "i \<in> set [0 ..< NDIRECT + 1]"
    then have "12 + 4 * i < 61" by simp
    then show "le32 d (k + 12 + 4 * i) = le32 d' (k + 12 + 4 * i)" using b [of "12 + 4 * i"] by (simp only: add.assoc)
  qed
  show ?thesis
    unfolding dinode_at_def c using a [of 0] a [of 2] a [of 4] a [of 6] b [of 8] by simp
qed

lemma dinode_at_put_other:
  assumes "k + 64 \<le> length d" "j + 64 \<le> length d" "j + 64 \<le> k \<or> k + 64 \<le> j"
  shows "dinode_at (put_dinode k p d) j = dinode_at d j"
  by (rule dinode_at_cong) (use assms in \<open>auto simp: nth_put_dinode\<close>)

lemma length_dinode_addrs [simp]: "length (di_addrs (dinode_at d k)) = NDIRECT + 1"
  by (simp add: dinode_at_def)

lemma inode_off_le: "inode_off inum + 64 \<le> BSIZE"
  using mod_less_divisor [of IPB inum] by (simp add: inode_off_def)

section \<open>Updating the inode on disk\<close>

definition disk_inode :: "'a fsys_scheme \<Rightarrow> nat \<Rightarrow> dinode" where
  "disk_inode fs inum = dinode_at (fblk fs (IBLOCK inum (fsb fs))) (inode_off inum)"

lemma inode_neq: "inum \<noteq> inum' \<Longrightarrow> IBLOCK inum sb = IBLOCK inum' sb \<Longrightarrow>
    inode_off inum' + 64 \<le> inode_off inum \<or> inode_off inum + 64 \<le> inode_off inum'"
proof -
  assume n: "inum \<noteq> inum'" and b: "IBLOCK inum sb = IBLOCK inum' sb"
  have "inum div IPB = inum' div IPB" using b by (simp add: IBLOCK_def)
  then have "inum mod IPB \<noteq> inum' mod IPB" using n by (metis div_mult_mod_eq)
  then show ?thesis by (auto simp: inode_off_def neq_iff) 
qed

lemma disk_inode_write:
  assumes ok: "blocks_ok fs" and i: "inum < sb_ninodes (fsb fs)" "inum' < sb_ninodes (fsb fs)" and p: "length (di_addrs p) = NDIRECT + 1"
    and f: "fblk fs' = (fblk fs)(IBLOCK inum (fsb fs) := put_dinode (inode_off inum) p (fblk fs (IBLOCK inum (fsb fs))))" "fsb fs' = fsb fs"
  shows "disk_inode fs' inum' = (if inum' = inum then p else disk_inode fs inum')" "blocks_ok fs'"
proof -
  note g = geomD [OF blocks_okD(1) [OF ok]]
  have b: "IBLOCK inum (fsb fs) < FSSIZE" "IBLOCK inum (fsb fs) \<noteq> sb_bmapstart (fsb fs)" using g(1,4) g(9) [OF i(1)] by simp_all
  have l: "length (fblk fs (IBLOCK inum (fsb fs))) = BSIZE" by (rule blocks_okD(2) [OF ok b(1)])
  show "blocks_ok fs'" by (rule blocks_ok_write [OF ok f(2,1) b(2)]) (simp add: l inode_off_le [of inum, simplified])
  show "disk_inode fs' inum' = (if inum' = inum then p else disk_inode fs inum')"
  proof (cases "inum' = inum")
    case True
    then show ?thesis using p l inode_off_le [of inum] by (simp add: disk_inode_def f)
  next
    case False
    then show ?thesis
      using inode_neq [of inum inum' "fsb fs"] l inode_off_le [of inum] inode_off_le [of inum']
      by (simp add: disk_inode_def f dinode_at_put_other)
  qed
qed

lemma iupdate_spec:
  assumes ok: "blocks_ok fs" and i: "i_num (ino fs i) < sb_ninodes (fsb fs)" and p: "length (di_addrs (i_d (ino fs i))) = NDIRECT + 1"
  shows "iupdate i fs = Ok fs' \<Longrightarrow> blocks_ok fs' \<and> icache fs' = icache fs \<and> fsb fs' = fsb fs \<and>
      (\<forall>inum < sb_ninodes (fsb fs). disk_inode fs' inum = (if inum = i_num (ino fs i) then i_d (ino fs i) else disk_inode fs inum)) \<and>
      (\<forall>c. c \<noteq> IBLOCK (i_num (ino fs i)) (fsb fs) \<longrightarrow> fblk fs' c = fblk fs c)"
    "log_room fs (Suc k) \<Longrightarrow> \<exists>fs'. iupdate i fs = Ok fs' \<and> log_room fs' k"
proof -
  let ?b = "IBLOCK (i_num (ino fs i)) (fsb fs)" and ?o = "inode_off (i_num (ino fs i))"
  note g = geomD [OF blocks_okD(1) [OF ok]]
  have b: "?b < FSSIZE" using g(1,4) g(9) [OF i] by simp
  have u: "iupdate i fs = fwrite ?b (put_dinode ?o (i_d (ino fs i)) (fblk fs ?b)) fs"
    using b by (simp add: iupdate_def Let_def fread_def)
  show "log_room fs (Suc k) \<Longrightarrow> \<exists>fs'. iupdate i fs = Ok fs' \<and> log_room fs' k"
    unfolding u by (metis fwrite_room)
  assume r: "iupdate i fs = Ok fs'"
  note f = fwriteD [OF r [unfolded u]]
  note d = disk_inode_write [OF ok i _ p f(1,3)]
  show "blocks_ok fs' \<and> icache fs' = icache fs \<and> fsb fs' = fsb fs \<and>
      (\<forall>inum < sb_ninodes (fsb fs). disk_inode fs' inum = (if inum = i_num (ino fs i) then i_d (ino fs i) else disk_inode fs inum)) \<and>
      (\<forall>c. c \<noteq> ?b \<longrightarrow> fblk fs' c = fblk fs c)"
    using d(1) d(2) [OF i] f by simp
qed

section \<open>The inode cache\<close>

lemma upd_ino_simps [simp]:
  "fblk (upd_ino i f fs) = fblk fs" "fsb (upd_ino i f fs) = fsb fs" "flog (upd_ino i f fs) = flog fs"
  "length (icache (upd_ino i f fs)) = length (icache fs)" "dev_read (upd_ino i f fs) = dev_read fs" "dev_write (upd_ino i f fs) = dev_write fs"
  "fsys.more (upd_ino i f fs) = fsys.more fs"
  by (simp_all add: upd_ino_def)

lemma ino_upd_ino: "j < length (icache fs) \<Longrightarrow> ino (upd_ino i f fs) j = (if j = i then f (ino fs i) else ino fs j)"
  by (simp add: upd_ino_def)

lemma blocks_ok_upd_ino [simp]: "blocks_ok (upd_ino i f fs) = blocks_ok fs" "bused (upd_ino i f fs) c = bused fs c"
  "log_room (upd_ino i f fs) k = log_room fs k" "disk_inode (upd_ino i f fs) inum = disk_inode fs inum"
  by (simp_all add: blocks_ok_def bused_def log_room_def disk_inode_def)

text \<open>Referenced entries name distinct inodes; what is valid and unlocked is what the disk has.\<close>

definition icache_ok :: "'a fsys_scheme \<Rightarrow> bool" where
  "icache_ok fs \<longleftrightarrow>
     (\<forall>i < length (icache fs). \<forall>j < length (icache fs). i_ref (ino fs i) > 0 \<longrightarrow> i_ref (ino fs j) > 0 \<longrightarrow>
        i_num (ino fs i) = i_num (ino fs j) \<longrightarrow> i = j) \<and>
     (\<forall>i < length (icache fs). i_ref (ino fs i) > 0 \<longrightarrow> i_dev (ino fs i) = ROOTDEV \<and> i_num (ino fs i) < sb_ninodes (fsb fs)) \<and>
     (\<forall>i < length (icache fs). i_ref (ino fs i) > 0 \<longrightarrow> i_valid (ino fs i) \<longrightarrow> \<not> i_locked (ino fs i) \<longrightarrow>
        i_d (ino fs i) = disk_inode fs (i_num (ino fs i)))"

lemma icache_okD:
  assumes "icache_ok fs" "i < length (icache fs)" "i_ref (ino fs i) > 0"
  shows "j < length (icache fs) \<Longrightarrow> i_ref (ino fs j) > 0 \<Longrightarrow> i_num (ino fs i) = i_num (ino fs j) \<Longrightarrow> i = j"
    "i_dev (ino fs i) = ROOTDEV" "i_num (ino fs i) < sb_ninodes (fsb fs)"
    "i_valid (ino fs i) \<Longrightarrow> \<not> i_locked (ino fs i) \<Longrightarrow> i_d (ino fs i) = disk_inode fs (i_num (ino fs i))"
  using assms unfolding icache_ok_def by blast+

text \<open>\<^verbatim>\<open>iget\<close> returns the one entry that stands for the inode, with one more reference.\<close>

lemma iget_spec:
  assumes ok: "icache_ok fs" and n: "inum < sb_ninodes (fsb fs)" and r: "iget inum fs = Ok (i, fs')"
  shows "i < length (icache fs) \<and> i_num (ino fs' i) = inum \<and> i_ref (ino fs' i) = i_ref (ino fs i) + 1 \<and> icache_ok fs' \<and>
    (\<forall>j < length (icache fs). j \<noteq> i \<longrightarrow> ino fs' j = ino fs j) \<and> fblk fs' = fblk fs \<and> fsb fs' = fsb fs \<and> flog fs' = flog fs \<and>
    (\<forall>j < length (icache fs). i_ref (ino fs j) > 0 \<longrightarrow> i_num (ino fs j) = inum \<longrightarrow> i = j)"
proof -
  consider (hit) "find_idx (\<lambda>p. i_ref p > 0 \<and> i_dev p = ROOTDEV \<and> i_num p = inum) (icache fs) = Some i"
      "fs' = upd_ino i (\<lambda>p. p\<lparr>i_ref := i_ref p + 1\<rparr>) fs"
    | (miss) "find_idx (\<lambda>p. i_ref p > 0 \<and> i_dev p = ROOTDEV \<and> i_num p = inum) (icache fs) = None"
      "find_idx (\<lambda>p. i_ref p = 0) (icache fs) = Some i"
      "fs' = upd_ino i (\<lambda>p. p\<lparr>i_dev := ROOTDEV, i_num := inum, i_ref := 1, i_valid := False\<rparr>) fs"
    using r by (auto simp: iget_def split: option.splits)
  then show ?thesis
  proof cases
    case hit
    note h = find_idx_SomeD [OF hit(1)]
    have o: "ino fs' j = (if j = i then (ino fs i)\<lparr>i_ref := i_ref (ino fs i) + 1\<rparr> else ino fs j)" if "j < length (icache fs)" for j
      using that by (simp add: hit(2) ino_upd_ino)
    have "icache_ok fs'"
      unfolding icache_ok_def using o icache_okD [OF ok] h(1,2)
      by (auto simp: hit(2) disk_inode_def split: if_splits)
    moreover have "i_num (ino fs' i) = inum" "i_ref (ino fs' i) = i_ref (ino fs i) + 1" "\<forall>j < length (icache fs). j \<noteq> i \<longrightarrow> ino fs' j = ino fs j"
      using o [OF h(1)] o h(2) by simp_all
    moreover have "\<forall>j < length (icache fs). i_ref (ino fs j) > 0 \<longrightarrow> i_num (ino fs j) = inum \<longrightarrow> i = j"
      using icache_okD(1) [OF ok h(1)] h(2) by simp
    ultimately show ?thesis using h(1) by (simp add: hit(2))
  next
    case miss
    note h = find_idx_SomeD [OF miss(2)]
    have nf: "i_num (ino fs j) \<noteq> inum" if "j < length (icache fs)" "i_ref (ino fs j) > 0" for j
      using miss(1) that icache_okD(2) [OF ok that] by (auto simp: find_idx_None)
    have o: "ino fs' j = (if j = i then (ino fs i)\<lparr>i_dev := ROOTDEV, i_num := inum, i_ref := 1, i_valid := False\<rparr> else ino fs j)"
      if "j < length (icache fs)" for j
      using that by (simp add: miss(3) ino_upd_ino)
    have "icache_ok fs'"
      unfolding icache_ok_def using o icache_okD [OF ok] h(1) nf n
      by (auto simp: miss(3) disk_inode_def split: if_splits) (metis nf)
    moreover have "i_num (ino fs' i) = inum" "i_ref (ino fs' i) = i_ref (ino fs i) + 1" "\<forall>j < length (icache fs). j \<noteq> i \<longrightarrow> ino fs' j = ino fs j"
      using o [OF h(1)] o h(2) by simp_all
    moreover have "\<forall>j < length (icache fs). i_ref (ino fs j) > 0 \<longrightarrow> i_num (ino fs j) = inum \<longrightarrow> i = j"
      using nf by auto
    ultimately show ?thesis using h(1) by (simp add: miss(3))
  qed
qed

lemma ilock_spec:
  assumes ok: "icache_ok fs" and i: "i < length (icache fs)" "i_ref (ino fs i) > 0"
    and d: "IBLOCK (i_num (ino fs i)) (fsb fs) < FSSIZE"
  shows "i_locked (ino fs i) \<Longrightarrow> ilock i fs = Hang"
    "\<not> i_locked (ino fs i) \<Longrightarrow> \<not> i_valid (ino fs i) \<Longrightarrow> di_type (disk_inode fs (i_num (ino fs i))) = 0 \<Longrightarrow> ilock i fs = Panic ''ilock: no type''"
    "\<not> i_locked (ino fs i) \<Longrightarrow> i_valid (ino fs i) \<or> di_type (disk_inode fs (i_num (ino fs i))) \<noteq> 0 \<Longrightarrow>
      \<exists>fs'. ilock i fs = Ok fs' \<and> ino fs' i = (ino fs i)\<lparr>i_locked := True, i_valid := True, i_d := disk_inode fs (i_num (ino fs i))\<rparr> \<and>
        (\<forall>j < length (icache fs). j \<noteq> i \<longrightarrow> ino fs' j = ino fs j) \<and> length (icache fs') = length (icache fs) \<and>
        fblk fs' = fblk fs \<and> fsb fs' = fsb fs \<and> flog fs' = flog fs \<and> icache_ok fs'"
proof -
  show "i_locked (ino fs i) \<Longrightarrow> ilock i fs = Hang" using i by (simp add: ilock_def)
  let ?n = "i_num (ino fs i)"
  assume l: "\<not> i_locked (ino fs i)"
  define fs1 where "fs1 = upd_ino i (\<lambda>p. p\<lparr>i_locked := True\<rparr>) fs"
  have r1: "fread (IBLOCK ?n (fsb fs)) fs1 = Ok (fblk fs (IBLOCK ?n (fsb fs)))" using d by (simp add: fread_def fs1_def)
  have v1: "i_valid (ino fs1 i) = i_valid (ino fs i)" using i by (simp add: fs1_def ino_upd_ino)
  show "\<not> i_valid (ino fs i) \<Longrightarrow> di_type (disk_inode fs ?n) = 0 \<Longrightarrow> ilock i fs = Panic ''ilock: no type''"
    using i l r1 v1 by (simp add: ilock_def Let_def fs1_def [symmetric] disk_inode_def)
  assume t: "i_valid (ino fs i) \<or> di_type (disk_inode fs ?n) \<noteq> 0"
  define p where "p = (ino fs i)\<lparr>i_locked := True, i_valid := True, i_d := disk_inode fs ?n\<rparr>"
  obtain fs' where f: "ilock i fs = Ok fs'" "ino fs' i = p" "\<forall>j < length (icache fs). j \<noteq> i \<longrightarrow> ino fs' j = ino fs j"
    "length (icache fs') = length (icache fs)" "fblk fs' = fblk fs" "fsb fs' = fsb fs" "flog fs' = flog fs"
  proof (cases "i_valid (ino fs i)")
    case True
    have "i_d (ino fs i) = disk_inode fs ?n" by (rule icache_okD(4) [OF ok i True l])
    then have "(ino fs i)\<lparr>i_locked := True\<rparr> = p" using True unfolding p_def by (cases "ino fs i") simp
    then show thesis
      using i l v1 True by (intro that [of fs1]) (simp_all add: ilock_def fs1_def ino_upd_ino)
  next
    case False
    then have e: "ilock i fs = Ok (upd_ino i (\<lambda>p. p\<lparr>i_d := disk_inode fs ?n, i_valid := True\<rparr>) fs1)"
      using i l v1 r1 t by (simp add: ilock_def Let_def fs1_def [symmetric] disk_inode_def)
    show thesis by (rule that [OF e]) (use i in \<open>simp_all add: fs1_def ino_upd_ino p_def\<close>)
  qed
  have "icache_ok fs'"
    unfolding icache_ok_def f(4,6)
  proof (intro conjI allI impI)
    fix a b assume a: "a < length (icache fs)" "b < length (icache fs)" "i_ref (ino fs' a) > 0" "i_ref (ino fs' b) > 0" "i_num (ino fs' a) = i_num (ino fs' b)"
    have "i_ref (ino fs' c) = i_ref (ino fs c)" "i_num (ino fs' c) = i_num (ino fs c)" if "c < length (icache fs)" for c
      using f(2,3) that by (cases "c = i"; simp add: p_def)+
    then show "a = b" using icache_okD(1) [OF ok] a by metis
  next
    fix a assume a: "a < length (icache fs)" "i_ref (ino fs' a) > 0"
    show "i_dev (ino fs' a) = ROOTDEV" "i_num (ino fs' a) < sb_ninodes (fsb fs)"
      using a f(2,3) icache_okD(2,3) [OF ok, of a] i by (cases "a = i"; simp add: p_def)+
    show "i_valid (ino fs' a) \<Longrightarrow> \<not> i_locked (ino fs' a) \<Longrightarrow> i_d (ino fs' a) = disk_inode fs' (i_num (ino fs' a))"
      using a f icache_okD(4) [OF ok, of a] by (cases "a = i") (simp_all add: p_def disk_inode_def)
  qed
  then show "\<exists>fs'. ilock i fs = Ok fs' \<and> ino fs' i = p \<and>
        (\<forall>j < length (icache fs). j \<noteq> i \<longrightarrow> ino fs' j = ino fs j) \<and> length (icache fs') = length (icache fs) \<and>
        fblk fs' = fblk fs \<and> fsb fs' = fsb fs \<and> flog fs' = flog fs \<and> icache_ok fs'"
    using f by blast
qed

section \<open>Allocating an inode\<close>

lemma ialloc_from_spec:
  assumes ok: "blocks_ok fs" and r: "ialloc_from n ty fs = Ok (i, fs')"
  shows "\<exists>inum fs1. n \<le> inum \<and> inum < sb_ninodes (fsb fs) \<and> di_type (disk_inode fs inum) = 0 \<and>
    (\<forall>m. n \<le> m \<longrightarrow> m < inum \<longrightarrow> di_type (disk_inode fs m) \<noteq> 0) \<and> iget inum fs1 = Ok (i, fs') \<and>
    fwrite (IBLOCK inum (fsb fs)) (put_dinode (inode_off inum) (zero_dinode\<lparr>di_type := ty\<rparr>) (fblk fs (IBLOCK inum (fsb fs)))) fs = Ok fs1"
  using r
proof (induction n ty fs rule: ialloc_from.induct)
  case (1 n ty fs)
  show ?case
  proof (cases "n < sb_ninodes (fsb fs)")
    case False
    then show ?thesis using 1(2) by (simp add: ialloc_from.simps)
  next
    case n: True
    show ?thesis
    proof (cases "fread (IBLOCK n (fsb fs)) fs")
      case (Ok d)
      then have d: "d = fblk fs (IBLOCK n (fsb fs))" by (simp add: fread_Ok)
      show ?thesis
      proof (cases "di_type (dinode_at d (inode_off n)) = 0")
        case True
        then show ?thesis using 1(2) n Ok d
          by (intro exI [of _ n]) (auto simp: ialloc_from.simps [of n] bindR_Ok_iff disk_inode_def)
      next
        case False
        then have "ialloc_from (n + 1) ty fs = Ok (i, fs')" using 1(2) n Ok by (simp add: ialloc_from.simps [of n])
        from 1(1) [OF n Ok False this] obtain inum fs1 where h: "n + 1 \<le> inum" "inum < sb_ninodes (fsb fs)" "di_type (disk_inode fs inum) = 0"
          "\<forall>m. n + 1 \<le> m \<longrightarrow> m < inum \<longrightarrow> di_type (disk_inode fs m) \<noteq> 0" "iget inum fs1 = Ok (i, fs')"
          "fwrite (IBLOCK inum (fsb fs)) (put_dinode (inode_off inum) (zero_dinode\<lparr>di_type := ty\<rparr>) (fblk fs (IBLOCK inum (fsb fs)))) fs = Ok fs1"
          by blast
        moreover have "\<forall>m. n \<le> m \<longrightarrow> m < inum \<longrightarrow> di_type (disk_inode fs m) \<noteq> 0"
          using h(4) False d by (metis Suc_eq_plus1 Suc_leI disk_inode_def le_neq_implies_less)
        ultimately show ?thesis by (metis add_leD1)
      qed
    qed (use 1(2) n in \<open>simp_all add: ialloc_from.simps [of n]\<close>)
  qed
qed

lemma ialloc_spec:
  assumes ok: "blocks_ok fs" and r: "ialloc ty fs = Ok (i, fs')"
  obtains inum fs1 where "1 \<le> inum" "inum < sb_ninodes (fsb fs)" "di_type (disk_inode fs inum) = 0"
    "\<forall>m. 1 \<le> m \<longrightarrow> m < inum \<longrightarrow> di_type (disk_inode fs m) \<noteq> 0" "iget inum fs1 = Ok (i, fs')" "blocks_ok fs1"
    "\<forall>m < sb_ninodes (fsb fs). disk_inode fs1 m = (if m = inum then zero_dinode\<lparr>di_type := ty\<rparr> else disk_inode fs m)"
    "icache fs1 = icache fs" "fsb fs1 = fsb fs"
proof -
  obtain inum fs1 where h: "1 \<le> inum" "inum < sb_ninodes (fsb fs)" "di_type (disk_inode fs inum) = 0"
    "\<forall>m. 1 \<le> m \<longrightarrow> m < inum \<longrightarrow> di_type (disk_inode fs m) \<noteq> 0" "iget inum fs1 = Ok (i, fs')"
    "fwrite (IBLOCK inum (fsb fs)) (put_dinode (inode_off inum) (zero_dinode\<lparr>di_type := ty\<rparr>) (fblk fs (IBLOCK inum (fsb fs)))) fs = Ok fs1"
    using ialloc_from_spec [OF ok r [unfolded ialloc_def]] by blast
  note f = fwriteD [OF h(6)]
  have z: "length (di_addrs (zero_dinode\<lparr>di_type := ty\<rparr>)) = NDIRECT + 1" by (simp add: zero_dinode_def)
  note d = disk_inode_write [OF ok h(2) _ z f(1,3)]
  show thesis by (rule that [OF h(1-5)]) (use d(1) d(2) [OF h(2)] f in auto)
qed

end
