(* ===== verification/FsContent.thy ===== *)
theory FsContent
  imports FsInode
begin

text \<open>
  The content of a file: the map from its block numbers to disk blocks (\<^verbatim>\<open>bmap\<close>), and
  \<^verbatim>\<open>readi\<close> and \<^verbatim>\<open>writei\<close> against the bytes of the file as a function of the offset.
\<close>

section \<open>The blocks of a file\<close>

definition ind_of :: "dinode \<Rightarrow> nat" where
  "ind_of d = unat (di_addrs d ! NDIRECT)"

definition maddr :: "'a fsys_scheme \<Rightarrow> dinode \<Rightarrow> nat \<Rightarrow> nat" where
  "maddr fs d bn =
     (if bn < NDIRECT then unat (di_addrs d ! bn)
      else if ind_of d = 0 then 0 else unat (le32 (fblk fs (ind_of d)) (4 * (bn - NDIRECT))))"

definition iblocks :: "'a fsys_scheme \<Rightarrow> dinode \<Rightarrow> nat set" where
  "iblocks fs d = ({maddr fs d bn |bn. bn < MAXFILE} \<union> {ind_of d}) - {0}"

definition finode_ok :: "'a fsys_scheme \<Rightarrow> dinode \<Rightarrow> bool" where
  "finode_ok fs d \<longleftrightarrow> length (di_addrs d) = NDIRECT + 1 \<and>
     (\<forall>c \<in> iblocks fs d. data_block (fsb fs) c \<and> bused fs c) \<and>
     (\<forall>m < MAXFILE. \<forall>n < MAXFILE. maddr fs d m \<noteq> 0 \<longrightarrow> maddr fs d m = maddr fs d n \<longrightarrow> m = n) \<and>
     (\<forall>m < MAXFILE. maddr fs d m \<noteq> 0 \<longrightarrow> maddr fs d m \<noteq> ind_of d)"

definition icontent :: "'a fsys_scheme \<Rightarrow> dinode \<Rightarrow> nat \<Rightarrow> u8" where
  "icontent fs d k =
     (if maddr fs d (k div BSIZE) = 0 then 0 else fblk fs (maddr fs d (k div BSIZE)) ! (k mod BSIZE))"

lemma iblocks_mem: "bn < MAXFILE \<Longrightarrow> maddr fs d bn \<noteq> 0 \<Longrightarrow> maddr fs d bn \<in> iblocks fs d"
  "ind_of d \<noteq> 0 \<Longrightarrow> ind_of d \<in> iblocks fs d"
  by (auto simp: iblocks_def)

lemma finode_okD:
  assumes "finode_ok fs d"
  shows "length (di_addrs d) = NDIRECT + 1" "c \<in> iblocks fs d \<Longrightarrow> data_block (fsb fs) c" "c \<in> iblocks fs d \<Longrightarrow> bused fs c"
    "m < MAXFILE \<Longrightarrow> n < MAXFILE \<Longrightarrow> maddr fs d m \<noteq> 0 \<Longrightarrow> maddr fs d m = maddr fs d n \<Longrightarrow> m = n"
    "m < MAXFILE \<Longrightarrow> maddr fs d m \<noteq> 0 \<Longrightarrow> maddr fs d m \<noteq> ind_of d"
  using assms unfolding finode_ok_def by blast+

text \<open>What one more block does: the map gets one entry, or the file gets its indirect block.\<close>

lemma finode_ok_add:
  assumes ok: "finode_ok fs d" and nb: "\<not> bused fs b" and db: "data_block (fsb fs) b" "b \<noteq> 0"
    and u: "\<forall>c < sb_size (fsb fs). bused fs' c = (c = b \<or> bused fs c)" and sb: "fsb fs' = fsb fs"
    and l: "length (di_addrs d') = NDIRECT + 1"
    and m: "(ind_of d' = ind_of d \<and> bn < MAXFILE \<and> maddr fs d bn = 0 \<and> (\<forall>n < MAXFILE. maddr fs' d' n = (if n = bn then b else maddr fs d n)))
        \<or> (ind_of d = 0 \<and> ind_of d' = b \<and> (\<forall>n < MAXFILE. maddr fs' d' n = maddr fs d n))"
  shows "finode_ok fs' d'" "iblocks fs' d' = insert b (iblocks fs d)"
proof -
  have nb': "b \<notin> iblocks fs d" using finode_okD(3) [OF ok] nb by blast
  show i: "iblocks fs' d' = insert b (iblocks fs d)"
    using m
  proof (elim disjE conjE)
    assume a: "ind_of d' = ind_of d" "bn < MAXFILE" "maddr fs d bn = 0" "\<forall>n < MAXFILE. maddr fs' d' n = (if n = bn then b else maddr fs d n)"
    have "{maddr fs' d' n |n. n < MAXFILE} - {0} = insert b ({maddr fs d n |n. n < MAXFILE} - {0})"
    proof (intro subset_antisym subsetI)
      fix x assume "x \<in> insert b ({maddr fs d n |n. n < MAXFILE} - {0})"
      then consider "x = b" | n where "n < MAXFILE" "x = maddr fs d n" "x \<noteq> 0" by auto
      then show "x \<in> {maddr fs' d' n |n. n < MAXFILE} - {0}"
      proof cases
        case 1
        then show ?thesis using a(2,4) db(2) by (auto intro!: exI [of _ bn])
      next
        case 2
        then show ?thesis using a(3,4) by (auto intro!: exI [of _ n])
      qed
    qed (use a(4) in \<open>auto split: if_splits\<close>)
    then show ?thesis unfolding iblocks_def a(1) Un_Diff by simp
  next
    assume a: "ind_of d = 0" "ind_of d' = b" "\<forall>n < MAXFILE. maddr fs' d' n = maddr fs d n"
    have "{maddr fs' d' n |n. n < MAXFILE} = {maddr fs d n |n. n < MAXFILE}" using a(3) by (auto; metis)
    then show ?thesis unfolding iblocks_def a(1,2) Un_Diff using db(2) by auto
  qed
  have sz: "data_block (fsb fs) c \<Longrightarrow> c < sb_size (fsb fs)" for c by (simp add: data_block_def)
  have mem: "maddr fs d n \<noteq> b" if "n < MAXFILE" for n
    using iblocks_mem(1) [OF that, of fs d] nb' db(2) by (cases "maddr fs d n = 0") auto
  have inb: "ind_of d \<noteq> b" using iblocks_mem(2) [of d fs] nb' db(2) by (cases "ind_of d = 0") auto
  show "finode_ok fs' d'"
    unfolding finode_ok_def i sb
  proof (intro conjI ballI allI impI)
    show "length (di_addrs d') = NDIRECT + 1" by (rule l)
    fix c assume c: "c \<in> insert b (iblocks fs d)"
    then show dc: "data_block (fsb fs) c" using db(1) finode_okD(2) [OF ok] by auto
    show "bused fs' c" using c u sz [OF dc] finode_okD(3) [OF ok] by auto
  next
    fix k n assume k: "k < MAXFILE" "n < MAXFILE" "maddr fs' d' k \<noteq> 0" "maddr fs' d' k = maddr fs' d' n"
    show "k = n"
      using m k mem [OF k(1)] mem [OF k(2)] finode_okD(4) [OF ok k(1,2)] by (elim disjE conjE) (auto split: if_splits)
  next
    fix k assume k: "k < MAXFILE" "maddr fs' d' k \<noteq> 0"
    show "maddr fs' d' k \<noteq> ind_of d'"
      using m k mem [OF k(1)] inb finode_okD(5) [OF ok k(1)] by (elim disjE conjE) (auto split: if_splits)
  qed
qed

text \<open>A file's blocks and bytes do not change when its blocks keep their data.\<close>

lemma maddr_cong: "(ind_of d \<noteq> 0 \<Longrightarrow> fblk fs' (ind_of d) = fblk fs (ind_of d)) \<Longrightarrow> maddr fs' d bn = maddr fs d bn"
  by (simp add: maddr_def)

definition same_meta :: "dinode \<Rightarrow> dinode \<Rightarrow> bool" where
  "same_meta d d' \<longleftrightarrow> di_type d' = di_type d \<and> di_major d' = di_major d \<and> di_minor d' = di_minor d \<and>
     di_nlink d' = di_nlink d \<and> di_size d' = di_size d"

definition grown :: "'a fsys_scheme \<Rightarrow> dinode \<Rightarrow> 'a fsys_scheme \<Rightarrow> dinode \<Rightarrow> bool" where
  "grown fs d fs' d' \<longleftrightarrow> blocks_ok fs' \<and> finode_ok fs' d' \<and> fsb fs' = fsb fs \<and> same_meta d d' \<and>
     iblocks fs d \<subseteq> iblocks fs' d' \<and>
     (\<forall>c < sb_size (fsb fs). bused fs' c \<longleftrightarrow> bused fs c \<or> c \<in> iblocks fs' d') \<and>
     (\<forall>n < MAXFILE. maddr fs d n \<noteq> 0 \<longrightarrow> maddr fs' d' n = maddr fs d n) \<and>
     (\<forall>k < MAXFILE * BSIZE. icontent fs' d' k = icontent fs d k) \<and>
     (\<forall>c. c \<noteq> sb_bmapstart (fsb fs) \<longrightarrow> c \<notin> iblocks fs' d' \<longrightarrow> fblk fs' c = fblk fs c) \<and>
     (\<forall>c. bused fs c \<longrightarrow> c < sb_size (fsb fs) \<longrightarrow> c \<notin> iblocks fs d \<longrightarrow> c \<notin> iblocks fs' d')"

lemma grown_refl: "blocks_ok fs \<Longrightarrow> finode_ok fs d \<Longrightarrow> grown fs d fs d"
  using finode_okD(3) [of fs d] by (auto simp: grown_def same_meta_def)

lemma grown_trans:
  assumes a: "grown fs d fs1 d1" and b: "grown fs1 d1 fs2 d2"
  shows "grown fs d fs2 d2"
  unfolding grown_def
proof (intro conjI allI impI)
  note a' = a [unfolded grown_def] and b' = b [unfolded grown_def]
  show "blocks_ok fs2" "finode_ok fs2 d2" "fsb fs2 = fsb fs" "iblocks fs d \<subseteq> iblocks fs2 d2" using a' b' by auto
  show "same_meta d d2" using a' b' by (simp add: same_meta_def)
  show "bused fs2 c = (bused fs c \<or> c \<in> iblocks fs2 d2)" if "c < sb_size (fsb fs)" for c
    using a' b' that by (metis subsetD)
  show "maddr fs2 d2 n = maddr fs d n" if "n < MAXFILE" "maddr fs d n \<noteq> 0" for n using a' b' that by metis
  show "icontent fs2 d2 k = icontent fs d k" if "k < MAXFILE * BSIZE" for k using a' b' that by metis
  show "fblk fs2 c = fblk fs c" if "c \<noteq> sb_bmapstart (fsb fs)" "c \<notin> iblocks fs2 d2" for c using a' b' that by (metis subsetD)
  show "c \<notin> iblocks fs2 d2" if "bused fs c" "c < sb_size (fsb fs)" "c \<notin> iblocks fs d" for c using a' b' that by metis
qed

lemma grown_add:
  assumes ok: "blocks_ok fs" "finode_ok fs d" and ok': "blocks_ok fs'"
    and nb: "\<not> bused fs b" and db: "data_block (fsb fs) b"
    and u: "\<forall>c < sb_size (fsb fs). bused fs' c = (c = b \<or> bused fs c)" and sb: "fsb fs' = fsb fs"
    and l: "length (di_addrs d') = NDIRECT + 1" and dd: "same_meta d d'"
    and m: "(ind_of d' = ind_of d \<and> bn < MAXFILE \<and> maddr fs d bn = 0 \<and> (\<forall>n < MAXFILE. maddr fs' d' n = (if n = bn then b else maddr fs d n)))
        \<or> (ind_of d = 0 \<and> ind_of d' = b \<and> (\<forall>n < MAXFILE. maddr fs' d' n = maddr fs d n))"
    and z: "fblk fs' b = replicate BSIZE 0"
    and o: "\<And>c. c \<noteq> b \<Longrightarrow> c \<noteq> sb_bmapstart (fsb fs) \<Longrightarrow> c \<noteq> ind_of d \<Longrightarrow> fblk fs' c = fblk fs c"
    and oi: "ind_of d \<noteq> 0 \<Longrightarrow> ind_of d \<in> iblocks fs d" "ind_of d = 0 \<Longrightarrow> fblk fs' 0 = fblk fs 0"
  shows "grown fs d fs' d'"
proof -
  note g = blocks_okD(1) [OF ok(1)]
  have b0: "b \<noteq> 0" using data_blockD [OF g db] by simp
  note a = finode_ok_add [OF ok(2) nb db b0 u sb l m]
  have bi: "b \<notin> iblocks fs d" using finode_okD(3) [OF ok(2)] nb by blast
  have same: "maddr fs' d' n = maddr fs d n" if "n < MAXFILE" "maddr fs d n \<noteq> 0" for n
    using m that by (elim disjE conjE) auto
  have fresh: "maddr fs' d' n = 0 \<or> maddr fs' d' n = b" if "n < MAXFILE" "maddr fs d n = 0" for n
    using m that by (elim disjE conjE) auto
  show ?thesis
    unfolding grown_def
  proof (intro conjI allI impI)
    show "blocks_ok fs'" by (rule ok')
    show "finode_ok fs' d'" by (rule a(1))
    show "fsb fs' = fsb fs" by (rule sb)
    show "same_meta d d'" by (rule dd)
    show "iblocks fs d \<subseteq> iblocks fs' d'" unfolding a(2) by blast
    show "bused fs' c = (bused fs c \<or> c \<in> iblocks fs' d')" if "c < sb_size (fsb fs)" for c
      unfolding a(2) using u that finode_okD(3) [OF ok(2)] by auto
    show "maddr fs' d' n = maddr fs d n" if "n < MAXFILE" "maddr fs d n \<noteq> 0" for n by (rule same [OF that])
    show "icontent fs' d' k = icontent fs d k" if k: "k < MAXFILE * BSIZE" for k
    proof (cases "maddr fs d (k div BSIZE) = 0")
      case True
      have "k mod BSIZE < BSIZE" by simp
      then have "fblk fs' b ! (k mod BSIZE) = 0" unfolding z by (rule nth_replicate)
      then show ?thesis using fresh [of "k div BSIZE"] True k by (auto simp: icontent_def)
    next
      case False
      have n: "k div BSIZE < MAXFILE" using k by (simp add: less_mult_imp_div_less)
      let ?c = "maddr fs d (k div BSIZE)"
      have c: "?c \<in> iblocks fs d" by (rule iblocks_mem(1) [OF n False])
      then have "fblk fs' ?c = fblk fs ?c"
        using bi finode_okD(2) [OF ok(2) c] geomD(6) [OF g] finode_okD(5) [OF ok(2) n False] by (intro o) auto
      then show ?thesis using False same [OF n False] by (simp add: icontent_def)
    qed
    show "fblk fs' c = fblk fs c" if "c \<noteq> sb_bmapstart (fsb fs)" "c \<notin> iblocks fs' d'" for c
      using that a(2) oi o by (cases "c = ind_of d"; cases "c = 0") auto
    show "c \<notin> iblocks fs' d'" if "bused fs c" "c < sb_size (fsb fs)" "c \<notin> iblocks fs d" for c
      unfolding a(2) using that nb by auto
  qed
qed


section \<open>bmap\<close>

lemma upd_d_simps [simp]:
  "fblk (upd_d i f fs) = fblk fs" "fsb (upd_d i f fs) = fsb fs" "flog (upd_d i f fs) = flog fs"
  "length (icache (upd_d i f fs)) = length (icache fs)" "blocks_ok (upd_d i f fs) = blocks_ok fs" "bused (upd_d i f fs) c = bused fs c"
  "log_room (upd_d i f fs) k = log_room fs k"
  by (simp_all add: upd_d_def)

lemma upd_d_file [simp]:
  "maddr (upd_d i f fs) = maddr fs" "iblocks (upd_d i f fs) = iblocks fs"
  "icontent (upd_d i f fs) = icontent fs" "finode_ok (upd_d i f fs) = finode_ok fs"
proof -
  show m: "maddr (upd_d i f fs) = maddr fs" by (intro ext) (simp add: maddr_def)
  show n: "iblocks (upd_d i f fs) = iblocks fs" by (intro ext) (simp add: iblocks_def m)
  show "icontent (upd_d i f fs) = icontent fs" by (intro ext) (simp add: icontent_def m)
  show "finode_ok (upd_d i f fs) = finode_ok fs" by (intro ext) (simp add: finode_ok_def m n)
qed

lemma grown_upd_d [simp]: "grown (upd_d i f fs) d fs' d' = grown fs d fs' d'" "grown fs1 d (upd_d i f fs) d' = grown fs1 d fs d'"
  by (simp_all add: grown_def)

lemma i_d_upd_d: "i < length (icache fs) \<Longrightarrow> i_d (ino (upd_d i f fs) i) = f (i_d (ino fs i))"
  "i < length (icache fs) \<Longrightarrow> ino (upd_d i f fs) i = (ino fs i)\<lparr>i_d := f (i_d (ino fs i))\<rparr>"
  "j < length (icache fs) \<Longrightarrow> j \<noteq> i \<Longrightarrow> ino (upd_d i f fs) j = ino fs j"
  by (simp_all add: upd_d_def ino_upd_ino)

text \<open>The inode cache entry changes in its block addresses only, the other entries not at all.\<close>

definition same_icache :: "nat \<Rightarrow> 'a fsys_scheme \<Rightarrow> 'a fsys_scheme \<Rightarrow> bool" where
  "same_icache i fs fs' \<longleftrightarrow> length (icache fs') = length (icache fs) \<and> i_dev (ino fs' i) = i_dev (ino fs i) \<and>
     i_num (ino fs' i) = i_num (ino fs i) \<and> i_ref (ino fs' i) = i_ref (ino fs i) \<and>
     i_locked (ino fs' i) = i_locked (ino fs i) \<and> i_valid (ino fs' i) = i_valid (ino fs i) \<and>
     (\<forall>j < length (icache fs). j \<noteq> i \<longrightarrow> ino fs' j = ino fs j)"

lemma same_icache_refl: "same_icache i fs fs"
  by (simp add: same_icache_def)

lemma same_icache_trans: "same_icache i fs fs1 \<Longrightarrow> same_icache i fs1 fs2 \<Longrightarrow> same_icache i fs fs2"
  by (simp add: same_icache_def)

lemma same_icache_upd_d: "i < length (icache fs) \<Longrightarrow> icache fs' = icache fs \<Longrightarrow> same_icache i fs (upd_d i f fs')"
  unfolding same_icache_def by (simp add: i_d_upd_d)

lemma unat_block: "b < FSSIZE \<Longrightarrow> unat (of_nat b :: u32) = b"
  by (simp add: unsigned_of_nat take_bit_nat_eq_self)

definition bmapped :: "nat \<Rightarrow> nat \<Rightarrow> nat \<Rightarrow> 'a fsys_scheme \<Rightarrow> 'a fsys_scheme \<Rightarrow> bool" where
  "bmapped i bn b fs fs' \<longleftrightarrow> grown fs (i_d (ino fs i)) fs' (i_d (ino fs' i)) \<and> same_icache i fs fs' \<and>
     maddr fs' (i_d (ino fs' i)) bn = b \<and> b \<noteq> 0 \<and> (maddr fs (i_d (ino fs i)) bn \<noteq> 0 \<longrightarrow> fs' = fs)"

lemma bmap_direct:
  assumes ok: "blocks_ok fs" "finode_ok fs (i_d (ino fs i))" and i: "i < length (icache fs)" and bn: "bn < NDIRECT"
    and r: "bmap i bn fs = Ok (b, fs')"
  shows "bmapped i bn b fs fs'"
proof -
  define d where "d = i_d (ino fs i)"
  have la: "length (di_addrs d) = NDIRECT + 1" using finode_okD(1) [OF ok(2)] by (simp add: d_def)
  show ?thesis
  proof (cases "di_addrs d ! bn = 0")
    case False
    then have "fs' = fs" "b = unat (di_addrs d ! bn)" using r bn by (auto simp: bmap_def Let_def d_def)
    moreover have "b \<noteq> 0" using False calculation(2) by (simp add: unat_eq_zero)
    ultimately show ?thesis using bn grown_refl [OF ok] by (simp add: bmapped_def same_icache_refl maddr_def d_def)
  next
    case True
    then obtain fs1 where a: "balloc fs = Ok (b, fs1)" and f: "fs' = upd_d i (\<lambda>p. p\<lparr>di_addrs := (di_addrs p)[bn := of_nat b]\<rparr>) fs1"
      using r bn by (auto simp: bmap_def Let_def d_def bindR_Ok_iff)
    note s = balloc_spec [OF ok(1) a, unfolded balloced_def]
    have g: "geom_ok (fsb fs)" by (rule blocks_okD(1) [OF ok(1)])
    have b: "b < FSSIZE" "b \<noteq> 0" using s data_blockD [OF g, of b] by auto
    define d' where "d' = d\<lparr>di_addrs := (di_addrs d)[bn := of_nat b]\<rparr>"
    have d': "i_d (ino fs' i) = d'" using i s by (simp add: f i_d_upd_d d'_def d_def)
    have ic: "ind_of d' = ind_of d" using bn by (simp add: ind_of_def d'_def)
    have indb: "ind_of d \<noteq> b" "ind_of d \<noteq> sb_bmapstart (fsb fs)" if "ind_of d \<noteq> 0"
      using iblocks_mem(2) [OF that, of fs] finode_okD(2,3) [OF ok(2), folded d_def] s geomD(6) [OF g] by auto
    have m: "maddr fs1 d' n = (if n = bn then b else maddr fs d n)" for n
    proof (cases "n < NDIRECT")
      case True
      then show ?thesis using la bn b(1) by (simp add: maddr_def d'_def nth_list_update unat_block)
    next
      case False
      then have "maddr fs1 d' n = maddr fs1 d n" "n \<noteq> bn" using ic bn by (auto simp: maddr_def)
      moreover have "maddr fs1 d n = maddr fs d n" by (rule maddr_cong) (use s indb in auto)
      ultimately show ?thesis by simp
    qed
    have "grown fs d fs1 d'"
    proof (rule grown_add [OF ok(1) ok(2) [folded d_def], where b = b and bn = bn])
      show "ind_of d' = ind_of d \<and> bn < MAXFILE \<and> maddr fs d bn = 0 \<and> (\<forall>n < MAXFILE. maddr fs1 d' n = (if n = bn then b else maddr fs d n)) \<or>
          ind_of d = 0 \<and> ind_of d' = b \<and> (\<forall>n < MAXFILE. maddr fs1 d' n = maddr fs d n)"
        using ic bn m True by (simp add: maddr_def)
      show "fblk fs1 0 = fblk fs 0" using s b(2) geomD(5) [OF g] by simp
    qed (use s la iblocks_mem(2) [of d fs] in \<open>auto simp: d'_def same_meta_def\<close>)
    then have "grown fs d fs' d'" by (simp add: f)
    moreover have "maddr fs' d' bn = b" using m by (simp add: f)
    moreover have "same_icache i fs fs'" unfolding f by (rule same_icache_upd_d [OF i]) (use s in simp)
    ultimately show ?thesis using True b(2) bn by (simp add: bmapped_def d' d_def [symmetric] maddr_def)
  qed
qed

lemma bindR_OkE: "bindR r f = Ok y \<Longrightarrow> (\<And>x. r = Ok x \<Longrightarrow> f x = Ok y \<Longrightarrow> thesis) \<Longrightarrow> thesis"
  by (cases r) auto

lemma bmap_ind_alloc:
  assumes ok: "blocks_ok fs" "finode_ok fs (i_d (ino fs i))" and i: "i < length (icache fs)" and z: "di_addrs (i_d (ino fs i)) ! NDIRECT = 0"
    and a: "balloc fs = Ok (b, fs1)" and f: "fs' = upd_d i (\<lambda>p. p\<lparr>di_addrs := (di_addrs p)[NDIRECT := of_nat b]\<rparr>) fs1"
  shows "grown fs (i_d (ino fs i)) fs' (i_d (ino fs' i))" "same_icache i fs fs'" "ind_of (i_d (ino fs' i)) = b" "b \<noteq> 0"
    "n < MAXFILE \<Longrightarrow> maddr fs' (i_d (ino fs' i)) n = maddr fs (i_d (ino fs i)) n"
proof -
  define d where "d = i_d (ino fs i)"
  have la: "length (di_addrs d) = NDIRECT + 1" using finode_okD(1) [OF ok(2)] by (simp add: d_def)
  note s = balloc_spec [OF ok(1) a, unfolded balloced_def]
  have g: "geom_ok (fsb fs)" by (rule blocks_okD(1) [OF ok(1)])
  have b: "b < FSSIZE" "b \<noteq> 0" using s data_blockD [OF g, of b] by auto
  define d' where "d' = d\<lparr>di_addrs := (di_addrs d)[NDIRECT := of_nat b]\<rparr>"
  have d': "i_d (ino fs' i) = d'" using i s by (simp add: f i_d_upd_d d'_def d_def)
  have i0: "ind_of d = 0" using z by (simp add: ind_of_def d_def)
  have ib: "ind_of d' = b" using la b(1) by (simp add: ind_of_def d'_def unat_block)
  have m: "maddr fs1 d' n = maddr fs d n" if "n < MAXFILE" for n
  proof (cases "n < NDIRECT")
    case True
    then show ?thesis by (simp add: maddr_def d'_def)
  next
    case False
    then have "4 * (n - NDIRECT) + 4 \<le> BSIZE" using that by simp
    then have "le32 (replicate BSIZE 0) (4 * (n - NDIRECT)) = 0" by (simp add: le32_def)
    then show ?thesis using False i0 ib b(2) s by (simp add: maddr_def)
  qed
  have "grown fs d fs1 d'"
  proof (rule grown_add [OF ok(1) ok(2) [folded d_def], where b = b and bn = 0])
    show "ind_of d' = ind_of d \<and> 0 < MAXFILE \<and> maddr fs d 0 = 0 \<and> (\<forall>n < MAXFILE. maddr fs1 d' n = (if n = 0 then b else maddr fs d n)) \<or>
        ind_of d = 0 \<and> ind_of d' = b \<and> (\<forall>n < MAXFILE. maddr fs1 d' n = maddr fs d n)"
      using i0 ib m by simp
    show "fblk fs1 0 = fblk fs 0" using s b(2) geomD(5) [OF g] by simp
  qed (use s la i0 in \<open>auto simp: d'_def same_meta_def\<close>)
  then show "grown fs (i_d (ino fs i)) fs' (i_d (ino fs' i))" by (simp add: f d_def [symmetric] d' [unfolded f])
  show "same_icache i fs fs'" unfolding f by (rule same_icache_upd_d [OF i]) (use s in simp)
  show "ind_of (i_d (ino fs' i)) = b" "b \<noteq> 0" using ib b d' by simp_all
  show "n < MAXFILE \<Longrightarrow> maddr fs' (i_d (ino fs' i)) n = maddr fs (i_d (ino fs i)) n" using m by (simp add: f d' [unfolded f] d_def)
qed

lemma bmap_entry_alloc:
  assumes ok: "blocks_ok fs" "finode_ok fs d" and id: "d = i_d (ino fs i)" and bn: "NDIRECT \<le> bn" "bn < MAXFILE" and ne: "ind_of d \<noteq> 0" and z: "maddr fs d bn = 0"
    and a: "balloc fs = Ok (b, fs2)" and w: "fwrite (ind_of d) (put32 (4 * (bn - NDIRECT)) (of_nat b) (fblk fs2 (ind_of d))) fs2 = Ok fs3"
  shows "grown fs d fs3 d" "same_icache i fs fs3" "maddr fs3 d bn = b" "b \<noteq> 0"
proof -
  let ?ib = "ind_of d" and ?k = "bn - NDIRECT"
  note s = balloc_spec [OF ok(1) a, unfolded balloced_def]
  have g: "geom_ok (fsb fs)" by (rule blocks_okD(1) [OF ok(1)])
  have b: "b < FSSIZE" "b \<noteq> 0" using s data_blockD [OF g, of b] by auto
  have mem: "?ib \<in> iblocks fs d" by (rule iblocks_mem(2) [OF ne])
  have ib: "data_block (fsb fs) ?ib" "bused fs ?ib" using finode_okD(2,3) [OF ok(2) mem] .
  then have ibb: "?ib \<noteq> b" "?ib \<noteq> sb_bmapstart (fsb fs)" "?ib < FSSIZE" using s data_blockD [OF g ib(1)] by auto
  note f = fwriteD [OF w]
  have e2: "fblk fs2 ?ib = fblk fs ?ib" using s ibb by simp
  have len: "length (fblk fs2 ?ib) = BSIZE" using s blocks_okD(2) [of fs2 ?ib] ibb by simp
  have k: "4 * ?k + 4 \<le> BSIZE" using bn by simp
  have ok3: "blocks_ok fs3" by (rule blocks_ok_write [OF _ f(3,1)]) (use s ibb len k in simp_all)
  have u: "\<forall>c < sb_size (fsb fs). bused fs3 c = (c = b \<or> bused fs c)"
    using bused_other [OF _ f(3,1)] s ibb g by simp
  have f3: "fblk fs3 ?ib = put32 (4 * ?k) (of_nat b) (fblk fs ?ib)" by (simp add: f e2)
  have m: "maddr fs3 d n = (if n = bn then b else maddr fs d n)" if n: "n < MAXFILE" for n
  proof (cases "n < NDIRECT")
    case True
    then show ?thesis using bn by (simp add: maddr_def)
  next
    case False
    have "le32 (fblk fs3 ?ib) (4 * (n - NDIRECT)) = (if n = bn then of_nat b else le32 (fblk fs ?ib) (4 * (n - NDIRECT)))"
    proof (cases "n = bn")
      case True
      then show ?thesis using k len e2 by (simp add: f3)
    next
      case ne: False
      then have "4 * (n - NDIRECT) + 4 \<le> 4 * ?k \<or> 4 * ?k + 4 \<le> 4 * (n - NDIRECT)" using False bn by linarith
      moreover have "4 * (n - NDIRECT) + 4 \<le> BSIZE" using n by simp
      ultimately show ?thesis using ne k len e2 by (simp add: f3 le32_put32_other)
    qed
    then show ?thesis using False ne bn b(1) by (simp add: maddr_def unat_block)
  qed
  show "grown fs d fs3 d"
  proof (rule grown_add [OF ok ok3, where b = b and bn = bn])
    show "ind_of d = ind_of d \<and> bn < MAXFILE \<and> maddr fs d bn = 0 \<and> (\<forall>n < MAXFILE. maddr fs3 d n = (if n = bn then b else maddr fs d n)) \<or>
        ind_of d = 0 \<and> ind_of d = b \<and> (\<forall>n < MAXFILE. maddr fs3 d n = maddr fs d n)"
      using m bn z by simp
  qed (use s u ibb f mem ne finode_okD(1) [OF ok(2)] in \<open>auto simp: same_meta_def\<close>)
  show "same_icache i fs fs3" using s f by (simp add: same_icache_def)
  show "maddr fs3 d bn = b" "b \<noteq> 0" using m bn b by simp_all
qed

lemma bmap_spec:
  fixes fs :: "'a fsys_scheme"
  assumes ok: "blocks_ok fs" "finode_ok fs (i_d (ino fs i))" and i: "i < length (icache fs)" and bn: "bn < MAXFILE"
    and r: "bmap i bn fs = Ok (b, fs')"
  shows "bmapped i bn b fs fs'"
proof (cases "bn < NDIRECT")
  case True
  then show ?thesis by (rule bmap_direct [OF ok i _ r])
next
  case False
  define d where "d = i_d (ino fs i)"
  have k: "bn - NDIRECT < NINDIRECT" using bn False by simp
  have g: "geom_ok (fsb fs)" by (rule blocks_okD(1) [OF ok(1)])
  define P where "P = (if di_addrs d ! NDIRECT = 0
        then bindR (balloc fs) (\<lambda>(b, fs1). Ok (b, upd_d i (\<lambda>p. p\<lparr>di_addrs := (di_addrs p)[NDIRECT := of_nat b]\<rparr>) fs1))
        else Ok (unat (di_addrs d ! NDIRECT), fs))"
  define Q where "Q = (\<lambda>(ib, fs1 :: 'a fsys_scheme). bindR (fread ib fs1) (\<lambda>dd. if le32 dd (4 * (bn - NDIRECT)) = 0
         then bindR (balloc fs1) (\<lambda>(b, fs2).
              bindR (fwrite ib (put32 (4 * (bn - NDIRECT)) (of_nat b) (fblk fs2 ib)) fs2) (\<lambda>fs3. Ok (b, fs3)))
         else Ok (unat (le32 dd (4 * (bn - NDIRECT))), fs1)))"
  have "bmap i bn fs = bindR P Q"
    using False k unfolding bmap_def Let_def P_def Q_def d_def by (simp only: if_False if_True)
  then have "bindR P Q = Ok (b, fs')" using r by simp
  then obtain x where x: "P = Ok x" "Q x = Ok (b, fs')" by (rule bindR_OkE)
  obtain ib fs1 where xe: "x = (ib, fs1)" by (cases x)
  have p: "P = Ok (ib, fs1)" using x(1) xe by simp
  have q: "bindR (fread ib fs1) (\<lambda>dd. if le32 dd (4 * (bn - NDIRECT)) = 0
         then bindR (balloc fs1) (\<lambda>(b, fs2).
              bindR (fwrite ib (put32 (4 * (bn - NDIRECT)) (of_nat b) (fblk fs2 ib)) fs2) (\<lambda>fs3. Ok (b, fs3)))
         else Ok (unat (le32 dd (4 * (bn - NDIRECT))), fs1)) = Ok (b, fs')"
    using x(2) by (simp only: Q_def xe prod.case)
  define d1 where "d1 = i_d (ino fs1 i)"
  have "grown fs d fs1 d1 \<and> same_icache i fs fs1 \<and> ind_of d1 = ib \<and> ib \<noteq> 0 \<and> (\<forall>n < MAXFILE. maddr fs1 d1 n = maddr fs d n) \<and>
      (di_addrs d ! NDIRECT \<noteq> 0 \<longrightarrow> fs1 = fs)"
  proof (cases "di_addrs d ! NDIRECT = 0")
    case True
    then obtain fs0 where a: "balloc fs = Ok (ib, fs0)" and f: "fs1 = upd_d i (\<lambda>p. p\<lparr>di_addrs := (di_addrs p)[NDIRECT := of_nat ib]\<rparr>) fs0"
      using p by (auto simp: P_def bindR_Ok_iff)
    note h = bmap_ind_alloc [OF ok i True [unfolded d_def] a f]
    show ?thesis
      using h True by (simp add: d1_def d_def)
  next
    case False
    then have e: "fs1 = fs" "ib = unat (di_addrs d ! NDIRECT)" using p by (auto simp: P_def)
    have "ib \<noteq> 0" using e(2) False by (simp add: unat_eq_zero)
    then show ?thesis
      using e grown_refl [OF ok] by (simp add: d1_def d_def same_icache_refl ind_of_def)
  qed
  then have 1: "grown fs d fs1 d1" "same_icache i fs fs1" "ind_of d1 = ib" "ib \<noteq> 0" "\<And>n. n < MAXFILE \<Longrightarrow> maddr fs1 d1 n = maddr fs d n"
    "di_addrs d ! NDIRECT \<noteq> 0 \<Longrightarrow> fs1 = fs" by blast+
  have ok1: "blocks_ok fs1" "finode_ok fs1 d1" using 1(1) by (simp_all add: grown_def)
  have i1: "i < length (icache fs1)" using 1(2) i by (simp add: same_icache_def)
  obtain dd where dd: "fread ib fs1 = Ok dd" using q by (cases "fread ib fs1") auto
  then have dd': "dd = fblk fs1 ib" by (simp add: fread_Ok)
  have m1: "maddr fs1 d1 bn = unat (le32 dd (4 * (bn - NDIRECT)))" using False 1(3,4) dd' by (simp add: maddr_def)
  show ?thesis
  proof (cases "le32 dd (4 * (bn - NDIRECT)) = 0")
    case True
    then obtain fs2 where a: "balloc fs1 = Ok (b, fs2)" and w: "fwrite ib (put32 (4 * (bn - NDIRECT)) (of_nat b) (fblk fs2 ib)) fs2 = Ok fs'"
      using q dd by (auto simp: Let_def bindR_Ok_iff)
    have z: "maddr fs1 d1 bn = 0" using m1 True by simp
    have bn': "NDIRECT \<le> bn" using False by simp
    have ne: "ind_of d1 \<noteq> 0" using 1(3,4) by simp
    note h = bmap_entry_alloc [OF ok1 d1_def bn' bn ne z a w [folded 1(3)]]
    have d3: "i_d (ino fs' i) = d1" using balloc_spec [OF ok1(1) a] fwriteD [OF w] by (simp add: balloced_def d1_def)
    have "maddr fs d bn = 0" using 1(5) [OF bn] z by simp
    then show ?thesis
      using grown_trans [OF 1(1) h(1)] same_icache_trans [OF 1(2) h(2)] h(3,4) by (simp add: bmapped_def d3 d_def)
  next
    case nz: False
    then have e: "fs' = fs1" "b = unat (le32 dd (4 * (bn - NDIRECT)))" using q dd by (auto simp: Let_def)
    have b: "maddr fs1 d1 bn = b" "b \<noteq> 0" using m1 e nz by (simp_all add: unat_eq_zero)
    have "di_addrs d ! NDIRECT \<noteq> 0"
    proof
      assume "di_addrs d ! NDIRECT = 0"
      then have "maddr fs d bn = 0" using False by (simp add: maddr_def ind_of_def)
      then show False using 1(5) [OF bn] b by simp
    qed
    then have "fs1 = fs" by (rule 1(6))
    then show ?thesis using 1(1,2) b e(1) by (simp add: bmapped_def d_def d1_def)
  qed
qed

section \<open>Reading\<close>

lemma bmap_mapped:
  assumes ok: "blocks_ok fs" "finode_ok fs (i_d (ino fs i))" and bn: "bn < MAXFILE" and m: "maddr fs (i_d (ino fs i)) bn \<noteq> 0"
  shows "bmap i bn fs = Ok (maddr fs (i_d (ino fs i)) bn, fs)"
proof (cases "bn < NDIRECT")
  case True
  then show ?thesis using m by (auto simp: bmap_def Let_def maddr_def)
next
  case False
  have ne: "ind_of (i_d (ino fs i)) \<noteq> 0" using m False by (cases "ind_of (i_d (ino fs i)) = 0") (simp_all add: maddr_def)
  have "ind_of (i_d (ino fs i)) < FSSIZE"
    using finode_okD(2) [OF ok(2) iblocks_mem(2) [OF ne]] data_blockD [OF blocks_okD(1) [OF ok(1)]] by simp
  then show ?thesis
    using False bn m ne by (auto simp: bmap_def Let_def maddr_def ind_of_def fread_def)
qed

lemma div_mod_add: "off mod BSIZE + j < BSIZE \<Longrightarrow> (off + j) div BSIZE = off div BSIZE \<and> (off + j) mod BSIZE = off mod BSIZE + j"
proof -
  assume "off mod BSIZE + j < BSIZE"
  moreover have "off + j = BSIZE * (off div BSIZE) + (off mod BSIZE + j)" by simp
  ultimately show ?thesis by (metis add.right_neutral div_less div_mult_self4 mod_less mod_mult_self4 zero_neq_numeral add.commute)
qed

lemma chunk:
  assumes "off mod BSIZE + m \<le> BSIZE" "length (fblk fs (maddr fs d (off div BSIZE))) = BSIZE" "maddr fs d (off div BSIZE) \<noteq> 0"
  shows "take m (drop (off mod BSIZE) (fblk fs (maddr fs d (off div BSIZE)))) = map (icontent fs d) [off ..< off + m]"
proof (rule nth_equalityI)
  fix j assume "j < length (take m (drop (off mod BSIZE) (fblk fs (maddr fs d (off div BSIZE)))))"
  then have j: "j < m" by simp
  then have "off mod BSIZE + j < BSIZE" using assms(1) by simp
  from div_mod_add [OF this] show "take m (drop (off mod BSIZE) (fblk fs (maddr fs d (off div BSIZE)))) ! j = map (icontent fs d) [off ..< off + m] ! j"
    using j assms by (simp add: icontent_def)
qed (use assms in simp)

lemma readi_loop_ok:
  assumes ok: "blocks_ok fs" "finode_ok fs (i_d (ino fs i))"
  shows "off + left \<le> MAXFILE * BSIZE \<Longrightarrow> (\<And>k. off \<le> k \<Longrightarrow> k < off + left \<Longrightarrow> maddr fs (i_d (ino fs i)) (k div BSIZE) \<noteq> 0) \<Longrightarrow>
    readi_loop i off left acc fs = Ok (acc @ map (icontent fs (i_d (ino fs i))) [off ..< off + left], fs)"
proof (induction left arbitrary: off acc rule: less_induct)
  case (less left)
  let ?d = "i_d (ino fs i)"
  show ?case
  proof (cases "left = 0")
    case True
    then show ?thesis by (simp add: readi_loop.simps)
  next
    case False
    define b where "b = maddr fs ?d (off div BSIZE)"
    define m where "m = min left (BSIZE - off mod BSIZE)"
    have bn: "off div BSIZE < MAXFILE" using less.prems(1) False by (simp add: less_mult_imp_div_less)
    have b0: "b \<noteq> 0" unfolding b_def using less.prems(2) [of off] False by simp
    note bm = bmap_mapped [OF ok bn b0 [unfolded b_def], folded b_def]
    have bb: "b < FSSIZE"
      using finode_okD(2) [OF ok(2) iblocks_mem(1) [OF bn]] b0 data_blockD [OF blocks_okD(1) [OF ok(1)]] by (simp add: b_def)
    have m: "0 < m" "m \<le> left" "off mod BSIZE + m \<le> BSIZE" using False by (simp_all add: m_def min_def) linarith
    have c: "take m (drop (off mod BSIZE) (fblk fs b)) = map (icontent fs ?d) [off ..< off + m]"
      unfolding b_def by (rule chunk [OF m(3)]) (use blocks_okD(2) [OF ok(1) bb] b0 in \<open>simp_all add: b_def\<close>)
    have "readi_loop i off left acc fs = readi_loop i (off + m) (left - m) (acc @ take m (drop (off mod BSIZE) (fblk fs b))) fs"
      using False bm bb by (subst readi_loop.simps) (simp add: fread_def Let_def m_def)
    also have "\<dots> = Ok ((acc @ map (icontent fs ?d) [off ..< off + m]) @ map (icontent fs ?d) [off + m ..< off + m + (left - m)], fs)"
      unfolding c by (rule less.IH) (use m less.prems in auto)
    also have "[off ..< off + left] = [off ..< off + m] @ [off + m ..< off + m + (left - m)]"
      using upt_add_eq_append [of off "off + m" "left - m"] m by simp
    then have "(acc @ map (icontent fs ?d) [off ..< off + m]) @ map (icontent fs ?d) [off + m ..< off + m + (left - m)] =
        acc @ map (icontent fs ?d) [off ..< off + left]" by simp
    finally show ?thesis .
  qed
qed

text \<open>A file without holes: every block below its size is there.\<close>

definition file_ok :: "nat \<Rightarrow> 'a fsys_scheme \<Rightarrow> bool" where
  "file_ok i fs \<longleftrightarrow> i < length (icache fs) \<and> blocks_ok fs \<and> finode_ok fs (i_d (ino fs i)) \<and> di_type (i_d (ino fs i)) \<noteq> T_DEV \<and>
     unat (di_size (i_d (ino fs i))) \<le> MAXFILE * BSIZE \<and>
     (\<forall>bn < MAXFILE. bn * BSIZE < unat (di_size (i_d (ino fs i))) \<longrightarrow> maddr fs (i_d (ino fs i)) bn \<noteq> 0)"

definition fsize :: "nat \<Rightarrow> 'a fsys_scheme \<Rightarrow> nat" where
  "fsize i fs = unat (di_size (i_d (ino fs i)))"

definition fbytes :: "nat \<Rightarrow> 'a fsys_scheme \<Rightarrow> u8 list" where
  "fbytes i fs = map (icontent fs (i_d (ino fs i))) [0 ..< fsize i fs]"

lemma length_fbytes [simp]: "length (fbytes i fs) = fsize i fs"
  by (simp add: fbytes_def)

lemma file_okD:
  assumes "file_ok i fs"
  shows "i < length (icache fs)" "blocks_ok fs" "finode_ok fs (i_d (ino fs i))" "di_type (i_d (ino fs i)) \<noteq> T_DEV"
    "fsize i fs \<le> MAXFILE * BSIZE" "k < fsize i fs \<Longrightarrow> maddr fs (i_d (ino fs i)) (k div BSIZE) \<noteq> 0"
proof -
  show "i < length (icache fs)" "blocks_ok fs" "finode_ok fs (i_d (ino fs i))" "di_type (i_d (ino fs i)) \<noteq> T_DEV"
    "fsize i fs \<le> MAXFILE * BSIZE" using assms by (simp_all add: file_ok_def fsize_def)
  assume k: "k < fsize i fs"
  then have "k div BSIZE < MAXFILE" using \<open>fsize i fs \<le> MAXFILE * BSIZE\<close> by (simp add: less_mult_imp_div_less)
  moreover have "k div BSIZE * BSIZE < fsize i fs" using k div_times_less_eq_dividend [of k BSIZE] by linarith
  ultimately show "maddr fs (i_d (ino fs i)) (k div BSIZE) \<noteq> 0" using assms by (simp add: file_ok_def fsize_def)
qed

lemma word_add_overflow: "off + n < off \<longleftrightarrow> 2 ^ 32 \<le> unat off + unat n" for off n :: u32
proof -
  have "off + n < off \<longleftrightarrow> \<not> off \<le> off + n" by (simp add: not_le)
  also have "\<dots> \<longleftrightarrow> \<not> unat off + unat n < 2 ^ LENGTH(32)" by (simp only: no_olen_add_nat)
  finally show ?thesis by (simp add: not_less)
qed

lemma readi_ok:
  assumes f: "file_ok i fs"
  shows "readi i off n fs =
    (if fsize i fs < unat off \<or> 2 ^ 32 \<le> unat off + unat n then Ok (-1, [], fs)
     else let m = min (unat n) (fsize i fs - unat off) in Ok (int m, take m (drop (unat off) (fbytes i fs)), fs))"
proof -
  note F = file_okD [OF f]
  let ?d = "i_d (ino fs i)"
  show ?thesis
  proof (cases "fsize i fs < unat off \<or> 2 ^ 32 \<le> unat off + unat n")
    case True
    then have "off > di_size ?d \<or> off + n < off" unfolding word_add_overflow by (simp add: fsize_def word_less_nat_alt)
    then show ?thesis using True F(4) by (simp add: readi_def Let_def)
  next
    case False
    then have le: "\<not> (off > di_size ?d \<or> off + n < off)" unfolding word_add_overflow by (simp add: fsize_def word_less_nat_alt)
    have un: "unat (off + n) = unat off + unat n" using False by (simp add: unat_add_lem [THEN iffD1])
    define n1 where "n1 = (if off + n > di_size ?d then di_size ?d - off else n)"
    have "off \<le> di_size ?d" using le by (simp add: not_less)
    then have n1: "unat n1 = min (unat n) (fsize i fs - unat off)"
      using un by (auto simp: n1_def fsize_def word_less_nat_alt unat_sub not_less)
    have lo: "readi_loop i (unat off) (unat n1) [] fs = Ok ([] @ map (icontent fs ?d) [unat off ..< unat off + unat n1], fs)"
    proof (rule readi_loop_ok [OF F(2,3)])
      have "unat off \<le> fsize i fs" using False by simp
      then show "unat off + unat n1 \<le> MAXFILE * BSIZE" unfolding n1 using F(5) by linarith
      show "maddr fs ?d (k div BSIZE) \<noteq> 0" if "unat off \<le> k" "k < unat off + unat n1" for k
        using that n1 F(6) [of k] by simp
    qed
    have t: "take (unat n1) (drop (unat off) (fbytes i fs)) = map (icontent fs ?d) [unat off ..< unat off + unat n1]"
    proof -
      have "unat off \<le> fsize i fs" using False by simp
      then have "unat off + unat n1 \<le> fsize i fs" unfolding n1 by linarith
      then show ?thesis by (simp add: fbytes_def take_map drop_map take_upt)
    qed
    show ?thesis
      unfolding readi_def Let_def using F(4) le False lo t n1 by (simp add: n1_def [symmetric])
  qed
qed

section \<open>Writing\<close>

definition extended :: "'a fsys_scheme \<Rightarrow> dinode \<Rightarrow> 'a fsys_scheme \<Rightarrow> dinode \<Rightarrow> bool" where
  "extended fs d fs' d' \<longleftrightarrow> blocks_ok fs' \<and> finode_ok fs' d' \<and> fsb fs' = fsb fs \<and> same_meta d d' \<and>
     iblocks fs d \<subseteq> iblocks fs' d' \<and>
     (\<forall>c < sb_size (fsb fs). bused fs' c \<longleftrightarrow> bused fs c \<or> c \<in> iblocks fs' d') \<and>
     (\<forall>n < MAXFILE. maddr fs d n \<noteq> 0 \<longrightarrow> maddr fs' d' n = maddr fs d n) \<and>
     (\<forall>c. c \<noteq> sb_bmapstart (fsb fs) \<longrightarrow> c \<notin> iblocks fs' d' \<longrightarrow> fblk fs' c = fblk fs c) \<and>
     (\<forall>c. bused fs c \<longrightarrow> c < sb_size (fsb fs) \<longrightarrow> c \<notin> iblocks fs d \<longrightarrow> c \<notin> iblocks fs' d')"

lemma grown_extended: "grown fs d fs' d' \<Longrightarrow> extended fs d fs' d'"
  by (simp add: grown_def extended_def)

lemma extended_trans:
  assumes a: "extended fs d fs1 d1" and b: "extended fs1 d1 fs2 d2"
  shows "extended fs d fs2 d2"
  unfolding extended_def
proof (intro conjI allI impI)
  note a' = a [unfolded extended_def] and b' = b [unfolded extended_def]
  show "blocks_ok fs2" "finode_ok fs2 d2" "fsb fs2 = fsb fs" "iblocks fs d \<subseteq> iblocks fs2 d2" using a' b' by auto
  show "same_meta d d2" using a' b' by (simp add: same_meta_def)
  show "bused fs2 c = (bused fs c \<or> c \<in> iblocks fs2 d2)" if "c < sb_size (fsb fs)" for c
    using a' b' that by (metis subsetD)
  show "maddr fs2 d2 n = maddr fs d n" if "n < MAXFILE" "maddr fs d n \<noteq> 0" for n using a' b' that by metis
  show "fblk fs2 c = fblk fs c" if "c \<noteq> sb_bmapstart (fsb fs)" "c \<notin> iblocks fs2 d2" for c using a' b' that by (metis subsetD)
  show "c \<notin> iblocks fs2 d2" if "bused fs c" "c < sb_size (fsb fs)" "c \<notin> iblocks fs d" for c using a' b' that by metis
qed

text \<open>One block of the file gets new data.\<close>

lemma data_write:
  assumes ok: "blocks_ok fs" "finode_ok fs d" and bn: "bn < MAXFILE" "maddr fs d bn = b" "b \<noteq> 0"
    and w: "fwrite b x fs = Ok fs'" and x: "length x = BSIZE"
  shows "extended fs d fs' d" "icache fs' = icache fs" "n < MAXFILE \<Longrightarrow> maddr fs' d n = maddr fs d n"
    "k < MAXFILE * BSIZE \<Longrightarrow> icontent fs' d k = (if k div BSIZE = bn then x ! (k mod BSIZE) else icontent fs d k)"
proof -
  note f = fwriteD [OF w]
  have g: "geom_ok (fsb fs)" by (rule blocks_okD(1) [OF ok(1)])
  have mem: "b \<in> iblocks fs d" using iblocks_mem(1) [OF bn(1), of fs d] bn(2,3) by simp
  have db: "data_block (fsb fs) b" "bused fs b" using finode_okD(2,3) [OF ok(2) mem] .
  have bm: "b \<noteq> sb_bmapstart (fsb fs)" "b < sb_size (fsb fs)" using db geomD(6) [OF g] by (auto simp: data_block_def)
  have ib: "b \<noteq> ind_of d" using finode_okD(5) [OF ok(2) bn(1)] bn by auto
  have m: "maddr fs' d = maddr fs d" by (rule ext, rule maddr_cong) (use ib in \<open>simp add: f\<close>)
  then show "n < MAXFILE \<Longrightarrow> maddr fs' d n = maddr fs d n" by simp
  have ibs: "iblocks fs' d = iblocks fs d" by (simp add: iblocks_def m)
  have ok': "blocks_ok fs'" by (rule blocks_ok_write [OF ok(1) f(3,1) bm(1) x])
  have u: "bused fs' c = bused fs c" if "c < sb_size (fsb fs)" for c by (rule bused_other [OF g f(3,1) bm(1) that])
  have "finode_ok fs' d"
    using ok(2) u data_blockD [OF g] unfolding finode_ok_def ibs m f(3) by blast
  then show "extended fs d fs' d"
    using ok' u mem finode_okD(3) [OF ok(2)] unfolding extended_def ibs m by (auto simp: f same_meta_def)
  show "icache fs' = icache fs" by (rule f(2))
  assume k: "k < MAXFILE * BSIZE"
  then have kn: "k div BSIZE < MAXFILE" by (simp add: less_mult_imp_div_less)
  have "maddr fs d (k div BSIZE) = b \<longleftrightarrow> k div BSIZE = bn"
    using finode_okD(4) [OF ok(2) kn bn(1)] bn(2,3) by auto
  then show "icontent fs' d k = (if k div BSIZE = bn then x ! (k mod BSIZE) else icontent fs d k)"
    using bn by (simp add: icontent_def m f(1))
qed

definition wrote_range :: "nat \<Rightarrow> nat \<Rightarrow> u8 list \<Rightarrow> 'a fsys_scheme \<Rightarrow> 'a fsys_scheme \<Rightarrow> bool" where
  "wrote_range i off src fs fs' \<longleftrightarrow> extended fs (i_d (ino fs i)) fs' (i_d (ino fs' i)) \<and> same_icache i fs fs' \<and>
     (\<forall>k < MAXFILE * BSIZE. icontent fs' (i_d (ino fs' i)) k =
        (if off \<le> k \<and> k < off + length src then src ! (k - off) else icontent fs (i_d (ino fs i)) k)) \<and>
     (\<forall>k. off \<le> k \<longrightarrow> k < off + length src \<longrightarrow> maddr fs' (i_d (ino fs' i)) (k div BSIZE) \<noteq> 0)"

lemma writei_loop_spec:
  "blocks_ok fs \<Longrightarrow> finode_ok fs (i_d (ino fs i)) \<Longrightarrow> i < length (icache fs) \<Longrightarrow> off + length src \<le> MAXFILE * BSIZE \<Longrightarrow>
   writei_loop i off src fs = Ok fs' \<Longrightarrow> wrote_range i off src fs fs'"
proof (induction "length src" arbitrary: off src fs rule: less_induct)
  case less
  let ?d = "i_d (ino fs i)"
  show ?case
  proof (cases "src = []")
    case True
    then have "fs' = fs" using less.prems(5) by (simp add: writei_loop.simps)
    then show ?thesis using True less.prems(1,2) grown_extended [OF grown_refl] by (auto simp: wrote_range_def same_icache_refl)
  next
    case False
    define m where "m = min (length src) (BSIZE - off mod BSIZE)"
    define o' where "o' = off mod BSIZE"
    have om: "o' < BSIZE" by (simp add: o'_def)
    have m: "0 < m" "m \<le> length src" "o' + m \<le> BSIZE" using False om by (simp_all add: m_def o'_def [symmetric] min_def) linarith
    have lp: "0 < length src" using False by simp
    then have "off < MAXFILE * BSIZE" using less.prems(4) by linarith
    then have bn: "off div BSIZE < MAXFILE" by (rule less_mult_imp_div_less)
    from less.prems(5) False obtain b fs1 dd fs2 where b: "bmap i (off div BSIZE) fs = Ok (b, fs1)" and dd: "fread b fs1 = Ok dd"
      and w: "fwrite b (splice o' (take m src) dd) fs1 = Ok fs2" and l: "writei_loop i (off + m) (drop m src) fs2 = Ok fs'"
      by (subst (asm) writei_loop.simps) (auto simp: bindR_Ok_iff Let_def m_def o'_def)
    note bm = bmap_spec [OF less.prems(1,2,3) bn b, unfolded bmapped_def]
    define d1 where "d1 = i_d (ino fs1 i)"
    have g1: "grown fs ?d fs1 d1" "same_icache i fs fs1" "maddr fs1 d1 (off div BSIZE) = b" "b \<noteq> 0" using bm by (simp_all add: d1_def)
    have ok1: "blocks_ok fs1" "finode_ok fs1 d1" using g1(1) by (simp_all add: grown_def)
    have dd': "dd = fblk fs1 b" "b < FSSIZE" using dd by (simp_all add: fread_Ok)
    have ld: "length dd = BSIZE" using blocks_okD(2) [OF ok1(1) dd'(2)] dd'(1) by simp
    have lx: "length (splice o' (take m src) dd) = BSIZE" using ld m by simp
    note dw = data_write [OF ok1 bn g1(3,4) w lx]
    have d2: "i_d (ino fs2 i) = d1" using dw(2) by (simp add: d1_def)
    have i2: "i < length (icache fs2)" using dw(2) g1(2) less.prems(3) by (simp add: same_icache_def)
    have ok2: "blocks_ok fs2" "finode_ok fs2 d1" using dw(1) by (simp_all add: extended_def)
    have len: "length (drop m src) < length src" using m lp by simp
    have "wrote_range i (off + m) (drop m src) fs2 fs'"
      by (rule less.hyps [OF len ok2(1) _ i2 _ l]) (use ok2 d2 less.prems(4) m in simp_all)
    note W = this [unfolded wrote_range_def d2]
    define d' where "d' = i_d (ino fs' i)"
    have c1: "icontent fs1 d1 k = icontent fs ?d k" if "k < MAXFILE * BSIZE" for k using g1(1) that by (simp add: grown_def)
    have c2: "icontent fs2 d1 k = (if off \<le> k \<and> k < off + m then src ! (k - off) else icontent fs ?d k)" if k: "k < MAXFILE * BSIZE" for k
    proof (cases "k div BSIZE = off div BSIZE")
      case True
      have k': "k = off div BSIZE * BSIZE + k mod BSIZE" "off = off div BSIZE * BSIZE + o'"
        using True div_mult_mod_eq [of k BSIZE] div_mult_mod_eq [of off BSIZE] by (simp_all add: o'_def)
      then have iff: "off \<le> k \<and> k < off + m \<longleftrightarrow> o' \<le> k mod BSIZE \<and> k mod BSIZE < o' + m" "k - off = k mod BSIZE - o'" by linarith+
      have kc: "icontent fs ?d k = dd ! (k mod BSIZE)"
        using c1 [OF k] g1(3,4) True by (simp add: icontent_def dd'(1))
      have km: "k mod BSIZE < BSIZE" by simp
      have "icontent fs2 d1 k = splice o' (take m src) dd ! (k mod BSIZE)" using dw(4) [OF k] True by simp
      also have "\<dots> = (if o' \<le> k mod BSIZE \<and> k mod BSIZE < o' + m then src ! (k mod BSIZE - o') else dd ! (k mod BSIZE))"
        using m ld km by (subst nth_splice) auto
      finally show ?thesis unfolding iff kc .
    next
      case False
      have "\<not> (off \<le> k \<and> k < off + m)"
      proof
        assume a: "off \<le> k \<and> k < off + m"
        then have "o' + (k - off) < BSIZE" using m by linarith
        from div_mod_add [OF this [unfolded o'_def]] show False using False a by simp
      qed
      then show ?thesis using dw(4) [OF k] c1 [OF k] False by (simp only: if_False)
    qed
    have mp: "maddr fs2 d1 (off div BSIZE) \<noteq> 0" using dw(3) [OF bn] g1(3,4) by simp
    show ?thesis
      unfolding wrote_range_def d'_def [symmetric]
    proof (intro conjI allI impI)
      show "extended fs ?d fs' d'"
        using extended_trans [OF extended_trans [OF grown_extended [OF g1(1)] dw(1)]] W by (simp add: d'_def)
      have "same_icache i fs1 fs2" using dw(2) by (simp add: same_icache_def)
      then show "same_icache i fs fs'" using same_icache_trans [OF same_icache_trans [OF g1(2)]] W by blast
      show "icontent fs' d' k = (if off \<le> k \<and> k < off + length src then src ! (k - off) else icontent fs ?d k)" if k: "k < MAXFILE * BSIZE" for k
      proof -
        have "icontent fs' d' k = (if off + m \<le> k \<and> k < off + m + (length src - m) then drop m src ! (k - (off + m)) else icontent fs2 d1 k)"
          using W k by (simp add: d'_def)
        then show ?thesis using m c2 [OF k] by auto
      qed
      show "maddr fs' d' (k div BSIZE) \<noteq> 0" if k: "off \<le> k" "k < off + length src" for k
      proof (cases "k < off + m")
        case True
        then have "o' + (k - off) < BSIZE" using m k by linarith
        from div_mod_add [OF this [unfolded o'_def]] have "k div BSIZE = off div BSIZE" using k by simp
        moreover have "maddr fs' d' (off div BSIZE) = maddr fs2 d1 (off div BSIZE)"
          using W bn mp by (simp add: extended_def d'_def)
        ultimately show ?thesis using mp by simp
      next
        case False
        then show ?thesis using W k m by (simp add: d'_def)
      qed
    qed
  qed
qed

section \<open>The whole of writei\<close>

lemma writei_loop_mapped:
  "blocks_ok fs \<Longrightarrow> finode_ok fs (i_d (ino fs i)) \<Longrightarrow> off + length src \<le> MAXFILE * BSIZE \<Longrightarrow>
   (\<And>k. off \<le> k \<Longrightarrow> k < off + length src \<Longrightarrow> maddr fs (i_d (ino fs i)) (k div BSIZE) \<noteq> 0) \<Longrightarrow>
   writei_loop i off src fs = Ok fs' \<Longrightarrow> icache fs' = icache fs"
proof (induction "length src" arbitrary: off src fs rule: less_induct)
  case less
  let ?d = "i_d (ino fs i)"
  show ?case
  proof (cases "src = []")
    case True
    then show ?thesis using less.prems(5) by (simp add: writei_loop.simps)
  next
    case False
    define m where "m = min (length src) (BSIZE - off mod BSIZE)"
    have "off mod BSIZE < BSIZE" by simp
    then have m: "0 < m" "m \<le> length src" "off mod BSIZE + m \<le> BSIZE" using False by (simp_all add: m_def min_def) linarith
    have lp: "0 < length src" using False by simp
    then have "off < MAXFILE * BSIZE" using less.prems(3) by linarith
    then have bn: "off div BSIZE < MAXFILE" by (rule less_mult_imp_div_less)
    define b where "b = maddr fs ?d (off div BSIZE)"
    have b0: "b \<noteq> 0" unfolding b_def using less.prems(4) [of off] lp by simp
    note bm = bmap_mapped [OF less.prems(1,2) bn b0 [unfolded b_def], folded b_def]
    from less.prems(5) False bm obtain dd fs2 where dd: "fread b fs = Ok dd"
      and w: "fwrite b (splice (off mod BSIZE) (take m src) dd) fs = Ok fs2" and l: "writei_loop i (off + m) (drop m src) fs2 = Ok fs'"
      by (subst (asm) writei_loop.simps) (auto simp: bindR_Ok_iff Let_def m_def)
    have dd': "dd = fblk fs b" "b < FSSIZE" using dd by (simp_all add: fread_Ok)
    have lx: "length (splice (off mod BSIZE) (take m src) dd) = BSIZE"
      using blocks_okD(2) [OF less.prems(1) dd'(2)] dd'(1) m by simp
    note dw = data_write [OF less.prems(1,2) bn b_def [symmetric] b0 w lx]
    have d2: "i_d (ino fs2 i) = ?d" using dw(2) by simp
    have ok2: "blocks_ok fs2" "finode_ok fs2 ?d" using dw(1) by (simp_all add: extended_def)
    have len: "length (drop m src) < length src" using m lp by simp
    have "icache fs' = icache fs2"
    proof (rule less.hyps [OF len ok2(1) _ _ _ l])
      show "finode_ok fs2 (i_d (ino fs2 i))" using ok2 d2 by simp
      show "off + m + length (drop m src) \<le> MAXFILE * BSIZE" using less.prems(3) m by simp
      fix k assume k: "off + m \<le> k" "k < off + m + length (drop m src)"
      then have "k < MAXFILE * BSIZE" using less.prems(3) m by simp
      then have kn: "k div BSIZE < MAXFILE" by (rule less_mult_imp_div_less)
      show "maddr fs2 (i_d (ino fs2 i)) (k div BSIZE) \<noteq> 0"
        using dw(3) [OF kn] less.prems(4) [of k] k m d2 by simp
    qed
    then show ?thesis using dw(2) by simp
  qed
qed

lemma extended_disk_inode:
  assumes "extended fs d fs' d'" "inum < sb_ninodes (fsb fs)"
  shows "disk_inode fs' inum = disk_inode fs inum"
proof -
  have g: "geom_ok (fsb fs')" and f: "finode_ok fs' d'" and sb: "fsb fs' = fsb fs" using assms(1) by (auto simp: extended_def blocks_ok_def)
  let ?b = "IBLOCK inum (fsb fs)"
  have b: "?b < sb_bmapstart (fsb fs)" using geomD(9) [OF g] assms(2) sb by simp
  then have "\<not> data_block (fsb fs) ?b" by (simp add: data_block_def)
  then have "?b \<notin> iblocks fs' d'" using finode_okD(2) [OF f] sb by auto
  then show ?thesis using assms(1) b sb unfolding disk_inode_def extended_def by auto
qed

text \<open>Another file, with blocks of its own, keeps its blocks and its bytes.\<close>

lemma extended_other:
  assumes e: "extended fs d fs' d'" and f: "finode_ok fs dj" and dis: "iblocks fs d \<inter> iblocks fs dj = {}"
  shows "finode_ok fs' dj" "maddr fs' dj = maddr fs dj" "iblocks fs' dj = iblocks fs dj" "iblocks fs' d' \<inter> iblocks fs dj = {}"
    "k < MAXFILE * BSIZE \<Longrightarrow> icontent fs' dj k = icontent fs dj k"
proof -
  note e' = e [unfolded extended_def]
  have g: "geom_ok (fsb fs)" using e' by (auto simp: blocks_ok_def)
  have n: "c \<notin> iblocks fs' d'" "c < sb_size (fsb fs)" "fblk fs' c = fblk fs c" if c: "c \<in> iblocks fs dj" for c
  proof -
    have dc: "data_block (fsb fs) c" "bused fs c" using finode_okD(2,3) [OF f c] .
    show s: "c < sb_size (fsb fs)" using dc by (simp add: data_block_def)
    have "c \<notin> iblocks fs d" using c dis by blast
    then show i: "c \<notin> iblocks fs' d'" using e' dc s by blast
    have "c \<noteq> sb_bmapstart (fsb fs)" using dc geomD(6) [OF g] by auto
    then show "fblk fs' c = fblk fs c" using e' i by blast
  qed
  show m: "maddr fs' dj = maddr fs dj"
    by (rule ext, rule maddr_cong) (rule n(3) [OF iblocks_mem(2)])
  show i: "iblocks fs' dj = iblocks fs dj" by (simp add: iblocks_def m)
  show "iblocks fs' d' \<inter> iblocks fs dj = {}" using n(1) by blast
  show "finode_ok fs' dj"
    using f n(2) e' unfolding finode_ok_def i m by metis
  show "icontent fs' dj k = icontent fs dj k" if k: "k < MAXFILE * BSIZE"
    using n(3) [OF iblocks_mem(1)] less_mult_imp_div_less [OF k] by (cases "maddr fs dj (k div BSIZE) = 0") (simp_all add: icontent_def m)
qed

text \<open>Writing an inode block changes no file's blocks or bytes.\<close>

lemma meta_write:
  assumes ok: "blocks_ok fs" and f: "finode_ok fs d" and sb: "fsb fs' = fsb fs" and ok': "blocks_ok fs'" and c: "c < sb_bmapstart (fsb fs)"
    and o: "\<And>a. a \<noteq> c \<Longrightarrow> fblk fs' a = fblk fs a"
  shows "finode_ok fs' d" "maddr fs' d = maddr fs d" "iblocks fs' d = iblocks fs d" "k < MAXFILE * BSIZE \<Longrightarrow> icontent fs' d k = icontent fs d k"
    "a < sb_size (fsb fs) \<Longrightarrow> bused fs' a = bused fs a"
proof -
  have g: "geom_ok (fsb fs)" by (rule blocks_okD(1) [OF ok])
  have n: "fblk fs' a = fblk fs a" "a < sb_size (fsb fs)" if "a \<in> iblocks fs d" for a
    using finode_okD(2) [OF f that] c by (auto simp: data_block_def intro: o)
  show u: "bused fs' a = bused fs a" if "a < sb_size (fsb fs)" for a
    using o [of "sb_bmapstart (fsb fs)"] c bused_bit [OF g that] bused_bit [of fs' a] g that sb by simp
  show m: "maddr fs' d = maddr fs d" by (rule ext, rule maddr_cong) (rule n(1) [OF iblocks_mem(2)])
  show i: "iblocks fs' d = iblocks fs d" by (simp add: iblocks_def m)
  show "finode_ok fs' d" using f u n(2) unfolding finode_ok_def i m sb by metis
  show "icontent fs' d k = icontent fs d k" if k: "k < MAXFILE * BSIZE"
    using n(1) [OF iblocks_mem(1)] less_mult_imp_div_less [OF k] by (cases "maddr fs d (k div BSIZE) = 0") (simp_all add: icontent_def m)
qed

lemma finode_ok_meta: "di_addrs d' = di_addrs d \<Longrightarrow> finode_ok fs d' = finode_ok fs d" "di_addrs d' = di_addrs d \<Longrightarrow> maddr fs d' = maddr fs d"
  "di_addrs d' = di_addrs d \<Longrightarrow> iblocks fs d' = iblocks fs d" "di_addrs d' = di_addrs d \<Longrightarrow> icontent fs d' = icontent fs d"
proof -
  assume a: "di_addrs d' = di_addrs d"
  then show m: "maddr fs d' = maddr fs d" by (simp add: maddr_def ind_of_def fun_eq_iff)
  with a show i: "iblocks fs d' = iblocks fs d" by (simp add: iblocks_def ind_of_def)
  show "icontent fs d' = icontent fs d" by (simp add: icontent_def m fun_eq_iff)
  show "finode_ok fs d' = finode_ok fs d" using a by (simp add: finode_ok_def m i ind_of_def)
qed

definition writei_bad :: "nat \<Rightarrow> 'a fsys_scheme \<Rightarrow> u32 \<Rightarrow> u32 \<Rightarrow> bool" where
  "writei_bad i fs off n \<longleftrightarrow> fsize i fs < unat off \<or> MAXFILE * BSIZE < unat off + unat n"

lemma writei_unfold:
  assumes f: "file_ok i fs"
  shows "writei_bad i fs off n \<Longrightarrow> writei i src off n fs = Ok (-1, fs)"
    "\<not> writei_bad i fs off n \<Longrightarrow> writei i src off n fs =
      bindR (writei_loop i (unat off) src fs) (\<lambda>fs1.
      bindR (if n > 0 \<and> off + n > di_size (i_d (ino fs1 i)) then iupdate i (upd_d i (\<lambda>p. p\<lparr>di_size := off + n\<rparr>) fs1) else Ok fs1)
        (\<lambda>fs2. Ok (int (unat n), fs2)))"
    "\<not> writei_bad i fs off n \<Longrightarrow> unat (off + n) = unat off + unat n"
proof -
  note F = file_okD [OF f]
  let ?d = "i_d (ino fs i)"
  have o1: "off > di_size ?d \<longleftrightarrow> fsize i fs < unat off" by (simp add: fsize_def word_less_nat_alt)
  have un: "unat (off + n) = unat off + unat n" if "unat off + unat n < 2 ^ 32"
    using that by (simp add: unat_add_lem [THEN iffD1])
  then show u: "\<not> writei_bad i fs off n \<Longrightarrow> unat (off + n) = unat off + unat n" by (simp add: writei_bad_def)
  have b: "(off > di_size ?d \<or> off + n < off) \<or> off + n > of_nat (MAXFILE * BSIZE) \<longleftrightarrow> writei_bad i fs off n"
  proof (cases "unat off + unat n < 2 ^ 32")
    case True
    then have "\<not> off + n < off" by (simp add: word_add_overflow)
    moreover have "off + n > of_nat (MAXFILE * BSIZE) \<longleftrightarrow> MAXFILE * BSIZE < unat off + unat n"
      by (simp add: word_less_nat_alt un [OF True])
    ultimately show ?thesis using o1 by (auto simp: writei_bad_def)
  next
    case False
    then show ?thesis using word_add_overflow [of off n] by (simp add: writei_bad_def)
  qed
  show "writei_bad i fs off n \<Longrightarrow> writei i src off n fs = Ok (-1, fs)"
    using b F(4) by (auto simp: writei_def Let_def)
  assume nb: "\<not> writei_bad i fs off n"
  then have "unat n < 2 ^ 31" by (simp add: writei_bad_def)
  then have "int (unat n) < int (2 ^ 31)" by (simp only: of_nat_less_iff)
  then have u31: "uint n < 2 ^ 31" by simp
  have a: "signed_take_bit 31 (uint n) = uint n"
    by (rule signed_take_bit_int_eq_self [OF _ u31]) (rule order_trans [OF _ uint_ge_0], simp)
  have b31: "sint n = signed_take_bit 31 (uint n)" by (simp add: sint_uint)
  have s: "sint n = int (unat n)" unfolding b31 a by (rule uint_nat)
  show "writei i src off n fs =
      bindR (writei_loop i (unat off) src fs) (\<lambda>fs1.
      bindR (if n > 0 \<and> off + n > di_size (i_d (ino fs1 i)) then iupdate i (upd_d i (\<lambda>p. p\<lparr>di_size := off + n\<rparr>) fs1) else Ok fs1)
        (\<lambda>fs2. Ok (int (unat n), fs2)))"
    using b nb F(4) s by (simp add: writei_def Let_def)
qed

text \<open>What a successful write does to the file, to its inode on disk and to everything else.\<close>

definition write_done :: "nat \<Rightarrow> nat \<Rightarrow> u8 list \<Rightarrow> 'a fsys_scheme \<Rightarrow> 'a fsys_scheme \<Rightarrow> bool" where
  "write_done i off src fs fs' \<longleftrightarrow> file_ok i fs' \<and> fsb fs' = fsb fs \<and>
     fbytes i fs' = take off (fbytes i fs) @ src @ drop (off + length src) (fbytes i fs) \<and>
     same_icache i fs fs' \<and>
     (\<forall>m < sb_ninodes (fsb fs). m \<noteq> i_num (ino fs i) \<longrightarrow> disk_inode fs' m = disk_inode fs m) \<and>
     (disk_inode fs (i_num (ino fs i)) = i_d (ino fs i) \<longrightarrow> disk_inode fs' (i_num (ino fs i)) = i_d (ino fs' i)) \<and>
     (\<forall>dj. finode_ok fs dj \<longrightarrow> iblocks fs (i_d (ino fs i)) \<inter> iblocks fs dj = {} \<longrightarrow>
        finode_ok fs' dj \<and> iblocks fs' (i_d (ino fs' i)) \<inter> iblocks fs' dj = {} \<and>
        (\<forall>k < MAXFILE * BSIZE. icontent fs' dj k = icontent fs dj k))"

lemma writei_spec:
  assumes f: "file_ok i fs" and n: "length src = unat n" and num: "i_num (ino fs i) < sb_ninodes (fsb fs)"
    and nb: "\<not> writei_bad i fs off n" and r: "writei i src off n fs = Ok (x, fs')"
  shows "x = int (unat n)" "write_done i (unat off) src fs fs'"
proof -
  note F = file_okD [OF f] and U = writei_unfold [OF f, where off = off and n = n]
  let ?d = "i_d (ino fs i)" and ?N = "i_num (ino fs i)" and ?o = "unat off"
  have le: "?o \<le> fsize i fs" "?o + unat n \<le> MAXFILE * BSIZE" using nb by (simp_all add: writei_bad_def)
  obtain fs1 where l: "writei_loop i ?o src fs = Ok fs1" and x: "x = int (unat n)"
    and u: "(if n > 0 \<and> off + n > di_size (i_d (ino fs1 i)) then iupdate i (upd_d i (\<lambda>p. p\<lparr>di_size := off + n\<rparr>) fs1) else Ok fs1) = Ok fs'"
    using r unfolding U(2) [OF nb] by (auto simp: bindR_Ok_iff)
  show "x = int (unat n)" by (rule x)
  define d1 where "d1 = i_d (ino fs1 i)"
  note W = writei_loop_spec [OF F(2,3,1) _ l, unfolded n, OF le(2), unfolded wrote_range_def n, folded d1_def]
  have E: "extended fs ?d fs1 d1" using W by blast
  note E' = E [unfolded extended_def]
  have ok1: "blocks_ok fs1" "finode_ok fs1 d1" "fsb fs1 = fsb fs" using E' by auto
  have si1: "same_icache i fs fs1" using W by blast
  have sz1: "di_size d1 = di_size ?d" "di_type d1 = di_type ?d" using E' by (simp_all add: same_meta_def)
  have i1: "i < length (icache fs1)" "i_num (ino fs1 i) = ?N" using si1 F(1) by (simp_all add: same_icache_def)
  define size' where "size' = max (fsize i fs) (?o + unat n)"
  have full: "maddr fs1 d1 bn \<noteq> 0" if bn: "bn < MAXFILE" "bn * BSIZE < size'" for bn
  proof (cases "bn * BSIZE < fsize i fs")
    case True
    then have "maddr fs ?d bn \<noteq> 0" using F(6) [of "bn * BSIZE"] by simp
    then show ?thesis using E' bn(1) by simp
  next
    case False
    then have "bn * BSIZE < ?o + unat n" "?o \<le> bn * BSIZE" using bn le(1) by (auto simp: size'_def)
    then show ?thesis using W by fastforce
  qed
  have c1: "icontent fs1 d1 k = (if ?o \<le> k \<and> k < ?o + unat n then src ! (k - ?o) else icontent fs ?d k)" if "k < MAXFILE * BSIZE" for k
    using W that by blast
  have bytes: "map (icontent fs1 d1) [0 ..< size'] = take ?o (fbytes i fs) @ src @ drop (?o + length src) (fbytes i fs)"
  proof (rule nth_equalityI)
    show "length (map (icontent fs1 d1) [0 ..< size']) = length (take ?o (fbytes i fs) @ src @ drop (?o + length src) (fbytes i fs))"
      using le n by (simp add: size'_def max_def)
    fix k assume "k < length (map (icontent fs1 d1) [0 ..< size'])"
    then have k: "k < size'" by simp
    have km: "k < MAXFILE * BSIZE" using k le(2) F(5) by (simp add: size'_def max_def split: if_splits)
    have "map (icontent fs1 d1) [0 ..< size'] ! k = (if ?o \<le> k \<and> k < ?o + unat n then src ! (k - ?o) else icontent fs ?d k)"
      using k c1 [OF km] by simp
    also have "\<dots> = (take ?o (fbytes i fs) @ src @ drop (?o + length src) (fbytes i fs)) ! k"
      using k le n by (auto simp: nth_append fbytes_def size'_def max_def split: if_splits)
    finally show "map (icontent fs1 d1) [0 ..< size'] ! k = (take ?o (fbytes i fs) @ src @ drop (?o + length src) (fbytes i fs)) ! k" .
  qed
  have other1: "finode_ok fs1 dj \<and> iblocks fs1 d1 \<inter> iblocks fs1 dj = {} \<and> (\<forall>k < MAXFILE * BSIZE. icontent fs1 dj k = icontent fs dj k)"
    if "finode_ok fs dj" "iblocks fs ?d \<inter> iblocks fs dj = {}" for dj
    using extended_other [OF E that] by simp
  have dk1: "disk_inode fs1 m = disk_inode fs m" if "m < sb_ninodes (fsb fs)" for m by (rule extended_disk_inode [OF E that])
  show "write_done i ?o src fs fs'"
  proof (cases "n > 0 \<and> off + n > di_size d1")
    case False
    then have e: "fs' = fs1" using u [folded d1_def] unfolding if_not_P [OF False] by simp
    have small: "?o + unat n \<le> fsize i fs"
      using False le(1) U(3) [OF nb] sz1(1) by (auto simp: word_less_nat_alt fsize_def)
    then have s: "size' = fsize i fs" by (simp add: size'_def)
    have fs1: "fsize i fs1 = fsize i fs" using sz1 by (simp add: fsize_def d1_def)
    have "icache fs1 = icache fs"
    proof (rule writei_loop_mapped [OF F(2,3) _ _ l])
      show "?o + length src \<le> MAXFILE * BSIZE" using le n by simp
      show "maddr fs ?d (k div BSIZE) \<noteq> 0" if "?o \<le> k" "k < ?o + length src" for k
        using F(6) [of k] that small n by simp
    qed
    then have dd: "d1 = ?d" by (simp add: d1_def)
    have "file_ok i fs1"
      unfolding file_ok_def d1_def [symmetric]
      using i1 ok1 sz1 F(4,5) full s by (simp add: fsize_def)
    moreover have "fbytes i fs1 = map (icontent fs1 d1) [0 ..< size']" by (simp add: fbytes_def fs1 s d1_def)
    ultimately show ?thesis
      unfolding write_done_def e d1_def [symmetric] using ok1(3) bytes si1 dk1 num other1 dd by auto
  next
    case True
    define fs1a where "fs1a = upd_d i (\<lambda>p. p\<lparr>di_size := off + n\<rparr>) fs1"
    define d' where "d' = d1\<lparr>di_size := off + n\<rparr>"
    have da: "i_d (ino fs1a i) = d'" "i_num (ino fs1a i) = ?N" using i1 by (simp_all add: fs1a_def i_d_upd_d d'_def d1_def)
    have ad: "di_addrs d' = di_addrs d1" by (simp add: d'_def)
    note M = finode_ok_meta [OF ad]
    have up: "iupdate i fs1a = Ok fs'" using u True by (simp add: fs1a_def d1_def)
    have ba: "blocks_ok fs1a" "fsb fs1a = fsb fs" using ok1 by (simp_all add: fs1a_def)
    have la: "length (di_addrs d') = NDIRECT + 1" using finode_okD(1) [OF ok1(2)] ad by simp
    have P: "blocks_ok fs' \<and> icache fs' = icache fs1a \<and> fsb fs' = fsb fs1a \<and>
      (\<forall>inum < sb_ninodes (fsb fs1a). disk_inode fs' inum = (if inum = ?N then d' else disk_inode fs1a inum)) \<and>
      (\<forall>c. c \<noteq> IBLOCK ?N (fsb fs1a) \<longrightarrow> fblk fs' c = fblk fs1a c)"
      using iupdate_spec(1) [of fs1a i fs'] ba num da la up by simp
    have cb: "IBLOCK ?N (fsb fs1) < sb_bmapstart (fsb fs1)" using geomD(9) [OF blocks_okD(1) [OF ok1(1)], of ?N] num ok1(3) by simp
    have fb: "fblk fs' a = fblk fs1 a" if "a \<noteq> IBLOCK ?N (fsb fs1)" for a using P that by (simp add: fs1a_def)
    have sb': "fsb fs' = fsb fs1" using P ba ok1(3) by simp
    note MW = meta_write [OF ok1(1) _ sb' _ cb fb]
    have ok': "blocks_ok fs'" using P by blast
    have d'e: "i_d (ino fs' i) = d'" using P da by simp
    have big: "size' = ?o + unat n" "unat (di_size d') = ?o + unat n"
      using True U(3) [OF nb] sz1(1) by (auto simp: size'_def word_less_nat_alt fsize_def d'_def)
    have fk: "finode_ok fs' d'" "maddr fs' d' = maddr fs1 d1" "\<And>k. k < MAXFILE * BSIZE \<Longrightarrow> icontent fs' d' k = icontent fs1 d1 k"
      "iblocks fs' d' = iblocks fs1 d1"
      using MW(1-4) [OF ok1(2) ok'] finode_ok_meta [OF ad, where fs = fs'] by simp_all
    have i': "i < length (icache fs')" using P i1 by (simp add: fs1a_def)
    have "file_ok i fs'"
      unfolding file_ok_def d'e using i' ok' fk F(4) sz1 full big le(2) by (simp add: d'_def)
    moreover have "fbytes i fs' = map (icontent fs1 d1) [0 ..< size']"
      using fk(3) le(2) by (simp add: fbytes_def fsize_def d'e big)
    moreover have "same_icache i fs fs'"
    proof -
      have "same_icache i fs1 fs1a" unfolding fs1a_def by (rule same_icache_upd_d [OF i1(1) refl])
      then have "same_icache i fs1 fs'" using P by (simp add: same_icache_def)
      then show ?thesis by (rule same_icache_trans [OF si1])
    qed
    moreover have "disk_inode fs' m = disk_inode fs m" if "m < sb_ninodes (fsb fs)" "m \<noteq> ?N" for m
    proof -
      have "disk_inode fs' m = disk_inode fs1a m" using P that ba by simp
      also have "\<dots> = disk_inode fs1 m" by (simp add: disk_inode_def fs1a_def)
      finally show ?thesis using dk1 [OF that(1)] by simp
    qed
    moreover have "disk_inode fs' ?N = d'" using P num ba by simp
    moreover have "finode_ok fs' dj \<and> iblocks fs' d' \<inter> iblocks fs' dj = {} \<and> (\<forall>k < MAXFILE * BSIZE. icontent fs' dj k = icontent fs dj k)"
      if dj: "finode_ok fs dj" "iblocks fs ?d \<inter> iblocks fs dj = {}" for dj
      using other1 [OF dj] MW(1,3,4) [OF _ ok', of dj] fk(4) by simp
    ultimately show ?thesis
      unfolding write_done_def d'e using bytes sb' ok1(3) by auto
  qed
qed

section \<open>Writes return\<close>

definition nfree :: "'a fsys_scheme \<Rightarrow> nat" where
  "nfree fs = card {b. b < sb_size (fsb fs) \<and> \<not> bused fs b}"

lemma nfree_balloced: "balloced b fs fs' \<Longrightarrow> nfree fs' + 1 = nfree fs"
proof -
  assume a: "balloced b fs fs'"
  note a' = a [unfolded balloced_def]
  have b: "b < sb_size (fsb fs)" using a' by (simp add: data_block_def)
  have "{c. c < sb_size (fsb fs) \<and> \<not> bused fs c} = insert b {c. c < sb_size (fsb fs') \<and> \<not> bused fs' c}"
    using a' b by auto
  moreover have "b \<notin> {c. c < sb_size (fsb fs') \<and> \<not> bused fs' c}" using a' b by auto
  ultimately show ?thesis by (simp add: nfree_def)
qed

lemma balloc_returns:
  assumes ok: "blocks_ok fs" and r: "log_room fs (k + 2)" and n: "0 < nfree fs"
  shows "\<exists>b fs'. balloc fs = Ok (b, fs') \<and> log_room fs' k \<and> balloced b fs fs' \<and> nfree fs' + 1 = nfree fs"
proof -
  have "{b. b < sb_size (fsb fs) \<and> \<not> bused fs b} \<noteq> {}" using n unfolding nfree_def by (metis card.empty less_irrefl)
  then obtain c where "c < sb_size (fsb fs)" "\<not> bused fs c" by auto
  from balloc_total(1) [OF ok r this] obtain b fs' where b: "balloc fs = Ok (b, fs')" "log_room fs' k" by blast
  note s = balloc_spec [OF ok b(1)]
  show ?thesis using b s nfree_balloced [OF s] by blast
qed

lemma nfree_upd_d [simp]: "nfree (upd_d i f fs) = nfree fs"
  by (simp add: nfree_def)

lemma nfree_write:
  assumes "geom_ok (fsb fs)" "fwrite c x fs = Ok fs'" "c \<noteq> sb_bmapstart (fsb fs)"
  shows "nfree fs' = nfree fs"
proof -
  note f = fwriteD [OF assms(2)]
  have "{b. b < sb_size (fsb fs) \<and> \<not> bused fs' b} = {b. b < sb_size (fsb fs) \<and> \<not> bused fs b}"
    using bused_other [OF assms(1) f(3,1) assms(3)] by auto
  then show ?thesis by (simp add: nfree_def f(3))
qed

lemma bmap_returns:
  assumes ok: "blocks_ok fs" "finode_ok fs (i_d (ino fs i))" and i: "i < length (icache fs)" and bn: "bn < MAXFILE"
    and room: "log_room fs (k + 5)" and n: "2 \<le> nfree fs"
  shows "\<exists>b fs'. bmap i bn fs = Ok (b, fs') \<and> log_room fs' k \<and> nfree fs \<le> nfree fs' + 2"
proof -
  define d where "d = i_d (ino fs i)"
  have rk: "log_room fs k" by (rule log_room_mono [OF room]) simp
  show ?thesis
  proof (cases "maddr fs d bn = 0")
    case False
    then show ?thesis using bmap_mapped [OF ok bn] rk by (auto simp: d_def)
  next
    case z: True
    show ?thesis
    proof (cases "bn < NDIRECT")
      case True
      have "log_room fs (k + 2)" by (rule log_room_mono [OF room]) simp
      from balloc_returns [OF ok(1) this] n obtain b fs1 where "balloc fs = Ok (b, fs1)" "log_room fs1 k" "nfree fs1 + 1 = nfree fs" by auto
      moreover have "di_addrs d ! bn = 0" using z True by (simp add: maddr_def unat_eq_zero)
      ultimately show ?thesis using True by (auto simp: bmap_def Let_def d_def)
    next
      case False
      define P where "P = (if di_addrs d ! NDIRECT = 0
        then bindR (balloc fs) (\<lambda>(b, fs1). Ok (b, upd_d i (\<lambda>p. p\<lparr>di_addrs := (di_addrs p)[NDIRECT := of_nat b]\<rparr>) fs1))
        else Ok (unat (di_addrs d ! NDIRECT), fs))"
      have g: "geom_ok (fsb fs)" by (rule blocks_okD(1) [OF ok(1)])
      have "\<exists>ib fs1. P = Ok (ib, fs1) \<and> log_room fs1 (k + 3) \<and> nfree fs \<le> nfree fs1 + 1 \<and> 0 < nfree fs1 \<and> blocks_ok fs1 \<and>
          data_block (fsb fs) ib \<and> fsb fs1 = fsb fs"
      proof (cases "di_addrs d ! NDIRECT = 0")
        case True
        have "log_room fs (k + 3 + 2)" by (rule log_room_mono [OF room]) simp
        from balloc_returns [OF ok(1) this] n obtain b fs1 where "balloc fs = Ok (b, fs1)" "log_room fs1 (k + 3)" "balloced b fs fs1" "nfree fs1 + 1 = nfree fs"
          by auto
        then show ?thesis using True n by (auto simp: P_def balloced_def)
      next
        case False
        then have ne: "ind_of d \<noteq> 0" by (simp add: ind_of_def unat_eq_zero)
        have "data_block (fsb fs) (ind_of d)" using finode_okD(2) [OF ok(2) iblocks_mem(2)] ne by (simp add: d_def)
        moreover have "log_room fs (k + 3)" by (rule log_room_mono [OF room]) simp
        ultimately show ?thesis using False n ok(1) by (auto simp: P_def ind_of_def)
      qed
      then obtain ib fs1 where p: "P = Ok (ib, fs1)" "log_room fs1 (k + 3)" "nfree fs \<le> nfree fs1 + 1" "0 < nfree fs1" "blocks_ok fs1"
        "data_block (fsb fs) ib" "fsb fs1 = fsb fs" by blast
      have ib: "ib < FSSIZE" "ib \<noteq> sb_bmapstart (fsb fs)" using data_blockD [OF g p(6)] by auto
      have k: "bn - NDIRECT < NINDIRECT" using bn False by simp
      have un: "bmap i bn fs = bindR P (\<lambda>(ib, fs1). bindR (fread ib fs1) (\<lambda>dd.
           if le32 dd (4 * (bn - NDIRECT)) = 0
           then bindR (balloc fs1) (\<lambda>(b, fs2).
                bindR (fwrite ib (put32 (4 * (bn - NDIRECT)) (of_nat b) (fblk fs2 ib)) fs2) (\<lambda>fs3. Ok (b, fs3)))
           else Ok (unat (le32 dd (4 * (bn - NDIRECT))), fs1)))"
        using False k unfolding bmap_def Let_def P_def d_def by (simp only: if_False if_True)
      show ?thesis
      proof (cases "le32 (fblk fs1 ib) (4 * (bn - NDIRECT)) = 0")
        case True
        have "log_room fs1 (Suc k + 2)" by (rule log_room_mono [OF p(2)]) simp
        from balloc_returns [OF p(5) this p(4)] obtain b fs2 where b: "balloc fs1 = Ok (b, fs2)" "log_room fs2 (Suc k)" "balloced b fs1 fs2" "nfree fs2 + 1 = nfree fs1" by blast
        obtain fs3 where w: "fwrite ib (put32 (4 * (bn - NDIRECT)) (of_nat b) (fblk fs2 ib)) fs2 = Ok fs3" "log_room fs3 k"
          by (rule fwrite_room [OF b(2)])
        have g2: "geom_ok (fsb fs2)" "ib \<noteq> sb_bmapstart (fsb fs2)" using b(3) p(7) g ib(2) by (simp_all add: balloced_def)
        have "nfree fs3 = nfree fs2" by (rule nfree_write [OF g2(1) w(1) g2(2)])
        then show ?thesis using un p(1,3) ib(1) True b(1,4) w by (auto simp: fread_def)
      next
        case False
        have "log_room fs1 k" by (rule log_room_mono [OF p(2)]) simp
        then show ?thesis using un p(1,3) ib(1) False by (auto simp: fread_def)
      qed
    qed
  qed
qed

text \<open>The number of turns of the loops over \<open>len\<close> bytes from offset \<open>off\<close>.\<close>

definition turns :: "nat \<Rightarrow> nat \<Rightarrow> nat" where
  "turns off len = (if len = 0 then 0 else (off mod BSIZE + len + (BSIZE - 1)) div BSIZE)"

lemma turns_step:
  assumes "0 < len" "m = min len (BSIZE - off mod BSIZE)"
  shows "turns off len = Suc (turns (off + m) (len - m))"
proof (cases "len \<le> BSIZE - off mod BSIZE")
  case True
  have "off mod BSIZE < BSIZE" by simp
  then have "off mod BSIZE + len + (BSIZE - 1) < 2 * BSIZE" "BSIZE \<le> off mod BSIZE + len + (BSIZE - 1)" using True assms(1) by linarith+
  then have "(off mod BSIZE + len + (BSIZE - 1)) div BSIZE = 1" by (simp add: div_nat_eqI)
  then show ?thesis using True assms by (simp add: turns_def)
next
  case False
  define o' where "o' = off mod BSIZE"
  have o: "o' < BSIZE" by (simp add: o'_def)
  have m: "m = BSIZE - o'" using False assms(2) by (simp add: o'_def)
  have "(off + m) mod BSIZE = 0"
  proof -
    have "off + m = BSIZE * (off div BSIZE) + (o' + m)" by (simp add: o'_def)
    also have "\<dots> = BSIZE * (off div BSIZE + 1)" using m o by simp
    finally show ?thesis by simp
  qed
  moreover have "turns off len = (BSIZE + (len - m + (BSIZE - 1))) div BSIZE"
    using False m o assms(1) by (simp add: turns_def o'_def [symmetric])
  moreover have "(BSIZE + (len - m + (BSIZE - 1))) div BSIZE = Suc ((len - m + (BSIZE - 1)) div BSIZE)"
    by (rule div_add_self1 [THEN trans]) simp_all
  moreover have "len - m \<noteq> 0" using False m by (simp add: o'_def)
  ultimately show ?thesis unfolding turns_def [of "off + m"] by simp
qed

lemma writei_loop_returns:
  "blocks_ok fs \<Longrightarrow> finode_ok fs (i_d (ino fs i)) \<Longrightarrow> i < length (icache fs) \<Longrightarrow> off + length src \<le> MAXFILE * BSIZE \<Longrightarrow>
   log_room fs (6 * turns off (length src) + k) \<Longrightarrow> 2 * turns off (length src) \<le> nfree fs \<Longrightarrow>
   \<exists>fs'. writei_loop i off src fs = Ok fs' \<and> log_room fs' k \<and> nfree fs \<le> nfree fs' + 2 * turns off (length src)"
proof (induction "length src" arbitrary: off src fs rule: less_induct)
  case less
  show ?case
  proof (cases "src = []")
    case True
    then show ?thesis using less.prems(5) by (simp add: writei_loop.simps turns_def)
  next
    case False
    define m where "m = min (length src) (BSIZE - off mod BSIZE)"
    have "off mod BSIZE < BSIZE" by simp
    then have m: "0 < m" "m \<le> length src" "off mod BSIZE + m \<le> BSIZE" using False by (simp_all add: m_def min_def) linarith
    have lp: "0 < length src" using False by simp
    note t = turns_step [OF lp m_def]
    then have "off < MAXFILE * BSIZE" using less.prems(4) lp by linarith
    then have bn: "off div BSIZE < MAXFILE" by (rule less_mult_imp_div_less)
    define T where "T = turns (off + m) (length src - m)"
    have "log_room fs ((6 * T + k + 1) + 5)" using less.prems(5) by (simp add: t T_def algebra_simps)
    from bmap_returns [OF less.prems(1-3) bn this] less.prems(6)
    obtain b fs1 where b: "bmap i (off div BSIZE) fs = Ok (b, fs1)" "log_room fs1 (6 * T + k + 1)" "nfree fs \<le> nfree fs1 + 2"
      by (auto simp: t)
    note bm = bmap_spec [OF less.prems(1,2,3) bn b(1), unfolded bmapped_def]
    define d1 where "d1 = i_d (ino fs1 i)"
    have g1: "grown fs (i_d (ino fs i)) fs1 d1" "same_icache i fs fs1" "maddr fs1 d1 (off div BSIZE) = b" "b \<noteq> 0" using bm by (simp_all add: d1_def)
    have ok1: "blocks_ok fs1" "finode_ok fs1 d1" "fsb fs1 = fsb fs" using g1(1) by (simp_all add: grown_def)
    have g: "geom_ok (fsb fs1)" by (rule blocks_okD(1) [OF ok1(1)])
    have "b \<in> iblocks fs1 d1" using iblocks_mem(1) [OF bn, of fs1 d1] g1(3,4) by simp
    then have "data_block (fsb fs1) b" by (rule finode_okD(2) [OF ok1(2)])
    then have bb: "b < FSSIZE" "b \<noteq> sb_bmapstart (fsb fs1)" using data_blockD [OF g] by auto
    have dd: "fread b fs1 = Ok (fblk fs1 b)" using bb by (simp add: fread_def)
    have r1: "log_room fs1 (Suc (6 * T + k))" using b(2) by simp
    obtain fs2 where w: "fwrite b (splice (off mod BSIZE) (take m src) (fblk fs1 b)) fs1 = Ok fs2" "log_room fs2 (6 * T + k)"
      by (rule fwrite_room [OF r1])
    have lx: "length (splice (off mod BSIZE) (take m src) (fblk fs1 b)) = BSIZE"
      using blocks_okD(2) [OF ok1(1) bb(1)] m by simp
    note dw = data_write [OF ok1(1,2) bn g1(3,4) w(1) lx]
    have ok2: "blocks_ok fs2" "finode_ok fs2 (i_d (ino fs2 i))" "i < length (icache fs2)"
      using dw(1,2) g1(2) less.prems(3) by (simp_all add: extended_def same_icache_def d1_def)
    have len: "length (drop m src) < length src" using m lp by simp
    have n2: "nfree fs2 = nfree fs1" by (rule nfree_write [OF g w(1) bb(2)])
    have "\<exists>fs'. writei_loop i (off + m) (drop m src) fs2 = Ok fs' \<and> log_room fs' k \<and>
        nfree fs2 \<le> nfree fs' + 2 * turns (off + m) (length (drop m src))"
      by (rule less.hyps [OF len ok2]) (use less.prems(4,6) m w(2) b(3) n2 in \<open>simp_all add: t T_def\<close>)
    then show ?thesis using False b(1,3) dd w(1) n2 t by (subst writei_loop.simps) (auto simp: Let_def m_def T_def)
  qed
qed

lemma inode_block_not_bitmap:
  assumes "geom_ok sb" "inum < sb_ninodes sb"
  shows "IBLOCK inum sb \<noteq> sb_bmapstart sb"
proof -
  have "inum div IPB \<le> sb_ninodes sb div IPB" using assms(2) by (intro div_le_mono) simp
  then show ?thesis using assms(1) by (simp add: IBLOCK_def geom_ok_def)
qed

lemma writei_returns:
  assumes f: "file_ok i fs" and n: "length src = unat n" and num: "i_num (ino fs i) < sb_ninodes (fsb fs)"
    and nb: "\<not> writei_bad i fs off n" and room: "log_room fs (6 * turns (unat off) (unat n) + 1)" and nf: "2 * turns (unat off) (unat n) \<le> nfree fs"
  shows "\<exists>fs'. writei i src off n fs = Ok (int (unat n), fs') \<and> nfree fs \<le> nfree fs' + 2 * turns (unat off) (unat n)"
proof -
  note F = file_okD [OF f]
  have le: "unat off + length src \<le> MAXFILE * BSIZE" using nb n by (simp add: writei_bad_def)
  from writei_loop_returns [OF F(2,3,1) le, of 1] room nf n
  obtain fs1 where l: "writei_loop i (unat off) src fs = Ok fs1" "log_room fs1 1" "nfree fs \<le> nfree fs1 + 2 * turns (unat off) (unat n)" by auto
  note W = writei_loop_spec [OF F(2,3,1) le l(1), unfolded wrote_range_def extended_def]
  define fs1a where "fs1a = upd_d i (\<lambda>p. p\<lparr>di_size := off + n\<rparr>) fs1"
  have i1: "i < length (icache fs1)" using W F(1) by (simp add: same_icache_def)
  have a: "blocks_ok fs1a" "i_num (ino fs1a i) < sb_ninodes (fsb fs1a)" "length (di_addrs (i_d (ino fs1a i))) = NDIRECT + 1"
    using W i1 num finode_okD(1) [of fs1 "i_d (ino fs1 i)"] by (simp_all add: fs1a_def i_d_upd_d same_icache_def)
  have "log_room fs1a (Suc 0)" using l(2) by (simp add: fs1a_def)
  from iupdate_spec(2) [OF a this] obtain fs2 where u: "iupdate i fs1a = Ok fs2" by blast
  have "nfree fs2 = nfree fs1a"
    using u nfree_write [OF blocks_okD(1) [OF a(1)] _ inode_block_not_bitmap [OF blocks_okD(1) [OF a(1)] a(2)]]
    by (auto simp: iupdate_def bindR_Ok_iff Let_def)
  then show ?thesis using l u by (auto simp: writei_unfold(2) [OF f nb] fs1a_def)
qed

end
