(* ===== verification/FsProps.thy ===== *)
theory FsProps
  imports FsBlocks FsContent
begin

text \<open>
  Properties of the file system from the buffer cache up to the content of files, with a small
  disk on which their hypotheses hold: 1000 blocks laid out as mkfs does, an empty log, no file
  blocks in use, and one empty file in the inode cache.
\<close>

section \<open>A small disk\<close>

definition zero_block :: "u8 list" where
  "zero_block = replicate BSIZE 0"

definition demo_bitmap :: "u8 list" where
  "demo_bitmap = replicate 7 255 @ [7] @ replicate 504 0"

definition demo_blocks :: "nat \<Rightarrow> u8 list" where
  "demo_blocks = (\<lambda>_. zero_block)(58 := demo_bitmap)"

definition demo_sb :: superblock where
  "demo_sb = \<lparr>sb_size = 1000, sb_nblocks = 941, sb_ninodes = 200, sb_nlog = 30, sb_logstart = 2, sb_inodestart = 32, sb_bmapstart = 58\<rparr>"

definition demo_inode :: inode where
  "demo_inode = \<lparr>i_dev = 1, i_num = 5, i_ref = 1, i_locked = True, i_valid = True,
     i_d = \<lparr>di_type = T_FILE, di_major = 0, di_minor = 0, di_nlink = 1, di_size = 0, di_addrs = replicate 13 0\<rparr>\<rparr>"

definition demo_log :: logst where
  "demo_log = \<lparr>lstart = 2, lsize = 30, outstanding = 1, committing = False, ldev = 1, lhb = []\<rparr>"

definition demo_fs :: fsys where
  "demo_fs = \<lparr>fblk = demo_blocks, flog = demo_log, fsb = demo_sb, icache = [demo_inode],
     dev_read = (\<lambda>_. None), dev_write = (\<lambda>_. None)\<rparr>"

definition demo_cache :: bcache where
  "demo_cache = binit (\<lambda>_. demo_blocks) True"

lemma length_demo_block [simp]: "length (demo_blocks b) = BSIZE"
  by (simp add: demo_blocks_def zero_block_def demo_bitmap_def)

lemma hdr_zero: "hdr_read zero_block = []"
  by (simp add: hdr_read_def zero_block_def le32_def)

lemma demo_cache_ok: "cache_of demo_fs demo_cache"
proof -
  note b = binit_ok [where D = "\<lambda>_. demo_blocks", folded demo_cache_def]
  have "commit_ready demo_log demo_cache"
    using b hdr_zero by (simp add: commit_ready_def quiet_def log_wf_def demo_log_def)
      (simp add: demo_blocks_def)
  then show ?thesis using b(7) by (simp add: cache_of_def demo_fs_def demo_log_def)
qed

lemma demo_blocks_ok: "blocks_ok demo_fs"
proof -
  have "bused demo_fs b" if "b \<le> 58" for b
  proof -
    have k: "b mod BPB = b" "BBLOCK b (fsb demo_fs) = 58" using that by (simp_all add: BBLOCK_def demo_fs_def demo_sb_def)
    have "bit (demo_bitmap ! (b div 8)) (b mod 8)"
    proof (cases "b div 8 < 7")
      case True
      have "(255 :: u8) = - 1" by simp
      then have "bit (255 :: u8) n" if "n < 8" for n :: nat using that by (simp only: bit_minus_1_iff) simp
      then show ?thesis using True by (simp add: demo_bitmap_def nth_append)
    next
      case False
      then have d: "b div 8 = 7" using that by linarith
      then have "b mod 8 < 3" using that minus_div_mult_eq_mod [of b 8] by linarith
      moreover have "bit (7 :: u8) n" if "n < 3" for n :: nat
        using that by (auto simp: less_Suc_eq numeral_3_eq_3)
      ultimately show ?thesis using d by (simp add: demo_bitmap_def nth_append)
    qed
    then show ?thesis using k by (simp add: bused_def demo_fs_def demo_blocks_def)
  qed
  then show ?thesis by (auto simp: blocks_ok_def geom_ok_def data_block_def demo_fs_def demo_sb_def not_less)
qed

lemma demo_icache: "icache demo_fs = [demo_inode]" "flog demo_fs = demo_log" "fsb demo_fs = demo_sb"
  by (simp_all add: demo_fs_def)

lemma demo_map: "bn < MAXFILE \<Longrightarrow> maddr demo_fs (i_d demo_inode) bn = 0" "ind_of (i_d demo_inode) = 0"
  by (simp_all add: maddr_def ind_of_def demo_inode_def)

lemma demo_file_ok: "file_ok 0 demo_fs" "fbytes 0 demo_fs = []"
proof -
  have "iblocks demo_fs (i_d demo_inode) = {}" using demo_map by (auto simp: iblocks_def)
  then have "finode_ok demo_fs (i_d demo_inode)"
    using demo_map(1) by (auto simp: finode_ok_def) (simp add: demo_inode_def)
  then show "file_ok 0 demo_fs" using demo_blocks_ok by (simp add: file_ok_def demo_icache) (simp add: demo_inode_def)
  show "fbytes 0 demo_fs = []" by (simp add: fbytes_def fsize_def demo_icache) (simp add: demo_inode_def)
qed

lemma demo_unused: "59 \<le> b \<Longrightarrow> b < 1000 \<Longrightarrow> \<not> bused demo_fs b"
proof -
  assume b: "59 \<le> b" "b < 1000"
  have k: "b mod BPB = b" "BBLOCK b (fsb demo_fs) = 58" using b by (simp_all add: BBLOCK_def demo_icache demo_sb_def)
  have "\<not> bit (demo_bitmap ! (b div 8)) (b mod 8)"
  proof (cases "b < 64")
    case True
    then have d: "b div 8 = 7" using b(1) by linarith
    then have "3 \<le> b mod 8" using b(1) minus_div_mult_eq_mod [of b 8] by linarith
    moreover have "\<not> bit (7 :: u8) n" if "3 \<le> n" for n :: nat
    proof -
      have "(7 :: u8) = mask 3" by (simp add: mask_eq_exp_minus_1)
      then show ?thesis using that by (simp only: bit_mask_iff) simp
    qed
    ultimately show ?thesis using d by (simp add: demo_bitmap_def nth_append)
  next
    case False
    then have "8 \<le> b div 8" "b div 8 < 512" using b(2) by linarith+
    then have "demo_bitmap ! (b div 8) = 0" by (auto simp: demo_bitmap_def nth_append nth_Cons split: nat.splits)
    then show ?thesis by simp
  qed
  then show ?thesis using k by (simp add: bused_def demo_fs_def demo_blocks_def)
qed

lemma demo_nfree: "900 \<le> nfree demo_fs"
proof -
  have "card {59 ..< 1000 :: nat} \<le> card {b. b < sb_size (fsb demo_fs) \<and> \<not> bused demo_fs b}"
    by (rule card_mono) (auto simp: demo_unused demo_icache demo_sb_def)
  then show ?thesis by (simp add: nfree_def)
qed

section \<open>The cache and the log\<close>

lemma cache_fwrite_panic:
  assumes c: "cache_of fs s" and w: "log_record b (flog fs) = Panic m" and b: "fs_block fs b"
  shows "update_block (flog fs) b x s = Panic m"
proof -
  have rdy: "commit_ready (flog fs) s" and b': "0 < b" "b < FSSIZE" using c b by (simp_all add: cache_of_def fs_block_def)
  obtain i s1 where s1: "bread (ldev (flog fs)) b s = Ok (i, s1)" "bcache_ok s1" "holds s1 i (ldev (flog fs)) b (cblk s (ldev (flog fs)) b)"
    by (rule cache_bread [OF rdy b']) blast
  note f = bfill_ok [OF s1(2,3), where ys = x]
  have "bblockno (bufs (bfill i x s1) ! i) = b" using holdsD(2) [OF f(1,2)] by (simp add: bkey_def)
  then show ?thesis using s1(1) w by (simp add: update_block_def log_write_def)
qed

text \<open>C13: The block interface the file system is written against is what the cache and the log
  implement: reading a block through the cache gives its content, changing it through the log
  changes that block alone (or panics as the log does), and ending a transaction, its commit
  included, changes no block; after each the two still agree.\<close>

theorem fs_blocks_refined:
  assumes "cache_of fs s" "fs_block fs b"
  shows "(\<exists>s'. bread_brelse (ldev (flog fs)) b s = Ok (fblk fs b, s') \<and> cache_of fs s') \<and>
    (case fwrite b x fs of
       Ok fs' \<Rightarrow> \<exists>s'. update_block (flog fs) b x s = Ok (flog fs', s') \<and> cache_of fs' s' \<and> bwrites s' = bwrites s
     | Panic m \<Rightarrow> update_block (flog fs) b x s = Panic m
     | Hang \<Rightarrow> False) \<and>
    (case fs_end fs of
       Ok fs' \<Rightarrow> \<exists>s'. end_op (flog fs) s = Ok (flog fs', s') \<and> cache_of fs' s' \<and> fblk fs' = fblk fs
     | Panic m \<Rightarrow> end_op (flog fs) s = Panic m
     | Hang \<Rightarrow> False)"
proof (intro conjI)
  have r: "fread b fs = Ok (fblk fs b)" using assms(2) by (simp add: fread_def fs_block_def)
  show "\<exists>s'. bread_brelse (ldev (flog fs)) b s = Ok (fblk fs b, s') \<and> cache_of fs s'"
    by (rule cache_blocks(1) [OF assms r])
  have nh: "log_record b (flog fs) \<noteq> Hang" by (simp add: log_record_def)
  show "case fwrite b x fs of
       Ok fs' \<Rightarrow> \<exists>s'. update_block (flog fs) b x s = Ok (flog fs', s') \<and> cache_of fs' s' \<and> bwrites s' = bwrites s
     | Panic m \<Rightarrow> update_block (flog fs) b x s = Panic m
     | Hang \<Rightarrow> False"
    using cache_blocks(2) [OF assms r, of x] cache_fwrite_panic [OF assms(1) _ assms(2), of _ x] nh
    by (cases "log_record b (flog fs)") (auto simp: fwrite_def)
  show "case fs_end fs of
       Ok fs' \<Rightarrow> \<exists>s'. end_op (flog fs) s = Ok (flog fs', s') \<and> cache_of fs' s' \<and> fblk fs' = fblk fs
     | Panic m \<Rightarrow> end_op (flog fs) s = Panic m
     | Hang \<Rightarrow> False"
  proof (cases "fs_end fs")
    case (Ok fs')
    then show ?thesis using end_keeps_cache [OF assms(1) Ok] by simp
  next
    case (Panic m)
    then show ?thesis by (cases "end_op_first (flog fs)") (auto simp: fs_end_def end_op_def)
  next
    case Hang
    then show ?thesis by (cases "end_op_first (flog fs)") (auto simp: fs_end_def end_op_first_def Let_def split: if_splits)
  qed
qed

theorem fs_blocks_refined_witness:
  "\<exists>s'. bread_brelse 1 100 demo_cache = Ok (zero_block, s') \<and> cache_of demo_fs s'"
  using fs_blocks_refined [OF demo_cache_ok, of 100]
  by (simp add: fs_block_def in_log_def demo_icache demo_log_def) (simp add: demo_fs_def demo_blocks_def)

text \<open>C2: A transaction is atomic. The disk writes of a commit are known in advance, and a machine
  that stops after any number of them and starts again has, outside the log, either every block as
  it was before the transaction or every block as the transaction left it: the first exactly as
  long as only blocks of the log have been written.\<close>

theorem fs_commit_atomic:
  assumes "cache_of fs s" "lhb (flog fs) \<noteq> []"
  shows "\<exists>s' ws. commit (flog fs) s = Ok ((flog fs)\<lparr>lhb := []\<rparr>, s') \<and> bwrites s' = bwrites s @ ws \<and>
    bdisk s' = after_writes ws (bdisk s) \<and>
    (\<forall>k. if k \<le> length ws
         then reboots_to (flog fs) (after_writes (take k ws) (bdisk s))
                (if k \<le> length (lhb (flog fs)) then bdisk s (ldev (flog fs)) else fblk fs)
         else True)"
proof -
  have rdy: "commit_ready (flog fs) s" using assms(1) by (simp add: cache_of_def)
  have v: "reboots_to (flog fs) D (cblk s (ldev (flog fs))) \<Longrightarrow> reboots_to (flog fs) D (fblk fs)" for D
    using assms(1) unfolding reboots_to_def cache_of_def by (metis (mono_tags, lifting))
  obtain s' ws where h: "commit (flog fs) s = Ok ((flog fs)\<lparr>lhb := []\<rparr>, s')" "bwrites s' = bwrites s @ ws"
    "bdisk s' = after_writes ws (bdisk s)"
    "\<forall>k. if k \<le> length ws
         then reboots_to (flog fs) (after_writes (take k ws) (bdisk s))
                (if k \<le> length (lhb (flog fs)) then bdisk s (ldev (flog fs)) else cblk s (ldev (flog fs)))
         else True"
    using commit_crash [OF rdy assms(2)] by blast
  have "if k \<le> length ws
         then reboots_to (flog fs) (after_writes (take k ws) (bdisk s))
                (if k \<le> length (lhb (flog fs)) then bdisk s (ldev (flog fs)) else fblk fs)
         else True" for k
    using h(4) [THEN spec, of k] v [of "after_writes (take k ws) (bdisk s)"] by (simp split: if_splits)
  then show ?thesis using h(1-3) by blast
qed

lemma demo_write: "\<exists>(fs :: fsys) s. cache_of fs s \<and> lhb (flog fs) = [100] \<and> fblk fs = demo_blocks(100 := replicate BSIZE 7)"
proof -
  have b: "fs_block demo_fs 100" by (simp add: fs_block_def in_log_def demo_icache demo_log_def)
  define fs' where "fs' = demo_fs\<lparr>flog := demo_log\<lparr>lhb := [100]\<rparr>, fblk := demo_blocks(100 := replicate BSIZE 7)\<rparr>"
  have w: "fwrite 100 (replicate BSIZE 7) demo_fs = Ok fs'"
    by (simp add: fwrite_def log_record_def demo_log_def demo_fs_def fs'_def)
  obtain s where "cache_of fs' s" by (rule cache_fwrite [OF demo_cache_ok w b]) blast
  then show ?thesis by (intro exI [of _ fs'] exI [of _ s]) (simp add: fs'_def)
qed

theorem fs_commit_atomic_witness:
  "\<exists>l s s' ws. commit l s = Ok (l\<lparr>lhb := []\<rparr>, s') \<and> reboots_to l (after_writes (take 2 ws) (bdisk s)) (demo_blocks(100 := replicate BSIZE 7))"
proof -
  obtain fs :: fsys and s where fs: "cache_of fs s" "lhb (flog fs) = [100]" "fblk fs = demo_blocks(100 := replicate BSIZE 7)"
    using demo_write by blast
  have ne: "lhb (flog fs) \<noteq> []" using fs(2) by simp
  obtain s' ws where h: "commit (flog fs) s = Ok ((flog fs)\<lparr>lhb := []\<rparr>, s')" "bwrites s' = bwrites s @ ws"
    "\<And>k. if k \<le> length ws
         then reboots_to (flog fs) (after_writes (take k ws) (bdisk s))
                (if k \<le> length (lhb (flog fs)) then bdisk s (ldev (flog fs)) else fblk fs)
         else True"
    using fs_commit_atomic [OF fs(1) ne] by blast
  have "2 \<le> length ws"
  proof -
    have "commit_ready (flog fs) s" using fs(1) by (simp add: cache_of_def)
    from commit_ok [OF this ne] h(1,2) have "ws = commit_writes (flog fs) s" by (metis append_same_eq res.inject(1) prod.inject same_append_eq)
    then show ?thesis by (simp add: commit_writes_def Let_def fs(2))
  qed
  then show ?thesis using h(1) h(3) [of 2] fs(2,3)
    by (intro exI [of _ "flog fs"] exI [of _ s] exI [of _ s'] exI [of _ ws]) simp
qed

text \<open>C14: Recovery may itself be interrupted: whatever the number of its disk writes that a
  machine completed before it stopped, starting again gives the same blocks as recovery without
  interruption, those the header on disk names from the log and all others as they were.\<close>

theorem fs_recovery_restarts:
  assumes "disk_wf l D"
  shows "\<exists>s'. recover_from_log l (binit D True) = Ok (l\<lparr>lhb := []\<rparr>, s') \<and> bdisk s' = after_writes (bwrites s') D \<and>
    (\<forall>k. if k \<le> length (bwrites s') then reboots_to l (after_writes (take k (bwrites s')) D) (rec_view l D) else True)"
  using assms by (rule recovery_crash)

theorem fs_recovery_restarts_witness:
  "\<exists>s'. recover_from_log demo_log (binit (\<lambda>_. demo_blocks) True) = Ok (demo_log\<lparr>lhb := []\<rparr>, s')"
proof -
  have "disk_wf demo_log (\<lambda>_. demo_blocks)"
    using hdr_zero by (simp add: disk_wf_def log_wf_def demo_log_def) (simp add: demo_blocks_def)
  from fs_recovery_restarts [OF this] show ?thesis by blast
qed



section \<open>Blocks, inodes, content\<close>

text \<open>With room for two blocks in the transaction, \<^verbatim>\<open>balloc\<close> takes the first free block of the
  bitmap: it marks that block used and no other, clears it, and changes no other block; it panics
  exactly when no block is free. What \<^verbatim>\<open>bfree\<close> then frees is that block.\<close>

theorem balloc_first_free:
  assumes "blocks_ok fs" "log_room fs (k + 2)"
  shows "if \<forall>b < sb_size (fsb fs). bused fs b then balloc fs = Panic ''balloc: out of blocks''
    else \<exists>b fs'. balloc fs = Ok (b, fs') \<and> balloced b fs fs' \<and> log_room fs' k"
proof (cases "\<forall>b < sb_size (fsb fs). bused fs b")
  case True
  then show ?thesis using balloc_total(2) [OF assms(1)] by simp
next
  case False
  then obtain c where "c < sb_size (fsb fs)" "\<not> bused fs c" by blast
  from balloc_total(1) [OF assms this] show ?thesis using balloc_spec [OF assms(1)] False by meson
qed

theorem balloc_first_free_witness:
  "\<exists>b fs'. balloc demo_fs = Ok (b, fs') \<and> balloced b demo_fs fs' \<and> log_room fs' 3"
proof -
  have "log_room demo_fs (3 + 2)" by (simp add: log_room_def demo_icache demo_log_def)
  moreover have "\<not> (\<forall>b < sb_size (fsb demo_fs). bused demo_fs b)"
  proof
    assume "\<forall>b < sb_size (fsb demo_fs). bused demo_fs b"
    then have "bused demo_fs 100" by (simp add: demo_icache demo_sb_def)
    then show False using demo_unused [of 100] by simp
  qed
  ultimately show ?thesis using balloc_first_free [OF demo_blocks_ok, of 3] by (simp only: if_False)
qed

text \<open>\<^verbatim>\<open>bfree\<close> of a block in use clears its bit in the bitmap, and no other, and touches no
  other block; of a free block it panics.\<close>

theorem bfree_exact:
  assumes "blocks_ok fs" "b < sb_size (fsb fs)" "log_room fs (Suc k)"
  shows "if bused fs b then \<exists>fs'. bfree b fs = Ok fs' \<and> bfreed b fs fs' \<and> log_room fs' k
    else bfree b fs = Panic ''freeing free block''"
  using bfree_spec [OF assms(1,2)] assms(3) by (metis (full_types))

theorem bfree_exact_witness: "bfree 100 demo_fs = Panic ''freeing free block''"
  using bfree_exact [OF demo_blocks_ok, of 100 3] demo_unused [of 100]
  by (simp add: demo_icache demo_sb_def log_room_def demo_log_def)

lemma iget_length: "iget inum fs = Ok (i, fs1) \<Longrightarrow> length (icache fs1) = length (icache fs)"
  by (auto simp: iget_def split: option.splits)

lemma iget_num:
  assumes "iget inum fs = Ok (i, fs1)"
  shows "i_num (ino fs1 i) = inum" "fblk fs1 = fblk fs" "fsb fs1 = fsb fs"
proof -
  consider "find_idx (\<lambda>p. i_ref p > 0 \<and> i_dev p = ROOTDEV \<and> i_num p = inum) (icache fs) = Some i"
      "fs1 = upd_ino i (\<lambda>p. p\<lparr>i_ref := i_ref p + 1\<rparr>) fs"
    | "find_idx (\<lambda>p. i_ref p = 0) (icache fs) = Some i"
      "fs1 = upd_ino i (\<lambda>p. p\<lparr>i_dev := ROOTDEV, i_num := inum, i_ref := 1, i_valid := False\<rparr>) fs"
    using assms by (auto simp: iget_def split: option.splits)
  then show "i_num (ino fs1 i) = inum"
    by cases (frule find_idx_SomeD(1), drule find_idx_SomeD(2), simp add: ino_upd_ino)+
  show "fblk fs1 = fblk fs" "fsb fs1 = fsb fs" using assms by (auto simp: iget_def split: option.splits)
qed

text \<open>C19: \<^verbatim>\<open>iget\<close> keeps one cache entry per inode, and \<^verbatim>\<open>ilock\<close> of an unlocked referenced
  entry gives the inode as it is on disk: an entry never shows a stale or a foreign inode.\<close>

theorem inode_cache_coherent:
  assumes "icache_ok fs" "inum < sb_ninodes (fsb fs)" "blocks_ok fs" "iget inum fs = Ok (i, fs1)" "\<not> i_locked (ino fs1 i)"
    "di_type (disk_inode fs inum) \<noteq> 0"
  shows "\<exists>fs2. ilock i fs1 = Ok fs2 \<and> i_num (ino fs2 i) = inum \<and> i_locked (ino fs2 i) \<and> i_d (ino fs2 i) = disk_inode fs inum \<and>
    icache_ok fs2 \<and> fblk fs2 = fblk fs \<and> (\<forall>j < length (icache fs). j \<noteq> i \<longrightarrow> ino fs2 j = ino fs j \<and> (i_ref (ino fs j) = 0 \<or> i_num (ino fs j) \<noteq> inum))"
proof -
  note g = iget_spec [OF assms(1,2,4)]
  have i1: "i < length (icache fs1)" "i_ref (ino fs1 i) > 0" "i_num (ino fs1 i) = inum" "fsb fs1 = fsb fs"
    using g iget_length [OF assms(4)] by simp_all
  have b: "IBLOCK (i_num (ino fs1 i)) (fsb fs1) < FSSIZE"
    using blocks_okD(1) [OF assms(3)] assms(2) i1 by (auto simp: geom_ok_def IBLOCK_def intro: le_less_trans [OF add_right_mono [OF div_le_mono]])
  have d: "disk_inode fs1 inum = disk_inode fs inum" using g by (simp add: disk_inode_def)
  obtain fs2 where "ilock i fs1 = Ok fs2" "ino fs2 i = (ino fs1 i)\<lparr>i_locked := True, i_valid := True, i_d := disk_inode fs1 (i_num (ino fs1 i))\<rparr>"
    "\<forall>j < length (icache fs1). j \<noteq> i \<longrightarrow> ino fs2 j = ino fs1 j" "fblk fs2 = fblk fs1" "icache_ok fs2" "length (icache fs2) = length (icache fs1)"
    using ilock_spec(3) [OF _ i1(1,2) b assms(5)] g assms(6) d i1(3) by auto
  then show ?thesis using g d i1 iget_length [OF assms(4)] by (intro exI [of _ fs2]) auto
qed

lemma length_zero_block [simp]: "length zero_block = BSIZE"
  by (simp add: zero_block_def)

definition demo_disk_inode :: dinode where
  "demo_disk_inode = \<lparr>di_type = T_FILE, di_major = 0, di_minor = 0, di_nlink = 1, di_size = 0, di_addrs = replicate (NDIRECT + 1) 0\<rparr>"

definition demo_fs2 :: fsys where
  "demo_fs2 = demo_fs\<lparr>fblk := demo_blocks(32 := put_dinode (inode_off 5) demo_disk_inode zero_block),
     icache := [demo_inode\<lparr>i_ref := 0, i_locked := False\<rparr>]\<rparr>"

lemma demo_fs2_ok: "blocks_ok demo_fs2" "icache_ok demo_fs2" "disk_inode demo_fs2 5 = demo_disk_inode"
proof -
  have l: "length (put_dinode (inode_off 5) demo_disk_inode zero_block) = BSIZE"
    by (subst length_put_dinode) (use inode_off_le [of 5] in simp_all)
  show "blocks_ok demo_fs2"
    by (rule blocks_ok_write [OF demo_blocks_ok _ _ _ l, where c = 32])
      (simp_all add: demo_fs2_def demo_icache demo_sb_def demo_fs_def)
  show "icache_ok demo_fs2" by (simp add: icache_ok_def demo_fs2_def)
  show "disk_inode demo_fs2 5 = demo_disk_inode"
    by (simp add: disk_inode_def IBLOCK_def demo_fs2_def demo_icache demo_sb_def) (simp add: demo_disk_inode_def inode_off_def)
qed


theorem inode_cache_coherent_witness:
  "\<exists>i fs1 fs2. iget 5 demo_fs2 = Ok (i, fs1) \<and> ilock i fs1 = Ok fs2 \<and> i_d (ino fs2 i) = demo_disk_inode"
proof -
  define fs1 where "fs1 = upd_ino 0 (\<lambda>p. p\<lparr>i_dev := ROOTDEV, i_num := 5, i_ref := 1, i_valid := False\<rparr>) demo_fs2"
  have g: "iget 5 demo_fs2 = Ok (0, fs1)" by (simp add: iget_def demo_fs2_def fs1_def)
  have "\<not> i_locked (ino fs1 0)" by (simp add: fs1_def upd_ino_def demo_fs2_def)
  from inode_cache_coherent [OF demo_fs2_ok(2) _ demo_fs2_ok(1) g this] demo_fs2_ok(3) g
  show ?thesis by (auto simp: demo_fs2_def demo_icache demo_sb_def demo_disk_inode_def)
qed

text \<open>\<^verbatim>\<open>ialloc\<close> takes the first inode that is free on disk, sets its type and clears the rest
  of it, and leaves every other inode on disk alone.\<close>

theorem ialloc_first_free:
  assumes "blocks_ok fs" "ialloc ty fs = Ok (i, fs')"
  shows "\<exists>inum. 1 \<le> inum \<and> inum < sb_ninodes (fsb fs) \<and> di_type (disk_inode fs inum) = 0 \<and> i_num (ino fs' i) = inum \<and>
    (\<forall>m. 1 \<le> m \<longrightarrow> m < inum \<longrightarrow> di_type (disk_inode fs m) \<noteq> 0) \<and>
    (\<forall>m < sb_ninodes (fsb fs). disk_inode fs' m = (if m = inum then zero_dinode\<lparr>di_type := ty\<rparr> else disk_inode fs m))"
proof -
  obtain inum fs1 where h: "1 \<le> inum" "inum < sb_ninodes (fsb fs)" "di_type (disk_inode fs inum) = 0"
    "\<forall>m. 1 \<le> m \<longrightarrow> m < inum \<longrightarrow> di_type (disk_inode fs m) \<noteq> 0" "iget inum fs1 = Ok (i, fs')" "blocks_ok fs1"
    "\<forall>m < sb_ninodes (fsb fs). disk_inode fs1 m = (if m = inum then zero_dinode\<lparr>di_type := ty\<rparr> else disk_inode fs m)"
    "icache fs1 = icache fs" "fsb fs1 = fsb fs"
    by (rule ialloc_spec [OF assms])
  have g: "fblk fs' = fblk fs1" "fsb fs' = fsb fs1" "i_num (ino fs' i) = inum"
    using iget_num [OF h(5)] by simp_all
  have "disk_inode fs' m = disk_inode fs1 m" for m using g by (simp add: disk_inode_def)
  then show ?thesis using h(1-4,7) g(3) by (intro exI [of _ inum]) simp
qed

lemma demo_ialloc: "\<exists>i fs'. ialloc T_FILE (demo_fs\<lparr>icache := [demo_inode\<lparr>i_ref := 0\<rparr>]\<rparr>) = Ok (i, fs')"
proof -
  have "di_type (dinode_at zero_block (inode_off 1)) = 0"
    by (simp add: dinode_at_def le16_def zero_block_def inode_off_def)
  then show ?thesis
    by (simp add: ialloc_def ialloc_from.simps fread_def IBLOCK_def fwrite_def log_record_def iget_def demo_fs_def demo_sb_def
        demo_log_def demo_blocks_def)
qed

theorem ialloc_first_free_witness:
  "\<exists>i fs'. ialloc T_FILE (demo_fs\<lparr>icache := [demo_inode\<lparr>i_ref := 0\<rparr>]\<rparr>) = Ok (i, fs') \<and>
    disk_inode fs' (i_num (ino fs' i)) = zero_dinode\<lparr>di_type := T_FILE\<rparr>"
proof -
  have ok: "blocks_ok (demo_fs\<lparr>icache := [demo_inode\<lparr>i_ref := 0\<rparr>]\<rparr>)"
    using demo_blocks_ok by (simp add: blocks_ok_def bused_def)
  obtain i fs' where r: "ialloc T_FILE (demo_fs\<lparr>icache := [demo_inode\<lparr>i_ref := 0\<rparr>]\<rparr>) = Ok (i, fs')"
    using demo_ialloc by blast
  from ialloc_first_free [OF ok r] show ?thesis using r by auto
qed

text \<open>C3: What is written to a file is what is read back from the same offset, whatever blocks
  the write had to allocate, and the bytes before and after it are the old ones.\<close>

theorem write_then_read:
  assumes "file_ok i fs" "length src = unat n" "i_num (ino fs i) < sb_ninodes (fsb fs)" "\<not> writei_bad i fs off n"
    "writei i src off n fs = Ok (r, fs')"
  shows "r = int (unat n) \<and> readi i off n fs' = Ok (int (unat n), src, fs') \<and>
    fbytes i fs' = take (unat off) (fbytes i fs) @ src @ drop (unat off + length src) (fbytes i fs)"
proof -
  note W = writei_spec [OF assms]
  have f: "file_ok i fs'" and b: "fbytes i fs' = take (unat off) (fbytes i fs) @ src @ drop (unat off + length src) (fbytes i fs)"
    using W(2) by (simp_all add: write_done_def)
  have le: "unat off \<le> fsize i fs" "unat off + unat n \<le> MAXFILE * BSIZE" using assms(4) by (simp_all add: writei_bad_def)
  have sz: "fsize i fs' = unat off + unat n + (fsize i fs - (unat off + unat n))"
    using arg_cong [OF b, of length] le assms(2) by simp
  have "min (unat n) (fsize i fs' - unat off) = unat n" using sz by simp
  moreover have "take (unat n) (drop (unat off) (fbytes i fs')) = src" using le assms(2) by (simp add: b)
  moreover have "\<not> (fsize i fs' < unat off \<or> 2 ^ 32 \<le> unat off + unat n)" using sz le by simp
  ultimately show ?thesis using W(1) b by (simp add: readi_ok [OF f] Let_def)
qed

lemma demo_turns: "turns 0 2 = 1"
  by (simp add: turns_def)

lemma demo_write_file: "\<exists>fs'. writei 0 [104, 105] 0 2 demo_fs = Ok (2, fs')"
proof -
  have "log_room demo_fs 7" by (simp add: log_room_def demo_icache demo_log_def)
  then show ?thesis
    using writei_returns [OF demo_file_ok(1), of "[104, 105]" 2 0] demo_nfree demo_turns
    by (simp add: demo_icache demo_sb_def writei_bad_def) (auto simp: demo_inode_def)
qed

theorem write_then_read_witness:
  "\<exists>fs'. writei 0 [104, 105] 0 2 demo_fs = Ok (2, fs') \<and> readi 0 0 2 fs' = Ok (2, [104, 105], fs')"
proof -
  obtain fs' where w: "writei 0 [104, 105] 0 2 demo_fs = Ok (2, fs')" using demo_write_file by blast
  have "i_num (ino demo_fs 0) < sb_ninodes (fsb demo_fs)" by (simp add: demo_icache demo_inode_def demo_sb_def)
  from write_then_read [OF demo_file_ok(1) _ this _ w] w show ?thesis by (simp add: writei_bad_def)
qed

text \<open>C15: A write to one file changes no other inode on disk, and neither the blocks nor a byte of any
  file that shares no block with it; the two still share none afterwards.\<close>

theorem write_isolated:
  assumes "file_ok i fs" "length src = unat n" "i_num (ino fs i) < sb_ninodes (fsb fs)" "\<not> writei_bad i fs off n"
    "writei i src off n fs = Ok (r, fs')" "finode_ok fs dj" "iblocks fs (i_d (ino fs i)) \<inter> iblocks fs dj = {}"
  shows "(\<forall>m < sb_ninodes (fsb fs). m \<noteq> i_num (ino fs i) \<longrightarrow> disk_inode fs' m = disk_inode fs m) \<and> finode_ok fs' dj \<and>
    (\<forall>k < MAXFILE * BSIZE. icontent fs' dj k = icontent fs dj k) \<and> iblocks fs' (i_d (ino fs' i)) \<inter> iblocks fs' dj = {}"
  using writei_spec(2) [OF assms(1-5)] assms(6,7) by (auto simp: write_done_def)

theorem write_isolated_witness:
  "\<exists>fs'. writei 0 [104, 105] 0 2 demo_fs = Ok (2, fs') \<and> disk_inode fs' 6 = disk_inode demo_fs 6"
proof -
  obtain fs' where w: "writei 0 [104, 105] 0 2 demo_fs = Ok (2, fs')" using demo_write_file by blast
  have n: "i_num (ino demo_fs 0) < sb_ninodes (fsb demo_fs)" "i_num (ino demo_fs 0) = 5" "sb_ninodes (fsb demo_fs) = 200"
    by (simp_all add: demo_icache demo_inode_def demo_sb_def)
  have e: "iblocks demo_fs (i_d demo_inode) = {}" using demo_map by (auto simp: iblocks_def)
  have f: "finode_ok demo_fs (i_d demo_inode)" using file_okD(3) [OF demo_file_ok(1)] by (simp add: demo_icache)
  from write_isolated [OF demo_file_ok(1) _ n(1) _ w f] w n e show ?thesis by (auto simp: writei_bad_def)
qed



end
