(* ===== verification/Ring.thy ===== *)
theory Ring
  imports Xv6_Prelude
begin

text \<open>
  Ring buffers with free-running 32-bit counters, as pipe.c and console.c use them: the byte
  with number \<open>i\<close> is in \<^verbatim>\<open>data[i % N]\<close>, the reader's counter is \<open>r\<close>, the writer's is \<open>w\<close>, and neither is
  ever reset: both wrap at \<open>2 ^ 32\<close>. The locale \<open>ring\<close> states what the capacity must satisfy for
  that to work (a divisor of \<open>2 ^ 32\<close>), and proves once what both clients need.
\<close>

definition ring_bytes :: "nat \<Rightarrow> u8 list \<Rightarrow> u32 \<Rightarrow> u32 \<Rightarrow> u8 list" where
  "ring_bytes N buf r w = map (\<lambda>k. buf ! (unat (r + of_nat k) mod N)) [0 ..< unat (w - r)]"

lemma length_ring_bytes [simp]: "length (ring_bytes N buf r w) = unat (w - r)"
  by (simp add: ring_bytes_def)

lemma ring_bytes_empty [simp]: "ring_bytes N buf r r = []"
  by (simp add: ring_bytes_def)

lemma ring_bytes_Nil_iff: "ring_bytes N buf r w = [] \<longleftrightarrow> w = r"
  by (simp add: ring_bytes_def unat_eq_0)

lemma ring_bytes_get:
  assumes "w \<noteq> r"
  shows "ring_bytes N buf r w = buf ! (unat r mod N) # ring_bytes N buf (r + 1) w"
proof -
  have "unat (w - r) = Suc (unat (w - (r + 1)))" using word_dist_Suc assms by blast
  then show ?thesis
    by (simp add: ring_bytes_def upt_conv_Cons map_Suc_upt [symmetric] ac_simps del: upt_Suc map_Suc_upt)
qed

locale ring =
  fixes N :: nat
  assumes pos: "0 < N" and small: "N < 2 ^ 32" and divides: "N dvd 2 ^ 32"
begin

lemma slot_add: "unat (r + of_nat k :: u32) mod N = (unat r + k) mod N"
proof -
  have "unat (r + of_nat k :: u32) mod N = (unat r + k mod 2 ^ 32) mod 2 ^ 32 mod N"
    by (simp add: unat_word_ariths unat_of_nat)
  also have "\<dots> = (unat r + k) mod 2 ^ 32 mod N" by (simp add: mod_add_right_eq)
  also have "\<dots> = (unat r + k) mod N" using divides by (rule mod_mod_cancel)
  finally show ?thesis .
qed

lemma slots_distinct:
  assumes "i < j" "j < i + N"
  shows "(a + i) mod N \<noteq> (a + j) mod N"
proof
  assume eq: "(a + i) mod N = (a + j) mod N"
  have "N dvd (a + j) - (a + i)" using eq mod_eq_dvd_iff_nat [of "a + i" "a + j" N] assms by simp
  then have "N dvd j - i" by simp
  moreover have "0 < j - i" "j - i < N" using assms by auto
  ultimately show False using nat_dvd_not_less by blast
qed

lemma unat_counter: "k \<le> N \<Longrightarrow> unat (of_nat k :: u32) = k"
  using small by (simp add: unat_of_nat)

lemma full_iff:
  fixes r w :: u32
  assumes "unat (w - r) \<le> N"
  shows "w = r + of_nat N \<longleftrightarrow> unat (w - r) = N"
proof
  assume "w = r + of_nat N"
  then show "unat (w - r) = N" using unat_counter [of N] by simp
next
  assume "unat (w - r) = N"
  then have "of_nat N = w - r" by (metis word_of_nat_eq_iff unat_of_nat of_nat_unat ucast_id)
  then show "w = r + of_nat N" by simp
qed

lemma advance:
  fixes r w :: u32
  assumes "unat (w - r) < N"
  shows "unat (w + 1 - r) = unat (w - r) + 1"
proof -
  have "w + 1 - r = (w - r) + 1" by simp
  moreover have "unat ((w - r) + 1) = unat (w - r) + 1"
    using assms small by (simp add: unat_word_ariths)
  ultimately show ?thesis by (simp only:)
qed

lemma put:
  assumes "length buf = N" "unat (w - r) < N"
  shows "ring_bytes N (buf[unat w mod N := b]) r (w + 1) = ring_bytes N buf r w @ [b]"
proof -
  define k where "k = unat (w - r)"
  have w: "w = r + of_nat k" by (simp add: k_def)
  have kN: "k < N" using assms(2) k_def by simp
  have other: "buf[unat w mod N := b] ! (unat (r + of_nat j) mod N) = buf ! (unat (r + of_nat j) mod N)" if "j < k" for j
    using slots_distinct [of j k "unat r"] that kN by (simp add: w slot_add nth_list_update_neq)
  have at: "buf[unat w mod N := b] ! (unat (r + of_nat k) mod N) = b"
    using pos assms(1) by (simp add: w)
  have "unat (w + 1 - r) = Suc k" using advance [OF assms(2)] k_def by simp
  then show ?thesis unfolding ring_bytes_def using other at k_def by simp
qed

lemma put_other:
  assumes "length buf = N" "unat (e - r) < N" "unat (w - r) \<le> unat (e - r)"
  shows "ring_bytes N (buf[unat e mod N := b]) r w = ring_bytes N buf r w"
proof -
  define k where "k = unat (e - r)"
  have e: "e = r + of_nat k" and kN: "k < N" and wk: "unat (w - r) \<le> k" using assms(2,3) by (simp_all add: k_def)
  have "buf[unat e mod N := b] ! (unat (r + of_nat j) mod N) = buf ! (unat (r + of_nat j) mod N)" if "j < unat (w - r)" for j
    using slots_distinct [of j k "unat r"] that wk kN by (simp add: e slot_add nth_list_update_neq del: of_nat_unat)
  then show ?thesis by (simp add: ring_bytes_def)
qed

end

end
