(* ===== verification/Pipe.thy ===== *)
theory Pipe
  imports Ring
begin

text \<open>
  Pipes (pipe.c). \<^verbatim>\<open>p->lock\<close> is held from the entry of an operation to its end or to the call of
  \<^verbatim>\<open>sleep\<close>, which gives it up and takes it again: \<open>pipewrite\<close> and \<open>piperead\<close> run one such section.
  A section ends with the value the call returns, or sleeping, and then the next section runs
  with what is left. The channels a section wakes are listed in order. \<open>killed\<close> is
  \<^verbatim>\<open>myproc()->killed\<close> as the section reads it.
\<close>

section \<open>Operations\<close>

abbreviation PIPESIZE :: nat where "PIPESIZE \<equiv> 512"

record pipe =
  pdata :: "u8 list"
  nread :: u32
  nwrite :: u32
  readopen :: bool
  writeopen :: bool

datatype pchan = ChNread | ChNwrite

text \<open>A pipe as \<^verbatim>\<open>pipealloc\<close> sets it up; \<open>junk\<close> is what its page holds.\<close>

definition new_pipe :: "u8 list \<Rightarrow> pipe" where
  "new_pipe junk = \<lparr>pdata = junk, nread = 0, nwrite = 0, readopen = True, writeopen = True\<rparr>"

text \<open>\<^verbatim>\<open>pipeclose\<close>: the pipe, whether its page is freed, and the channel woken.\<close>

definition pipeclose :: "bool \<Rightarrow> pipe \<Rightarrow> bool \<times> pchan \<times> pipe" where
  "pipeclose writable p =
     (let p1 = (if writable then p\<lparr>writeopen := False\<rparr> else p\<lparr>readopen := False\<rparr>)
      in (\<not> readopen p1 \<and> \<not> writeopen p1, if writable then ChNread else ChNwrite, p1))"

definition pput :: "u8 \<Rightarrow> pipe \<Rightarrow> pipe" where
  "pput b p = p\<lparr>pdata := (pdata p)[unat (nwrite p) mod PIPESIZE := b], nwrite := nwrite p + 1\<rparr>"

definition pget :: "pipe \<Rightarrow> u8 \<times> pipe" where
  "pget p = (pdata p ! (unat (nread p) mod PIPESIZE), p\<lparr>nread := nread p + 1\<rparr>)"

text \<open>A section of \<^verbatim>\<open>pipewrite\<close> on the bytes not yet written: \<open>WDone\<close> once all are (the call
  returns \<^verbatim>\<open>n\<close>), \<open>WError\<close> for \<open>-1\<close>, \<open>WSleep\<close> on a full pipe.\<close>

datatype wend = WDone | WError | WSleep "u8 list"

fun pipewrite :: "bool \<Rightarrow> u8 list \<Rightarrow> pipe \<Rightarrow> wend \<times> pchan list \<times> pipe" where
  "pipewrite killed [] p = (WDone, [ChNread], p)"
| "pipewrite killed (b # bs) p =
     (if nwrite p = nread p + of_nat PIPESIZE
      then if \<not> readopen p \<or> killed then (WError, [], p)
           else (WSleep (b # bs), [ChNread], p)
      else pipewrite killed bs (pput b p))"

text \<open>The copy loop of \<^verbatim>\<open>piperead\<close>, and a section of the call.\<close>

fun piperead_copy :: "nat \<Rightarrow> pipe \<Rightarrow> u8 list \<times> pipe" where
  "piperead_copy 0 p = ([], p)"
| "piperead_copy (Suc n) p =
     (if nread p = nwrite p then ([], p)
      else let (b, p1) = pget p; (bs, p2) = piperead_copy n p1 in (b # bs, p2))"

datatype rend = RDone "u8 list" | RError | RSleep

definition piperead :: "bool \<Rightarrow> nat \<Rightarrow> pipe \<Rightarrow> rend \<times> pchan list \<times> pipe" where
  "piperead killed n p =
     (if nread p = nwrite p \<and> writeopen p
      then if killed then (RError, [], p) else (RSleep, [], p)
      else let (bs, p1) = piperead_copy n p in (RDone bs, [ChNwrite], p1))"

section \<open>The queue of bytes a pipe is\<close>

interpretation pr: ring PIPESIZE
  by unfold_locales (simp_all add: dvd_def exI [of _ "2 ^ 23"])

definition pipe_ok :: "pipe \<Rightarrow> bool" where
  "pipe_ok p \<longleftrightarrow> length (pdata p) = PIPESIZE \<and> unat (nwrite p - nread p) \<le> PIPESIZE"

definition pbytes :: "pipe \<Rightarrow> u8 list" where
  "pbytes p = ring_bytes PIPESIZE (pdata p) (nread p) (nwrite p)"

lemma new_pipe_ok: "length junk = PIPESIZE \<Longrightarrow> pipe_ok (new_pipe junk) \<and> pbytes (new_pipe junk) = []"
  by (simp add: new_pipe_def pipe_ok_def pbytes_def)

lemma pfull_iff: "pipe_ok p \<Longrightarrow> nwrite p = nread p + of_nat PIPESIZE \<longleftrightarrow> length (pbytes p) = PIPESIZE"
  unfolding pipe_ok_def pbytes_def length_ring_bytes by (rule pr.full_iff) simp

lemma pempty_iff: "nread p = nwrite p \<longleftrightarrow> pbytes p = []"
  by (auto simp: pbytes_def ring_bytes_Nil_iff)

lemma pbytes_le: "pipe_ok p \<Longrightarrow> length (pbytes p) \<le> PIPESIZE"
  by (simp add: pipe_ok_def pbytes_def)

lemma pput_ok:
  assumes "pipe_ok p" "length (pbytes p) < PIPESIZE"
  shows "pipe_ok (pput b p)" "pbytes (pput b p) = pbytes p @ [b]"
    "readopen (pput b p) = readopen p" "writeopen (pput b p) = writeopen p"
  using assms pr.put [of "pdata p" "nwrite p" "nread p" b] pr.advance [of "nwrite p" "nread p"]
  by (simp_all add: pipe_ok_def pbytes_def pput_def)

lemma pget_ok:
  assumes "pipe_ok p" "pbytes p \<noteq> []" "pget p = (b, p')"
  shows "pipe_ok p'" "pbytes p = b # pbytes p'" "readopen p' = readopen p" "writeopen p' = writeopen p"
  using assms ring_bytes_get [of "nwrite p" "nread p" PIPESIZE "pdata p"] word_dist_Suc [of "nwrite p" "nread p"]
  by (auto simp: pipe_ok_def pbytes_def pget_def ring_bytes_Nil_iff)

text \<open>A section of \<^verbatim>\<open>pipewrite\<close> appends what fits; one of \<^verbatim>\<open>piperead\<close> removes from the front.\<close>

lemma pipewrite_ok:
  assumes "pipe_ok p" "pipewrite killed bs p = (r, ws, p')"
  shows "pipe_ok p' \<and> pbytes p' = pbytes p @ take (PIPESIZE - length (pbytes p)) bs \<and>
    readopen p' = readopen p \<and> writeopen p' = writeopen p \<and>
    (if length (pbytes p) + length bs \<le> PIPESIZE then r = WDone \<and> ws = [ChNread]
     else if readopen p \<and> \<not> killed
     then r = WSleep (drop (PIPESIZE - length (pbytes p)) bs) \<and> ws = [ChNread]
     else r = WError \<and> ws = [])"
  using assms
proof (induction bs arbitrary: p)
  case Nil
  then show ?case using pbytes_le [of p] by auto
next
  case (Cons b bs)
  show ?case
  proof (cases "length (pbytes p) = PIPESIZE")
    case True
    then show ?thesis using Cons.prems pfull_iff [of p] by (auto split: if_splits)
  next
    case False
    then have lt: "length (pbytes p) < PIPESIZE" using pbytes_le [OF Cons.prems(1)] by simp
    note put = pput_ok [OF Cons.prems(1) lt, of b]
    have run: "pipewrite killed bs (pput b p) = (r, ws, p')"
      using Cons.prems pfull_iff [of p] False by simp
    have d: "PIPESIZE - length (pbytes p) = Suc (PIPESIZE - length (pbytes (pput b p)))"
      using lt put(2) by simp
    show ?thesis using Cons.IH [OF put(1) run] put lt unfolding d by (auto simp: put(2))
  qed
qed

lemma piperead_copy_ok:
  "pipe_ok p \<Longrightarrow> piperead_copy n p = (bs, p') \<Longrightarrow>
    pipe_ok p' \<and> bs = take n (pbytes p) \<and> pbytes p' = drop n (pbytes p) \<and>
    readopen p' = readopen p \<and> writeopen p' = writeopen p"
proof (induction n arbitrary: p bs)
  case 0
  then show ?case by simp
next
  case (Suc n)
  show ?case
  proof (cases "nread p = nwrite p")
    case True
    then show ?thesis using Suc.prems by (auto simp: pempty_iff)
  next
    case False
    obtain b p1 where g: "pget p = (b, p1)" by (cases "pget p") auto
    obtain cs where c: "piperead_copy n p1 = (cs, p')" "bs = b # cs"
      using Suc.prems(2) False g by (auto split: prod.splits)
    note get = pget_ok [OF Suc.prems(1) _ g]
    have ne: "pbytes p \<noteq> []" using False by (simp add: pempty_iff)
    show ?thesis using Suc.IH [OF get(1) [OF ne] c(1)] get(2,3,4) [OF ne] c(2) by auto
  qed
qed

lemma piperead_ok:
  assumes "pipe_ok p" "piperead killed n p = (r, ws, p')"
  shows "if pbytes p = [] \<and> writeopen p then p' = p \<and> ws = [] \<and> r = (if killed then RError else RSleep)
    else pipe_ok p' \<and> r = RDone (take n (pbytes p)) \<and> pbytes p' = drop n (pbytes p) \<and> ws = [ChNwrite] \<and>
         readopen p' = readopen p \<and> writeopen p' = writeopen p"
  using assms piperead_copy_ok [OF assms(1)]
  by (auto simp: piperead_def pempty_iff split: prod.splits if_splits)

end
