(* ===== verification/File.thy ===== *)
theory File
  imports FsBlocks Pipe
begin

text \<open>
  The open file table (file.c), with the pipes of pipe.c in pages of the page allocator. A file
  is named by its index in \<^verbatim>\<open>ftable.file\<close>, a pipe by the address of its page; \<open>freepages\<close> is the
  free list of kalloc.c as the list it is shown to be there. An operation that would sleep until
  another process acts does not return (\<open>Hang\<close>); \<^verbatim>\<open>PipeSys\<close> has the pipe operations of several
  processes interleaved.
\<close>

section \<open>State\<close>

abbreviation NFILE :: nat where "NFILE \<equiv> 100"

datatype ftype = FD_NONE | FD_PIPE | FD_INODE

record filent =
  f_type :: ftype
  f_ref :: nat
  f_readable :: bool
  f_writable :: bool
  f_pipe :: u32
  f_ip :: nat
  f_off :: u32

record files = fsys +
  ftable :: "filent list"
  pipes :: "u32 \<rightharpoonup> pipe"
  freepages :: "u32 list"

definition upd_file :: "nat \<Rightarrow> (filent \<Rightarrow> filent) \<Rightarrow> 'a files_scheme \<Rightarrow> 'a files_scheme" where
  "upd_file f g s = s\<lparr>ftable := (ftable s)[f := g (ftable s ! f)]\<rparr>"

section \<open>Operations\<close>

definition filealloc :: "'a files_scheme \<Rightarrow> nat option \<times> 'a files_scheme" where
  "filealloc s =
     (case find_idx (\<lambda>f. f_ref f = 0) (ftable s) of
        Some i \<Rightarrow> (Some i, upd_file i (\<lambda>f. f\<lparr>f_ref := 1\<rparr>) s)
      | None \<Rightarrow> (None, s))"

definition filedup :: "nat \<Rightarrow> 'a files_scheme \<Rightarrow> 'a files_scheme res" where
  "filedup f s =
     (if f_ref (ftable s ! f) < 1 then Panic ''filedup''
      else Ok (upd_file f (\<lambda>x. x\<lparr>f_ref := f_ref x + 1\<rparr>) s))"

text \<open>\<^verbatim>\<open>pipeclose\<close> on the pipe of a file, with the page freed when both ends are closed.\<close>

definition close_pipe :: "u32 \<Rightarrow> bool \<Rightarrow> 'a files_scheme \<Rightarrow> 'a files_scheme res" where
  "close_pipe a writable s =
     (case pipes s a of
        None \<Rightarrow> Panic ''trap''
      | Some p \<Rightarrow>
          (case pipeclose writable p of
             (freed, ch, p1) \<Rightarrow>
               Ok (if freed then s\<lparr>pipes := (pipes s)(a := None), freepages := a # freepages s\<rparr>
                   else s\<lparr>pipes := (pipes s)(a \<mapsto> p1)\<rparr>)))"

definition fileclose :: "nat \<Rightarrow> 'a files_scheme \<Rightarrow> 'a files_scheme res" where
  "fileclose f s =
     (let ff = ftable s ! f
      in if f_ref ff < 1 then Panic ''fileclose''
         else if f_ref ff - 1 > 0 then Ok (upd_file f (\<lambda>x. x\<lparr>f_ref := f_ref x - 1\<rparr>) s)
         else let s1 = upd_file f (\<lambda>x. x\<lparr>f_ref := 0, f_type := FD_NONE\<rparr>) s
              in case f_type ff of
                   FD_PIPE \<Rightarrow> close_pipe (f_pipe ff) (f_writable ff) s1
                 | FD_INODE \<Rightarrow> bindR (fs_begin s1) (\<lambda>s2. bindR (iput (f_ip ff) s2) fs_end)
                 | FD_NONE \<Rightarrow> Ok s1)"

definition filestat :: "nat \<Rightarrow> 'a files_scheme \<Rightarrow> (xstat option \<times> 'a files_scheme) res" where
  "filestat f s =
     (let ff = ftable s ! f
      in if f_type ff = FD_INODE
         then bindR (ilock (f_ip ff) s) (\<lambda>s1.
              let st = stati (f_ip ff) s1 in bindR (iunlock (f_ip ff) s1) (\<lambda>s2. Ok (Some st, s2)))
         else Ok (None, s))"

text \<open>\<open>killed\<close> is \<^verbatim>\<open>myproc()->killed\<close>.\<close>

definition read_pipe :: "bool \<Rightarrow> u32 \<Rightarrow> nat \<Rightarrow> 'a files_scheme \<Rightarrow> (int \<times> u8 list \<times> 'a files_scheme) res" where
  "read_pipe killed a n s =
     (case pipes s a of
        None \<Rightarrow> Panic ''trap''
      | Some p \<Rightarrow>
          (case piperead killed n p of
             (RDone bs, ws, p1) \<Rightarrow> Ok (int (length bs), bs, s\<lparr>pipes := (pipes s)(a \<mapsto> p1)\<rparr>)
           | (RError, ws, p1) \<Rightarrow> Ok (-1, [], s)
           | (RSleep, ws, p1) \<Rightarrow> Hang))"

definition fileread :: "bool \<Rightarrow> nat \<Rightarrow> u32 \<Rightarrow> 'a files_scheme \<Rightarrow> (int \<times> u8 list \<times> 'a files_scheme) res" where
  "fileread killed f n s =
     (let ff = ftable s ! f
      in if \<not> f_readable ff then Ok (-1, [], s)
         else case f_type ff of
                FD_PIPE \<Rightarrow> read_pipe killed (f_pipe ff) (unat n) s
              | FD_INODE \<Rightarrow>
                  bindR (ilock (f_ip ff) s) (\<lambda>s1.
                  bindR (readi (f_ip ff) (f_off ff) n s1) (\<lambda>(r, bs, s2).
                  let s3 = (if r > 0 then upd_file f (\<lambda>x. x\<lparr>f_off := f_off x + of_int r\<rparr>) s2 else s2)
                  in bindR (iunlock (f_ip ff) s3) (\<lambda>s4. Ok (r, bs, s4))))
              | FD_NONE \<Rightarrow> Panic ''fileread'')"

definition write_pipe :: "bool \<Rightarrow> u32 \<Rightarrow> u8 list \<Rightarrow> 'a files_scheme \<Rightarrow> (int \<times> 'a files_scheme) res" where
  "write_pipe killed a src s =
     (case pipes s a of
        None \<Rightarrow> Panic ''trap''
      | Some p \<Rightarrow>
          (case pipewrite killed src p of
             (WDone, ws, p1) \<Rightarrow> Ok (int (length src), s\<lparr>pipes := (pipes s)(a \<mapsto> p1)\<rparr>)
           | (WError, ws, p1) \<Rightarrow> Ok (-1, s\<lparr>pipes := (pipes s)(a \<mapsto> p1)\<rparr>)
           | (WSleep bs, ws, p1) \<Rightarrow> Hang))"

text \<open>The chunks of \<^verbatim>\<open>filewrite\<close>, each a transaction of its own; the result tells whether all of
  \<open>src\<close> was written.\<close>

abbreviation write_max :: nat where "write_max \<equiv> 1536"

definition write_chunk :: "nat \<Rightarrow> u8 list \<Rightarrow> 'a files_scheme \<Rightarrow> (int \<times> 'a files_scheme) res" where
  "write_chunk f bs s =
     (let ip = f_ip (ftable s ! f)
      in bindR (fs_begin s) (\<lambda>s1.
         bindR (ilock ip s1) (\<lambda>s2.
         bindR (writei ip bs (f_off (ftable s2 ! f)) (of_nat (length bs)) s2) (\<lambda>(r, s3).
         bindR (iunlock ip (if r > 0 then upd_file f (\<lambda>x. x\<lparr>f_off := f_off x + of_int r\<rparr>) s3 else s3)) (\<lambda>s4.
         bindR (fs_end s4) (\<lambda>s5. Ok (r, s5)))))))"

function filewrite_loop :: "nat \<Rightarrow> u8 list \<Rightarrow> 'a files_scheme \<Rightarrow> (bool \<times> 'a files_scheme) res" where
  "filewrite_loop f src s =
     (if src = [] then Ok (True, s)
      else bindR (write_chunk f (take write_max src) s) (\<lambda>(r, s1).
           if r < 0 then Ok (False, s1)
           else if r \<noteq> int (min write_max (length src)) then Panic ''short filewrite''
           else filewrite_loop f (drop write_max src) s1))"
  by auto
termination by (relation "measure (\<lambda>(f, src, s). length src)") auto

declare filewrite_loop.simps [simp del]

definition filewrite :: "bool \<Rightarrow> nat \<Rightarrow> u8 list \<Rightarrow> 'a files_scheme \<Rightarrow> (int \<times> 'a files_scheme) res" where
  "filewrite killed f src s =
     (let ff = ftable s ! f
      in if \<not> f_writable ff then Ok (-1, s)
         else case f_type ff of
                FD_PIPE \<Rightarrow> write_pipe killed (f_pipe ff) src s
              | FD_INODE \<Rightarrow> bindR (filewrite_loop f src s) (\<lambda>(all, s1). Ok (if all then int (length src) else -1, s1))
              | FD_NONE \<Rightarrow> Panic ''filewrite'')"

text \<open>\<^verbatim>\<open>pipealloc\<close>; \<open>junk\<close> is what the page holds.\<close>

definition pipealloc :: "u8 list \<Rightarrow> 'a files_scheme \<Rightarrow> ((nat \<times> nat) option \<times> 'a files_scheme) res" where
  "pipealloc junk s =
     (case filealloc s of
        (None, s1) \<Rightarrow> Ok (None, s1)
      | (Some f0, s1) \<Rightarrow>
          (case filealloc s1 of
             (None, s2) \<Rightarrow> bindR (fileclose f0 s2) (\<lambda>s3. Ok (None, s3))
           | (Some f1, s2) \<Rightarrow>
               (case freepages s2 of
                  [] \<Rightarrow> bindR (fileclose f0 s2) (\<lambda>s3. bindR (fileclose f1 s3) (\<lambda>s4. Ok (None, s4)))
                | p # ps \<Rightarrow>
                    Ok (Some (f0, f1),
                        upd_file f1 (\<lambda>f. f\<lparr>f_type := FD_PIPE, f_readable := False, f_writable := True, f_pipe := p\<rparr>)
                          (upd_file f0 (\<lambda>f. f\<lparr>f_type := FD_PIPE, f_readable := True, f_writable := False, f_pipe := p\<rparr>)
                            (s2\<lparr>freepages := ps, pipes := (pipes s2)(p \<mapsto> new_pipe junk)\<rparr>))))))"

end
