(* ===== verification/Sysfile.thy ===== *)
theory Sysfile
  imports File
begin

text \<open>
  System calls on files: the arguments as syscall.c fetches them from the user's stack and
  memory, and the calls of sysfile.c, with the swap files of fs.c that are created and removed
  the same way. The state is that of the current process: its memory below \<open>usz\<close> as the page
  table shows it, its stack pointer, its descriptors and its working directory.
\<close>

section \<open>State\<close>

abbreviation MAXARG :: nat where "MAXARG \<equiv> 32"
abbreviation NFD :: nat where "NFD \<equiv> 16"
abbreviation O_WRONLY :: u32 where "O_WRONLY \<equiv> 1"
abbreviation O_RDWR :: u32 where "O_RDWR \<equiv> 2"
abbreviation O_CREATE :: u32 where "O_CREATE \<equiv> 0x200"

record usys = files +
  usz :: u32
  uesp :: u32
  umem :: "u32 \<Rightarrow> u8"
  ofile :: "nat option list"
  cwd :: nat
  upid :: int
  ukilled :: bool
  uswap :: "nat option"

definition user_store :: "u32 \<Rightarrow> u8 list \<Rightarrow> usys \<Rightarrow> usys" where
  "user_store a bs s = s\<lparr>umem := (\<lambda>v. if unat (v - a) < length bs then bs ! unat (v - a) else umem s v)\<rparr>"

definition user_load :: "usys \<Rightarrow> u32 \<Rightarrow> nat \<Rightarrow> u8 list" where
  "user_load s a n = map (\<lambda>k. umem s (a + of_nat k)) [0 ..< n]"

section \<open>Arguments (syscall.c)\<close>

definition fetchint :: "u32 \<Rightarrow> usys \<Rightarrow> u32 option" where
  "fetchint addr s = (if addr \<ge> usz s \<or> addr + 4 > usz s then None else Some (le32 (user_load s addr 4) 0))"

text \<open>The string itself stands for the pointer to it.\<close>

function fetchstr_loop :: "u32 \<Rightarrow> usys \<Rightarrow> u8 list option" where
  "fetchstr_loop p s =
     (if p < usz s
      then if umem s p = 0 then Some [] else map_option ((#) (umem s p)) (fetchstr_loop (p + 1) s)
      else None)"
  by auto
termination
proof (relation "measure (\<lambda>(p, s). unat (usz s - p))", simp, goal_cases)
  case (1 p s)
  then show ?case using word_dist_Suc [of "usz s" p] by auto
qed

declare fetchstr_loop.simps [simp del]

definition fetchstr :: "u32 \<Rightarrow> usys \<Rightarrow> u8 list option" where
  "fetchstr addr s = (if addr \<ge> usz s then None else fetchstr_loop addr s)"

definition argint :: "nat \<Rightarrow> usys \<Rightarrow> u32 option" where
  "argint n s = fetchint (uesp s + 4 + 4 * of_nat n) s"

definition argptr :: "nat \<Rightarrow> u32 \<Rightarrow> usys \<Rightarrow> u32 option" where
  "argptr n sz s =
     (case argint n s of
        None \<Rightarrow> None
      | Some i \<Rightarrow> if sint sz < 0 \<or> i \<ge> usz s \<or> i + sz > usz s then None else Some i)"

definition argstr :: "nat \<Rightarrow> usys \<Rightarrow> u8 list option" where
  "argstr n s = (case argint n s of None \<Rightarrow> None | Some a \<Rightarrow> fetchstr a s)"

definition argfd :: "nat \<Rightarrow> usys \<Rightarrow> (nat \<times> nat) option" where
  "argfd n s =
     (case argint n s of
        None \<Rightarrow> None
      | Some fd \<Rightarrow>
          if sint fd < 0 \<or> sint fd \<ge> int NFD then None
          else map_option (\<lambda>f. (unat fd, f)) (ofile s ! unat fd))"

section \<open>Descriptors\<close>

definition set_ofile :: "nat \<Rightarrow> nat option \<Rightarrow> usys \<Rightarrow> usys" where
  "set_ofile fd x s = s\<lparr>ofile := (ofile s)[fd := x]\<rparr>"

definition fdalloc :: "nat \<Rightarrow> usys \<Rightarrow> nat option \<times> usys" where
  "fdalloc f s =
     (case find_idx (\<lambda>x. x = None) (ofile s) of
        Some fd \<Rightarrow> (Some fd, set_ofile fd (Some f) s)
      | None \<Rightarrow> (None, s))"

definition sys_dup :: "usys \<Rightarrow> (int \<times> usys) res" where
  "sys_dup s =
     (case argfd 0 s of
        None \<Rightarrow> Ok (-1, s)
      | Some (fd0, f) \<Rightarrow>
          (case fdalloc f s of
             (None, s1) \<Rightarrow> Ok (-1, s1)
           | (Some fd, s1) \<Rightarrow> bindR (filedup f s1) (\<lambda>s2. Ok (int fd, s2))))"

definition rw_args :: "usys \<Rightarrow> (nat \<times> u32 \<times> u32) option" where
  "rw_args s =
     (case argfd 0 s of
        None \<Rightarrow> None
      | Some (fd, f) \<Rightarrow>
          (case argint 2 s of
             None \<Rightarrow> None
           | Some n \<Rightarrow> map_option (\<lambda>p. (f, p, n)) (argptr 1 n s)))"

definition sys_read :: "usys \<Rightarrow> (int \<times> usys) res" where
  "sys_read s =
     (case rw_args s of
        None \<Rightarrow> Ok (-1, s)
      | Some (f, p, n) \<Rightarrow> bindR (fileread (ukilled s) f n s) (\<lambda>(r, bs, s1). Ok (r, user_store p bs s1)))"

definition sys_write :: "usys \<Rightarrow> (int \<times> usys) res" where
  "sys_write s =
     (case rw_args s of
        None \<Rightarrow> Ok (-1, s)
      | Some (f, p, n) \<Rightarrow> filewrite (ukilled s) f (user_load s p (unat n)) s)"

definition sys_close :: "usys \<Rightarrow> (int \<times> usys) res" where
  "sys_close s =
     (case argfd 0 s of
        None \<Rightarrow> Ok (-1, s)
      | Some (fd, f) \<Rightarrow> bindR (fileclose f (set_ofile fd None s)) (\<lambda>s1. Ok (0, s1)))"

text \<open>\<^verbatim>\<open>stati\<close> stores the fields of a \<^verbatim>\<open>struct stat\<close> in user memory, not the padding.\<close>

definition user_stat :: "u32 \<Rightarrow> xstat \<Rightarrow> usys \<Rightarrow> usys" where
  "user_stat p st s =
     user_store (p + 16) (bytes32 (st_size st)) (user_store (p + 12) (bytes16 (ucast (st_nlink st)))
       (user_store (p + 8) (bytes32 (of_nat (st_ino st))) (user_store (p + 4) (bytes32 (of_nat (st_dev st)))
         (user_store p (bytes16 (ucast (st_type st))) s))))"

definition sys_fstat :: "usys \<Rightarrow> (int \<times> usys) res" where
  "sys_fstat s =
     (case argfd 0 s of
        None \<Rightarrow> Ok (-1, s)
      | Some (fd, f) \<Rightarrow>
          (case argptr 1 20 s of
             None \<Rightarrow> Ok (-1, s)
           | Some p \<Rightarrow> bindR (filestat f s) (\<lambda>(st, s1).
               case st of None \<Rightarrow> Ok (-1, s1) | Some x \<Rightarrow> Ok (0, user_stat p x s1))))"

section \<open>Links and directories\<close>

definition add_nlink :: "nat \<Rightarrow> u16 \<Rightarrow> 'a fsys_scheme \<Rightarrow> 'a fsys_scheme" where
  "add_nlink ip k fs = upd_d ip (\<lambda>d. d\<lparr>di_nlink := di_nlink d + k\<rparr>) fs"

text \<open>\<^verbatim>\<open>sys_link\<close> after the arguments: within the transaction, and its way out at \<^verbatim>\<open>bad\<close>.\<close>

definition link_bad :: "nat \<Rightarrow> 'a fsys_scheme \<Rightarrow> (int \<times> 'a fsys_scheme) res" where
  "link_bad ip s =
     bindR (ilock ip s) (\<lambda>s1.
     bindR (iupdate ip (add_nlink ip (-1) s1)) (\<lambda>s2.
     bindR (iunlockput ip s2) (\<lambda>s3. bindR (fs_end s3) (\<lambda>s4. Ok (-1, s4)))))"

definition link_entry :: "nat \<Rightarrow> nat \<Rightarrow> u8 list \<Rightarrow> 'a fsys_scheme \<Rightarrow> (int \<times> 'a fsys_scheme) res" where
  "link_entry ip dp name s =
     (let out = (\<lambda>s. bindR (iunlockput dp s) (link_bad ip))
      in bindR (ilock dp s) (\<lambda>s1.
         if i_dev (ino s1 dp) \<noteq> i_dev (ino s1 ip) then out s1
         else bindR (dirlink dp name (i_num (ino s1 ip)) s1) (\<lambda>(r, s2).
              if r < 0 then out s2
              else bindR (iunlockput dp s2) (\<lambda>s3.
                   bindR (iput ip s3) (\<lambda>s4. bindR (fs_end s4) (\<lambda>s5. Ok (0, s5)))))))"

definition link_path :: "nat \<Rightarrow> u8 list \<Rightarrow> u8 list \<Rightarrow> 'a fsys_scheme \<Rightarrow> (int \<times> 'a fsys_scheme) res" where
  "link_path wd old new s =
     bindR (fs_begin s) (\<lambda>s1.
     bindR (namei wd old s1) (\<lambda>(o1, s2).
       case o1 of
         None \<Rightarrow> bindR (fs_end s2) (\<lambda>s3. Ok (-1, s3))
       | Some ip \<Rightarrow> bindR (ilock ip s2) (\<lambda>s3.
           if di_type (i_d (ino s3 ip)) = T_DIR
           then bindR (iunlockput ip s3) (\<lambda>s4. bindR (fs_end s4) (\<lambda>s5. Ok (-1, s5)))
           else bindR (iupdate ip (add_nlink ip 1 s3)) (\<lambda>s4.
                bindR (iunlock ip s4) (\<lambda>s5.
                bindR (nameiparent wd new s5) (\<lambda>(o2, s6).
                case o2 of None \<Rightarrow> link_bad ip s6 | Some (dp, name) \<Rightarrow> link_entry ip dp name s6))))))"

definition sys_link :: "usys \<Rightarrow> (int \<times> usys) res" where
  "sys_link s =
     (case argstr 0 s of
        None \<Rightarrow> Ok (-1, s)
      | Some old \<Rightarrow> (case argstr 1 s of None \<Rightarrow> Ok (-1, s) | Some new \<Rightarrow> link_path (cwd s) old new s))"

fun isdirempty_loop :: "nat \<Rightarrow> nat list \<Rightarrow> 'a fsys_scheme \<Rightarrow> (bool \<times> 'a fsys_scheme) res" where
  "isdirempty_loop dp [] fs = Ok (True, fs)"
| "isdirempty_loop dp (off # offs) fs =
     bindR (readi dp (of_nat off) (of_nat DIRENT) fs) (\<lambda>(r, de, fs1).
       if r \<noteq> int DIRENT then Panic ''isdirempty: readi''
       else if de_inum de \<noteq> 0 then Ok (False, fs1)
       else isdirempty_loop dp offs fs1)"

definition isdirempty :: "nat \<Rightarrow> 'a fsys_scheme \<Rightarrow> (bool \<times> 'a fsys_scheme) res" where
  "isdirempty dp fs = isdirempty_loop dp (drop 2 (dir_offsets (unat (di_size (i_d (ino fs dp)))))) fs"

definition dot :: "u8 list" where
  "dot = [46]"

definition dotdot :: "u8 list" where
  "dotdot = [46, 46]"

definition unlink_bad :: "nat \<Rightarrow> 'a fsys_scheme \<Rightarrow> (int \<times> 'a fsys_scheme) res" where
  "unlink_bad dp s = bindR (iunlockput dp s) (\<lambda>s1. bindR (fs_end s1) (\<lambda>s2. Ok (-1, s2)))"

definition unlink_entry :: "nat \<Rightarrow> nat \<Rightarrow> nat \<Rightarrow> 'a fsys_scheme \<Rightarrow> (int \<times> 'a fsys_scheme) res" where
  "unlink_entry dp ip off s =
     bindR (writei dp (replicate DIRENT 0) (of_nat off) (of_nat DIRENT) s) (\<lambda>(r, s1).
       if r \<noteq> int DIRENT then Panic ''unlink: writei''
       else bindR (if di_type (i_d (ino s1 ip)) = T_DIR then iupdate dp (add_nlink dp (-1) s1) else Ok s1) (\<lambda>s2.
            bindR (iunlockput dp s2) (\<lambda>s3.
            bindR (iupdate ip (add_nlink ip (-1) s3)) (\<lambda>s4.
            bindR (iunlockput ip s4) (\<lambda>s5. bindR (fs_end s5) (\<lambda>s6. Ok (0, s6)))))))"

definition unlink_path :: "nat \<Rightarrow> u8 list \<Rightarrow> 'a fsys_scheme \<Rightarrow> (int \<times> 'a fsys_scheme) res" where
  "unlink_path wd path s =
     bindR (fs_begin s) (\<lambda>s1.
     bindR (nameiparent wd path s1) (\<lambda>(o1, s2).
       case o1 of
         None \<Rightarrow> bindR (fs_end s2) (\<lambda>s3. Ok (-1, s3))
       | Some (dp, name) \<Rightarrow>
           bindR (ilock dp s2) (\<lambda>s3.
           if namecmp name dot = 0 \<or> namecmp name dotdot = 0 then unlink_bad dp s3
           else bindR (dirlookup dp name s3) (\<lambda>(o2, s4).
                case o2 of
                  None \<Rightarrow> unlink_bad dp s4
                | Some (ip, off) \<Rightarrow>
                    bindR (ilock ip s4) (\<lambda>s5.
                    if sint (di_nlink (i_d (ino s5 ip))) < 1 then Panic ''unlink: nlink < 1''
                    else bindR (if di_type (i_d (ino s5 ip)) = T_DIR then isdirempty ip s5 else Ok (True, s5)) (\<lambda>(empty, s6).
                         if \<not> empty then bindR (iunlockput ip s6) (unlink_bad dp)
                         else unlink_entry dp ip off s6))))))"

definition sys_unlink :: "usys \<Rightarrow> (int \<times> usys) res" where
  "sys_unlink s = (case argstr 0 s of None \<Rightarrow> Ok (-1, s) | Some path \<Rightarrow> unlink_path (cwd s) path s)"

definition create_new :: "nat \<Rightarrow> u8 list \<Rightarrow> u16 \<Rightarrow> u16 \<Rightarrow> u16 \<Rightarrow> 'a fsys_scheme \<Rightarrow> (nat option \<times> 'a fsys_scheme) res" where
  "create_new dp name type major minor s =
     bindR (ialloc type s) (\<lambda>(ip, s1).
     bindR (ilock ip s1) (\<lambda>s2.
     bindR (iupdate ip (upd_d ip (\<lambda>d. d\<lparr>di_major := major, di_minor := minor, di_nlink := 1\<rparr>) s2)) (\<lambda>s3.
     bindR (if type = T_DIR
            then bindR (iupdate dp (add_nlink dp 1 s3)) (\<lambda>s4.
                 bindR (dirlink ip dot (i_num (ino s4 ip)) s4) (\<lambda>(r, s5).
                 if r < 0 then Panic ''create dots''
                 else bindR (dirlink ip dotdot (i_num (ino s5 dp)) s5) (\<lambda>(r2, s6).
                      if r2 < 0 then Panic ''create dots'' else Ok s6)))
            else Ok s3) (\<lambda>s7.
     bindR (dirlink dp name (i_num (ino s7 ip)) s7) (\<lambda>(r, s8).
     if r < 0 then Panic ''create: dirlink'' else bindR (iunlockput dp s8) (\<lambda>s9. Ok (Some ip, s9)))))))"

definition create :: "nat \<Rightarrow> u8 list \<Rightarrow> u16 \<Rightarrow> u16 \<Rightarrow> u16 \<Rightarrow> 'a fsys_scheme \<Rightarrow> (nat option \<times> 'a fsys_scheme) res" where
  "create wd path type major minor s =
     bindR (nameiparent wd path s) (\<lambda>(o1, s1).
       case o1 of
         None \<Rightarrow> Ok (None, s1)
       | Some (dp, name) \<Rightarrow>
           bindR (ilock dp s1) (\<lambda>s2.
           bindR (dirlookup dp name s2) (\<lambda>(o2, s3).
             case o2 of
               None \<Rightarrow> create_new dp name type major minor s3
             | Some (ip, off) \<Rightarrow>
                 bindR (iunlockput dp s3) (\<lambda>s4.
                 bindR (ilock ip s4) (\<lambda>s5.
                   if type = T_FILE \<and> di_type (i_d (ino s5 ip)) = T_FILE then Ok (Some ip, s5)
                   else bindR (iunlockput ip s5) (\<lambda>s6. Ok (None, s6)))))))"

section \<open>open, mkdir, mknod, chdir, exec, pipe\<close>

text \<open>\<^verbatim>\<open>sys_open\<close> up to the locked inode; the transaction is over when there is none.\<close>

definition open_inode :: "nat \<Rightarrow> u8 list \<Rightarrow> u32 \<Rightarrow> 'a fsys_scheme \<Rightarrow> (nat option \<times> 'a fsys_scheme) res" where
  "open_inode wd path omode s =
     bindR (fs_begin s) (\<lambda>s1.
       if omode AND O_CREATE \<noteq> 0
       then bindR (create wd path T_FILE 0 0 s1) (\<lambda>(o1, s2).
            case o1 of None \<Rightarrow> bindR (fs_end s2) (\<lambda>s3. Ok (None, s3)) | Some ip \<Rightarrow> Ok (Some ip, s2))
       else bindR (namei wd path s1) (\<lambda>(o1, s2).
            case o1 of
              None \<Rightarrow> bindR (fs_end s2) (\<lambda>s3. Ok (None, s3))
            | Some ip \<Rightarrow>
                bindR (ilock ip s2) (\<lambda>s3.
                if di_type (i_d (ino s3 ip)) = T_DIR \<and> omode \<noteq> 0
                then bindR (iunlockput ip s3) (\<lambda>s4. bindR (fs_end s4) (\<lambda>s5. Ok (None, s5)))
                else Ok (Some ip, s3))))"

definition open_fail :: "nat \<Rightarrow> usys \<Rightarrow> (int \<times> usys) res" where
  "open_fail ip s = bindR (iunlockput ip s) (\<lambda>s1. bindR (fs_end s1) (\<lambda>s2. Ok (-1, s2)))"

definition open_file :: "u32 \<Rightarrow> nat \<Rightarrow> filent \<Rightarrow> filent" where
  "open_file omode ip f =
     f\<lparr>f_type := FD_INODE, f_ip := ip, f_off := 0, f_readable := (omode AND O_WRONLY = 0),
       f_writable := (omode AND O_WRONLY \<noteq> 0 \<or> omode AND O_RDWR \<noteq> 0)\<rparr>"

definition sys_open :: "usys \<Rightarrow> (int \<times> usys) res" where
  "sys_open s =
     (case argstr 0 s of
        None \<Rightarrow> Ok (-1, s)
      | Some path \<Rightarrow>
          (case argint 1 s of
             None \<Rightarrow> Ok (-1, s)
           | Some omode \<Rightarrow>
               bindR (open_inode (cwd s) path omode s) (\<lambda>(o1, s1).
                 case o1 of
                   None \<Rightarrow> Ok (-1, s1)
                 | Some ip \<Rightarrow>
                     (case filealloc s1 of
                        (None, s2) \<Rightarrow> open_fail ip s2
                      | (Some f, s2) \<Rightarrow>
                          (case fdalloc f s2 of
                             (None, s3) \<Rightarrow> bindR (fileclose f s3) (open_fail ip)
                           | (Some fd, s3) \<Rightarrow>
                               bindR (iunlock ip s3) (\<lambda>s4.
                               bindR (fs_end s4) (\<lambda>s5.
                               Ok (int fd, upd_file f (open_file omode ip) s5))))))))"

text \<open>\<^verbatim>\<open>sys_mkdir\<close> and \<^verbatim>\<open>sys_mknod\<close> open the transaction before they fetch their arguments.\<close>

definition create_and_put :: "usys \<Rightarrow> u8 list \<Rightarrow> u16 \<Rightarrow> u16 \<Rightarrow> u16 \<Rightarrow> (int \<times> usys) res" where
  "create_and_put s1 path type major minor =
     bindR (create (cwd s1) path type major minor s1) (\<lambda>(o1, s2).
       case o1 of
         None \<Rightarrow> bindR (fs_end s2) (\<lambda>s3. Ok (-1, s3))
       | Some ip \<Rightarrow> bindR (iunlockput ip s2) (\<lambda>s3. bindR (fs_end s3) (\<lambda>s4. Ok (0, s4))))"

definition sys_mkdir :: "usys \<Rightarrow> (int \<times> usys) res" where
  "sys_mkdir s =
     bindR (fs_begin s) (\<lambda>s1.
       case argstr 0 s1 of
         None \<Rightarrow> bindR (fs_end s1) (\<lambda>s2. Ok (-1, s2))
       | Some path \<Rightarrow> create_and_put s1 path T_DIR 0 0)"

definition sys_mknod :: "usys \<Rightarrow> (int \<times> usys) res" where
  "sys_mknod s =
     bindR (fs_begin s) (\<lambda>s1.
       case (argstr 0 s1, argint 1 s1, argint 2 s1) of
         (Some path, Some major, Some minor) \<Rightarrow> create_and_put s1 path T_DEV (ucast major) (ucast minor)
       | _ \<Rightarrow> bindR (fs_end s1) (\<lambda>s2. Ok (-1, s2)))"

definition sys_chdir :: "usys \<Rightarrow> (int \<times> usys) res" where
  "sys_chdir s =
     bindR (fs_begin s) (\<lambda>s1.
       case argstr 0 s1 of
         None \<Rightarrow> bindR (fs_end s1) (\<lambda>s2. Ok (-1, s2))
       | Some path \<Rightarrow>
           bindR (namei (cwd s1) path s1) (\<lambda>(o1, s2).
             case o1 of
               None \<Rightarrow> bindR (fs_end s2) (\<lambda>s3. Ok (-1, s3))
             | Some ip \<Rightarrow>
                 bindR (ilock ip s2) (\<lambda>s3.
                 if di_type (i_d (ino s3 ip)) \<noteq> T_DIR
                 then bindR (iunlockput ip s3) (\<lambda>s4. bindR (fs_end s4) (\<lambda>s5. Ok (-1, s5)))
                 else bindR (iunlock ip s3) (\<lambda>s4.
                      bindR (iput (cwd s4) s4) (\<lambda>s5.
                      bindR (fs_end s5) (\<lambda>s6. Ok (0, s6\<lparr>cwd := ip\<rparr>)))))))"

text \<open>\<^verbatim>\<open>sys_exec\<close> collects the argument vector (\<open>left\<close> entries of \<^verbatim>\<open>argv\<close> are free) and calls
  \<^verbatim>\<open>exec\<close>, here its argument.\<close>

fun exec_argv :: "nat \<Rightarrow> u32 \<Rightarrow> usys \<Rightarrow> u8 list list option" where
  "exec_argv 0 uargv s = None"
| "exec_argv (Suc left) uargv s =
     (case fetchint uargv s of
        None \<Rightarrow> None
      | Some uarg \<Rightarrow>
          if uarg = 0 then Some []
          else case fetchstr uarg s of
                 None \<Rightarrow> None
               | Some a \<Rightarrow> map_option ((#) a) (exec_argv left (uargv + 4) s))"

definition sys_exec :: "(u8 list \<Rightarrow> u8 list list \<Rightarrow> usys \<Rightarrow> (int \<times> usys) res) \<Rightarrow> usys \<Rightarrow> (int \<times> usys) res" where
  "sys_exec exec s =
     (case (argstr 0 s, argint 1 s) of
        (Some path, Some uargv) \<Rightarrow>
          (case exec_argv MAXARG uargv s of None \<Rightarrow> Ok (-1, s) | Some argv \<Rightarrow> exec path argv s)
      | _ \<Rightarrow> Ok (-1, s))"

definition pipe_fail :: "nat \<Rightarrow> nat \<Rightarrow> usys \<Rightarrow> (int \<times> usys) res" where
  "pipe_fail rf wfile s = bindR (fileclose rf s) (\<lambda>s1. bindR (fileclose wfile s1) (\<lambda>s2. Ok (-1, s2)))"

definition sys_pipe :: "u8 list \<Rightarrow> usys \<Rightarrow> (int \<times> usys) res" where
  "sys_pipe junk s =
     (case argptr 0 8 s of
        None \<Rightarrow> Ok (-1, s)
      | Some p \<Rightarrow>
          bindR (pipealloc junk s) (\<lambda>(o1, s1).
            case o1 of
              None \<Rightarrow> Ok (-1, s1)
            | Some (rf, wfile) \<Rightarrow>
                (case fdalloc rf s1 of
                   (None, s2) \<Rightarrow> pipe_fail rf wfile s2
                 | (Some fd0, s2) \<Rightarrow>
                     (case fdalloc wfile s2 of
                        (None, s3) \<Rightarrow> pipe_fail rf wfile (set_ofile fd0 None s3)
                      | (Some fd1, s3) \<Rightarrow>
                          Ok (0, user_store (p + 4) (bytes32 (of_nat fd1)) (user_store p (bytes32 (of_nat fd0)) s3))))))"

section \<open>Swap files (fs.c)\<close>

definition removeSwapFile :: "usys \<Rightarrow> (int \<times> usys) res" where
  "removeSwapFile s =
     (case uswap s of
        None \<Rightarrow> Ok (-1, s)
      | Some f \<Rightarrow> bindR (fileclose f s) (\<lambda>s1. unlink_path (cwd s1) (swap_path (upid s1)) s1))"

definition swap_file :: "nat \<Rightarrow> filent \<Rightarrow> filent" where
  "swap_file ip f = f\<lparr>f_type := FD_INODE, f_ip := ip, f_off := 0, f_readable := True, f_writable := True\<rparr>"

definition createSwapFile :: "usys \<Rightarrow> (int \<times> usys) res" where
  "createSwapFile s =
     bindR (fs_begin s) (\<lambda>s1.
     bindR (create (cwd s1) (swap_path (upid s1)) T_FILE 0 0 s1) (\<lambda>(o1, s2).
       case o1 of
         None \<Rightarrow> Panic ''iunlock''
       | Some ip \<Rightarrow>
           bindR (iunlock ip s2) (\<lambda>s3.
             case filealloc s3 of
               (None, s4) \<Rightarrow> Panic ''no slot for files on /store''
             | (Some f, s4) \<Rightarrow>
                 bindR (fs_end (upd_file f (swap_file ip) s4)) (\<lambda>s5. Ok (0, s5\<lparr>uswap := Some f\<rparr>)))))"

definition writeToSwapFile :: "u8 list \<Rightarrow> u32 \<Rightarrow> usys \<Rightarrow> (int \<times> usys) res" where
  "writeToSwapFile src place s =
     (case uswap s of
        None \<Rightarrow> Panic ''trap''
      | Some f \<Rightarrow> filewrite (ukilled s) f src (upd_file f (\<lambda>x. x\<lparr>f_off := place\<rparr>) s))"

definition readFromSwapFile :: "u32 \<Rightarrow> u32 \<Rightarrow> usys \<Rightarrow> (int \<times> u8 list \<times> usys) res" where
  "readFromSwapFile place n s =
     (case uswap s of
        None \<Rightarrow> Panic ''trap''
      | Some f \<Rightarrow> fileread (ukilled s) f n (upd_file f (\<lambda>x. x\<lparr>f_off := place\<rparr>) s))"

end
