(* ===== verification/FsFrame.thy ===== *)
theory FsFrame
  imports Sysfile
begin

text \<open>
  What the file system below \<^verbatim>\<open>file.c\<close> does not touch: no operation of fs.c or log.c touches the
  state that extends it (open files, pipes, descriptors). One lemma per operation, collected in
  \<open>frame\<close>; the invariant of the descriptors rests on them.
\<close>

text \<open>All but the blocks, the blocks logged, and the inode cache.\<close>

definition kept where
  "kept fs = (fsys.more fs, (flog fs)\<lparr>lhb := []\<rparr>, fsb fs, dev_read fs, dev_write fs)"

named_theorems frame \<open>operations that change only blocks, the list of blocks logged and the inode cache\<close>

lemma kept_more: "kept fs' = kept fs \<Longrightarrow> fsys.more fs' = fsys.more fs"
  by (simp add: kept_def)

lemma kept_log:
  assumes "kept fs' = kept fs"
  shows "outstanding (flog fs') = outstanding (flog fs)" "committing (flog fs') = committing (flog fs)" "lsize (flog fs') = lsize (flog fs)"
    "lstart (flog fs') = lstart (flog fs)" "ldev (flog fs') = ldev (flog fs)" "fsb fs' = fsb fs"
proof -
  have "(flog fs')\<lparr>lhb := []\<rparr> = (flog fs)\<lparr>lhb := []\<rparr>" "fsb fs' = fsb fs" using assms by (simp_all add: kept_def)
  then show "outstanding (flog fs') = outstanding (flog fs)" "committing (flog fs') = committing (flog fs)" "lsize (flog fs') = lsize (flog fs)"
    "lstart (flog fs') = lstart (flog fs)" "ldev (flog fs') = ldev (flog fs)" "fsb fs' = fsb fs"
    by (cases "flog fs"; cases "flog fs'"; simp)+
qed


lemma kept_upd [simp]: "kept (upd_ino i f fs) = kept fs" "kept (upd_d i g fs) = kept fs"
  by (simp_all add: upd_d_def upd_ino_def kept_def)

lemma kept_fwrite [frame]: "fwrite b d fs = Ok fs' \<Longrightarrow> kept fs' = kept fs"
  by (auto simp: fwrite_def bindR_Ok_iff log_record_Ok kept_def)

lemma kept_bzero [frame]: "bzero b fs = Ok fs' \<Longrightarrow> kept fs' = kept fs"
  by (auto simp: bzero_def bindR_Ok_iff dest: frame)

lemma kept_balloc [frame]: "balloc fs = Ok (b, fs') \<Longrightarrow> kept fs' = kept fs"
proof -
  have "balloc_from k fs = Ok (b, fs') \<Longrightarrow> kept fs' = kept fs" for k
  proof (induction k fs rule: balloc_from.induct)
    case (1 k fs)
    obtain d where d: "k < sb_size (fsb fs)" "fread (BBLOCK k (fsb fs)) fs = Ok d"
      using 1(2) by (subst (asm) balloc_from.simps) (auto simp: bindR_Ok_iff split: if_splits)
    show ?case
    proof (cases "balloc_bit d (min BPB (sb_size (fsb fs) - k)) 0")
      case None
      then show ?thesis using 1(2) 1(1) [OF d None] d by (simp add: balloc_from.simps [of k])
    next
      case (Some bi)
      then show ?thesis using 1(2) d by (auto simp: balloc_from.simps [of k] bindR_Ok_iff dest!: frame)
    qed
  qed
  then show "balloc fs = Ok (b, fs') \<Longrightarrow> kept fs' = kept fs" by (simp add: balloc_def)
qed

lemma kept_bfree [frame]: "bfree b fs = Ok fs' \<Longrightarrow> kept fs' = kept fs"
  by (auto simp: bfree_def bindR_Ok_iff Let_def split: if_splits dest: frame)

lemma kept_iget [frame]: "iget n fs = Ok (i, fs') \<Longrightarrow> kept fs' = kept fs"
  by (auto simp: iget_def split: option.splits)

lemma kept_ialloc [frame]: "ialloc ty fs = Ok (i, fs') \<Longrightarrow> kept fs' = kept fs"
proof -
  have "ialloc_from k ty fs = Ok (i, fs') \<Longrightarrow> kept fs' = kept fs" for k
  proof (induction k ty fs rule: ialloc_from.induct)
    case (1 k ty fs)
    show ?case using 1(2)
      by (subst (asm) ialloc_from.simps) (auto simp: bindR_Ok_iff Let_def split: if_splits dest!: frame dest: 1(1))
  qed
  then show "ialloc ty fs = Ok (i, fs') \<Longrightarrow> kept fs' = kept fs" by (simp add: ialloc_def)
qed

lemma kept_iupdate [frame]: "iupdate i fs = Ok fs' \<Longrightarrow> kept fs' = kept fs"
  by (auto simp: iupdate_def bindR_Ok_iff Let_def dest: frame)

lemma kept_ilock [frame]: "ilock i fs = Ok fs' \<Longrightarrow> kept fs' = kept fs"
  by (auto simp: ilock_def bindR_Ok_iff Let_def split: if_splits)

lemma kept_iunlock [frame]: "iunlock i fs = Ok fs' \<Longrightarrow> kept fs' = kept fs"
  by (auto simp: iunlock_def split: if_splits)

lemma kept_eachR:
  assumes "\<And>x fs fs'. f x fs = Ok fs' \<Longrightarrow> kept fs' = kept fs"
  shows "eachR f xs fs = Ok fs' \<Longrightarrow> kept fs' = kept fs"
  by (induction xs arbitrary: fs) (auto simp: bindR_Ok_iff dest: assms)

lemma kept_itrunc_direct [frame]: "itrunc_direct i k fs = Ok fs' \<Longrightarrow> kept fs' = kept fs"
  by (auto simp: itrunc_direct_def bindR_Ok_iff Let_def split: if_splits dest: frame)

lemma kept_itrunc_indirect [frame]: "itrunc_indirect i k fs = Ok fs' \<Longrightarrow> kept fs' = kept fs"
  by (auto simp: itrunc_indirect_def bindR_Ok_iff Let_def split: if_splits dest: frame)

lemma kept_itrunc_loops [frame]:
  "eachR (itrunc_direct i) xs fs = Ok fs' \<Longrightarrow> kept fs' = kept fs"
  "eachR (itrunc_indirect i) xs fs = Ok fs' \<Longrightarrow> kept fs' = kept fs"
  by (erule kept_eachR [rotated], erule frame)+

lemma kept_itrunc [frame]: "itrunc i fs = Ok fs' \<Longrightarrow> kept fs' = kept fs"
  by (auto simp: itrunc_def bindR_Ok_iff Let_def split: if_splits dest!: frame)

lemma kept_iput [frame]: "iput i fs = Ok fs' \<Longrightarrow> kept fs' = kept fs"
  by (auto simp: iput_def bindR_Ok_iff Let_def split: if_splits dest!: frame)

lemma kept_iunlockput [frame]: "iunlockput i fs = Ok fs' \<Longrightarrow> kept fs' = kept fs"
  by (auto simp: iunlockput_def bindR_Ok_iff dest!: frame)

lemma kept_bmap [frame]: "bmap i bn fs = Ok (b, fs') \<Longrightarrow> kept fs' = kept fs"
  by (auto simp: bmap_def bindR_Ok_iff Let_def split: if_splits dest!: frame)

lemma kept_readi [frame]: "readi i off n fs = Ok (r, bs, fs') \<Longrightarrow> kept fs' = kept fs"
proof -
  have l: "readi_loop i k l acc fs = Ok (bs', fs') \<Longrightarrow> kept fs' = kept fs" for k l acc bs' fs
  proof (induction i k l acc fs rule: readi_loop.induct)
    case (1 i k l acc fs)
    show ?case
    proof (cases "l = 0")
      case True
      then show ?thesis using 1(2) by (simp add: readi_loop.simps)
    next
      case False
      obtain b fs1 d where r: "bmap i (k div BSIZE) fs = Ok (b, fs1)" "fread b fs1 = Ok d"
        "readi_loop i (k + min l (BSIZE - k mod BSIZE)) (l - min l (BSIZE - k mod BSIZE))
           (acc @ take (min l (BSIZE - k mod BSIZE)) (drop (k mod BSIZE) d)) fs1 = Ok (bs', fs')"
        using 1(2) False by (subst (asm) readi_loop.simps) (auto simp: bindR_Ok_iff Let_def)
      show ?thesis using 1(1) [OF False r(1) refl r(2) refl r(3)] kept_bmap [OF r(1)] by simp
    qed
  qed
  then show "readi i off n fs = Ok (r, bs, fs') \<Longrightarrow> kept fs' = kept fs"
    by (auto simp: readi_def bindR_Ok_iff Let_def split: if_splits option.splits prod.splits dest!: l)
qed

lemma kept_writei [frame]: "writei i src off n fs = Ok (r, fs') \<Longrightarrow> kept fs' = kept fs"
proof -
  have l: "writei_loop i k bs fs = Ok fs' \<Longrightarrow> kept fs' = kept fs" for k bs fs fs'
  proof (induction i k bs fs rule: writei_loop.induct)
    case (1 i k bs fs)
    show ?case
    proof (cases "bs = []")
      case True
      then show ?thesis using 1(2) by (simp add: writei_loop.simps)
    next
      case False
      obtain b fs1 d fs2 where r: "bmap i (k div BSIZE) fs = Ok (b, fs1)" "fread b fs1 = Ok d"
        "fwrite b (splice (k mod BSIZE) (take (min (length bs) (BSIZE - k mod BSIZE)) bs) d) fs1 = Ok fs2"
        "writei_loop i (k + min (length bs) (BSIZE - k mod BSIZE)) (drop (min (length bs) (BSIZE - k mod BSIZE)) bs) fs2 = Ok fs'"
        using 1(2) False by (subst (asm) writei_loop.simps) (auto simp: bindR_Ok_iff Let_def)
      show ?thesis using 1(1) [OF False r(1) refl r(2) refl r(3,4)] kept_bmap [OF r(1)] kept_fwrite [OF r(3)] by simp
    qed
  qed
  then show "writei i src off n fs = Ok (r, fs') \<Longrightarrow> kept fs' = kept fs"
    by (auto simp: writei_def bindR_Ok_iff Let_def split: if_splits option.splits dest!: l frame)
qed

lemma kept_dirlookup [frame]: "dirlookup dp name fs = Ok (r, fs') \<Longrightarrow> kept fs' = kept fs"
proof -
  have "dirlookup_loop dp name offs fs = Ok (r, fs') \<Longrightarrow> kept fs' = kept fs" for offs
    by (induction offs arbitrary: fs) (auto simp: bindR_Ok_iff split: if_splits dest!: frame)
  then show "dirlookup dp name fs = Ok (r, fs') \<Longrightarrow> kept fs' = kept fs" by (auto simp: dirlookup_def split: if_splits)
qed

lemma kept_empty_dirent [frame]: "empty_dirent dp offs fs = Ok (r, fs') \<Longrightarrow> kept fs' = kept fs"
  by (induction offs arbitrary: fs) (auto simp: bindR_Ok_iff split: if_splits dest!: frame)

lemma kept_dirlink [frame]: "dirlink dp name inum fs = Ok (r, fs') \<Longrightarrow> kept fs' = kept fs"
  by (auto simp: dirlink_def bindR_Ok_iff Let_def split: if_splits option.splits dest!: frame)

lemma kept_namex [frame]: "namex wd path np fs = Ok (r, fs') \<Longrightarrow> kept fs' = kept fs"
proof -
  have l: "namex_loop ip p nm np fs = Ok (r, fs') \<Longrightarrow> kept fs' = kept fs" for ip p nm fs
  proof (induction ip p nm np fs rule: namex_loop.induct)
    case (1 ip p nm np fs)
    show ?case
    proof (cases "skipelem p")
      case None
      then show ?thesis using 1(2) by (subst (asm) namex_loop.simps) (auto simp: bindR_Ok_iff split: if_splits dest!: frame)
    next
      case (Some q)
      then obtain p1 n1 where q: "skipelem p = Some (p1, n1)" by (cases q) auto
      obtain fs1 where l: "ilock ip fs = Ok fs1" using 1(2) q by (subst (asm) namex_loop.simps) (auto simp: bindR_Ok_iff)
      have un: "namex_loop ip p nm np fs =
          (if di_type (i_d (ino fs1 ip)) \<noteq> T_DIR then bindR (iunlockput ip fs1) (\<lambda>fs2. Ok (None, fs2))
            else if np \<and> p1 = [] then bindR (iunlock ip fs1) (\<lambda>fs2. Ok (Some (ip, n1), fs2))
            else bindR (dirlookup ip n1 fs1) (\<lambda>(r, fs2).
                 case r of
                   None \<Rightarrow> bindR (iunlockput ip fs2) (\<lambda>fs3. Ok (None, fs3))
                 | Some (nxt, off) \<Rightarrow> bindR (iunlockput ip fs2) (namex_loop nxt p1 n1 np)))"
        using q l by (subst namex_loop.simps) simp
      show ?thesis
      proof (cases "di_type (i_d (ino fs1 ip)) \<noteq> T_DIR \<or> (np \<and> p1 = [])")
        case True
        then show ?thesis using 1(2) kept_ilock [OF l] unfolding un by (auto simp: bindR_Ok_iff split: if_splits dest!: frame)
      next
        case False
        then have c: "di_type (i_d (ino fs1 ip)) = T_DIR" "\<not> (np \<and> p1 = [])" by auto
        obtain o1 fs2 where o: "dirlookup ip n1 fs1 = Ok (o1, fs2)" using 1(2) c unfolding un by (auto simp: bindR_Ok_iff)
        show ?thesis
        proof (cases o1)
          case None
          then show ?thesis using 1(2) kept_ilock [OF l] kept_dirlookup [OF o] c o unfolding un by (auto simp: bindR_Ok_iff dest!: frame)
        next
          case (Some w)
          then obtain nxt off fs3 where w: "o1 = Some (nxt, off)" "iunlockput ip fs2 = Ok fs3" "namex_loop nxt p1 n1 np fs3 = Ok (r, fs')"
            using 1(2) c o unfolding un by (cases w) (auto simp: bindR_Ok_iff)
          have "kept fs' = kept fs3"
            by (rule 1(1) [OF q refl l _ c(2) o refl w(1) refl w(2,3)]) (simp add: c(1))
          then show ?thesis using kept_ilock [OF l] kept_dirlookup [OF o] kept_iunlockput [OF w(2)] by simp
        qed
      qed
    qed
  qed
  then show "namex wd path np fs = Ok (r, fs') \<Longrightarrow> kept fs' = kept fs"
    by (auto simp: namex_def bindR_Ok_iff idup_def split: if_splits dest!: l frame)
qed

lemma kept_namei [frame]: "namei wd path fs = Ok (r, fs') \<Longrightarrow> kept fs' = kept fs"
  "nameiparent wd path fs = Ok (r', fs') \<Longrightarrow> kept fs' = kept fs"
  by (auto simp: namei_def nameiparent_def bindR_Ok_iff dest!: frame)

section \<open>Transactions and the calls of sysfile.c\<close>

named_theorems more_frame \<open>operations that keep what extends the file system's state\<close>

declare frame [THEN kept_more, more_frame]

lemma more_upd [simp]: "fsys.more (upd_ino i f fs) = fsys.more fs" "fsys.more (upd_d i g fs) = fsys.more fs"
  by (rule kept_more, rule kept_upd)+

lemmas more_ilock = kept_ilock [THEN kept_more] and more_iunlock = kept_iunlock [THEN kept_more] and more_iput = kept_iput [THEN kept_more]
  and more_readi = kept_readi [THEN kept_more] and more_writei = kept_writei [THEN kept_more] and more_namei = kept_namei [THEN kept_more]

lemma more_fs_begin [more_frame]: "fs_begin fs = Ok fs' \<Longrightarrow> fsys.more fs' = fsys.more fs"
  by (auto simp: fs_begin_def split: option.splits)

lemma more_fs_end [more_frame]: "fs_end fs = Ok fs' \<Longrightarrow> fsys.more fs' = fsys.more fs"
  by (auto simp: fs_end_def bindR_Ok_iff)

lemma more_add_nlink [simp]: "fsys.more (add_nlink ip k fs) = fsys.more fs"
  by (simp add: add_nlink_def)

lemma more_link_bad [more_frame]: "link_bad ip fs = Ok (r, fs') \<Longrightarrow> fsys.more fs' = fsys.more fs"
  by (auto simp: link_bad_def bindR_Ok_iff dest!: more_frame)

lemma more_link_entry [more_frame]: "link_entry ip dp name fs = Ok (r, fs') \<Longrightarrow> fsys.more fs' = fsys.more fs"
  by (auto simp: link_entry_def Let_def bindR_Ok_iff split: if_splits dest!: more_frame)

lemma more_link_path [more_frame]: "link_path wd p q fs = Ok (r, fs') \<Longrightarrow> fsys.more fs' = fsys.more fs"
  by (auto simp: link_path_def bindR_Ok_iff split: if_splits option.splits dest!: more_frame)

lemma more_isdirempty [more_frame]: "isdirempty dp fs = Ok (b, fs') \<Longrightarrow> fsys.more fs' = fsys.more fs"
proof -
  have "isdirempty_loop dp offs fs = Ok (b, fs') \<Longrightarrow> fsys.more fs' = fsys.more fs" for offs
    by (induction offs arbitrary: fs) (auto simp: bindR_Ok_iff split: if_splits dest!: more_frame)
  then show "isdirempty dp fs = Ok (b, fs') \<Longrightarrow> fsys.more fs' = fsys.more fs" by (auto simp: isdirempty_def)
qed

lemma more_unlink_bad [more_frame]: "unlink_bad dp fs = Ok (r, fs') \<Longrightarrow> fsys.more fs' = fsys.more fs"
  by (auto simp: unlink_bad_def bindR_Ok_iff dest!: more_frame)

lemma more_unlink_entry [more_frame]: "unlink_entry dp ip off fs = Ok (r, fs') \<Longrightarrow> fsys.more fs' = fsys.more fs"
  by (auto simp: unlink_entry_def bindR_Ok_iff split: if_splits dest!: more_frame)

lemma more_unlink_path [more_frame]: "unlink_path wd p fs = Ok (r, fs') \<Longrightarrow> fsys.more fs' = fsys.more fs"
  by (auto simp: unlink_path_def bindR_Ok_iff split: if_splits option.splits dest!: more_frame)

lemma more_create_new [more_frame]: "create_new dp name ty ma mi fs = Ok (r, fs') \<Longrightarrow> fsys.more fs' = fsys.more fs"
  by (auto simp: create_new_def bindR_Ok_iff split: if_splits dest!: more_frame)

lemma more_create [more_frame]: "create wd p ty ma mi fs = Ok (r, fs') \<Longrightarrow> fsys.more fs' = fsys.more fs"
  by (auto simp: create_def bindR_Ok_iff split: if_splits option.splits dest!: more_frame)

lemma more_open_inode [more_frame]: "open_inode wd p om fs = Ok (r, fs') \<Longrightarrow> fsys.more fs' = fsys.more fs"
  by (auto simp: open_inode_def bindR_Ok_iff split: if_splits option.splits dest!: more_frame)

end
