(* ===== verification/FdTable.thy ===== *)
theory FdTable
  imports FsFrame
begin

text \<open>
  Descriptors and reference counts: in every state a process can reach by the calls of sysfile.c,
  a file has at least as many references as the process has descriptors for it, so a descriptor
  never names a closed file. Other holders of references (other processes, swap files) are what
  the counts may exceed the descriptors by.
\<close>

section \<open>The invariant on lists\<close>

definition refs_ok :: "nat option list \<Rightarrow> nat list \<Rightarrow> bool" where
  "refs_ok ofl rs \<longleftrightarrow> length ofl = NFD \<and> length rs = NFILE \<and> (\<forall>f. Some f \<in> set ofl \<longrightarrow> f < NFILE) \<and>
     (\<forall>f < NFILE. count_list ofl (Some f) \<le> rs ! f)"

lemma count_list_update:
  "i < length xs \<Longrightarrow> count_list (xs[i := y]) x + (if xs ! i = x then 1 else 0) = count_list xs x + (if y = x then 1 else 0)"
proof (induction xs arbitrary: i)
  case (Cons a xs)
  show ?case
  proof (cases i)
    case (Suc k)
    then show ?thesis using Cons.IH [of k] Cons.prems by auto
  qed simp
qed simp

lemma refs_ok_open:
  assumes "refs_ok ofl rs" "fd < NFD" "ofl ! fd = None" "f < NFILE" "count_list ofl (Some f) < rs' ! f"
    "length rs' = NFILE" "\<forall>g < NFILE. g \<noteq> f \<longrightarrow> rs ! g \<le> rs' ! g"
  shows "refs_ok (ofl[fd := Some f]) rs'"
proof -
  have "count_list (ofl[fd := Some f]) (Some g) \<le> rs' ! g" if "g < NFILE" for g
  proof (cases "g = f")
    case True
    then show ?thesis using count_list_update [of fd ofl "Some f" "Some f"] assms by (simp add: refs_ok_def)
  next
    case False
    then have "count_list (ofl[fd := Some f]) (Some g) = count_list ofl (Some g)" "count_list ofl (Some g) \<le> rs ! g" "rs ! g \<le> rs' ! g"
      using count_list_update [of fd ofl "Some f" "Some g"] assms that by (simp_all add: refs_ok_def)
    then show ?thesis by simp
  qed
  then show ?thesis using assms by (auto simp: refs_ok_def dest!: set_update_cases)
qed

lemma refs_ok_close:
  assumes "refs_ok ofl rs" "fd < NFD" "ofl ! fd = Some f"
  shows "refs_ok (ofl[fd := None]) (rs[f := rs ! f - 1])" "0 < rs ! f" "f < NFILE"
proof -
  have f: "f < NFILE" "length ofl = NFD" using assms nth_mem [of fd ofl] by (simp_all add: refs_ok_def)
  have c: "count_list ofl (Some f) = count_list (ofl[fd := None]) (Some f) + 1"
    using count_list_update [of fd ofl None "Some f"] assms f by simp
  show "f < NFILE" by (rule f)
  show "0 < rs ! f" using c assms(1) f by (auto simp: refs_ok_def dest: spec [of _ f])
  have "count_list (ofl[fd := None]) (Some g) \<le> rs[f := rs ! f - 1] ! g" if "g < NFILE" for g
  proof (cases "g = f")
    case True
    then show ?thesis using c assms(1) f by (auto simp: refs_ok_def dest: spec [of _ f])
  next
    case False
    then show ?thesis using count_list_update [of fd ofl None "Some g"] assms f that by (auto simp: refs_ok_def)
  qed
  then show "refs_ok (ofl[fd := None]) (rs[f := rs ! f - 1])" using assms(1) by (auto simp: refs_ok_def dest!: set_update_cases)
qed

text \<open>Dropping a reference that no descriptor stands for.\<close>

lemma refs_ok_drop:
  assumes "refs_ok ofl rs" "f < NFILE" "count_list ofl (Some f) < rs ! f"
  shows "refs_ok ofl (rs[f := rs ! f - 1])"
  using assms by (auto simp: refs_ok_def nth_list_update)

lemma refs_ok_more:
  assumes "refs_ok ofl rs" "length rs' = NFILE" "\<forall>g < NFILE. rs ! g \<le> rs' ! g"
  shows "refs_ok ofl rs'"
  using assms by (auto simp: refs_ok_def intro: order_trans)

section \<open>What the operations do to the counts\<close>

definition refs :: "'a files_scheme \<Rightarrow> nat list" where
  "refs s = map f_ref (ftable s)"

definition fds_ok :: "usys \<Rightarrow> bool" where
  "fds_ok s \<longleftrightarrow> refs_ok (ofile s) (refs s)"

lemma more_files: "fsys.more s' = fsys.more s \<Longrightarrow> refs s' = refs s" for s :: "'a files_scheme"
  by (cases s, cases s') (simp add: refs_def)

lemma more_usys: "fsys.more s' = fsys.more s \<Longrightarrow> refs s' = refs s \<and> ofile s' = ofile s \<and> ftable s' = ftable s \<and> pipes s' = pipes s" for s :: usys
  by (cases s, cases s') (simp add: refs_def)

lemma refs_upd_file:
  "refs (upd_file f g s) = (if f < length (ftable s) then (refs s)[f := f_ref (g (ftable s ! f))] else refs s)"
  by (simp add: refs_def upd_file_def map_update list_update_beyond)

lemma refs_nth: "length (refs s) = length (ftable s)" "f < length (ftable s) \<Longrightarrow> refs s ! f = f_ref (ftable s ! f)"
  by (simp_all add: refs_def)

lemma files_more_upd_file [simp]: "files.more (upd_file f g s) = files.more s"
  by (simp add: upd_file_def)

lemma files_more: "fsys.more s' = fsys.more s \<Longrightarrow> files.more s' = files.more s" for s :: "'a files_scheme"
  by (cases s, cases s') simp

lemma filealloc_refs:
  assumes "filealloc s = (r, s')"
  shows "files.more s' = files.more s"
    "(case r of None \<Rightarrow> s' = s | Some f \<Rightarrow> f < length (refs s) \<and> refs s ! f = 0 \<and> refs s' = (refs s)[f := 1])"
proof -
  have "f < length (ftable s) \<and> f_ref (ftable s ! f) = 0" if "find_idx (\<lambda>f. f_ref f = 0) (ftable s) = Some f" for f
    using find_idx_SomeD(1,2) [OF that] by simp
  then show "files.more s' = files.more s"
    "(case r of None \<Rightarrow> s' = s | Some f \<Rightarrow> f < length (refs s) \<and> refs s ! f = 0 \<and> refs s' = (refs s)[f := 1])"
    using assms by (auto simp: filealloc_def refs_upd_file refs_nth split: option.splits)
qed

lemma filedup_refs:
  assumes "filedup f s = Ok s'"
  shows "files.more s' = files.more s" "f < length (refs s) \<Longrightarrow> refs s' = (refs s)[f := refs s ! f + 1]"
  using assms by (auto simp: filedup_def refs_upd_file refs_nth split: if_splits)

lemma close_pipe_refs:
  assumes "close_pipe a w s = Ok s'"
  shows "refs s' = refs s" "files.more s' = files.more s"
  using assms by (auto simp: close_pipe_def refs_def split: option.splits prod.splits)

lemma fileclose_refs:
  assumes "fileclose f s = Ok s'"
  shows "files.more s' = files.more s" "f < length (refs s) \<Longrightarrow> refs s' = (refs s)[f := refs s ! f - 1]"
proof -
  define s1 where "s1 = upd_file f (\<lambda>x. x\<lparr>f_ref := 0, f_type := FD_NONE\<rparr>) s"
  have "(f_ref (ftable s ! f) - 1 > 0 \<and> s' = upd_file f (\<lambda>x. x\<lparr>f_ref := f_ref x - 1\<rparr>) s) \<or>
      (f_ref (ftable s ! f) = 1 \<and> refs s' = refs s1 \<and> files.more s' = files.more s1)"
  proof (cases "f_ref (ftable s ! f) - 1 > 0")
    case True
    then show ?thesis using assms by (simp add: fileclose_def)
  next
    case False
    then have 1: "f_ref (ftable s ! f) = 1" using assms by (auto simp: fileclose_def Let_def split: if_splits)
    have r: "(case f_type (ftable s ! f) of
                   FD_PIPE \<Rightarrow> close_pipe (f_pipe (ftable s ! f)) (f_writable (ftable s ! f)) s1
                 | FD_INODE \<Rightarrow> bindR (fs_begin s1) (\<lambda>s2. bindR (iput (f_ip (ftable s ! f)) s2) fs_end)
                 | FD_NONE \<Rightarrow> Ok s1) = Ok s'"
      unfolding s1_def using assms 1 by (simp add: fileclose_def Let_def)
    show ?thesis
    proof (cases "f_type (ftable s ! f)")
      case FD_INODE
      then obtain s2 s3 where i: "fs_begin s1 = Ok s2" "iput (f_ip (ftable s ! f)) s2 = Ok s3" "fs_end s3 = Ok s'"
        using r by (auto simp: bindR_Ok_iff)
      have "fsys.more s' = fsys.more s1" using more_fs_begin [OF i(1)] more_iput [OF i(2)] more_fs_end [OF i(3)] by simp
      then show ?thesis using 1 more_files files_more by blast
    qed (use r 1 close_pipe_refs in auto)
  qed
  then show "files.more s' = files.more s" "f < length (refs s) \<Longrightarrow> refs s' = (refs s)[f := refs s ! f - 1]"
    by (auto simp: s1_def refs_upd_file refs_nth)
qed

lemma fileread_refs:
  assumes "fileread k f n s = Ok (r, bs, s')"
  shows "refs s' = refs s" "files.more s' = files.more s"
proof -
  have p: "read_pipe k a m s = Ok (r, bs, s') \<Longrightarrow> refs s' = refs s \<and> files.more s' = files.more s" for a m
    by (auto simp: read_pipe_def refs_def split: option.splits prod.splits rend.splits)
  have u: "refs (upd_file f (\<lambda>x. x\<lparr>f_off := g x\<rparr>) t) = refs t" for g and t :: "'a files_scheme"
    by (simp add: refs_upd_file refs_nth) (metis list_update_id refs_nth(2))
  have "refs s' = refs s \<and> files.more s' = files.more s"
  proof (cases "f_readable (ftable s ! f) \<and> f_type (ftable s ! f) = FD_INODE")
    case True
    then obtain s1 s2 where i: "ilock (f_ip (ftable s ! f)) s = Ok s1" "readi (f_ip (ftable s ! f)) (f_off (ftable s ! f)) n s1 = Ok (r, bs, s2)"
      "iunlock (f_ip (ftable s ! f)) (if r > 0 then upd_file f (\<lambda>x. x\<lparr>f_off := f_off x + of_int r\<rparr>) s2 else s2) = Ok s'"
      using assms by (auto simp: fileread_def Let_def bindR_Ok_iff)
    have "fsys.more s2 = fsys.more s" using more_ilock [OF i(1)] more_readi [OF i(2)] by simp
    then have "refs s2 = refs s" "files.more s2 = files.more s" by (rule more_files, rule files_more)
    moreover have "refs s' = refs s2" "files.more s' = files.more s2"
      using more_files [OF more_iunlock [OF i(3)]] files_more [OF more_iunlock [OF i(3)]] u by (simp_all split: if_splits)
    ultimately show ?thesis by simp
  next
    case False
    then show ?thesis using assms p by (auto simp: fileread_def Let_def split: if_splits ftype.splits)
  qed
  then show "refs s' = refs s" "files.more s' = files.more s" by simp_all
qed

lemma write_chunk_refs:
  assumes "write_chunk f bs s = Ok (r, s')"
  shows "refs s' = refs s" "files.more s' = files.more s"
proof -
  have u: "refs (upd_file f (\<lambda>x. x\<lparr>f_off := g x\<rparr>) t) = refs t" for g and t :: "'a files_scheme"
    by (simp add: refs_upd_file refs_nth) (metis list_update_id refs_nth(2))
  let ?ip = "f_ip (ftable s ! f)"
  obtain s1 s2 s3 s4 where i: "fs_begin s = Ok s1" "ilock ?ip s1 = Ok s2"
      "writei ?ip bs (f_off (ftable s2 ! f)) (of_nat (length bs)) s2 = Ok (r, s3)"
      "iunlock ?ip (if r > 0 then upd_file f (\<lambda>x. x\<lparr>f_off := f_off x + of_int r\<rparr>) s3 else s3) = Ok s4" "fs_end s4 = Ok s'"
    using assms by (auto simp: write_chunk_def Let_def bindR_Ok_iff)
  have "fsys.more s3 = fsys.more s" using more_fs_begin [OF i(1)] more_ilock [OF i(2)] more_writei [OF i(3)] by simp
  then have "refs s3 = refs s" "files.more s3 = files.more s" by (rule more_files, rule files_more)
  moreover have "refs s4 = refs s3" "files.more s4 = files.more s3"
    using more_files [OF more_iunlock [OF i(4)]] files_more [OF more_iunlock [OF i(4)]] u by (simp_all split: if_splits)
  moreover have "refs s' = refs s4" "files.more s' = files.more s4"
    using more_files [OF more_fs_end [OF i(5)]] files_more [OF more_fs_end [OF i(5)]] by simp_all
  ultimately show "refs s' = refs s" "files.more s' = files.more s" by simp_all
qed

lemma filewrite_loop_refs:
  "filewrite_loop f src s = Ok (b, s') \<Longrightarrow> refs s' = refs s \<and> files.more s' = files.more s"
proof (induction f src s rule: filewrite_loop.induct)
  case (1 f src s)
  show ?case
  proof (cases "src = []")
    case True
    then show ?thesis using 1(2) by (simp add: filewrite_loop.simps)
  next
    case False
    then obtain r s1 where c: "write_chunk f (take write_max src) s = Ok (r, s1)"
      and l: "(if r < 0 then Ok (False, s1) else if r \<noteq> int (min write_max (length src)) then Panic ''short filewrite''
           else filewrite_loop f (drop write_max src) s1) = Ok (b, s')"
      using 1(2) by (subst (asm) filewrite_loop.simps) (auto simp: bindR_Ok_iff)
    note h = write_chunk_refs [OF c]
    show ?thesis
    proof (cases "r < 0")
      case True
      then show ?thesis using l h by simp
    next
      case F2: False
      then show ?thesis using l h 1(1) [OF False c refl F2] by (auto split: if_splits)
    qed
  qed
qed

lemma filewrite_refs:
  assumes "filewrite k f src s = Ok (r, s')"
  shows "refs s' = refs s" "files.more s' = files.more s"
proof -
  have p: "write_pipe k a src s = Ok (r, s') \<Longrightarrow> refs s' = refs s \<and> files.more s' = files.more s" for a
    by (auto simp: write_pipe_def refs_def split: option.splits prod.splits wend.splits)
  have "refs s' = refs s \<and> files.more s' = files.more s"
    using assms p filewrite_loop_refs [of f src s] by (auto simp: filewrite_def Let_def bindR_Ok_iff split: if_splits ftype.splits)
  then show "refs s' = refs s" "files.more s' = files.more s" by simp_all
qed

lemma filestat_refs:
  assumes "filestat f s = Ok (r, s')"
  shows "refs s' = refs s" "files.more s' = files.more s"
proof -
  have "fsys.more s' = fsys.more s"
    using assms by (auto simp: filestat_def Let_def bindR_Ok_iff split: if_splits dest!: more_frame)
  then show "refs s' = refs s" "files.more s' = files.more s" by (rule more_files, rule files_more)
qed

section \<open>The invariant of the system calls\<close>

lemma files_more_usys: "files.more s' = files.more s \<Longrightarrow> ofile s' = ofile s" for s :: usys
  by (cases s, cases s') simp

lemma fds_ok_cong: "refs s' = refs s \<Longrightarrow> files.more s' = files.more s \<Longrightarrow> fds_ok s' = fds_ok s"
  using files_more_usys [of s' s] by (simp add: fds_ok_def)

lemma fds_ok_frame: "fsys.more s' = fsys.more s \<Longrightarrow> fds_ok s \<Longrightarrow> fds_ok s'" for s :: usys
  using more_usys [of s' s] by (simp add: fds_ok_def)

lemma fds_ok_store [simp]: "fds_ok (user_store a bs s) = fds_ok s" "fds_ok (s\<lparr>cwd := c\<rparr>) = fds_ok s" "fds_ok (user_stat p st s) = fds_ok s"
  by (simp_all add: fds_ok_def user_store_def refs_def user_stat_def)

lemma set_ofile_simps [simp]: "refs (set_ofile fd x s) = refs s" "ofile (set_ofile fd x s) = (ofile s)[fd := x]"
  by (simp_all add: set_ofile_def refs_def)

lemma sint_nonneg:
  fixes w :: u32
  assumes "\<not> sint w < 0"
  shows "sint w = int (unat w)"
proof -
  have nb: "\<not> bit w 31" using assms bit_last_iff [of w] by simp
  have "take_bit 31 w = w"
  proof (rule bit_word_eqI)
    fix n assume "n < LENGTH(32)"
    then show "bit (take_bit 31 w) n = bit w n" using nb by (cases "n = 31") (auto simp: bit_take_bit_iff)
  qed
  then have "uint w = take_bit 31 (uint w)" by (metis unsigned_take_bit_eq)
  then have u31: "uint w < 2 ^ 31" using take_bit_int_less_exp [of 31 "uint w"] by simp
  have "signed_take_bit 31 (uint w) = uint w"
    by (rule signed_take_bit_int_eq_self [OF _ u31]) (rule order_trans [OF _ uint_ge_0], simp)
  then show ?thesis by (simp add: sint_uint)
qed

lemma argfd_Some:
  assumes "argfd n s = Some (fd, f)"
  shows "fd < NFD" "ofile s ! fd = Some f"
proof -
  obtain w where a: "argint n s = Some w" using assms by (auto simp: argfd_def split: option.splits)
  then have w: "\<not> sint w < 0" "\<not> sint w \<ge> int NFD" "fd = unat w" "ofile s ! fd = Some f"
    using assms by (auto simp: argfd_def split: if_splits)
  have "sint w = int (unat w)" using w(1) by (rule sint_nonneg)
  then have "int (unat w) < int NFD" using w(2) by (simp only: not_le)
  then have "unat w < NFD" by (simp only: of_nat_less_iff)
  then show "fd < NFD" "ofile s ! fd = Some f" using w(3,4) by simp_all
qed

lemma fdalloc_Some:
  assumes "fdalloc f s = (Some fd, s')"
  shows "fd < length (ofile s)" "ofile s ! fd = None" "s' = set_ofile fd (Some f) s"
  using assms by (auto simp: fdalloc_def split: option.splits dest: find_idx_SomeD(1,2))

lemma fdalloc_None: "fdalloc f s = (None, s') \<Longrightarrow> s' = s"
  by (auto simp: fdalloc_def split: option.splits)

lemma sys_dup_fds:
  assumes ok: "fds_ok s" and r: "sys_dup s = Ok (r, s')"
  shows "fds_ok s'"
proof -
  consider "s' = s" | fd0 f fd s1 where "argfd 0 s = Some (fd0, f)" "fdalloc f s = (Some fd, s1)" "filedup f s1 = Ok s'"
    using r by (auto simp: sys_dup_def bindR_Ok_iff split: option.splits prod.splits dest: fdalloc_None)
  then show ?thesis
  proof cases
    case 2
    note a = argfd_Some [OF 2(1)] and d = fdalloc_Some [OF 2(2)] and e = filedup_refs [OF 2(3)]
    have f: "f < NFILE" using refs_ok_close(3) [OF ok [unfolded fds_ok_def] a] .
    have l: "length (refs s) = NFILE" "length (ofile s) = NFD" using ok by (simp_all add: fds_ok_def refs_ok_def)
    have re: "refs s' = (refs s)[f := refs s ! f + 1]" using e(2) f l d(3) by simp
    have "refs_ok ((ofile s)[fd := Some f]) (refs s')"
      by (rule refs_ok_open [OF ok [unfolded fds_ok_def]])
        (use d l f ok in \<open>auto simp: re fds_ok_def refs_ok_def nth_list_update le_imp_less_Suc\<close>)
    then show ?thesis using files_more_usys [OF e(1)] d(3) by (simp add: fds_ok_def)
  qed (use ok in simp)
qed

lemma sys_close_fds:
  assumes ok: "fds_ok s" and r: "sys_close s = Ok (r, s')"
  shows "fds_ok s'"
proof -
  consider "s' = s" | fd f where "argfd 0 s = Some (fd, f)" "fileclose f (set_ofile fd None s) = Ok s'"
    using r by (auto simp: sys_close_def bindR_Ok_iff split: option.splits)
  then show ?thesis
  proof cases
    case 2
    note a = argfd_Some [OF 2(1)] and e = fileclose_refs [OF 2(2)]
    note c = refs_ok_close [OF ok [unfolded fds_ok_def] a]
    have "length (refs s) = NFILE" using ok by (simp add: fds_ok_def refs_ok_def)
    then have "refs s' = (refs s)[f := refs s ! f - 1]" using e(2) c(3) by simp
    then show ?thesis using c(1) files_more_usys [OF e(1)] by (simp add: fds_ok_def)
  qed (use ok in simp)
qed

lemma sys_rw_fds:
  assumes ok: "fds_ok s"
  shows "sys_read s = Ok (r, s') \<Longrightarrow> fds_ok s'" "sys_write s = Ok (r, s') \<Longrightarrow> fds_ok s'" "sys_fstat s = Ok (r, s') \<Longrightarrow> fds_ok s'"
proof -
  { assume r: "sys_read s = Ok (r, s')"
    show "fds_ok s'"
    proof (cases "rw_args s")
      case None
      then show ?thesis using ok r by (simp add: sys_read_def)
    next
      case (Some x)
      then obtain f p n bs s1 where "fileread (ukilled s) f n s = Ok (r, bs, s1)" "s' = user_store p bs s1"
        using r by (cases x) (auto simp: sys_read_def bindR_Ok_iff)
      then show ?thesis using ok fds_ok_cong [OF fileread_refs] by simp
    qed }
  { assume "sys_write s = Ok (r, s')"
    then have "s' = s \<or> (\<exists>k f src. filewrite k f src s = Ok (r, s'))"
      by (auto simp: sys_write_def split: option.splits)
    then show "fds_ok s'" using ok fds_ok_cong [OF filewrite_refs] by auto }
  { assume r: "sys_fstat s = Ok (r, s')"
    show "fds_ok s'"
    proof (cases "\<exists>fd f p. argfd 0 s = Some (fd, f) \<and> argptr 1 20 s = Some p")
      case False
      then show ?thesis using ok r by (auto simp: sys_fstat_def split: option.splits)
    next
      case True
      then obtain fd f p where a: "argfd 0 s = Some (fd, f)" "argptr 1 20 s = Some p" by blast
      obtain st s1 where st: "filestat f s = Ok (st, s1)" using a r by (auto simp: sys_fstat_def bindR_Ok_iff)
      have "s' = s1 \<or> (\<exists>x. s' = user_stat p x s1)" using a r st by (auto simp: sys_fstat_def split: option.splits)
      then show ?thesis using ok fds_ok_cong [OF filestat_refs [OF st]] by auto
    qed }
qed

lemma sys_path_more:
  "sys_link s = Ok (r, s') \<Longrightarrow> fsys.more s' = fsys.more s" "sys_unlink s = Ok (r, s') \<Longrightarrow> fsys.more s' = fsys.more s"
  by (auto simp: sys_link_def sys_unlink_def split: option.splits dest!: more_frame)

lemma create_and_put_more: "create_and_put s p ty ma mi = Ok (r, s') \<Longrightarrow> fsys.more s' = fsys.more s"
  by (auto simp: create_and_put_def bindR_Ok_iff split: option.splits dest!: more_frame)

lemma sys_make_more:
  "sys_mkdir s = Ok (r, s') \<Longrightarrow> fsys.more s' = fsys.more s" "sys_mknod s = Ok (r, s') \<Longrightarrow> fsys.more s' = fsys.more s"
proof -
  show "sys_mkdir s = Ok (r, s') \<Longrightarrow> fsys.more s' = fsys.more s"
    by (auto simp: sys_mkdir_def bindR_Ok_iff split: option.splits dest!: more_frame create_and_put_more)
  assume r: "sys_mknod s = Ok (r, s')"
  then obtain s1 where b: "fs_begin s = Ok s1" by (auto simp: sys_mknod_def bindR_Ok_iff)
  show "fsys.more s' = fsys.more s"
    using r b more_fs_begin [OF b]
    by (cases "argstr 0 s1"; cases "argint 1 s1"; cases "argint 2 s1")
      (auto simp: sys_mknod_def bindR_Ok_iff dest!: more_frame create_and_put_more)
qed

lemma sys_chdir_fds:
  assumes ok: "fds_ok s" and r: "sys_chdir s = Ok (r, s')"
  shows "fds_ok s'"
proof -
  obtain s1 where b: "fs_begin s = Ok s1" using r by (auto simp: sys_chdir_def bindR_Ok_iff)
  note m1 = more_fs_begin [OF b]
  show ?thesis
  proof (cases "argstr 0 s1")
    case None
    then show ?thesis using r b m1 ok by (auto simp: sys_chdir_def bindR_Ok_iff dest!: more_frame intro: fds_ok_frame)
  next
    case (Some path)
    obtain o1 s2 where n: "namei (cwd s1) path s1 = Ok (o1, s2)" using r b Some by (auto simp: sys_chdir_def bindR_Ok_iff)
    have m2: "fsys.more s2 = fsys.more s" using m1 more_namei(1) [OF n] by simp
    show ?thesis
    proof (cases o1)
      case None
      then show ?thesis using r b Some n m2 ok by (auto simp: sys_chdir_def bindR_Ok_iff dest!: more_frame intro: fds_ok_frame)
    next
      case ip: (Some ip)
      obtain s3 where l: "ilock ip s2 = Ok s3" using r b Some n ip by (auto simp: sys_chdir_def bindR_Ok_iff)
      have m3: "fsys.more s3 = fsys.more s" using m2 more_ilock [OF l] by simp
      show ?thesis
      proof (cases "di_type (i_d (ino s3 ip)) = T_DIR")
        case True
        then obtain s4 s5 s6 where i: "iunlock ip s3 = Ok s4" "iput (cwd s4) s4 = Ok s5" "fs_end s5 = Ok s6" "s' = s6\<lparr>cwd := ip\<rparr>"
          using r b Some n ip l by (auto simp: sys_chdir_def bindR_Ok_iff)
        have "fsys.more s6 = fsys.more s" using m3 more_iunlock [OF i(1)] more_iput [OF i(2)] more_fs_end [OF i(3)] by simp
        then show ?thesis using fds_ok_frame ok i(4) by auto
      next
        case False
        then show ?thesis using r b Some n ip l m3 ok by (auto simp: sys_chdir_def bindR_Ok_iff dest!: more_frame intro: fds_ok_frame)
      qed
    qed
  qed
qed

text \<open>\<^verbatim>\<open>sys_open\<close> and \<^verbatim>\<open>sys_pipe\<close> take files from the table, of which no descriptor exists yet.\<close>

lemma fileclose_fds:
  assumes ok: "fds_ok s" and r: "fileclose f s = Ok s'" and f: "f < NFILE" "count_list (ofile s) (Some f) < refs s ! f"
  shows "fds_ok s'" "refs s' = (refs s)[f := refs s ! f - 1]" "ofile s' = ofile s"
proof -
  have "length (refs s) = NFILE" using ok by (simp add: fds_ok_def refs_ok_def)
  then show e: "refs s' = (refs s)[f := refs s ! f - 1]" using fileclose_refs(2) [OF r] f by simp
  show o: "ofile s' = ofile s" by (rule files_more_usys [OF fileclose_refs(1) [OF r]])
  show "fds_ok s'" using refs_ok_drop [OF ok [unfolded fds_ok_def] f] e o by (simp add: fds_ok_def)
qed

lemma filealloc_fds:
  assumes ok: "fds_ok s" and r: "filealloc s = (Some f, s')"
  shows "fds_ok s'" "f < NFILE" "count_list (ofile s) (Some f) = 0" "refs s ! f = 0" "refs s' = (refs s)[f := 1]" "ofile s' = ofile s"
proof -
  have e: "f < length (refs s)" "refs s ! f = 0" "refs s' = (refs s)[f := 1]" using filealloc_refs(2) [OF r] by simp_all
  have l: "length (refs s) = NFILE" using ok by (simp add: fds_ok_def refs_ok_def)
  show "f < NFILE" "refs s ! f = 0" "refs s' = (refs s)[f := 1]" using e l by simp_all
  show o: "ofile s' = ofile s" by (rule files_more_usys [OF filealloc_refs(1) [OF r]])
  show "count_list (ofile s) (Some f) = 0" using ok e l by (auto simp: fds_ok_def refs_ok_def dest: spec [of _ f])
  have "refs_ok (ofile s) (refs s')"
    by (rule refs_ok_more [OF ok [unfolded fds_ok_def]]) (use e l in \<open>auto simp: nth_list_update\<close>)
  then show "fds_ok s'" by (simp add: fds_ok_def o)
qed

lemma open_fail_more: "open_fail ip s = Ok (r, s') \<Longrightarrow> fsys.more s' = fsys.more s"
  by (auto simp: open_fail_def bindR_Ok_iff dest!: more_frame)

lemma refs_upd_same:
  assumes "\<And>x. f_ref (g x) = f_ref x"
  shows "refs (upd_file f g s) = refs s"
  using list_update_id [of "refs s" f] by (cases "f < length (ftable s)") (auto simp: refs_upd_file assms simp flip: refs_nth(2))

lemma fds_ok_fdalloc:
  assumes ok: "fds_ok s" and r: "fdalloc f s = (Some fd, s')" and f: "f < NFILE" "count_list (ofile s) (Some f) < refs s ! f"
  shows "fds_ok s'"
proof -
  note d = fdalloc_Some [OF r]
  have l: "length (refs s) = NFILE" "length (ofile s) = NFD" using ok by (simp_all add: fds_ok_def refs_ok_def)
  have "refs_ok ((ofile s)[fd := Some f]) (refs s)"
    by (rule refs_ok_open [OF ok [unfolded fds_ok_def]]) (use d l f in simp_all)
  then show ?thesis by (simp add: d(3) fds_ok_def)
qed

lemma sys_open_fds:
  assumes ok: "fds_ok s" and r: "sys_open s = Ok (r, s')"
  shows "fds_ok s'"
proof (cases "\<exists>path om. argstr 0 s = Some path \<and> argint 1 s = Some om")
  case False
  then show ?thesis using ok r by (auto simp: sys_open_def split: option.splits)
next
  case True
  then obtain path om where a: "argstr 0 s = Some path" "argint 1 s = Some om" by blast
  then obtain o1 s1 where o: "open_inode (cwd s) path om s = Ok (o1, s1)" using r by (auto simp: sys_open_def bindR_Ok_iff)
  have ok1: "fds_ok s1" using more_open_inode [OF o] ok by (rule fds_ok_frame)
  show ?thesis
  proof (cases o1)
    case None
    then show ?thesis using r a o ok1 by (simp add: sys_open_def)
  next
    case (Some ip)
    obtain o2 s2 where fa: "filealloc s1 = (o2, s2)" by (cases "filealloc s1") auto
    show ?thesis
    proof (cases o2)
      case None
      then have "s2 = s1" "open_fail ip s2 = Ok (r, s')"
        using filealloc_refs(2) [OF fa] r a o Some fa by (simp_all add: sys_open_def)
      then show ?thesis using open_fail_more ok1 fds_ok_frame by blast
    next
      case (Some f)
      note g = filealloc_fds [OF ok1 fa [unfolded Some]]
      have l1: "length (refs s1) = NFILE" using ok1 by (simp add: fds_ok_def refs_ok_def)
      have c: "count_list (ofile s2) (Some f) < refs s2 ! f" using g l1 by simp
      obtain o3 s3 where fd: "fdalloc f s2 = (o3, s3)" by (cases "fdalloc f s2") auto
      show ?thesis
      proof (cases o3)
        case None
        then obtain s4 where s4: "fileclose f s3 = Ok s4" "open_fail ip s4 = Ok (r, s')"
          using r a o \<open>o1 = Some ip\<close> fa Some fd by (auto simp: sys_open_def bindR_Ok_iff)
        have "s3 = s2" using fdalloc_None fd None by blast
        then have "fds_ok s4" using fileclose_fds(1) [OF g(1) _ g(2) c] s4(1) by simp
        then show ?thesis using open_fail_more [OF s4(2)] fds_ok_frame by blast
      next
        case (Some d)
        then obtain s4 s5 where s5: "iunlock ip s3 = Ok s4" "fs_end s4 = Ok s5" "s' = upd_file f (open_file om ip) s5"
          using r a o \<open>o1 = Some ip\<close> fa \<open>o2 = Some f\<close> fd by (auto simp: sys_open_def bindR_Ok_iff)
        have "fds_ok s3" using fds_ok_fdalloc [OF g(1) fd [unfolded Some] g(2) c] .
        moreover have "fsys.more s5 = fsys.more s3" using more_iunlock [OF s5(1)] more_fs_end [OF s5(2)] by simp
        ultimately have ok5: "fds_ok s5" using fds_ok_frame by blast
        have "refs s' = refs s5" unfolding s5(3) by (rule refs_upd_same) (simp add: open_file_def)
        then show ?thesis using ok5 files_more_usys [of s' s5] s5(3) by (simp add: fds_ok_def)
      qed
    qed
  qed
qed

lemma pipealloc_fds:
  assumes ok: "fds_ok s" and r: "pipealloc junk s = Ok (o1, s')"
  shows "case o1 of None \<Rightarrow> fds_ok s'
    | Some (f0, f1) \<Rightarrow> fds_ok s' \<and> f0 < NFILE \<and> f1 < NFILE \<and> f0 \<noteq> f1 \<and> ofile s' = ofile s \<and>
        count_list (ofile s) (Some f0) = 0 \<and> count_list (ofile s) (Some f1) = 0 \<and> refs s' ! f0 = 1 \<and> refs s' ! f1 = 1"
proof -
  obtain a s1 where a: "filealloc s = (a, s1)" by (cases "filealloc s") auto
  show ?thesis
  proof (cases a)
    case None
    then show ?thesis using a r filealloc_refs(2) [OF a] ok by (auto simp: pipealloc_def)
  next
    case (Some f0)
    note g = filealloc_fds [OF ok a [unfolded Some]]
    have l: "length (refs s) = NFILE" using ok by (simp add: fds_ok_def refs_ok_def)
    obtain b s2 where b: "filealloc s1 = (b, s2)" by (cases "filealloc s1") auto
    have c0: "count_list (ofile s1) (Some f0) < refs s1 ! f0" using g l by simp
    show ?thesis
    proof (cases b)
      case None
      then have "s2 = s1" using filealloc_refs(2) [OF b] by simp
      then obtain s3 where "fileclose f0 s1 = Ok s3" "o1 = None" "s' = s3"
        using r a b Some None by (auto simp: pipealloc_def bindR_Ok_iff)
      then show ?thesis using fileclose_fds(1) [OF g(1) _ g(2) c0] by simp
    next
      case B: (Some f1)
      note h = filealloc_fds [OF g(1) b [unfolded B]]
      have ne: "f0 \<noteq> f1" using h(4) g(5) g(2) l by auto
      have r2: "refs s2 ! f0 = 1" "refs s2 ! f1 = 1" "ofile s2 = ofile s" using g h ne l by simp_all
      have c1: "count_list (ofile s2) (Some f0) < refs s2 ! f0" "count_list (ofile s) (Some f1) = 0" using r2 g h by simp_all
      show ?thesis
      proof (cases "freepages s2")
        case Nil
        then obtain s3 s4 where c: "fileclose f0 s2 = Ok s3" "fileclose f1 s3 = Ok s4" "o1 = None" "s' = s4"
          using r a b Some B by (auto simp: pipealloc_def bindR_Ok_iff)
        note k = fileclose_fds [OF h(1) c(1) g(2) c1(1)]
        have "count_list (ofile s3) (Some f1) < refs s3 ! f1" using k(2,3) ne r2 c1 by simp
        then show ?thesis using fileclose_fds(1) [OF k(1) c(2) h(2)] c(3,4) by simp
      next
        case (Cons p ps)
        define s3 where "s3 = s2\<lparr>freepages := ps, pipes := (pipes s2)(p \<mapsto> new_pipe junk)\<rparr>"
        define s4 where "s4 = upd_file f0 (\<lambda>f. f\<lparr>f_type := FD_PIPE, f_readable := True, f_writable := False, f_pipe := p\<rparr>) s3"
        have s': "o1 = Some (f0, f1)" "s' = upd_file f1 (\<lambda>f. f\<lparr>f_type := FD_PIPE, f_readable := False, f_writable := True, f_pipe := p\<rparr>) s4"
          using r a b Some B Cons by (simp_all add: pipealloc_def s3_def s4_def)
        have "refs s' = refs s4" unfolding s'(2) by (rule refs_upd_same) simp
        also have "\<dots> = refs s3" unfolding s4_def by (rule refs_upd_same) simp
        finally have "refs s' = refs s2" by (simp add: s3_def refs_def)
        moreover have "ofile s' = ofile s2" by (simp add: s'(2) s4_def s3_def upd_file_def)
        ultimately show ?thesis using h g ne r2 c1 s'(1) by (simp add: fds_ok_def)
      qed
    qed
  qed
qed

lemma pipe_fail_fds:
  assumes ok: "fds_ok s" and r: "pipe_fail f0 f1 s = Ok (x, s')" and f: "f0 < NFILE" "f1 < NFILE" "f0 \<noteq> f1"
    "count_list (ofile s) (Some f0) < refs s ! f0" "count_list (ofile s) (Some f1) < refs s ! f1"
  shows "fds_ok s'"
proof -
  obtain s3 where c: "fileclose f0 s = Ok s3" "fileclose f1 s3 = Ok s'" using r by (auto simp: pipe_fail_def bindR_Ok_iff)
  note k = fileclose_fds [OF ok c(1) f(1,4)]
  have "count_list (ofile s3) (Some f1) < refs s3 ! f1" using k(2,3) f by simp
  then show ?thesis by (rule fileclose_fds(1) [OF k(1) c(2) f(2)])
qed

lemma sys_pipe_fds:
  assumes ok: "fds_ok s" and r: "sys_pipe junk s = Ok (r, s')"
  shows "fds_ok s'"
proof (cases "argptr 0 8 s")
  case None
  then show ?thesis using ok r by (simp add: sys_pipe_def)
next
  case (Some p)
  then obtain o1 s1 where p: "pipealloc junk s = Ok (o1, s1)" using r by (auto simp: sys_pipe_def bindR_Ok_iff)
  note P = pipealloc_fds [OF ok p]
  show ?thesis
  proof (cases o1)
    case None
    then show ?thesis using P r p Some by (simp add: sys_pipe_def)
  next
    case F: (Some fs)
    obtain f0 f1 where fs: "fs = (f0, f1)" by (cases fs) auto
    have Q: "fds_ok s1" "f0 < NFILE" "f1 < NFILE" "f0 \<noteq> f1" "count_list (ofile s1) (Some f0) = 0" "count_list (ofile s1) (Some f1) = 0"
      "refs s1 ! f0 = 1" "refs s1 ! f1 = 1" using P F fs by simp_all
    obtain o2 s2 where d: "fdalloc f0 s1 = (o2, s2)" by (cases "fdalloc f0 s1") auto
    show ?thesis
    proof (cases o2)
      case None
      then have "s2 = s1" "pipe_fail f0 f1 s2 = Ok (r, s')" using fdalloc_None d r p Some F fs by (auto simp: sys_pipe_def)
      then show ?thesis using pipe_fail_fds [OF Q(1) _ Q(2-4)] Q(5-8) by simp
    next
      case D: (Some d0)
      note e = fdalloc_Some [OF d [unfolded D]]
      have ok2: "fds_ok s2" by (rule fds_ok_fdalloc [OF Q(1) d [unfolded D] Q(2)]) (simp add: Q)
      have c2: "count_list (ofile s2) (Some f1) < refs s2 ! f1"
        using count_list_update [OF e(1), of "Some f0" "Some f1"] e Q by (simp split: if_splits)
      obtain o3 s3 where g: "fdalloc f1 s2 = (o3, s3)" by (cases "fdalloc f1 s2") auto
      show ?thesis
      proof (cases o3)
        case None
        then have x: "s3 = s2" "pipe_fail f0 f1 (set_ofile d0 None s3) = Ok (r, s')"
          using fdalloc_None g d D r p Some F fs by (auto simp: sys_pipe_def)
        have "(ofile s1)[d0 := None] = ofile s1" using e(2) by (metis list_update_id)
        then have y: "ofile (set_ofile d0 None s2) = ofile s1" "refs (set_ofile d0 None s2) = refs s1" by (simp_all add: e(3))
        then have "fds_ok (set_ofile d0 None s2)" using Q(1) by (simp add: fds_ok_def)
        then show ?thesis using pipe_fail_fds [OF _ x(2) Q(2-4)] Q(5-8) y x(1) by simp
      next
        case G: (Some d1)
        have "fds_ok s3" by (rule fds_ok_fdalloc [OF ok2 g [unfolded G] Q(3) c2])
        then show ?thesis using g G d D r p Some F fs by (auto simp: sys_pipe_def)
      qed
    qed
  qed
qed

text \<open>The calls a process makes; between them its program changes its memory and its stack pointer.\<close>

inductive file_call :: "usys \<Rightarrow> usys \<Rightarrow> bool" where
  user: "file_call s (s\<lparr>umem := m, uesp := e, usz := z\<rparr>)"
| dup: "sys_dup s = Ok (r, s') \<Longrightarrow> file_call s s'"
| read: "sys_read s = Ok (r, s') \<Longrightarrow> file_call s s'"
| "write": "sys_write s = Ok (r, s') \<Longrightarrow> file_call s s'"
| close: "sys_close s = Ok (r, s') \<Longrightarrow> file_call s s'"
| fstat: "sys_fstat s = Ok (r, s') \<Longrightarrow> file_call s s'"
| link: "sys_link s = Ok (r, s') \<Longrightarrow> file_call s s'"
| unlink: "sys_unlink s = Ok (r, s') \<Longrightarrow> file_call s s'"
| "open": "sys_open s = Ok (r, s') \<Longrightarrow> file_call s s'"
| mkdir: "sys_mkdir s = Ok (r, s') \<Longrightarrow> file_call s s'"
| mknod: "sys_mknod s = Ok (r, s') \<Longrightarrow> file_call s s'"
| chdir: "sys_chdir s = Ok (r, s') \<Longrightarrow> file_call s s'"
| pipe: "sys_pipe junk s = Ok (r, s') \<Longrightarrow> file_call s s'"

lemma file_call_fds: "file_call s s' \<Longrightarrow> fds_ok s \<Longrightarrow> fds_ok s'"
proof (induction rule: file_call.induct)
  case (user s m e z)
  then show ?case by (simp add: fds_ok_def refs_def)
qed (blast intro: sys_dup_fds sys_rw_fds sys_close_fds sys_open_fds sys_chdir_fds sys_pipe_fds
  fds_ok_frame [OF sys_path_more(1)] fds_ok_frame [OF sys_path_more(2)] fds_ok_frame [OF sys_make_more(1)] fds_ok_frame [OF sys_make_more(2)])+

lemma file_calls_fds: "file_call\<^sup>*\<^sup>* s s' \<Longrightarrow> fds_ok s \<Longrightarrow> fds_ok s'"
  by (induction rule: rtranclp_induct) (auto intro: file_call_fds)

section \<open>Pipes behind descriptors\<close>

lemma pipealloc_Some:
  assumes "pipealloc junk s = Ok (Some (f0, f1), s')"
  shows "\<exists>p. f_type (ftable s' ! f0) = FD_PIPE \<and> f_readable (ftable s' ! f0) \<and> f_pipe (ftable s' ! f0) = p \<and>
    f_type (ftable s' ! f1) = FD_PIPE \<and> f_writable (ftable s' ! f1) \<and> f_pipe (ftable s' ! f1) = p \<and>
    \<not> f_writable (ftable s' ! f0) \<and> \<not> f_readable (ftable s' ! f1) \<and> pipes s' p = Some (new_pipe junk) \<and>
    freepages s = p # freepages s'"
proof -
  obtain s1 s2 p ps where a: "filealloc s = (Some f0, s1)" "filealloc s1 = (Some f1, s2)" "freepages s2 = p # ps"
    and s': "s' = upd_file f1 (\<lambda>f. f\<lparr>f_type := FD_PIPE, f_readable := False, f_writable := True, f_pipe := p\<rparr>)
                          (upd_file f0 (\<lambda>f. f\<lparr>f_type := FD_PIPE, f_readable := True, f_writable := False, f_pipe := p\<rparr>)
                            (s2\<lparr>freepages := ps, pipes := (pipes s2)(p \<mapsto> new_pipe junk)\<rparr>))"
    using assms by (auto simp: pipealloc_def bindR_Ok_iff split: option.splits prod.splits list.splits)
  have l: "f0 < length (ftable s)" "length (ftable s1) = length (ftable s)" "length (ftable s2) = length (ftable s)"
      "f1 < length (ftable s)" "freepages s2 = freepages s"
    using a(1,2) by (auto simp: filealloc_def upd_file_def split: option.splits dest: find_idx_SomeD(1))
  have ne: "f0 \<noteq> f1"
    using filealloc_refs(2) [OF a(1)] filealloc_refs(2) [OF a(2)] by auto
  show ?thesis using l ne a(3) by (simp add: s' upd_file_def)
qed

end
