(* ===== verification/FileContent.thy ===== *)
theory FileContent
  imports FdTable FsProps
begin

text \<open>
  \<^verbatim>\<open>filewrite\<close> and \<^verbatim>\<open>fileread\<close> on a file of the disk, for a process that has the log to itself:
  a write of any length is cut into transactions that each fit in the log, and has the effect of
  one write at the file's offset.
\<close>

definition idle_log :: "'a fsys_scheme \<Rightarrow> bool" where
  "idle_log fs \<longleftrightarrow> lhb (flog fs) = [] \<and> outstanding (flog fs) = 0 \<and> \<not> committing (flog fs) \<and> lsize (flog fs) = LOGSIZE"

definition open_on :: "nat \<Rightarrow> 'a files_scheme \<Rightarrow> bool" where
  "open_on f s \<longleftrightarrow> f < length (ftable s) \<and> f_type (ftable s ! f) = FD_INODE \<and>
     (let p = ino s (f_ip (ftable s ! f)) in i_valid p \<and> \<not> i_locked p \<and> i_ref p \<ge> 1 \<and> i_num p < sb_ninodes (fsb s)) \<and>
     file_ok (f_ip (ftable s ! f)) s"

abbreviation file_bytes :: "nat \<Rightarrow> 'a files_scheme \<Rightarrow> u8 list" where
  "file_bytes f s \<equiv> fbytes (f_ip (ftable s ! f)) s"

lemma same_file:
  assumes "fblk fs' = fblk fs" "fsb fs' = fsb fs" "length (icache fs') = length (icache fs)" "i_d (ino fs' i) = i_d (ino fs i)"
  shows "file_ok i fs' = file_ok i fs" "fbytes i fs' = fbytes i fs" "nfree fs' = nfree fs"
proof -
  have m: "maddr fs' = maddr fs" "iblocks fs' = iblocks fs" "icontent fs' = icontent fs" "bused fs' = bused fs"
    using assms(1,2) by (simp_all add: fun_eq_iff maddr_def iblocks_def icontent_def bused_def)
  then show "file_ok i fs' = file_ok i fs"
    using assms by (simp add: file_ok_def finode_ok_def blocks_ok_def)
  show "fbytes i fs' = fbytes i fs" using m assms by (simp add: fbytes_def fsize_def)
  show "nfree fs' = nfree fs" using m assms by (simp add: nfree_def)
qed

lemma turns_chunk: "n \<le> write_max \<Longrightarrow> turns off n \<le> 4"
proof -
  assume n: "n \<le> write_max"
  have "off mod BSIZE < BSIZE" by simp
  then have "off mod BSIZE + n + (BSIZE - 1) < 5 * BSIZE" using n by linarith
  then have "(off mod BSIZE + n + (BSIZE - 1)) div BSIZE < 5" by (rule less_mult_imp_div_less)
  then show ?thesis by (simp add: turns_def)
qed

lemma write_chunk_ok:
  assumes o: "open_on f s" and l: "idle_log s" and n: "0 < length bs" "length bs \<le> write_max"
    and fit: "unat (f_off (ftable s ! f)) \<le> length (file_bytes f s)" "unat (f_off (ftable s ! f)) + length bs \<le> MAXFILE * BSIZE"
    and fr: "8 \<le> nfree s"
  shows "\<exists>s'. write_chunk f bs s = Ok (int (length bs), s') \<and> open_on f s' \<and> idle_log s' \<and> nfree s \<le> nfree s' + 8 \<and>
    ftable s' ! f = (ftable s ! f)\<lparr>f_off := f_off (ftable s ! f) + of_nat (length bs)\<rparr> \<and>
    file_bytes f s' = take (unat (f_off (ftable s ! f))) (file_bytes f s) @ bs @ drop (unat (f_off (ftable s ! f)) + length bs) (file_bytes f s)"
proof -
  define ip off where "ip = f_ip (ftable s ! f)" and "off = f_off (ftable s ! f)"
  define nn :: u32 where "nn = of_nat (length bs)"
  have nu: "unat nn = length bs" using n(2) by (simp add: nn_def unat_of_nat)
  have O: "f < length (ftable s)" "f_type (ftable s ! f) = FD_INODE" "i_valid (ino s ip)" "\<not> i_locked (ino s ip)" "i_ref (ino s ip) \<ge> 1"
    "i_num (ino s ip) < sb_ninodes (fsb s)" "file_ok ip s"
    using o by (simp_all add: open_on_def Let_def ip_def)
  have ipl: "ip < length (icache s)" using file_okD(1) [OF O(7)] .
  define s1 where "s1 = s\<lparr>flog := (flog s)\<lparr>outstanding := 1\<rparr>\<rparr>"
  have b: "fs_begin s = Ok s1" using l by (simp add: fs_begin_def begin_op_def idle_log_def s1_def)
  define s2 where "s2 = upd_ino ip (\<lambda>p. p\<lparr>i_locked := True\<rparr>) s1"
  have k: "ilock ip s1 = Ok s2"
    using O by (simp add: ilock_def s1_def s2_def Let_def) (simp add: ino_upd_ino ipl)
  have i2: "icache s2 = (icache s)[ip := (ino s ip)\<lparr>i_locked := True\<rparr>]" "fblk s2 = fblk s" "fsb s2 = fsb s" "flog s2 = (flog s)\<lparr>outstanding := 1\<rparr>"
    "ftable s2 = ftable s"
    by (simp_all add: s2_def s1_def upd_ino_def)
  have d2: "i_d (ino s2 ip) = i_d (ino s ip)" "i_num (ino s2 ip) = i_num (ino s ip)" using ipl by (simp_all add: i2)
  have lc: "length (icache s2) = length (icache s)" by (simp add: i2)
  note sf = same_file [OF i2(2,3) lc d2(1)]
  have f2: "file_ok ip s2" using O(7) sf(1) by simp
  have nb: "\<not> writei_bad ip s2 off nn"
  proof -
    have "fsize ip s2 = length (file_bytes f s)" using arg_cong [OF sf(2), of length] by (simp add: ip_def)
    then show ?thesis using fit by (simp add: writei_bad_def nu off_def)
  qed
  have t: "turns (unat off) (unat nn) \<le> 4" unfolding nu by (rule turns_chunk [OF n(2)])
  have room: "log_room s2 (6 * turns (unat off) (unat nn) + 1)" using l t by (simp add: log_room_def i2 idle_log_def)
  have nf: "2 * turns (unat off) (unat nn) \<le> nfree s2" using fr t sf(3) by simp
  have num: "i_num (ino s2 ip) < sb_ninodes (fsb s2)" using O(6) by (simp add: d2 i2(3))
  obtain s3 where w: "writei ip bs off nn s2 = Ok (int (unat nn), s3)" "nfree s2 \<le> nfree s3 + 2 * turns (unat off) (unat nn)"
    using writei_returns [OF f2 nu [symmetric] num nb room nf] by blast
  note W = writei_spec(2) [OF f2 nu [symmetric] num nb w(1), unfolded write_done_def]
  note K = kept_log [OF kept_writei [OF w(1)]]
  have m3: "fsys.more s3 = fsys.more s2" by (rule more_writei [OF w(1)])
  have ft3: "ftable s3 = ftable s" using m3 i2(5) by (cases s3, cases s2) simp
  define s4 where "s4 = upd_file f (\<lambda>x. x\<lparr>f_off := f_off x + of_int (int (unat nn))\<rparr>) s3"
  have i4: "icache s4 = icache s3" "fblk s4 = fblk s3" "fsb s4 = fsb s3" "flog s4 = flog s3"
    "ftable s4 = (ftable s)[f := (ftable s ! f)\<lparr>f_off := off + nn\<rparr>]"
    using O(1) by (simp_all add: s4_def upd_file_def ft3 off_def nu) (simp add: nn_def)
  have si: "length (icache s3) = length (icache s)" "i_locked (ino s3 ip)" "i_ref (ino s3 ip) = i_ref (ino s ip)" "i_valid (ino s3 ip)" "i_num (ino s3 ip) = i_num (ino s ip)"
    using W ipl O(3) by (auto simp: same_icache_def i2)
  define s5 where "s5 = upd_ino ip (\<lambda>p. p\<lparr>i_locked := False\<rparr>) s4"
  have u: "iunlock ip s4 = Ok s5" using si O(5) by (simp add: iunlock_def s5_def i4)
  define s6 where "s6 = s5\<lparr>flog := (flog s5)\<lparr>outstanding := 0, lhb := [], committing := False\<rparr>\<rparr>"
  have l5: "flog s5 = flog s3" "fblk s5 = fblk s3" "fsb s5 = fsb s3" "ftable s5 = ftable s4" by (simp_all add: s5_def upd_ino_def i4)
  have e: "fs_end s5 = Ok s6"
    using K l by (simp add: fs_end_def end_op_first_def s6_def l5 i2 idle_log_def)
  have run: "write_chunk f bs s = Ok (int (length bs), s6)"
    using b k w(1) u e n(1) unfolding write_chunk_def
    by (simp add: i2(5) nu flip: ip_def off_def nn_def) (simp add: s4_def)
  have i6: "icache s6 = (icache s3)[ip := (ino s3 ip)\<lparr>i_locked := False\<rparr>]" "fblk s6 = fblk s3" "fsb s6 = fsb s3" "ftable s6 = ftable s4"
    by (simp_all add: s6_def s5_def upd_ino_def i4)
  have ip3: "ip < length (icache s3)" using ipl si(1) by simp
  have lc6: "length (icache s6) = length (icache s3)" "i_d (ino s6 ip) = i_d (ino s3 ip)" using ip3 by (simp_all add: i6)
  note sf6 = same_file [OF i6(2,3) lc6]
  have ff: "ftable s6 ! f = (ftable s ! f)\<lparr>f_off := off + nn\<rparr>" using O(1) by (simp add: i6 i4)
  have "open_on f s6"
    using O si ip3 sf6(1) W K by (simp add: open_on_def Let_def ff i6 i4 flip: ip_def) (simp add: i2)
  moreover have "idle_log s6" using K l by (simp add: idle_log_def s6_def l5 i2)
  moreover have "nfree s \<le> nfree s6 + 8" using w(2) t sf(3) sf6(3) by simp
  moreover have "file_bytes f s6 = take (unat off) (fbytes ip s) @ bs @ drop (unat off + length bs) (fbytes ip s)"
    using W sf(2) sf6(2) by (simp add: ff flip: ip_def)
  ultimately show ?thesis using run ff by (simp add: ip_def off_def nn_def)
qed

text \<open>The chunks one after the other.\<close>

lemma filewrite_loop_ok:
  assumes "open_on f s" "idle_log s" "unat (f_off (ftable s ! f)) \<le> length (file_bytes f s)"
    "unat (f_off (ftable s ! f)) + length src \<le> MAXFILE * BSIZE" "8 * ((length src + (write_max - 1)) div write_max) \<le> nfree s"
  shows "\<exists>s'. filewrite_loop f src s = Ok (True, s') \<and> open_on f s' \<and> idle_log s' \<and>
    ftable s' ! f = (ftable s ! f)\<lparr>f_off := f_off (ftable s ! f) + of_nat (length src)\<rparr> \<and>
    file_bytes f s' = take (unat (f_off (ftable s ! f))) (file_bytes f s) @ src @ drop (unat (f_off (ftable s ! f)) + length src) (file_bytes f s)"
  using assms
proof (induction f src s rule: filewrite_loop.induct)
  case (1 f src s)
  show ?case
  proof (cases "src = []")
    case True
    then show ?thesis using 1(2,3) by (simp add: filewrite_loop.simps)
  next
    case False
    define c d off ip where "c = take write_max src" and "d = drop write_max src" and "off = f_off (ftable s ! f)" and "ip = f_ip (ftable s ! f)"
    have lc: "length c = min write_max (length src)" "0 < length c" "length c \<le> write_max" "src = c @ d" "length src = length c + length d"
      using False by (simp_all add: c_def d_def)
    have dv: "(length src + (write_max - 1)) div write_max = Suc ((length d + (write_max - 1)) div write_max)"
    proof (cases "length src \<le> write_max")
      case True
      then have "length d = 0" by (simp add: d_def)
      moreover have "(length src + (write_max - 1)) div write_max = 1" using True False by (intro div_nat_eqI) (simp_all add: Suc_le_eq)
      ultimately show ?thesis by simp
    next
      case False
      then have "length src + (write_max - 1) = write_max + (length d + (write_max - 1))" by (simp add: d_def)
      then show ?thesis by (simp only: div_add_self1)
    qed
    obtain s1 where w: "write_chunk f c s = Ok (int (length c), s1)" "open_on f s1" "idle_log s1" "nfree s \<le> nfree s1 + 8"
      "ftable s1 ! f = (ftable s ! f)\<lparr>f_off := off + of_nat (length c)\<rparr>"
      "file_bytes f s1 = take (unat off) (file_bytes f s) @ c @ drop (unat off + length c) (file_bytes f s)"
      using write_chunk_ok [OF 1(2,3) lc(2,3) 1(4)] 1(5,6) lc(5) dv by (auto simp: off_def)
    have ou: "unat (off + of_nat (length c)) = unat off + length c"
      using 1(5) lc(5) by (simp add: unat_word_ariths unat_of_nat off_def)
    have ip1: "f_ip (ftable s1 ! f) = ip" "f_off (ftable s1 ! f) = off + of_nat (length c)" by (simp_all add: w(5) ip_def)
    have fl: "length (fbytes ip s1) = unat off + length c + (length (fbytes ip s) - (unat off + length c))"
      using arg_cong [OF w(6), of length] 1(4) by (simp add: ip1 off_def flip: ip_def)
    obtain s2 where r: "filewrite_loop f d s1 = Ok (True, s2)" "open_on f s2" "idle_log s2"
      "ftable s2 ! f = (ftable s1 ! f)\<lparr>f_off := f_off (ftable s1 ! f) + of_nat (length d)\<rparr>"
      "file_bytes f s2 = take (unat off + length c) (fbytes ip s1) @ d @ drop (unat off + length c + length d) (fbytes ip s1)"
    proof -
      have "\<exists>s'. filewrite_loop f (drop write_max src) s1 = Ok (True, s') \<and> open_on f s' \<and> idle_log s' \<and>
        ftable s' ! f = (ftable s1 ! f)\<lparr>f_off := f_off (ftable s1 ! f) + of_nat (length (drop write_max src))\<rparr> \<and>
        file_bytes f s' = take (unat (f_off (ftable s1 ! f))) (file_bytes f s1) @ drop write_max src @
          drop (unat (f_off (ftable s1 ! f)) + length (drop write_max src)) (file_bytes f s1)"
      proof (rule 1(1) [OF False w(1) [unfolded c_def] refl])
        show "\<not> int (length (take write_max src)) < 0" by simp
        show "\<not> int (length (take write_max src)) \<noteq> int (min write_max (length src))" by (simp add: min.commute)
        show "unat (f_off (ftable s1 ! f)) \<le> length (file_bytes f s1)" using fl by (simp add: ip1 ou)
        show "unat (f_off (ftable s1 ! f)) + length (drop write_max src) \<le> MAXFILE * BSIZE"
          unfolding ip1 ou using 1(5) lc(5) by (simp add: off_def flip: d_def)
        show "8 * ((length (drop write_max src) + (write_max - 1)) div write_max) \<le> nfree s1"
          using 1(6) w(4) dv by (simp flip: d_def)
      qed (use w in simp_all)
      then show thesis using that by (auto simp: ip1 ou simp flip: d_def)
    qed
    have "filewrite_loop f src s = Ok (True, s2)"
      using False w(1) r(1) lc(1) by (subst filewrite_loop.simps) (simp flip: c_def d_def)
    moreover have "ftable s2 ! f = (ftable s ! f)\<lparr>f_off := off + of_nat (length src)\<rparr>"
      using r(4) w(5) lc(5) by (simp add: add.assoc)
    moreover have "file_bytes f s2 = take (unat off) (fbytes ip s) @ src @ drop (unat off + length src) (fbytes ip s)"
      using r(5) w(6) 1(4) lc(4,5) by (simp add: ip1 off_def add.assoc flip: ip_def) (simp add: lc(4) ip_def ac_simps)
    ultimately show ?thesis using r(2,3) by (simp add: off_def ip_def)
  qed
qed

end
