(* ===== verification/PipeSys.thy ===== *)
theory PipeSys
  imports Pipe
begin

text \<open>
  Any number of processes on one pipe: calls, their sections in any order, closes, and kills. A
  process in a call holds its file descriptor, so its end of the pipe stays open until the call
  returns. The ghost fields record the bytes put into and taken out of the pipe, and whether a
  killed writer has returned \<open>-1\<close>.
\<close>

datatype pstat = PIdle | PWriting "u8 list" | PWAsleep "u8 list" | PReading nat | PRAsleep nat

record psys =
  ppipe :: pipe
  pprocs :: "nat \<Rightarrow> pstat"
  pkilled :: "nat \<Rightarrow> bool"
  psent :: "u8 list"
  precvd :: "u8 list"
  pabandon :: bool

fun pwake1 :: "pchan \<Rightarrow> pstat \<Rightarrow> pstat" where
  "pwake1 ChNread (PRAsleep n) = PReading n"
| "pwake1 ChNwrite (PWAsleep bs) = PWriting bs"
| "pwake1 c st = st"

definition pwake :: "pchan list \<Rightarrow> (nat \<Rightarrow> pstat) \<Rightarrow> nat \<Rightarrow> pstat" where
  "pwake ws f = (\<lambda>i. fold pwake1 ws (f i))"

fun after_write :: "wend \<Rightarrow> pstat" where
  "after_write (WSleep bs) = PWAsleep bs"
| "after_write r = PIdle"

fun after_read :: "nat \<Rightarrow> rend \<Rightarrow> pstat" where
  "after_read n RSleep = PRAsleep n"
| "after_read n r = PIdle"

fun taken :: "rend \<Rightarrow> u8 list" where
  "taken (RDone bs) = bs"
| "taken r = []"

fun wake_killed :: "pstat \<Rightarrow> pstat" where
  "wake_killed (PWAsleep bs) = PWriting bs"
| "wake_killed (PRAsleep n) = PReading n"
| "wake_killed st = st"

fun in_read :: "pstat \<Rightarrow> bool" where
  "in_read (PReading n) = True"
| "in_read (PRAsleep n) = True"
| "in_read st = False"

fun in_write :: "pstat \<Rightarrow> bool" where
  "in_write (PWriting bs) = True"
| "in_write (PWAsleep bs) = True"
| "in_write st = False"

inductive pstep :: "psys \<Rightarrow> psys \<Rightarrow> bool" where
  write_call: "pprocs s i = PIdle \<Longrightarrow> writeopen (ppipe s) \<Longrightarrow> pstep s (s\<lparr>pprocs := (pprocs s)(i := PWriting bs)\<rparr>)"
| write_run: "pprocs s i = PWriting bs \<Longrightarrow> pipewrite (pkilled s i) bs (ppipe s) = (r, ws, p) \<Longrightarrow>
    pstep s (s\<lparr>ppipe := p, pprocs := pwake ws ((pprocs s)(i := after_write r)),
      psent := psent s @ drop (length (pbytes (ppipe s))) (pbytes p), pabandon := (pabandon s \<or> (r = WError \<and> pkilled s i))\<rparr>)"
| read_call: "pprocs s i = PIdle \<Longrightarrow> readopen (ppipe s) \<Longrightarrow> pstep s (s\<lparr>pprocs := (pprocs s)(i := PReading n)\<rparr>)"
| read_run: "pprocs s i = PReading n \<Longrightarrow> piperead (pkilled s i) n (ppipe s) = (r, ws, p) \<Longrightarrow>
    pstep s (s\<lparr>ppipe := p, pprocs := pwake ws ((pprocs s)(i := after_read n r)), precvd := precvd s @ taken r\<rparr>)"
| close: "pipeclose w (ppipe s) = (fr, c, p) \<Longrightarrow> \<forall>i. \<not> (if w then in_write (pprocs s i) else in_read (pprocs s i)) \<Longrightarrow>
    pstep s (s\<lparr>ppipe := p, pprocs := pwake [c] (pprocs s)\<rparr>)"
| kill: "pstep s (s\<lparr>pkilled := (pkilled s)(i := True), pprocs := (pprocs s)(i := wake_killed (pprocs s i))\<rparr>)"

inductive preach :: "u8 list \<Rightarrow> psys \<Rightarrow> bool" for junk where
  start: "preach junk \<lparr>ppipe = new_pipe junk, pprocs = (\<lambda>_. PIdle), pkilled = (\<lambda>_. False), psent = [], precvd = [], pabandon = False\<rparr>"
| step: "preach junk s \<Longrightarrow> pstep s s' \<Longrightarrow> preach junk s'"

inductive_cases pstepE: "pstep s s'"

text \<open>The invariant: bytes come out in the order they went in; a writer sleeps only on a full
  pipe somebody may read; a reader sleeps only on an empty pipe somebody may write, unless a killed
  writer has left; and never both.\<close>

definition w_asleep :: "psys \<Rightarrow> bool" where
  "w_asleep s \<longleftrightarrow> (\<exists>i bs. pprocs s i = PWAsleep bs)"

definition r_asleep :: "psys \<Rightarrow> bool" where
  "r_asleep s \<longleftrightarrow> (\<exists>i n. pprocs s i = PRAsleep n)"

definition psys_inv :: "psys \<Rightarrow> bool" where
  "psys_inv s \<longleftrightarrow> pipe_ok (ppipe s) \<and> psent s = precvd s @ pbytes (ppipe s) \<and>
     (w_asleep s \<longrightarrow> length (pbytes (ppipe s)) = PIPESIZE \<and> readopen (ppipe s)) \<and>
     (r_asleep s \<longrightarrow> writeopen (ppipe s) \<and> (pbytes (ppipe s) = [] \<or> pabandon s)) \<and>
     \<not> (w_asleep s \<and> r_asleep s) \<and>
     (\<forall>i. in_read (pprocs s i) \<longrightarrow> readopen (ppipe s)) \<and>
     (\<forall>i. in_write (pprocs s i) \<longrightarrow> writeopen (ppipe s))"

lemma pwake_simps:
  "pwake [] f = f"
  "pwake [ChNread] f = (\<lambda>i. case f i of PRAsleep n \<Rightarrow> PReading n | st \<Rightarrow> st)"
  "pwake [ChNwrite] f = (\<lambda>i. case f i of PWAsleep bs \<Rightarrow> PWriting bs | st \<Rightarrow> st)"
  by (auto simp: pwake_def fun_eq_iff split: pstat.splits)

lemma woken [simp]:
  "(case st of PRAsleep n \<Rightarrow> PReading n | s \<Rightarrow> s) = PWAsleep bs \<longleftrightarrow> st = PWAsleep bs"
  "(case st of PRAsleep n \<Rightarrow> PReading n | s \<Rightarrow> s) \<noteq> PRAsleep k"
  "(case st of PWAsleep cs \<Rightarrow> PWriting cs | s \<Rightarrow> s) = PRAsleep k \<longleftrightarrow> st = PRAsleep k"
  "(case st of PWAsleep cs \<Rightarrow> PWriting cs | s \<Rightarrow> s) \<noteq> PWAsleep bs"
  "in_read (case st of PRAsleep n \<Rightarrow> PReading n | s \<Rightarrow> s) = in_read st"
  "in_read (case st of PWAsleep cs \<Rightarrow> PWriting cs | s \<Rightarrow> s) = in_read st"
  "in_write (case st of PRAsleep n \<Rightarrow> PReading n | s \<Rightarrow> s) = in_write st"
  "in_write (case st of PWAsleep cs \<Rightarrow> PWriting cs | s \<Rightarrow> s) = in_write st"
  by (cases st; simp)+

lemma after_write_simps [simp]:
  "after_write r = PWAsleep bs \<longleftrightarrow> r = WSleep bs" "after_write r \<noteq> PRAsleep n" "\<not> in_read (after_write r)"
  "in_write (after_write r) \<longleftrightarrow> (\<exists>bs. r = WSleep bs)"
  by (cases r; auto)+

lemma after_read_simps [simp]:
  "after_read n r = PRAsleep m \<longleftrightarrow> r = RSleep \<and> m = n" "after_read n r \<noteq> PWAsleep bs" "\<not> in_write (after_read n r)"
  "in_read (after_read n r) \<longleftrightarrow> r = RSleep"
  by (cases r; auto)+

lemma wake_killed_simps [simp]:
  "wake_killed st \<noteq> PWAsleep bs" "wake_killed st \<noteq> PRAsleep n" "in_read (wake_killed st) = in_read st" "in_write (wake_killed st) = in_write st"
  by (cases st; simp)+

lemma psys_invD:
  assumes "psys_inv s"
  shows "pipe_ok (ppipe s)" "psent s = precvd s @ pbytes (ppipe s)"
    "w_asleep s \<Longrightarrow> length (pbytes (ppipe s)) = PIPESIZE \<and> readopen (ppipe s)"
    "r_asleep s \<Longrightarrow> writeopen (ppipe s) \<and> (pbytes (ppipe s) = [] \<or> pabandon s)"
    "\<not> (w_asleep s \<and> r_asleep s)" "in_read (pprocs s i) \<Longrightarrow> readopen (ppipe s)" "in_write (pprocs s i) \<Longrightarrow> writeopen (ppipe s)"
  using assms by (auto simp: psys_inv_def)

lemma psys_invI:
  assumes "pipe_ok (ppipe s)" "psent s = precvd s @ pbytes (ppipe s)"
    "w_asleep s \<Longrightarrow> length (pbytes (ppipe s)) = PIPESIZE \<and> readopen (ppipe s)"
    "r_asleep s \<Longrightarrow> writeopen (ppipe s) \<and> (pbytes (ppipe s) = [] \<or> pabandon s)"
    "\<not> (w_asleep s \<and> r_asleep s)" "\<And>i. in_read (pprocs s i) \<Longrightarrow> readopen (ppipe s)" "\<And>i. in_write (pprocs s i) \<Longrightarrow> writeopen (ppipe s)"
  shows "psys_inv s"
  using assms by (auto simp: psys_inv_def)

lemma asleep_in: "w_asleep s \<Longrightarrow> \<exists>i. in_write (pprocs s i)" "r_asleep s \<Longrightarrow> \<exists>i. in_read (pprocs s i)"
  by (auto simp: w_asleep_def r_asleep_def intro: exI) (metis in_write.simps(2), metis in_read.simps(2))

lemma write_run_inv:
  assumes inv: "psys_inv s" and st: "pprocs s i = PWriting bs" and run: "pipewrite (pkilled s i) bs (ppipe s) = (r, ws, p)"
  shows "psys_inv (s\<lparr>ppipe := p, pprocs := pwake ws ((pprocs s)(i := after_write r)),
      psent := psent s @ drop (length (pbytes (ppipe s))) (pbytes p), pabandon := (pabandon s \<or> (r = WError \<and> pkilled s i))\<rparr>)"
    (is "psys_inv ?s'")
proof -
  note D = psys_invD [OF inv]
  note w = pipewrite_ok [OF D(1) run]
  have "in_write (pprocs s i)" using st by simp
  then have wo: "writeopen (ppipe s)" by (rule D(7))
  have le: "length (pbytes (ppipe s)) \<le> PIPESIZE" using D(1) by (rule pbytes_le)
  have sent: "psent ?s' = precvd ?s' @ pbytes (ppipe ?s')" using w D(2) by simp
  have ends: "readopen p = readopen (ppipe s)" "writeopen p = writeopen (ppipe s)" using w by simp_all
  have reads: "in_read (pprocs ?s' j) \<longleftrightarrow> j \<noteq> i \<and> in_read (pprocs s j)" for j
    using w by (auto simp: pwake_simps split: if_splits)
  have writes: "in_write (pprocs ?s' j) \<Longrightarrow> writeopen p" for j using ends wo by simp
  show ?thesis
  proof (cases "length (pbytes (ppipe s)) + length bs \<le> PIPESIZE")
    case True
    then have r: "r = WDone" "ws = [ChNread]" using w by simp_all
    have ra: "\<not> r_asleep ?s'" by (simp add: r_asleep_def r pwake_simps)
    have wa: "w_asleep ?s' \<Longrightarrow> w_asleep s" by (auto simp: w_asleep_def r pwake_simps split: if_splits)
    show ?thesis
    proof (rule psys_invI)
      assume "w_asleep ?s'"
      then have "w_asleep s" by (rule wa)
      then show "length (pbytes (ppipe ?s')) = PIPESIZE \<and> readopen (ppipe ?s')" using D(3) w by simp
    qed (use ra sent reads writes ends w D(6) in auto)
  next
    case False
    then have full: "length (pbytes p) = PIPESIZE" using w le by simp
    show ?thesis
    proof (cases "readopen (ppipe s) \<and> \<not> pkilled s i")
      case True
      then have r: "r = WSleep (drop (PIPESIZE - length (pbytes (ppipe s))) bs)" "ws = [ChNread]" using w False by simp_all
      have ra: "\<not> r_asleep ?s'" by (simp add: r_asleep_def r pwake_simps)
      show ?thesis by (rule psys_invI) (use ra sent reads writes ends w D(6) full True in auto)
    next
      case F2: False
      then have r: "r = WError" "ws = []" using w False by simp_all
      have wa: "w_asleep ?s' \<Longrightarrow> w_asleep s" by (auto simp: w_asleep_def r pwake_simps split: if_splits)
      have ra: "r_asleep ?s' \<Longrightarrow> r_asleep s" by (auto simp: r_asleep_def r pwake_simps split: if_splits)
      have ka: "r_asleep s \<Longrightarrow> pkilled s i" using asleep_in(2) [of s] D(6) F2 by auto
      show ?thesis
      proof (rule psys_invI)
        assume "w_asleep ?s'"
        then have "w_asleep s" by (rule wa)
        then show "length (pbytes (ppipe ?s')) = PIPESIZE \<and> readopen (ppipe ?s')" using D(3) full ends by simp
      next
        assume "r_asleep ?s'"
        then have "pkilled s i" using ra ka by blast
        then show "writeopen (ppipe ?s') \<and> (pbytes (ppipe ?s') = [] \<or> pabandon ?s')" using r ends wo by simp
      next
        show "\<not> (w_asleep ?s' \<and> r_asleep ?s')" using wa ra D(5) by blast
      qed (use sent reads writes ends w D(6) in auto)
    qed
  qed
qed

lemma read_run_inv:
  assumes inv: "psys_inv s" and st: "pprocs s i = PReading n" and run: "piperead (pkilled s i) n (ppipe s) = (r, ws, p)"
  shows "psys_inv (s\<lparr>ppipe := p, pprocs := pwake ws ((pprocs s)(i := after_read n r)), precvd := precvd s @ taken r\<rparr>)"
    (is "psys_inv ?s'")
proof -
  note D = psys_invD [OF inv]
  note w = piperead_ok [OF D(1) run]
  have "in_read (pprocs s i)" using st by simp
  then have ro: "readopen (ppipe s)" by (rule D(6))
  show ?thesis
  proof (cases "pbytes (ppipe s) = [] \<and> writeopen (ppipe s)")
    case True
    then have w: "p = ppipe s" "ws = []" "r = (if pkilled s i then RError else RSleep)" using w by simp_all
    have nw: "\<not> w_asleep s" using D(3) True by auto
    then have wa: "\<not> w_asleep ?s'" by (auto simp: w_asleep_def w pwake_simps split: if_splits)
    show ?thesis
      by (rule psys_invI) (use wa True D(1,2,6,7) ro w in \<open>auto simp: pwake_simps split: if_splits\<close>)
  next
    case False
    then have w: "pipe_ok p" "r = RDone (take n (pbytes (ppipe s)))" "pbytes p = drop n (pbytes (ppipe s))" "ws = [ChNwrite]"
      "readopen p = readopen (ppipe s)" "writeopen p = writeopen (ppipe s)" using w by (auto split: if_splits)
    have wa: "\<not> w_asleep ?s'" by (simp add: w_asleep_def w pwake_simps)
    have ra: "r_asleep ?s' \<Longrightarrow> r_asleep s" by (auto simp: r_asleep_def w pwake_simps split: if_splits)
    show ?thesis
    proof (rule psys_invI)
      assume "r_asleep ?s'"
      then have "r_asleep s" by (rule ra)
      then show "writeopen (ppipe ?s') \<and> (pbytes (ppipe ?s') = [] \<or> pabandon ?s')" using D(4) w by auto
    qed (use wa D(1,2,6,7) ro w in \<open>auto simp: pwake_simps split: if_splits\<close>)
  qed
qed

lemma close_inv:
  assumes inv: "psys_inv s" and run: "pipeclose w (ppipe s) = (fr, c, p)"
    and unused: "\<forall>i. \<not> (if w then in_write (pprocs s i) else in_read (pprocs s i))"
  shows "psys_inv (s\<lparr>ppipe := p, pprocs := pwake [c] (pprocs s)\<rparr>)" (is "psys_inv ?s'")
proof -
  note D = psys_invD [OF inv]
  have p: "p = (if w then (ppipe s)\<lparr>writeopen := False\<rparr> else (ppipe s)\<lparr>readopen := False\<rparr>)" and c: "c = (if w then ChNread else ChNwrite)"
    using run by (auto simp: pipeclose_def Let_def)
  have same: "pbytes p = pbytes (ppipe s)" "pipe_ok p = pipe_ok (ppipe s)" by (auto simp: p pbytes_def pipe_ok_def)
  have wa: "w_asleep ?s' \<Longrightarrow> w \<and> w_asleep s" by (auto simp: w_asleep_def c pwake_simps split: if_splits)
  have ra: "r_asleep ?s' \<Longrightarrow> \<not> w \<and> r_asleep s" by (auto simp: r_asleep_def c pwake_simps split: if_splits)
  show ?thesis
  proof (rule psys_invI)
    assume "w_asleep ?s'"
    then show "length (pbytes (ppipe ?s')) = PIPESIZE \<and> readopen (ppipe ?s')" using wa asleep_in(1) [of s] unused by auto
  next
    assume "r_asleep ?s'"
    then show "writeopen (ppipe ?s') \<and> (pbytes (ppipe ?s') = [] \<or> pabandon ?s')" using ra asleep_in(2) [of s] unused by auto
  next
    show "\<not> (w_asleep ?s' \<and> r_asleep ?s')" using wa ra by blast
  qed (use D(1,2,6,7) same unused in \<open>auto simp: p c pwake_simps split: if_splits\<close>)
qed

lemma pstep_inv: "pstep s s' \<Longrightarrow> psys_inv s \<Longrightarrow> psys_inv s'"
proof (induction rule: pstep.induct)
  case (write_run s i bs r ws p)
  then show ?case by (simp add: write_run_inv)
next
  case (read_run s i n r ws p)
  then show ?case by (simp add: read_run_inv)
next
  case (close w s fr c p)
  then show ?case by (simp add: close_inv)
qed (auto simp: psys_inv_def w_asleep_def r_asleep_def)

lemma preach_inv:
  assumes "preach junk s" "length junk = PIPESIZE"
  shows "psys_inv s"
  using assms
proof (induction rule: preach.induct)
  case start
  then show ?case using new_pipe_ok [of junk] by (simp add: psys_inv_def w_asleep_def r_asleep_def)
next
  case (step s s')
  then show ?case using pstep_inv by blast
qed

section \<open>Properties\<close>



text \<open>C31: A writer asleep in \<^verbatim>\<open>pipewrite\<close> means that the pipe is full, that its read end is open
  and that no reader is asleep in \<^verbatim>\<open>piperead\<close>: a reader and a writer never wait for each other.\<close>

theorem pipe_writer_waits:
  assumes "preach junk s" "length junk = PIPESIZE" "w_asleep s"
  shows "length (pbytes (ppipe s)) = PIPESIZE \<and> readopen (ppipe s) \<and> \<not> r_asleep s"
  using psys_invD [OF preach_inv [OF assms(1,2)]] assms(3) by simp

text \<open>A reader asleep in \<^verbatim>\<open>piperead\<close> means that the write end is open, and that the pipe is
  empty as long as no killed writer has left its call.\<close>

theorem pipe_reader_waits:
  assumes "preach junk s" "length junk = PIPESIZE" "r_asleep s"
  shows "writeopen (ppipe s) \<and> (pbytes (ppipe s) = [] \<or> pabandon s)"
  using psys_invD [OF preach_inv [OF assms(1,2)]] assms(3) by simp

definition junk_page :: "u8 list" where
  "junk_page = replicate PIPESIZE 1"

definition asleep_reader :: psys where
  "asleep_reader = \<lparr>ppipe = new_pipe junk_page, pprocs = (\<lambda>_. PIdle)(1 := PRAsleep 1), pkilled = (\<lambda>_. False),
     psent = [], precvd = [], pabandon = False\<rparr>"

lemma asleep_reader_reach: "preach junk_page asleep_reader"
proof -
  define s0 where "s0 = \<lparr>ppipe = new_pipe junk_page, pprocs = (\<lambda>_. PIdle), pkilled = (\<lambda>_. False), psent = [], precvd = [], pabandon = False\<rparr>"
  have "preach junk_page s0" unfolding s0_def by (rule preach.start)
  moreover have "pstep s0 (s0\<lparr>pprocs := (pprocs s0)(1 := PReading 1)\<rparr>)"
    by (rule pstep.read_call) (simp_all add: s0_def new_pipe_def)
  ultimately have r1: "preach junk_page (s0\<lparr>pprocs := (pprocs s0)(1 := PReading 1)\<rparr>)" by (rule preach.step)
  have "piperead False 1 (new_pipe junk_page) = (RSleep, [], new_pipe junk_page)"
    by (simp add: piperead_def new_pipe_def)
  from pstep.read_run [of "s0\<lparr>pprocs := (pprocs s0)(1 := PReading 1)\<rparr>" 1 1 RSleep "[]" "new_pipe junk_page"] this
  have "pstep (s0\<lparr>pprocs := (pprocs s0)(1 := PReading 1)\<rparr>) asleep_reader"
    by (simp add: s0_def asleep_reader_def pwake_simps)
  with r1 show ?thesis by (rule preach.step)
qed

text \<open>A killed writer that fills the pipe returns \<open>-1\<close> without waking the readers: a reader
  can be left asleep on a pipe that holds 512 bytes, both ends open and nobody else in a call.\<close>

theorem pipe_lost_wakeup:
  "\<exists>s. preach junk_page s \<and> pprocs s = (\<lambda>_. PIdle)(1 := PRAsleep 1) \<and> \<not> pkilled s 1 \<and>
     length (pbytes (ppipe s)) = PIPESIZE \<and> readopen (ppipe s) \<and> writeopen (ppipe s)"
proof -
  define bs :: "u8 list" where "bs = replicate 513 0"
  define s1 where "s1 = asleep_reader\<lparr>pprocs := (pprocs asleep_reader)(0 := PWriting bs)\<rparr>"
  define s2 where "s2 = s1\<lparr>pkilled := (pkilled s1)(0 := True), pprocs := (pprocs s1)(0 := wake_killed (pprocs s1 0))\<rparr>"
  have "pstep asleep_reader s1" unfolding s1_def
    by (rule pstep.write_call) (simp_all add: asleep_reader_def new_pipe_def)
  with asleep_reader_reach have "preach junk_page s1" by (rule preach.step)
  moreover have "pstep s1 s2" unfolding s2_def by (rule pstep.kill)
  ultimately have r2: "preach junk_page s2" by (rule preach.step)
  have p: "ppipe s2 = new_pipe junk_page" "pkilled s2 0" "pprocs s2 0 = PWriting bs" "pprocs s2 = (\<lambda>_. PIdle)(1 := PRAsleep 1, 0 := PWriting bs)"
    "\<not> pkilled s2 1"
    by (simp_all add: s2_def s1_def asleep_reader_def fun_upd_twist)
  obtain r ws q where run: "pipewrite True bs (new_pipe junk_page) = (r, ws, q)" by (metis prod_cases3)
  have np: "pipe_ok (new_pipe junk_page)" "pbytes (new_pipe junk_page) = []" "readopen (new_pipe junk_page)" "writeopen (new_pipe junk_page)"
    using new_pipe_ok [of junk_page] by (simp_all add: junk_page_def new_pipe_def)
  have q: "r = WError" "ws = []" "length (pbytes q) = PIPESIZE" "readopen q" "writeopen q"
    using pipewrite_ok [OF np(1) run] np by (simp_all add: bs_def)
  define s3 where "s3 = s2\<lparr>ppipe := q, pprocs := pwake ws ((pprocs s2)(0 := after_write r)),
      psent := psent s2 @ drop (length (pbytes (ppipe s2))) (pbytes q), pabandon := (pabandon s2 \<or> (r = WError \<and> pkilled s2 0))\<rparr>"
  have "pstep s2 s3" unfolding s3_def by (rule pstep.write_run [OF p(3)]) (simp add: p run)
  with r2 have "preach junk_page s3" by (rule preach.step)
  moreover have "pprocs s3 = (\<lambda>_. PIdle)(1 := PRAsleep 1)" by (simp add: s3_def q p pwake_simps fun_eq_iff)
  ultimately show ?thesis using q p by (intro exI [of _ s3]) (simp add: s3_def)
qed

definition asleep_writer :: psys where
  "asleep_writer = \<lparr>ppipe = snd (snd (pipewrite False (replicate 513 0) (new_pipe junk_page))),
     pprocs = (\<lambda>_. PIdle)(0 := PWAsleep [0]), pkilled = (\<lambda>_. False),
     psent = pbytes (snd (snd (pipewrite False (replicate 513 0) (new_pipe junk_page)))), precvd = [], pabandon = False\<rparr>"

lemma asleep_writer_reach: "preach junk_page asleep_writer"
proof -
  define bs :: "u8 list" where "bs = replicate 513 0"
  define s0 where "s0 = \<lparr>ppipe = new_pipe junk_page, pprocs = (\<lambda>_. PIdle), pkilled = (\<lambda>_. False), psent = [], precvd = [], pabandon = False\<rparr>"
  define s1 where "s1 = s0\<lparr>pprocs := (pprocs s0)(0 := PWriting bs)\<rparr>"
  have "preach junk_page s0" unfolding s0_def by (rule preach.start)
  moreover have "pstep s0 s1" unfolding s1_def by (rule pstep.write_call) (simp_all add: s0_def new_pipe_def)
  ultimately have r1: "preach junk_page s1" by (rule preach.step)
  obtain r ws q where run: "pipewrite False bs (new_pipe junk_page) = (r, ws, q)" by (metis prod_cases3)
  have np: "pipe_ok (new_pipe junk_page)" "pbytes (new_pipe junk_page) = []" "readopen (new_pipe junk_page)"
    using new_pipe_ok [of junk_page] by (simp_all add: junk_page_def new_pipe_def)
  have q: "r = WSleep [0]" "ws = [ChNread]"
    using pipewrite_ok [OF np(1) run] np by (simp_all add: bs_def)
  have "pstep s1 (s1\<lparr>ppipe := q, pprocs := pwake ws ((pprocs s1)(0 := after_write r)),
      psent := psent s1 @ drop (length (pbytes (ppipe s1))) (pbytes q), pabandon := (pabandon s1 \<or> (r = WError \<and> pkilled s1 0))\<rparr>)"
    by (rule pstep.write_run [of _ _ bs]) (simp_all add: s1_def s0_def run)
  moreover have "s1\<lparr>ppipe := q, pprocs := pwake ws ((pprocs s1)(0 := after_write r)),
      psent := psent s1 @ drop (length (pbytes (ppipe s1))) (pbytes q), pabandon := (pabandon s1 \<or> (r = WError \<and> pkilled s1 0))\<rparr> = asleep_writer"
    using run np by (simp add: s1_def s0_def q asleep_writer_def pwake_simps fun_eq_iff flip: bs_def)
  ultimately show ?thesis using r1 preach.step by metis
qed

theorem pipe_writer_waits_witness: "readopen (ppipe asleep_writer) \<and> \<not> r_asleep asleep_writer"
  using pipe_writer_waits [OF asleep_writer_reach] by (simp add: junk_page_def w_asleep_def asleep_writer_def split: if_splits)


theorem pipe_reader_waits_witness: "writeopen (ppipe asleep_reader)"
  using pipe_reader_waits [OF asleep_reader_reach] by (simp add: junk_page_def r_asleep_def asleep_reader_def split: if_splits)

end
