(* ===== verification/SysProps.thy ===== *)
theory SysProps
  imports FileContent PipeSys
begin

text \<open>
  Properties of open files, descriptors and the fetching of system call arguments, with a process
  whose table of descriptors and whose file table are small enough to be looked at.
\<close>

section \<open>A process\<close>

definition free_file :: filent where
  "free_file = \<lparr>f_type = FD_NONE, f_ref = 0, f_readable = False, f_writable = False, f_pipe = 0, f_ip = 0, f_off = 0\<rparr>"

definition demo_proc :: usys where
  "demo_proc = \<lparr>fblk = demo_blocks, flog = demo_log\<lparr>outstanding := 0\<rparr>, fsb = demo_sb, icache = [demo_inode\<lparr>i_locked := False\<rparr>],
     dev_read = (\<lambda>_. None), dev_write = (\<lambda>_. None),
     ftable = free_file\<lparr>f_type := FD_INODE, f_ref := 1, f_readable := True, f_writable := True\<rparr> # replicate 99 free_file,
     pipes = (\<lambda>_. None), freepages = [0x80400000],
     usz = 0x4000, uesp = 0x3F00, umem = (\<lambda>_. 0), ofile = Some 0 # None # replicate 14 None, cwd = 0, upid = 3, ukilled = False, uswap = None\<rparr>"

lemma demo_proc_fds: "fds_ok demo_proc"
proof -
  have "count_list (Some 0 # None # replicate 14 None) (Some f) \<le> (1 # replicate 99 0) ! f" if "f < 100" for f :: nat
    using that by (cases f) (simp_all add: count_list_0_iff)
  then show ?thesis by (simp add: fds_ok_def refs_ok_def refs_def demo_proc_def free_file_def)
qed

section \<open>Strings in user memory\<close>

lemma user_load_Suc: "user_load s p (Suc n) = umem s p # user_load s (p + 1) n"
  by (simp add: user_load_def upt_conv_Cons map_Suc_upt [symmetric] ac_simps del: upt_Suc map_Suc_upt)

lemma fetchstr_loop_Some:
  "fetchstr_loop p s = Some str \<Longrightarrow> unat p + length str < unat (usz s) \<and> str = user_load s p (length str) \<and>
      umem s (p + of_nat (length str)) = 0 \<and> 0 \<notin> set str"
proof (induction p s arbitrary: str rule: fetchstr_loop.induct)
  case (1 p s)
  have p: "p < usz s" using 1(2) by (simp add: fetchstr_loop.simps [of p] split: if_splits)
  show ?case
  proof (cases "umem s p = 0")
    case True
    then show ?thesis using 1(2) p by (simp add: fetchstr_loop.simps [of p] user_load_def word_less_nat_alt)
  next
    case False
    then obtain str' where s: "fetchstr_loop (p + 1) s = Some str'" "str = umem s p # str'"
      using 1(2) p by (auto simp: fetchstr_loop.simps [of p])
    have "unat (usz s) < 2 ^ 32" by (rule order.strict_trans2 [OF unsigned_less]) simp
    with p have "unat p + 1 < 2 ^ 32" by (simp add: word_less_nat_alt)
    then have "unat (p + 1) = unat p + 1" by (simp add: unat_word_ariths)
    then show ?thesis using 1(1) [OF p False s(1)] False s(2) by (auto simp: user_load_Suc ac_simps)
  qed
qed

section \<open>Properties\<close>

text \<open>C12: Whatever calls a process makes, every descriptor it has names a file of the table with
  at least as many references as the process has descriptors for it: a descriptor never refers to
  a file that was closed under it, and \<^verbatim>\<open>filedup\<close> of it cannot panic.\<close>

theorem descriptors_open:
  assumes "fds_ok s0" "file_call\<^sup>*\<^sup>* s0 s" "argfd n s = Some (fd, f)"
  shows "f < NFILE \<and> count_list (ofile s) (Some f) \<le> f_ref (ftable s ! f) \<and> 0 < f_ref (ftable s ! f) \<and>
    (\<exists>s'. filedup f s = Ok s')"
proof -
  have ok: "fds_ok s" by (rule file_calls_fds [OF assms(2,1)])
  note a = argfd_Some [OF assms(3)]
  note c = refs_ok_close(2,3) [OF ok [unfolded fds_ok_def] a]
  have l: "length (ftable s) = NFILE" using ok by (simp add: fds_ok_def refs_ok_def refs_nth)
  have "f_ref (ftable s ! f) = refs s ! f" using c(2) l by (simp add: refs_nth)
  moreover have "count_list (ofile s) (Some f) \<le> refs s ! f" using ok c(2) by (simp add: fds_ok_def refs_ok_def)
  ultimately show ?thesis using c by (simp add: filedup_def)
qed

theorem descriptors_open_witness:
  "\<exists>s. file_call\<^sup>*\<^sup>* demo_proc s \<and> argfd 0 s = Some (1, 0) \<and> 2 \<le> f_ref (ftable s ! 0)"
proof -
  have a: "argfd 0 demo_proc = Some (0, 0)"
    by (simp add: argfd_def argint_def fetchint_def demo_proc_def user_load_def le32_def)
  define s1 where "s1 = upd_file 0 (\<lambda>x. x\<lparr>f_ref := f_ref x + 1\<rparr>) (set_ofile 1 (Some 0) demo_proc)"
  have d: "sys_dup demo_proc = Ok (1, s1)"
    unfolding sys_dup_def a
    by (simp add: fdalloc_def s1_def filedup_def demo_proc_def set_ofile_def)
  define s2 where "s2 = s1\<lparr>umem := (\<lambda>v. if v = 0x3F04 then 1 else 0), uesp := uesp s1, usz := usz s1\<rparr>"
  have "file_call demo_proc s1" by (rule file_call.dup [OF d])
  moreover have "file_call s1 s2" unfolding s2_def by (rule file_call.user)
  ultimately have r: "file_call\<^sup>*\<^sup>* demo_proc s2" by (meson rtranclp.intros)
  have a2: "argfd 0 s2 = Some (1, 0)"
    by (simp add: argfd_def argint_def fetchint_def s2_def s1_def demo_proc_def user_load_def le32_def set_ofile_def upd_file_def
        upt_rec)
  have "count_list (ofile s2) (Some 0) = 2"
    by (simp add: s2_def s1_def demo_proc_def set_ofile_def upd_file_def)
  with descriptors_open [OF demo_proc_fds r a2] r a2 show ?thesis by (intro exI [of _ s2]) simp
qed

text \<open>A pipe behind its two descriptors: at most 512 bytes written to the write end are what
  a read of the read end returns, in order and up to what it asks for; neither end can be used the
  other way, and the pipe lives in the page that the allocator had free.\<close>

theorem pipe_carries_bytes:
  assumes "pipealloc junk s = Ok (Some (f0, f1), s1)" "length junk = PIPESIZE" "src \<noteq> []" "length src \<le> PIPESIZE"
  shows "\<exists>s2 s3. filewrite k f1 src s1 = Ok (int (length src), s2) \<and>
    fileread k f0 n s2 = Ok (int (min (unat n) (length src)), take (unat n) src, s3) \<and>
    filewrite k f0 src s1 = Ok (-1, s1) \<and> fileread k f1 n s1 = Ok (-1, [], s1) \<and> freepages s = f_pipe (ftable s1 ! f0) # freepages s1"
proof -
  obtain p where p: "f_type (ftable s1 ! f0) = FD_PIPE" "f_readable (ftable s1 ! f0)" "f_pipe (ftable s1 ! f0) = p"
    "f_type (ftable s1 ! f1) = FD_PIPE" "f_writable (ftable s1 ! f1)" "f_pipe (ftable s1 ! f1) = p"
    "\<not> f_writable (ftable s1 ! f0)" "\<not> f_readable (ftable s1 ! f1)" "pipes s1 p = Some (new_pipe junk)" "freepages s = p # freepages s1"
    using pipealloc_Some [OF assms(1)] by blast
  note np = new_pipe_ok [OF assms(2)]
  obtain r ws q where w: "pipewrite k src (new_pipe junk) = (r, ws, q)" by (metis prod_cases3)
  have q: "pipe_ok q" "pbytes q = src" "r = WDone"
    using pipewrite_ok [OF _ w] np assms(4) by simp_all
  obtain r2 ws2 q2 where rd: "piperead k (unat n) q = (r2, ws2, q2)" by (metis prod_cases3)
  have r2: "r2 = RDone (take (unat n) src)" using piperead_ok [OF q(1) rd] q(2) assms(3) by simp
  define s2 where "s2 = s1\<lparr>pipes := (pipes s1)(p \<mapsto> q)\<rparr>"
  have "filewrite k f1 src s1 = Ok (int (length src), s2)"
    using p w q(3) by (simp add: filewrite_def write_pipe_def s2_def)
  moreover have "fileread k f0 n s2 = Ok (int (min (unat n) (length src)), take (unat n) src, s2\<lparr>pipes := (pipes s2)(p \<mapsto> q2)\<rparr>)"
    using p rd r2 by (simp add: fileread_def read_pipe_def s2_def min.commute)
  moreover have "filewrite k f0 src s1 = Ok (-1, s1)" "fileread k f1 n s1 = Ok (-1, [], s1)" using p by (simp_all add: filewrite_def fileread_def)
  ultimately show ?thesis using p(3,10) by blast
qed

theorem pipe_carries_bytes_witness:
  "\<exists>f0 f1 s1 s2 s3. pipealloc junk_page demo_proc = Ok (Some (f0, f1), s1) \<and>
    filewrite False f1 [1, 2, 3] s1 = Ok (3, s2) \<and> fileread False f0 2 s2 = Ok (2, [1, 2], s3)"
proof -
  have "\<exists>s1. pipealloc junk_page demo_proc = Ok (Some (1, 2), s1)"
    by (simp add: pipealloc_def filealloc_def demo_proc_def free_file_def upd_file_def numeral_eq_Suc)
  then obtain s1 where p: "pipealloc junk_page demo_proc = Ok (Some (1, 2), s1)" by blast
  from pipe_carries_bytes [OF p, of "[1, 2, 3]" False 2] p show ?thesis by (auto simp: junk_page_def)
qed


lemma demo_proc_same:
  "file_ok 0 demo_proc" "fbytes 0 demo_proc = []" "900 \<le> nfree demo_proc"
proof -
  have m: "maddr demo_proc = maddr demo_fs" "bused demo_proc = bused demo_fs" "fblk demo_proc = fblk demo_fs" "fsb demo_proc = fsb demo_fs"
    by (simp_all add: fun_eq_iff maddr_def bused_def demo_proc_def demo_fs_def)
  have d: "i_d (ino demo_proc 0) = i_d (ino demo_fs 0)" "length (icache demo_proc) = length (icache demo_fs)"
    by (simp_all add: demo_proc_def demo_fs_def)
  have "iblocks demo_proc = iblocks demo_fs" "icontent demo_proc = icontent demo_fs" using m by (simp_all add: fun_eq_iff iblocks_def icontent_def)
  then show "file_ok 0 demo_proc" "fbytes 0 demo_proc = []" "900 \<le> nfree demo_proc"
    using demo_file_ok demo_nfree m d by (simp_all add: file_ok_def finode_ok_def blocks_ok_def fbytes_def fsize_def nfree_def)
qed


text \<open>C30: A pointer argument of a system call that is accepted lies with all its bytes in the
  memory of the process, and so does a string argument with its terminator: no system call reads or
  writes user memory beyond \<^verbatim>\<open>proc->sz\<close>, however the argument is chosen. \<^verbatim>\<open>sz\<close> is at most \<open>KERNBASE\<close>.\<close>

theorem arguments_in_range:
  assumes "usz s \<le> 0x80000000"
  shows "(case argptr n len s of None \<Rightarrow> True | Some p \<Rightarrow> unat p < unat (usz s) \<and> unat p + unat len \<le> unat (usz s)) \<and>
    (case argstr n s of None \<Rightarrow> True
     | Some str \<Rightarrow> \<exists>p. argint n s = Some p \<and> unat p + length str < unat (usz s) \<and>
         str = user_load s p (length str) \<and> umem s (p + of_nat (length str)) = 0 \<and> 0 \<notin> set str)"
proof -
  have sz: "unat (usz s) \<le> 0x80000000" using assms by (simp add: word_le_nat_alt)
  have ptr: "unat p < unat (usz s) \<and> unat p + unat len \<le> unat (usz s)" if "argptr n len s = Some p" for p
  proof -
    have a: "\<not> sint len < 0" "p < usz s" "\<not> p + len > usz s"
      using that by (auto simp: argptr_def not_le split: option.splits if_splits)
    have "int (unat len) < 2 ^ 31" using sint_nonneg [OF a(1)] sint_lt [of len] by simp
    then have "unat len < 2 ^ 31" by (simp only: of_nat_less_numeral_power_cancel_iff)
    moreover have "unat p < unat (usz s)" using a(2) by (simp add: word_less_nat_alt)
    ultimately have "unat (p + len) = unat p + unat len" using sz by (simp add: unat_word_ariths)
    then show ?thesis using a(2,3) by (simp add: word_less_nat_alt word_le_nat_alt not_less)
  qed
  have str: "unat p + length str < unat (usz s) \<and> str = user_load s p (length str) \<and>
      umem s (p + of_nat (length str)) = 0 \<and> 0 \<notin> set str" if "fetchstr_loop p s = Some str" for p str
    using fetchstr_loop_Some [OF that] .
  show ?thesis
    using ptr str by (auto simp: argstr_def fetchstr_def split: option.splits if_splits)
qed

theorem arguments_in_range_witness:
  "argstr 0 (demo_proc\<lparr>umem := (\<lambda>v. if v = 0x3F05 then 0x3F else 0)\<rparr>) = Some [] \<and>
    argint 0 (demo_proc\<lparr>umem := (\<lambda>v. if v = 0x3F05 then 0x3F else 0)\<rparr>) = Some 0x3F00"
proof -
  define s where "s = demo_proc\<lparr>umem := (\<lambda>v. if v = 0x3F05 then 0x3F else 0)\<rparr>"
  have "usz s \<le> 0x80000000" by (simp add: s_def demo_proc_def)
  note arguments_in_range [OF this, of 0 0]
  then show ?thesis
    by (simp add: s_def argstr_def argint_def fetchint_def demo_proc_def user_load_def le32_def fetchstr_def fetchstr_loop.simps upt_rec)
qed

end
