(* ===== verification/Console.thy ===== *)
theory Console
  imports Ring
begin

text \<open>
  The console's line discipline (console.c): the input ring with its read, write and edit
  indices, \<^verbatim>\<open>consoleintr\<close>, \<^verbatim>\<open>consoleread\<close> and \<^verbatim>\<open>consolewrite\<close>. What \<^verbatim>\<open>consputc\<close> is given, \<^verbatim>\<open>BACKSPACE\<close>
  included, is recorded in \<open>c_out\<close>; the calls of \<^verbatim>\<open>wakeup(&input.r)\<close> and of \<^verbatim>\<open>procdump\<close> are
  counted. \<^verbatim>\<open>cons.lock\<close> is held for a whole \<^verbatim>\<open>consoleintr\<close>, and by \<^verbatim>\<open>consoleread\<close> until it sleeps.
\<close>

section \<open>Operations\<close>

abbreviation INPUT_BUF :: nat where "INPUT_BUF \<equiv> 128"
abbreviation BACKSPACE :: nat where "BACKSPACE \<equiv> 256"

definition Ctl :: "nat \<Rightarrow> nat" where
  "Ctl x = x - 64"

record cons =
  c_buf :: "u8 list"
  c_r :: u32
  c_w :: u32
  c_e :: u32
  c_out :: "nat list"
  c_wakeups :: nat
  c_dumps :: nat

definition erase1 :: "cons \<Rightarrow> cons" where
  "erase1 s = s\<lparr>c_e := c_e s - 1, c_out := c_out s @ [BACKSPACE]\<rparr>"

function kill_line :: "cons \<Rightarrow> cons" where
  "kill_line s =
     (if c_e s \<noteq> c_w s \<and> c_buf s ! (unat (c_e s - 1) mod INPUT_BUF) \<noteq> 10 then kill_line (erase1 s) else s)"
  by auto
termination
proof (relation "measure (\<lambda>s. unat (c_e s - c_w s))", simp, goal_cases)
  case (1 s)
  then show ?case using word_dist_Suc [of "c_e s" "c_w s"] by (simp add: erase1_def diff_diff_eq add.commute)
qed

declare kill_line.simps [simp del]

definition cons_store :: "nat \<Rightarrow> cons \<Rightarrow> cons" where
  "cons_store c s =
     (let s1 = s\<lparr>c_buf := (c_buf s)[unat (c_e s) mod INPUT_BUF := of_nat c], c_e := c_e s + 1, c_out := c_out s @ [c]\<rparr>
      in if c = 10 \<or> c = Ctl 68 \<or> c_e s1 = c_r s1 + of_nat INPUT_BUF
         then s1\<lparr>c_w := c_e s1, c_wakeups := c_wakeups s1 + 1\<rparr> else s1)"

definition cons_char :: "nat \<Rightarrow> cons \<Rightarrow> cons" where
  "cons_char c s =
     (if c = Ctl 80 then s
      else if c = Ctl 85 then kill_line s
      else if c = Ctl 72 \<or> c = 127 then (if c_e s \<noteq> c_w s then erase1 s else s)
      else if c \<noteq> 0 \<and> c_e s - c_r s < of_nat INPUT_BUF then cons_store (if c = 13 then 10 else c) s
      else s)"

text \<open>\<open>cs\<close> is what \<^verbatim>\<open>getc\<close> returns before its first negative value.\<close>

definition consoleintr :: "nat list \<Rightarrow> cons \<Rightarrow> cons" where
  "consoleintr cs s =
     (let s1 = fold cons_char cs s
      in if Ctl 80 \<in> set cs then s1\<lparr>c_dumps := c_dumps s1 + 1\<rparr> else s1)"

text \<open>A section of \<^verbatim>\<open>consoleread\<close> that still wants \<open>n\<close> of \<open>target\<close> bytes: how it ends, the bytes stored.\<close>

datatype cend = CReturn | CError | CSleep nat

fun consoleread :: "bool \<Rightarrow> nat \<Rightarrow> nat \<Rightarrow> cons \<Rightarrow> cend \<times> u8 list \<times> cons" where
  "consoleread killed target 0 s = (CReturn, [], s)"
| "consoleread killed target (Suc n) s =
     (if c_r s = c_w s then (if killed then CError else CSleep (Suc n), [], s)
      else let c = c_buf s ! (unat (c_r s) mod INPUT_BUF); s1 = s\<lparr>c_r := c_r s + 1\<rparr>
           in if unat c = Ctl 68 then (CReturn, [], if Suc n < target then s1\<lparr>c_r := c_r s1 - 1\<rparr> else s1)
              else if c = 10 then (CReturn, [c], s1)
              else let (r, bs, s2) = consoleread killed target n s1 in (r, c # bs, s2))"

definition consolewrite :: "u8 list \<Rightarrow> cons \<Rightarrow> int \<times> cons" where
  "consolewrite bs s = (int (length bs), s\<lparr>c_out := c_out s @ map unat bs\<rparr>)"

section \<open>The line discipline on lists\<close>

text \<open>The specification: the bytes ready for readers, and the line being edited.\<close>

definition line_char :: "nat \<Rightarrow> u8 list \<times> u8 list \<Rightarrow> u8 list \<times> u8 list" where
  "line_char c = (\<lambda>(ready, pend).
     if c = 16 \<or> c = 0 then (ready, pend)
     else if c = 21 then (ready, [])
     else if c = 8 \<or> c = 127 then (ready, butlast pend)
     else if length ready + length pend = INPUT_BUF then (ready, pend)
     else if c = 10 \<or> c = 13 then (ready @ pend @ [10], [])
     else if c = 4 \<or> length ready + length pend + 1 = INPUT_BUF then (ready @ pend @ [of_nat c], [])
     else (ready, pend @ [of_nat c]))"

fun read_line :: "bool \<Rightarrow> nat \<Rightarrow> nat \<Rightarrow> u8 list \<Rightarrow> cend \<times> u8 list \<times> u8 list" where
  "read_line killed target 0 xs = (CReturn, [], xs)"
| "read_line killed target (Suc n) [] = (if killed then CError else CSleep (Suc n), [], [])"
| "read_line killed target (Suc n) (x # xs) =
     (if x = 4 then (CReturn, [], if Suc n < target then x # xs else xs)
      else if x = 10 then (CReturn, [x], xs)
      else let (r, bs, ys) = read_line killed target n xs in (r, x # bs, ys))"

section \<open>The ring implements it\<close>

interpretation cr: ring INPUT_BUF
  by unfold_locales (simp_all add: dvd_def exI [of _ "2 ^ 25"])

definition c_all :: "cons \<Rightarrow> u8 list" where
  "c_all s = ring_bytes INPUT_BUF (c_buf s) (c_r s) (c_e s)"

definition c_ready :: "cons \<Rightarrow> u8 list" where
  "c_ready s = take (unat (c_w s - c_r s)) (c_all s)"

definition c_pend :: "cons \<Rightarrow> u8 list" where
  "c_pend s = drop (unat (c_w s - c_r s)) (c_all s)"

definition cons_ok :: "cons \<Rightarrow> bool" where
  "cons_ok s \<longleftrightarrow> length (c_buf s) = INPUT_BUF \<and> unat (c_e s - c_r s) \<le> INPUT_BUF \<and>
     unat (c_w s - c_r s) \<le> unat (c_e s - c_r s) \<and> 10 \<notin> set (c_pend s)"

definition line_state :: "cons \<Rightarrow> u8 list \<times> u8 list" where
  "line_state s = (c_ready s, c_pend s)"

lemma length_c_all [simp]: "length (c_all s) = unat (c_e s - c_r s)"
  by (simp add: c_all_def)

lemma ring_bytes_drop_last:
  assumes "e \<noteq> r"
  shows "ring_bytes N buf r e = ring_bytes N buf r (e - 1) @ [buf ! (unat (e - 1) mod N)]"
proof -
  have "unat (e - r) = Suc (unat (e - 1 - r))"
    using word_dist_Suc [OF assms] by (simp add: diff_diff_eq add.commute)
  moreover have "r + of_nat (unat (e - 1 - r)) = e - 1" by simp
  ultimately show ?thesis by (simp add: ring_bytes_def del: of_nat_unat)
qed

lemma edit_nonempty:
  assumes "unat (w - r) \<le> unat (e - r)" "e \<noteq> w"
  shows "unat (w - r) < unat (e - r)" "e \<noteq> (r :: u32)"
proof -
  have "unat (w - r) \<noteq> unat (e - r)" using assms(2) by (metis diff_add_cancel word_unat_eq_iff)
  then show "unat (w - r) < unat (e - r)" using assms(1) by simp
  then show "e \<noteq> r" by auto
qed

lemma erase1_ok:
  assumes "cons_ok s" "c_e s \<noteq> c_w s"
  shows "cons_ok (erase1 s)" "c_ready (erase1 s) = c_ready s" "c_pend (erase1 s) = butlast (c_pend s)"
    "c_buf s ! (unat (c_e s - 1) mod INPUT_BUF) \<in> set (c_pend s)"
proof -
  have o: "unat (c_w s - c_r s) \<le> unat (c_e s - c_r s)" "10 \<notin> set (c_pend s)" using assms(1) by (simp_all add: cons_ok_def)
  note ne = edit_nonempty [OF o(1) assms(2)]
  have all: "c_all s = c_all (erase1 s) @ [c_buf s ! (unat (c_e s - 1) mod INPUT_BUF)]"
    using ring_bytes_drop_last [OF ne(2)] by (simp add: c_all_def erase1_def)
  have len: "unat (c_e s - c_r s) = Suc (length (c_all (erase1 s)))" using arg_cong [OF all, of length] by simp
  show r: "c_ready (erase1 s) = c_ready s" using len ne(1) by (simp add: c_ready_def all) (simp add: erase1_def)
  show p: "c_pend (erase1 s) = butlast (c_pend s)" using len ne(1)
    by (simp add: c_pend_def all butlast_append) (simp add: erase1_def)
  show "c_buf s ! (unat (c_e s - 1) mod INPUT_BUF) \<in> set (c_pend s)" using len ne(1) by (simp add: c_pend_def all)
  have "unat (c_e (erase1 s) - c_r s) = length (c_all (erase1 s))" by (simp add: erase1_def)
  then show "cons_ok (erase1 s)" using assms(1) len ne(1) o(2) p
    by (auto simp: cons_ok_def erase1_def dest: in_set_butlastD)
qed

lemma kill_line_ok:
  "cons_ok s \<Longrightarrow> cons_ok (kill_line s) \<and> c_ready (kill_line s) = c_ready s \<and> c_pend (kill_line s) = []"
proof (induction s rule: kill_line.induct)
  case (1 s)
  show ?case
  proof (cases "c_e s = c_w s")
    case True
    then show ?thesis using 1(2) by (simp add: kill_line.simps [of s] c_pend_def)
  next
    case False
    note e = erase1_ok [OF 1(2) False]
    have nl: "c_buf s ! (unat (c_e s - 1) mod INPUT_BUF) \<noteq> 10" using e(4) 1(2) by (auto simp: cons_ok_def)
    show ?thesis using 1(1) [OF _ e(1)] False nl e(2) by (simp add: kill_line.simps [of s])
  qed
qed


lemma line_of_all: "cons_ok s \<Longrightarrow> c_all s = c_ready s @ c_pend s"
  by (simp add: c_ready_def c_pend_def)

lemma length_ready: "cons_ok s \<Longrightarrow> length (c_ready s) = unat (c_w s - c_r s)"
  by (simp add: c_ready_def cons_ok_def)

lemma cons_room_iff: "c_e s - c_r s < of_nat INPUT_BUF \<longleftrightarrow> length (c_all s) < INPUT_BUF"
  by (simp add: word_less_nat_alt)

lemma byte_not_newline:
  assumes "c < 256" "c \<noteq> 10"
  shows "(of_nat c :: u8) \<noteq> 10"
proof
  assume "(of_nat c :: u8) = 10"
  then have "unat (of_nat c :: u8) = unat (10 :: u8)" by (rule arg_cong)
  moreover have "unat (of_nat c :: u8) = c" using assms(1) by (simp add: unat_of_nat)
  moreover have "unat (10 :: u8) = 10" by simp
  ultimately show False using assms(2) by metis
qed

lemma cons_store_ok:
  assumes "cons_ok s" "length (c_all s) < INPUT_BUF" "c < 256"
  shows "cons_ok (cons_store c s) \<and>
    line_state (cons_store c s) =
      (if c = 10 \<or> c = 4 \<or> length (c_all s) + 1 = INPUT_BUF then (c_all s @ [of_nat c], [])
       else (c_ready s, c_pend s @ [of_nat c]))"
proof -
  define s1 where "s1 = s\<lparr>c_buf := (c_buf s)[unat (c_e s) mod INPUT_BUF := of_nat c], c_e := c_e s + 1, c_out := c_out s @ [c]\<rparr>"
  have lt: "unat (c_e s - c_r s) < INPUT_BUF" using assms(2) by simp
  have len: "length (c_buf s) = INPUT_BUF" "unat (c_w s - c_r s) \<le> unat (c_e s - c_r s)" using assms(1) by (simp_all add: cons_ok_def)
  have all1: "c_all s1 = c_all s @ [of_nat c]" using cr.put [OF len(1) lt] by (simp add: c_all_def s1_def)
  have e1: "unat (c_e s1 - c_r s1) = length (c_all s) + 1" using cr.advance [OF lt] by (simp add: s1_def)
  have full: "c_e s1 = c_r s1 + of_nat INPUT_BUF \<longleftrightarrow> length (c_all s) + 1 = INPUT_BUF"
    using cr.full_iff [of "c_e s1" "c_r s1"] e1 lt by simp
  show ?thesis
  proof (cases "c = 10 \<or> c = 4 \<or> length (c_all s) + 1 = INPUT_BUF")
    case True
    then have st: "cons_store c s = s1\<lparr>c_w := c_e s1, c_wakeups := c_wakeups s1 + 1\<rparr>"
      using full by (auto simp: cons_store_def Let_def Ctl_def simp flip: s1_def)
    have all: "c_all (cons_store c s) = c_all s @ [of_nat c]" using all1 by (simp add: st c_all_def)
    have "unat (c_w (cons_store c s) - c_r (cons_store c s)) = length (c_all s) + 1"
      "unat (c_e (cons_store c s) - c_r (cons_store c s)) = length (c_all s) + 1" using e1 by (simp_all add: st)
    then show ?thesis using True all len lt
      by (simp add: line_state_def c_ready_def c_pend_def cons_ok_def) (simp add: st s1_def)
  next
    case False
    then have st: "cons_store c s = s1" using full by (auto simp: cons_store_def Let_def Ctl_def simp flip: s1_def)
    have ne: "of_nat c \<noteq> (10 :: u8)" using False assms(3) byte_not_newline by blast
    have w: "c_w s1 = c_w s" "c_r s1 = c_r s" "length (c_buf s1) = INPUT_BUF" using len by (simp_all add: s1_def)
    have "c_ready s1 = c_ready s" "c_pend s1 = c_pend s @ [of_nat c]"
      using len(2) by (simp_all add: c_ready_def c_pend_def all1 w)
    then show ?thesis using False assms(1) e1 lt len(2) ne w by (simp add: st line_state_def cons_ok_def)
  qed
qed

lemma cons_char_refines:
  assumes "cons_ok s" "c < 256"
  shows "cons_ok (cons_char c s) \<and> line_state (cons_char c s) = line_char c (line_state s)"
proof -
  have all: "c_all s = c_ready s @ c_pend s" using line_of_all [OF assms(1)] .
  have le: "length (c_all s) \<le> INPUT_BUF" using assms(1) by (simp add: cons_ok_def)
  have pe: "c_pend s = [] \<longleftrightarrow> c_e s = c_w s"
  proof
    assume "c_pend s = []"
    then have "unat (c_e s - c_r s) = unat (c_w s - c_r s)" using assms(1) by (simp add: c_pend_def cons_ok_def)
    then show "c_e s = c_w s" by (metis diff_add_cancel word_unat_eq_iff)
  qed (simp add: c_pend_def)
  consider "c = 16 \<or> c = 0" | "c = 21" | "c = 8 \<or> c = 127" | "c \<noteq> 16" "c \<noteq> 0" "c \<noteq> 21" "c \<noteq> 8" "c \<noteq> 127" by blast
  then show ?thesis
  proof cases
    case 1
    then show ?thesis using assms(1) by (auto simp: cons_char_def line_char_def Ctl_def line_state_def)
  next
    case 2
    then show ?thesis using kill_line_ok [OF assms(1)] by (simp add: cons_char_def line_char_def Ctl_def line_state_def)
  next
    case 3
    then show ?thesis using erase1_ok [OF assms(1)] assms(1) pe by (auto simp: cons_char_def line_char_def Ctl_def line_state_def)
  next
    case 4
    define d where "d = (if c = 13 then 10 else c)"
    have d: "d < 256" using assms(2) by (simp add: d_def)
    have st: "cons_char c s = (if length (c_all s) < INPUT_BUF then cons_store d s else s)"
      using 4 cons_room_iff [of s] by (simp add: cons_char_def Ctl_def d_def del: length_c_all)
    show ?thesis
    proof (cases "length (c_all s) = INPUT_BUF")
      case True
      then show ?thesis using st 4 assms(1) all by (simp add: line_char_def line_state_def)
    next
      case False
      then have lt: "length (c_all s) < INPUT_BUF" using le by simp
      show ?thesis using cons_store_ok [OF assms(1) lt d] lt False 4
        by (auto simp: st all line_char_def line_state_def d_def)
    qed
  qed
qed

lemma consoleintr_refines:
  assumes "cons_ok s" "list_all (\<lambda>c. c < 256) cs"
  shows "cons_ok (consoleintr cs s) \<and> line_state (consoleintr cs s) = fold line_char cs (line_state s)"
proof -
  have "cons_ok (fold cons_char cs s) \<and> line_state (fold cons_char cs s) = fold line_char cs (line_state s)"
    using assms
  proof (induction cs arbitrary: s)
    case (Cons c cs)
    then show ?case using cons_char_refines [of s c] by simp
  qed simp
  then show ?thesis
    by (simp add: consoleintr_def Let_def cons_ok_def line_state_def c_ready_def c_pend_def c_all_def)
qed

section \<open>Reading\<close>

lemma cons_take_ok:
  assumes "cons_ok s" "c_r s \<noteq> c_w s"
  shows "cons_ok (s\<lparr>c_r := c_r s + 1\<rparr>)"
    "c_ready s = c_buf s ! (unat (c_r s) mod INPUT_BUF) # c_ready (s\<lparr>c_r := c_r s + 1\<rparr>)" "c_pend (s\<lparr>c_r := c_r s + 1\<rparr>) = c_pend s"
proof -
  have w: "unat (c_w s - c_r s) = Suc (unat (c_w s - (c_r s + 1)))" using word_dist_Suc assms(2) by metis
  then have ne: "c_e s \<noteq> c_r s" using assms(1) by (auto simp: cons_ok_def)
  then have e: "unat (c_e s - c_r s) = Suc (unat (c_e s - (c_r s + 1)))" by (rule word_dist_Suc)
  have all: "c_all s = c_buf s ! (unat (c_r s) mod INPUT_BUF) # c_all (s\<lparr>c_r := c_r s + 1\<rparr>)"
    using ring_bytes_get [OF ne] by (simp add: c_all_def)
  show "c_ready s = c_buf s ! (unat (c_r s) mod INPUT_BUF) # c_ready (s\<lparr>c_r := c_r s + 1\<rparr>)"
    by (simp add: c_ready_def all w)
  show p: "c_pend (s\<lparr>c_r := c_r s + 1\<rparr>) = c_pend s" by (simp add: c_pend_def all w)
  show "cons_ok (s\<lparr>c_r := c_r s + 1\<rparr>)" using assms(1) w e p by (simp add: cons_ok_def)
qed

lemma consoleread_refines:
  assumes "cons_ok s" "consoleread killed target n s = (r, bs, s')"
  shows "cons_ok s' \<and> read_line killed target n (c_ready s) = (r, bs, c_ready s') \<and> c_pend s' = c_pend s"
  using assms
proof (induction n arbitrary: s bs)
  case 0
  then show ?case by simp
next
  case (Suc n)
  show ?case
  proof (cases "c_r s = c_w s")
    case True
    then have "c_ready s = []" by (simp add: c_ready_def)
    then show ?thesis using Suc.prems True by auto
  next
    case False
    define c s1 where "c = c_buf s ! (unat (c_r s) mod INPUT_BUF)" and "s1 = s\<lparr>c_r := c_r s + 1\<rparr>"
    note t = cons_take_ok [OF Suc.prems(1) False, folded c_def s1_def]
    have four: "unat c = Ctl 68 \<longleftrightarrow> c = 4" using word_unat_eq_iff [of c 4] by (simp add: Ctl_def)
    have unget: "s1\<lparr>c_r := c_r s1 - 1\<rparr> = s" by (simp add: s1_def)
    show ?thesis
    proof (cases "c = 4 \<or> c = 10")
      case True
      then show ?thesis using Suc.prems False t four unget
        by (auto simp: Let_def simp flip: c_def s1_def split: if_splits)
    next
      case F: False
      obtain r1 cs s2 where run: "consoleread killed target n s1 = (r1, cs, s2)" by (metis prod_cases3)
      then have eq: "r1 = r" "bs = c # cs" "s2 = s'" using Suc.prems(2) False F four
        by (simp_all add: Let_def flip: c_def s1_def)
      show ?thesis using Suc.IH [OF t(1)] run F t eq by auto
    qed
  qed
qed

section \<open>Lines\<close>

lemma line_chars:
  assumes "list_all (\<lambda>c. 32 \<le> c \<and> c < 127) cs" "length ready + length pend + length cs < INPUT_BUF"
  shows "fold line_char cs (ready, pend) = (ready, pend @ map of_nat cs)"
  using assms
proof (induction cs arbitrary: pend)
  case (Cons c cs)
  then have "line_char c (ready, pend) = (ready, pend @ [of_nat c])" by (simp add: line_char_def)
  then show ?case using Cons by simp
qed simp

lemma read_plain:
  assumes "\<forall>x \<in> set xs. x \<noteq> 4 \<and> x \<noteq> 10" "length xs < n"
  shows "read_line killed target n (xs @ 10 # ys) = (CReturn, xs @ [10], ys)"
  using assms
proof (induction xs arbitrary: n)
  case Nil
  then show ?case by (cases n) auto
next
  case (Cons x xs)
  then obtain m where "n = Suc m" by (cases n) auto
  then show ?case using Cons by simp
qed

lemma printable_byte:
  assumes "32 \<le> c" "c < 127"
  shows "(of_nat c :: u8) \<noteq> 4 \<and> (of_nat c :: u8) \<noteq> 10"
proof -
  have "unat (of_nat c :: u8) = c" using assms by (simp add: unat_of_nat)
  moreover have "unat (4 :: u8) = 4" "unat (10 :: u8) = 10" by simp_all
  ultimately show ?thesis using assms by fastforce
qed

lemma read_line_parts:
  "read_line killed target n xs = (r, bs, ys) \<Longrightarrow> n \<le> target \<Longrightarrow>
    length bs \<le> n \<and> 4 \<notin> set bs \<and> 10 \<notin> set (butlast bs) \<and>
    (xs = bs @ ys \<or> (r = CReturn \<and> bs = [] \<and> n = target \<and> xs = 4 # ys))"
proof (induction n arbitrary: xs bs)
  case 0
  then show ?case by simp
next
  case (Suc n)
  show ?case
  proof (cases xs)
    case Nil
    then show ?thesis using Suc.prems by simp
  next
    case (Cons x xs')
    show ?thesis
    proof (cases "x = 4 \<or> x = 10")
      case True
      then show ?thesis using Suc.prems Cons by (auto split: if_splits)
    next
      case False
      then obtain cs where "read_line killed target n xs' = (r, cs, ys)" "bs = x # cs"
        using Suc.prems Cons by (auto split: prod.splits)
      then show ?thesis using Suc.IH [of xs' cs] Suc.prems(2) False Cons by (auto split: if_splits)
    qed
  qed
qed

section \<open>Properties\<close>

definition cons0 :: cons where
  "cons0 = \<lparr>c_buf = replicate INPUT_BUF 0, c_r = 0, c_w = 0, c_e = 0, c_out = [], c_wakeups = 0, c_dumps = 0\<rparr>"

lemma cons0_ok: "cons_ok cons0" "line_state cons0 = ([], [])"
  by (simp_all add: cons0_def cons_ok_def line_state_def c_ready_def c_pend_def c_all_def)

text \<open>C34: \<^verbatim>\<open>consoleintr\<close>, on the ring with its three wrapping indices, does to the bytes ready for
  readers and to the line being edited what the line discipline says: kill line, backspace,
  carriage return as newline, end of file, and a line that ends when the buffer is full.\<close>

theorem consoleintr_line_discipline:
  assumes "cons_ok s" "list_all (\<lambda>c. c < 256) cs"
  shows "cons_ok (consoleintr cs s) \<and> line_state (consoleintr cs s) = fold line_char cs (line_state s)"
  using assms by (rule consoleintr_refines)

theorem consoleintr_line_discipline_witness:
  "line_state (consoleintr [104, 105, 8, 97, 13, 120] cons0) = ([104, 97, 10], [120])"
  using consoleintr_line_discipline [OF cons0_ok(1), of "[104, 105, 8, 97, 13, 120]"]
  by (simp add: cons0_ok line_char_def)

text \<open>A read of the console returns at most one line and at most what was asked for, never a
  control-D; what it did not return stays for the next read, a control-D included unless it is
  the first byte.\<close>

theorem consoleread_one_line:
  assumes "cons_ok s" "n \<le> target" "consoleread killed target n s = (r, bs, s')"
  shows "cons_ok s' \<and> length bs \<le> n \<and> 4 \<notin> set bs \<and> 10 \<notin> set (butlast bs) \<and>
    (c_ready s = bs @ c_ready s' \<or> (r = CReturn \<and> bs = [] \<and> n = target \<and> c_ready s = 4 # c_ready s'))"
  using consoleread_refines [OF assms(1,3)] read_line_parts [OF _ assms(2)] by blast

theorem consoleread_one_line_witness:
  "cons_ok (snd (snd (consoleread False 5 5 (consoleintr [97, 13, 98, 13] cons0))))"
proof -
  have ok: "cons_ok (consoleintr [97, 13, 98, 13] cons0)"
    using consoleintr_refines [of cons0 "[97, 13, 98, 13]"] cons0_ok(1) by simp
  show ?thesis
    using consoleread_one_line [OF ok, of 5 5 False] by (metis le_refl prod.collapse)
qed

text \<open>A printable line that is typed, ended by return, and read is the line, with a newline.\<close>

theorem console_echoes_line:
  assumes "cons_ok s" "line_state s = ([], [])" "list_all (\<lambda>c. 32 \<le> c \<and> c < 127) line" "length line + 1 < INPUT_BUF" "length line < n"
  shows "\<exists>s'. consoleread killed n n (consoleintr (line @ [13]) s) = (CReturn, map of_nat line @ [10], s') \<and>
    cons_ok s' \<and> line_state s' = ([], [])"
proof -
  define s1 where "s1 = consoleintr (line @ [13]) s"
  have "list_all (\<lambda>c. c < 256) (line @ [13])" using assms(3) by (auto simp: list_all_iff)
  from consoleintr_refines [OF assms(1) this]
  have s1: "cons_ok s1" "line_state s1 = (map of_nat line @ [10], [])"
    using line_chars [OF assms(3), of "[]" "[]"] assms(2,4) by (simp_all add: s1_def line_char_def)
  obtain r bs s' where run: "consoleread killed n n s1 = (r, bs, s')" by (metis prod_cases3)
  have "\<forall>x \<in> set (map of_nat line :: u8 list). x \<noteq> 4 \<and> x \<noteq> 10"
    using assms(3) printable_byte by (auto simp: list_all_iff)
  from read_plain [OF this, of n killed n "[]"] have "read_line killed n n (c_ready s1) = (CReturn, map of_nat line @ [10], [])"
    using s1(2) assms(5) by (simp add: line_state_def)
  with consoleread_refines [OF s1(1) run] s1(2) show ?thesis
    by (intro exI [of _ s']) (simp add: run line_state_def flip: s1_def)
qed

theorem console_echoes_line_witness:
  "\<exists>s'. consoleread False 10 10 (consoleintr ([108, 115] @ [13]) cons0) = (CReturn, map of_nat [108, 115] @ [10], s') \<and>
    cons_ok s' \<and> line_state s' = ([], [])"
  by (rule console_echoes_line) (simp_all add: cons0_ok)

end
