(* ===== verification/Spinlock.thy ===== *)
theory Spinlock
  imports Xv6_Prelude
begin

text \<open>
  Spin locks (spinlock.c) and sleep locks (sleeplock.c) on several processors. The state is the
  interrupt flag, the depth of \<^verbatim>\<open>pushcli\<close> calls and the saved flag of each processor, and the
  fields of each lock. \<^verbatim>\<open>acquire\<close> and \<^verbatim>\<open>release\<close> are cut where another processor can come in
  between: the loop on the atomic \<^verbatim>\<open>xchg\<close>, the stores after it, and the store that frees the
  lock. What both kinds of lock promise their users is stated once, as a locale.
\<close>

section \<open>State\<close>

record cpu =
  iflag :: bool
  ncli :: int
  intena :: bool

record spinlock =
  sl_locked :: bool
  sl_cpu :: "nat option"
  sl_pcs :: "u32 list"

record smp =
  cpus :: "cpu list"
  locks :: "spinlock list"

definition upd_cpu :: "nat \<Rightarrow> (cpu \<Rightarrow> cpu) \<Rightarrow> 'a smp_scheme \<Rightarrow> 'a smp_scheme" where
  "upd_cpu c f s = s\<lparr>cpus := (cpus s)[c := f (cpus s ! c)]\<rparr>"

definition upd_lock :: "nat \<Rightarrow> (spinlock \<Rightarrow> spinlock) \<Rightarrow> 'a smp_scheme \<Rightarrow> 'a smp_scheme" where
  "upd_lock l f s = s\<lparr>locks := (locks s)[l := f (locks s ! l)]\<rparr>"

section \<open>Interrupts off and on again\<close>

text \<open>\<^verbatim>\<open>mycpu\<close> (proc.c): a processor is named by its number.\<close>

definition mycpu :: "nat \<Rightarrow> 'a smp_scheme \<Rightarrow> nat res" where
  "mycpu c s = (if iflag (cpus s ! c) then Panic ''mycpu called with interrupts enabled'' else Ok c)"

definition pushcli :: "nat \<Rightarrow> 'a smp_scheme \<Rightarrow> 'a smp_scheme res" where
  "pushcli c s =
     (let eflags = iflag (cpus s ! c);
          s1 = upd_cpu c (\<lambda>u. u\<lparr>iflag := False\<rparr>) s
      in bindR (mycpu c s1) (\<lambda>m.
         let s2 = (if ncli (cpus s1 ! m) = 0 then upd_cpu m (\<lambda>u. u\<lparr>intena := eflags\<rparr>) s1 else s1)
         in Ok (upd_cpu m (\<lambda>u. u\<lparr>ncli := ncli u + 1\<rparr>) s2)))"

definition popcli :: "nat \<Rightarrow> 'a smp_scheme \<Rightarrow> 'a smp_scheme res" where
  "popcli c s =
     (if iflag (cpus s ! c) then Panic ''popcli - interruptible''
      else bindR (mycpu c s) (\<lambda>m.
           let s1 = upd_cpu m (\<lambda>u. u\<lparr>ncli := ncli u - 1\<rparr>) s
           in if ncli (cpus s1 ! m) < 0 then Panic ''popcli''
              else if ncli (cpus s1 ! m) = 0 \<and> intena (cpus s1 ! m)
                   then Ok (upd_cpu c (\<lambda>u. u\<lparr>iflag := True\<rparr>) s1)
                   else Ok s1))"

section \<open>Spin locks\<close>

definition initlock :: "nat \<Rightarrow> 'a smp_scheme \<Rightarrow> 'a smp_scheme" where
  "initlock l s = upd_lock l (\<lambda>k. k\<lparr>sl_locked := False, sl_cpu := None\<rparr>) s"

text \<open>The loop of \<^verbatim>\<open>getcallerpcs\<close> from the frame \<open>ebp\<close> on, over the memory words \<open>ld\<close>, with \<open>n\<close>
  entries to fill.\<close>

fun getcallerpcs_loop :: "(u32 \<Rightarrow> u32) \<Rightarrow> u32 \<Rightarrow> nat \<Rightarrow> u32 list" where
  "getcallerpcs_loop ld ebp 0 = []"
| "getcallerpcs_loop ld ebp (Suc n) =
     (if ebp = 0 \<or> ebp < 0x80000000 \<or> ebp = 0xffffffff then replicate (Suc n) 0
      else ld (ebp + 4) # getcallerpcs_loop ld (ld ebp) n)"

definition getcallerpcs :: "(u32 \<Rightarrow> u32) \<Rightarrow> u32 \<Rightarrow> u32 list" where
  "getcallerpcs ld v = getcallerpcs_loop ld (v - 8) 10"

definition holding :: "nat \<Rightarrow> nat \<Rightarrow> 'a smp_scheme \<Rightarrow> (bool \<times> 'a smp_scheme) res" where
  "holding c l s =
     bindR (pushcli c s) (\<lambda>s1.
     bindR (mycpu c s1) (\<lambda>m.
     let r = (sl_locked (locks s1 ! l) \<and> sl_cpu (locks s1 ! l) = Some m)
     in bindR (popcli c s1) (\<lambda>s2. Ok (r, s2))))"

text \<open>\<^verbatim>\<open>acquire\<close> up to its loop, one \<^verbatim>\<open>xchg\<close> of the loop, and what follows it.\<close>

definition acquire_enter :: "nat \<Rightarrow> nat \<Rightarrow> 'a smp_scheme \<Rightarrow> 'a smp_scheme res" where
  "acquire_enter c l s =
     bindR (pushcli c s) (\<lambda>s1.
     bindR (holding c l s1) (\<lambda>(r, s2). if r then Panic ''acquire'' else Ok s2))"

definition xchg_lock :: "nat \<Rightarrow> 'a smp_scheme \<Rightarrow> bool \<times> 'a smp_scheme" where
  "xchg_lock l s = (sl_locked (locks s ! l), upd_lock l (\<lambda>k. k\<lparr>sl_locked := True\<rparr>) s)"

definition acquire_done :: "(u32 \<Rightarrow> u32) \<Rightarrow> u32 \<Rightarrow> nat \<Rightarrow> nat \<Rightarrow> 'a smp_scheme \<Rightarrow> 'a smp_scheme res" where
  "acquire_done ld v c l s =
     bindR (mycpu c s) (\<lambda>m. Ok (upd_lock l (\<lambda>k. k\<lparr>sl_cpu := Some m, sl_pcs := getcallerpcs ld v\<rparr>) s))"

text \<open>\<^verbatim>\<open>release\<close> up to the store that frees the lock, and from that store on.\<close>

definition release_begin :: "nat \<Rightarrow> nat \<Rightarrow> 'a smp_scheme \<Rightarrow> 'a smp_scheme res" where
  "release_begin c l s =
     bindR (holding c l s) (\<lambda>(r, s1).
       if r then Ok (upd_lock l (\<lambda>k. k\<lparr>sl_pcs := (sl_pcs k)[0 := 0], sl_cpu := None\<rparr>) s1)
       else Panic ''release'')"

definition release_end :: "nat \<Rightarrow> nat \<Rightarrow> 'a smp_scheme \<Rightarrow> 'a smp_scheme res" where
  "release_end c l s = popcli c (upd_lock l (\<lambda>k. k\<lparr>sl_locked := False\<rparr>) s)"

text \<open>The whole functions, run without interference: on a lock that is taken the loop of \<^verbatim>\<open>acquire\<close>
  does not end.\<close>

definition acquire :: "(u32 \<Rightarrow> u32) \<Rightarrow> u32 \<Rightarrow> nat \<Rightarrow> nat \<Rightarrow> 'a smp_scheme \<Rightarrow> 'a smp_scheme res" where
  "acquire ld v c l s =
     bindR (acquire_enter c l s) (\<lambda>s1.
       case xchg_lock l s1 of (old, s2) \<Rightarrow> if old then Hang else acquire_done ld v c l s2)"

definition release :: "nat \<Rightarrow> nat \<Rightarrow> 'a smp_scheme \<Rightarrow> 'a smp_scheme res" where
  "release c l s = bindR (release_begin c l s) (release_end c l)"

section \<open>Sleep locks\<close>

record sleeplock =
  sk_locked :: bool
  sk_pid :: int

definition initsleeplock :: "sleeplock \<Rightarrow> sleeplock" where
  "initsleeplock k = k\<lparr>sk_locked := False, sk_pid := 0\<rparr>"

text \<open>One pass of the loop of \<^verbatim>\<open>acquiresleep\<close> under the lock's own spin lock: \<open>None\<close> goes to sleep.\<close>

definition acquiresleep :: "int \<Rightarrow> sleeplock \<Rightarrow> sleeplock option" where
  "acquiresleep pid k = (if sk_locked k then None else Some (k\<lparr>sk_locked := True, sk_pid := pid\<rparr>))"

text \<open>\<^verbatim>\<open>releasesleep\<close> also wakes every process that sleeps on the lock.\<close>

definition releasesleep :: "sleeplock \<Rightarrow> sleeplock" where
  "releasesleep k = k\<lparr>sk_locked := False, sk_pid := 0\<rparr>"

definition holdingsleep :: "int \<Rightarrow> sleeplock \<Rightarrow> bool" where
  "holdingsleep pid k \<longleftrightarrow> sk_locked k \<and> sk_pid k = pid"

section \<open>What a lock promises\<close>

datatype 'p lkev = Acq 'p | Rel 'p

text \<open>Critical sections that do not overlap: from a lock owned by \<open>o\<close> on, acquisitions and releases
  alternate and each release is by the process that acquired.\<close>

fun alternates :: "'p option \<Rightarrow> 'p lkev list \<Rightarrow> bool" where
  "alternates w [] = True"
| "alternates w (Acq p # es) = (w = None \<and> alternates (Some p) es)"
| "alternates w (Rel p # es) = (w = Some p \<and> alternates None es)"

fun actor :: "'p lkev \<Rightarrow> 'p" where
  "actor (Acq p) = p"
| "actor (Rel p) = p"

locale lock =
  fixes inv :: "'s \<Rightarrow> bool"
    and who :: "'s \<Rightarrow> 'p \<Rightarrow> bool"
    and owner :: "'s \<Rightarrow> 'p option"
    and acq :: "'p \<Rightarrow> 's \<Rightarrow> 's option"
    and rel :: "'p \<Rightarrow> 's \<Rightarrow> 's option"
  assumes acq_free: "inv s \<Longrightarrow> who s p \<Longrightarrow> owner s = None \<Longrightarrow>
      \<exists>s'. acq p s = Some s' \<and> inv s' \<and> owner s' = Some p \<and> who s' = who s"
    and acq_taken: "inv s \<Longrightarrow> who s p \<Longrightarrow> owner s \<noteq> None \<Longrightarrow> acq p s = None"
    and rel_own: "inv s \<Longrightarrow> owner s = Some p \<Longrightarrow>
      \<exists>s'. rel p s = Some s' \<and> inv s' \<and> owner s' = None \<and> who s' = who s"
begin

text \<open>A schedule of whole acquisitions and releases, where only the owner releases.\<close>

fun run :: "'p lkev list \<Rightarrow> 's \<Rightarrow> 's option" where
  "run [] s = Some s"
| "run (Acq p # es) s = Option.bind (acq p s) (run es)"
| "run (Rel p # es) s = (if owner s = Some p then Option.bind (rel p s) (run es) else None)"

lemma run_sections:
  "inv s \<Longrightarrow> (\<And>e. e \<in> set es \<Longrightarrow> who s (actor e)) \<Longrightarrow> (\<exists>s'. run es s = Some s') \<longleftrightarrow> alternates (owner s) es"
proof (induction es arbitrary: s)
  case Nil
  show ?case by simp
next
  case (Cons e es)
  show ?case
  proof (cases e)
    case (Acq p)
    have p: "who s p" using Cons.prems(2) [of e] Acq by simp
    show ?thesis
    proof (cases "owner s")
      case None
      obtain s' where s': "acq p s = Some s'" "inv s'" "owner s' = Some p" "who s' = who s"
        using acq_free [OF Cons.prems(1) p None] by blast
      show ?thesis using Cons.IH [OF s'(2)] Cons.prems(2) s' Acq None by simp
    next
      case (Some q)
      then show ?thesis using acq_taken [OF Cons.prems(1) p] Acq by simp
    qed
  next
    case (Rel p)
    show ?thesis
    proof (cases "owner s = Some p")
      case True
      obtain s' where s': "rel p s = Some s'" "inv s'" "owner s' = None" "who s' = who s"
        using rel_own [OF Cons.prems(1) True] by blast
      show ?thesis using Cons.IH [OF s'(2)] Cons.prems(2) s' Rel True by simp
    next
      case False
      then show ?thesis using Rel by simp
    qed
  qed
qed

end

section \<open>Effect of the operations\<close>

definition cpu_ok :: "cpu \<Rightarrow> bool" where
  "cpu_ok u \<longleftrightarrow> 0 \<le> ncli u \<and> (0 < ncli u \<longrightarrow> \<not> iflag u)"

abbreviation cpu_push :: "cpu \<Rightarrow> cpu" where
  "cpu_push u \<equiv> u\<lparr>iflag := False, intena := (if ncli u = 0 then iflag u else intena u), ncli := ncli u + 1\<rparr>"

abbreviation cpu_pop :: "cpu \<Rightarrow> cpu" where
  "cpu_pop u \<equiv> u\<lparr>iflag := ncli u = 1 \<and> intena u, ncli := ncli u - 1\<rparr>"

text \<open>A matched pair leaves the flag as it was, and the saved flag is a copy of it at depth 0.\<close>

abbreviation cpu_peek :: "cpu \<Rightarrow> cpu" where
  "cpu_peek u \<equiv> u\<lparr>intena := (if ncli u = 0 then iflag u else intena u)\<rparr>"

named_theorems lock_simps

lemma upd_cpu_simps [lock_simps]:
  "locks (upd_cpu c f s) = locks s" "cpus (upd_lock l g s) = cpus s"
  "cpus (upd_cpu c f s) = (cpus s)[c := f (cpus s ! c)]" "locks (upd_lock l g s) = (locks s)[l := g (locks s ! l)]"
  "upd_cpu c f (upd_cpu c f' s) = s\<lparr>cpus := (cpus s)[c := f ((cpus s)[c := f' (cpus s ! c)] ! c)]\<rparr>"
  "smp.more (upd_cpu c f s) = smp.more s" "smp.more (upd_lock l g s) = smp.more s"
  by (simp_all add: upd_cpu_def upd_lock_def)

lemma pushcli_Ok:
  assumes "c < length (cpus s)"
  shows "pushcli c s = Ok (upd_cpu c cpu_push s)"
  using assms by (cases "cpus s ! c") (simp add: pushcli_def mycpu_def upd_cpu_def Let_def)

lemma popcli_Ok:
  assumes "c < length (cpus s)" "\<not> iflag (cpus s ! c)" "0 < ncli (cpus s ! c)"
  shows "popcli c s = Ok (upd_cpu c cpu_pop s)"
  using assms by (cases "cpus s ! c") (auto simp: popcli_def mycpu_def upd_cpu_def Let_def)

lemma holding_Ok:
  assumes "c < length (cpus s)" "cpu_ok (cpus s ! c)"
  shows "holding c l s = Ok (sl_locked (locks s ! l) \<and> sl_cpu (locks s ! l) = Some c, upd_cpu c cpu_peek s)"
proof -
  have "popcli c (upd_cpu c cpu_push s) = Ok (upd_cpu c cpu_pop (upd_cpu c cpu_push s))"
    by (rule popcli_Ok) (use assms in \<open>auto simp: upd_cpu_def cpu_ok_def\<close>)
  moreover have "upd_cpu c cpu_pop (upd_cpu c cpu_push s) = upd_cpu c cpu_peek s"
    using assms by (cases "cpus s ! c") (auto simp: upd_cpu_def cpu_ok_def)
  ultimately show ?thesis using assms(1)
    by (simp add: holding_def pushcli_Ok mycpu_def Let_def upd_cpu_def)
qed

lemma acquire_enter_eq:
  assumes "c < length (cpus s)" "cpu_ok (cpus s ! c)"
  shows "acquire_enter c l s =
    (if sl_locked (locks s ! l) \<and> sl_cpu (locks s ! l) = Some c then Panic ''acquire'' else Ok (upd_cpu c cpu_push s))"
proof -
  have "holding c l (upd_cpu c cpu_push s) =
      Ok (sl_locked (locks s ! l) \<and> sl_cpu (locks s ! l) = Some c, upd_cpu c cpu_peek (upd_cpu c cpu_push s))"
    by (subst holding_Ok) (use assms in \<open>simp_all add: upd_cpu_def cpu_ok_def\<close>)
  moreover have "upd_cpu c cpu_peek (upd_cpu c cpu_push s) = upd_cpu c cpu_push s"
    using assms by (cases "cpus s ! c") (simp add: upd_cpu_def cpu_ok_def)
  ultimately show ?thesis using assms(1) by (simp add: acquire_enter_def pushcli_Ok)
qed

lemma acquire_done_eq:
  "\<not> iflag (cpus s ! c) \<Longrightarrow>
    acquire_done ld v c l s = Ok (upd_lock l (\<lambda>k. k\<lparr>sl_cpu := Some c, sl_pcs := getcallerpcs ld v\<rparr>) s)"
  by (simp add: acquire_done_def mycpu_def)

lemma release_begin_eq:
  assumes "c < length (cpus s)" "cpu_ok (cpus s ! c)" "0 < ncli (cpus s ! c)"
  shows "release_begin c l s =
    (if sl_locked (locks s ! l) \<and> sl_cpu (locks s ! l) = Some c
     then Ok (upd_lock l (\<lambda>k. k\<lparr>sl_pcs := (sl_pcs k)[0 := 0], sl_cpu := None\<rparr>) s) else Panic ''release'')"
proof -
  have "upd_cpu c cpu_peek s = s" using assms by (simp add: upd_cpu_def)
  then show ?thesis using assms by (simp add: release_begin_def holding_Ok)
qed

lemma release_end_eq:
  assumes "c < length (cpus s)" "\<not> iflag (cpus s ! c)" "0 < ncli (cpus s ! c)"
  shows "release_end c l s = Ok (upd_cpu c cpu_pop (upd_lock l (\<lambda>k. k\<lparr>sl_locked := False\<rparr>) s))"
  unfolding release_end_def by (subst popcli_Ok) (use assms in \<open>simp_all add: upd_lock_def\<close>)

lemma length_getcallerpcs [simp]: "length (getcallerpcs ld v) = 10"
proof -
  have "length (getcallerpcs_loop ld e n) = n" for e n
    by (induction ld e n rule: getcallerpcs_loop.induct) auto
  then show ?thesis by (simp add: getcallerpcs_def)
qed

section \<open>The two kinds of lock keep the promise\<close>

definition spin_inv :: "nat \<Rightarrow> smp \<Rightarrow> bool" where
  "spin_inv l s \<longleftrightarrow> l < length (locks s) \<and> (\<forall>c < length (cpus s). cpu_ok (cpus s ! c)) \<and>
     (sl_locked (locks s ! l) \<longleftrightarrow> sl_cpu (locks s ! l) \<noteq> None) \<and>
     (\<forall>c. sl_cpu (locks s ! l) = Some c \<longrightarrow> c < length (cpus s) \<and> 0 < ncli (cpus s ! c))"

definition spin_acq :: "(u32 \<Rightarrow> u32) \<Rightarrow> u32 \<Rightarrow> nat \<Rightarrow> nat \<Rightarrow> smp \<Rightarrow> smp option" where
  "spin_acq ld v l c s = (case acquire ld v c l s of Ok s' \<Rightarrow> Some s' | _ \<Rightarrow> None)"

definition spin_rel :: "nat \<Rightarrow> nat \<Rightarrow> smp \<Rightarrow> smp option" where
  "spin_rel l c s = (case release c l s of Ok s' \<Rightarrow> Some s' | _ \<Rightarrow> None)"

interpretation spin: lock "spin_inv l" "\<lambda>s c. c < length (cpus s)" "\<lambda>s. sl_cpu (locks s ! l)" "spin_acq ld v l" "spin_rel l"
proof
  fix s c
  assume s: "spin_inv l s" and c: "c < length (cpus s)"
  note k = s [unfolded spin_inv_def]
  have ok: "cpu_ok (cpus s ! c)" using k c by blast
  { assume f: "sl_cpu (locks s ! l) = None"
    then have nl: "\<not> sl_locked (locks s ! l)" using k by simp
    have "spin_acq ld v l c s = Some (upd_lock l (\<lambda>k. k\<lparr>sl_locked := True, sl_cpu := Some c, sl_pcs := getcallerpcs ld v\<rparr>)
        (upd_cpu c cpu_push s))"
      using nl c k by (simp add: spin_acq_def acquire_def acquire_enter_eq [OF c ok] xchg_lock_def acquire_done_eq upd_cpu_def upd_lock_def)
    moreover have "spin_inv l (upd_lock l (\<lambda>k. k\<lparr>sl_locked := True, sl_cpu := Some c, sl_pcs := getcallerpcs ld v\<rparr>)
        (upd_cpu c cpu_push s))"
      using k c ok f nl by (auto simp: spin_inv_def upd_cpu_def upd_lock_def cpu_ok_def nth_list_update)
    ultimately show "\<exists>s'. spin_acq ld v l c s = Some s' \<and> spin_inv l s' \<and> sl_cpu (locks s' ! l) = Some c \<and>
        (\<lambda>c. c < length (cpus s')) = (\<lambda>c. c < length (cpus s))"
      using k by (simp add: upd_cpu_def upd_lock_def) }
  { assume f: "sl_cpu (locks s ! l) \<noteq> None"
    then have "sl_locked (locks s ! l)" using k by simp
    then show "spin_acq ld v l c s = None"
      by (simp add: spin_acq_def acquire_def acquire_enter_eq [OF c ok] xchg_lock_def upd_cpu_def) }
next
  fix s c
  assume s: "spin_inv l s" and o: "sl_cpu (locks s ! l) = Some c"
  note k = s [unfolded spin_inv_def]
  have c: "c < length (cpus s)" "0 < ncli (cpus s ! c)" "cpu_ok (cpus s ! c)" "sl_locked (locks s ! l)"
    using k o by auto
  have l: "l < length (locks s)" using k by simp
  define s' where "s' = upd_cpu c cpu_pop (upd_lock l (\<lambda>k. k\<lparr>sl_pcs := (sl_pcs k)[0 := 0], sl_cpu := None, sl_locked := False\<rparr>) s)"
  have "spin_rel l c s = Some s'"
    using c o l by (simp add: spin_rel_def release_def release_begin_eq release_end_eq cpu_ok_def upd_lock_def upd_cpu_def s'_def)
  moreover have "spin_inv l s'" "sl_cpu (locks s' ! l) = None" "length (cpus s') = length (cpus s)"
    using k c o by (auto simp: spin_inv_def s'_def upd_cpu_def upd_lock_def cpu_ok_def nth_list_update)
  ultimately show "\<exists>s'. spin_rel l c s = Some s' \<and> spin_inv l s' \<and> sl_cpu (locks s' ! l) = None \<and>
      (\<lambda>c. c < length (cpus s')) = (\<lambda>c. c < length (cpus s))"
    by (intro exI [of _ s']) simp
qed

interpretation slp: lock "\<lambda>k. True" "\<lambda>k p. True" "\<lambda>k. if sk_locked k then Some (sk_pid k) else None" acquiresleep
  "\<lambda>p k. Some (releasesleep k)"
  by unfold_locales (auto simp: acquiresleep_def releasesleep_def split: if_splits)

end
