(* ===== verification/LockSys.thy ===== *)
theory LockSys
  imports Spinlock
begin

text \<open>
  Processors that take and free spin locks, and processes that take and free a sleep lock, as step
  relations in which any of them may be delayed anywhere. The invariants give mutual exclusion, no
  interrupt inside a critical section, no panic for callers that pair their calls, and no process
  asleep on a free sleep lock.
\<close>

section \<open>Spin locks\<close>

text \<open>Where a processor is: outside the functions, in the loop of \<^verbatim>\<open>acquire\<close>, past its \<^verbatim>\<open>xchg\<close>,
  or in \<^verbatim>\<open>release\<close> before the store that frees the lock.\<close>

datatype lkpc = Free | Spin nat | Got nat | Letting nat

record lksys = smp +
  l_pc :: "nat \<Rightarrow> lkpc"
  l_held :: "nat \<Rightarrow> nat list"
  l_extra :: "nat \<Rightarrow> nat"

abbreviation set_pc :: "nat \<Rightarrow> lkpc \<Rightarrow> lksys \<Rightarrow> lksys" where
  "set_pc c pc s \<equiv> s\<lparr>l_pc := (l_pc s)(c := pc)\<rparr>"

inductive lkstep :: "lksys \<Rightarrow> lksys \<Rightarrow> bool" where
  enters: "\<lbrakk>c < length (cpus s); l_pc s c = Free; l < length (locks s); l \<notin> set (l_held s c); acquire_enter c l s = Ok s'\<rbrakk>
    \<Longrightarrow> lkstep s (set_pc c (Spin l) s')"
| spins: "\<lbrakk>c < length (cpus s); l_pc s c = Spin l; xchg_lock l s = (True, s')\<rbrakk> \<Longrightarrow> lkstep s s'"
| gets: "\<lbrakk>c < length (cpus s); l_pc s c = Spin l; xchg_lock l s = (False, s')\<rbrakk> \<Longrightarrow> lkstep s (set_pc c (Got l) s')"
| records: "\<lbrakk>c < length (cpus s); l_pc s c = Got l; acquire_done ld v c l s = Ok s'\<rbrakk>
    \<Longrightarrow> lkstep s (set_pc c Free (s'\<lparr>l_held := (l_held s)(c := l # l_held s c)\<rparr>))"
| lets: "\<lbrakk>c < length (cpus s); l_pc s c = Free; l \<in> set (l_held s c); release_begin c l s = Ok s'\<rbrakk>
    \<Longrightarrow> lkstep s (set_pc c (Letting l) s')"
| frees: "\<lbrakk>c < length (cpus s); l_pc s c = Letting l; release_end c l s = Ok s'\<rbrakk>
    \<Longrightarrow> lkstep s (set_pc c Free (s'\<lparr>l_held := (l_held s)(c := remove1 l (l_held s c))\<rparr>))"
| pushes: "\<lbrakk>c < length (cpus s); l_pc s c = Free; pushcli c s = Ok s'\<rbrakk>
    \<Longrightarrow> lkstep s (s'\<lparr>l_extra := (l_extra s)(c := Suc (l_extra s c))\<rparr>)"
| pops: "\<lbrakk>c < length (cpus s); l_pc s c = Free; l_extra s c = Suc n; popcli c s = Ok s'\<rbrakk>
    \<Longrightarrow> lkstep s (s'\<lparr>l_extra := (l_extra s)(c := n)\<rparr>)"
| flag: "\<lbrakk>c < length (cpus s); l_pc s c = Free; ncli (cpus s ! c) = 0\<rbrakk>
    \<Longrightarrow> lkstep s (upd_cpu c (\<lambda>u. u\<lparr>iflag := b\<rparr>) s)"

inductive_cases lkstepE: "lkstep s s'"

definition owns :: "lksys \<Rightarrow> nat \<Rightarrow> nat \<Rightarrow> bool" where
  "owns s c l \<longleftrightarrow> c < length (cpus s) \<and> (l \<in> set (l_held s c) \<or> l_pc s c = Got l)"

fun pend :: "lkpc \<Rightarrow> nat" where
  "pend (Spin l) = 1"
| "pend (Got l) = 1"
| "pend _ = 0"

definition cpu_inv :: "lksys \<Rightarrow> nat \<Rightarrow> bool" where
  "cpu_inv s c \<longleftrightarrow> ncli (cpus s ! c) = int (length (l_held s c) + l_extra s c + pend (l_pc s c)) \<and>
     (0 < ncli (cpus s ! c) \<longrightarrow> \<not> iflag (cpus s ! c)) \<and> distinct (l_held s c) \<and> (\<forall>l \<in> set (l_held s c). l < length (locks s)) \<and>
     (case l_pc s c of Free \<Rightarrow> True | Spin l \<Rightarrow> l < length (locks s) \<and> l \<notin> set (l_held s c)
      | Got l \<Rightarrow> l < length (locks s) \<and> l \<notin> set (l_held s c) | Letting l \<Rightarrow> l \<in> set (l_held s c))"

definition lock_inv :: "lksys \<Rightarrow> nat \<Rightarrow> bool" where
  "lock_inv s l \<longleftrightarrow> (sl_locked (locks s ! l) \<longleftrightarrow> (\<exists>c. owns s c l)) \<and> (\<forall>c c'. owns s c l \<longrightarrow> owns s c' l \<longrightarrow> c = c') \<and>
     (\<forall>c. sl_cpu (locks s ! l) = Some c \<longleftrightarrow> c < length (cpus s) \<and> l \<in> set (l_held s c) \<and> l_pc s c \<noteq> Letting l)"

definition lk_inv :: "lksys \<Rightarrow> bool" where
  "lk_inv s \<longleftrightarrow> (\<forall>c < length (cpus s). cpu_inv s c) \<and> (\<forall>l < length (locks s). lock_inv s l)"

lemma cpu_inv_ok: "cpu_inv s c \<Longrightarrow> cpu_ok (cpus s ! c)"
  by (simp add: cpu_inv_def cpu_ok_def)

lemma cpu_inv_held:
  assumes "cpu_inv s c" "l \<in> set (l_held s c)"
  shows "0 < ncli (cpus s ! c)" "\<not> iflag (cpus s ! c)" "l < length (locks s)"
proof -
  have "0 < length (l_held s c)" using assms(2) by (rule length_pos_if_in_set)
  then show "0 < ncli (cpus s ! c)" using assms(1) unfolding cpu_inv_def by linarith
  then show "\<not> iflag (cpus s ! c)" "l < length (locks s)" using assms by (simp_all add: cpu_inv_def)
qed

text \<open>A step of one processor keeps what the others' entries say when it changes its own entries
  and, of the locks, at most the record of one.\<close>

lemma cpu_inv_other:
  assumes "cpu_inv s d" "cpus s' ! d = cpus s ! d" "l_held s' d = l_held s d" "l_extra s' d = l_extra s d" "l_pc s' d = l_pc s d"
    "length (locks s') = length (locks s)"
  shows "cpu_inv s' d"
  using assms unfolding cpu_inv_def by (cases "l_pc s d") simp_all

lemma lock_inv_other:
  assumes "lock_inv s k" "locks s' ! k = locks s ! k" "length (cpus s') = length (cpus s)"
    "\<And>d. k \<in> set (l_held s' d) \<longleftrightarrow> k \<in> set (l_held s d)" "\<And>d. l_pc s' d = Got k \<longleftrightarrow> l_pc s d = Got k"
    "\<And>d. l_pc s' d = Letting k \<longleftrightarrow> l_pc s d = Letting k"
  shows "lock_inv s' k"
  using assms by (simp add: lock_inv_def owns_def)

lemma lock_inv_free:
  assumes "\<And>d. \<not> owns s d l" "\<not> sl_locked (locks s ! l)" "sl_cpu (locks s ! l) = None"
  shows "lock_inv s l"
proof -
  have "l \<notin> set (l_held s d)" if "d < length (cpus s)" for d using assms(1) [of d] that by (simp add: owns_def)
  then show ?thesis using assms by (auto simp: lock_inv_def)
qed

lemma lk_inv_step:
  assumes "lk_inv s" "length (cpus s') = length (cpus s)" "length (locks s') = length (locks s)"
    "cpu_inv s' c" "\<And>l. l \<in> L \<Longrightarrow> l < length (locks s) \<Longrightarrow> lock_inv s' l"
    "\<And>d. d \<noteq> c \<Longrightarrow> cpus s' ! d = cpus s ! d \<and> l_held s' d = l_held s d \<and> l_extra s' d = l_extra s d \<and> l_pc s' d = l_pc s d"
    "\<And>k. k \<notin> L \<Longrightarrow> locks s' ! k = locks s ! k \<and> (k \<in> set (l_held s' c) \<longleftrightarrow> k \<in> set (l_held s c)) \<and>
      (l_pc s' c = Got k \<longleftrightarrow> l_pc s c = Got k) \<and> (l_pc s' c = Letting k \<longleftrightarrow> l_pc s c = Letting k)"
  shows "lk_inv s'"
proof -
  have "cpu_inv s' d" if "d < length (cpus s)" for d
  proof (cases "d = c")
    case False
    have "cpu_inv s d" using assms(1) that by (simp add: lk_inv_def)
    then show ?thesis using assms(6) [OF False] assms(3) by (intro cpu_inv_other [of s d s']) simp_all
  qed (use assms(4) in simp)
  moreover have "lock_inv s' k" if "k < length (locks s)" for k
  proof (cases "k \<in> L")
    case False
    have "lock_inv s k" using assms(1) that by (simp add: lk_inv_def)
    then show ?thesis
    proof (rule lock_inv_other)
      show "locks s' ! k = locks s ! k" using assms(7) [OF False] by simp
      show "length (cpus s') = length (cpus s)" by (rule assms(2))
      fix d
      show "k \<in> set (l_held s' d) \<longleftrightarrow> k \<in> set (l_held s d)" "l_pc s' d = Got k \<longleftrightarrow> l_pc s d = Got k"
        "l_pc s' d = Letting k \<longleftrightarrow> l_pc s d = Letting k"
        using assms(7) [OF False] assms(6) [of d] by (cases "d = c"; simp)+
    qed
  qed (use assms(5) that in simp)
  ultimately show ?thesis using assms(2,3) by (simp add: lk_inv_def)
qed

lemma lk_step:
  assumes "lkstep s s'" "lk_inv s"
  shows "lk_inv s'"
  using assms(1)
proof (cases rule: lkstep.cases)
  case (enters c l s1)
  have i: "cpu_inv s c" using assms(2) enters by (simp add: lk_inv_def)
  have s1: "s1 = upd_cpu c cpu_push s"
    using enters(6) acquire_enter_eq [OF enters(2) cpu_inv_ok [OF i]] by (simp split: if_splits)
  show ?thesis
    by (rule lk_inv_step [OF assms(2), of _ c "{}"]) (use i enters(2-5) in \<open>simp_all add: enters(1) s1 upd_cpu_def cpu_inv_def\<close>)
next
  case (spins c l)
  have i: "cpu_inv s c" "lock_inv s l" using assms(2) spins by (auto simp: lk_inv_def cpu_inv_def)
  have "sl_locked (locks s ! l)" "s' = upd_lock l (\<lambda>k. k\<lparr>sl_locked := True\<rparr>) s" using spins(3) by (auto simp: xchg_lock_def)
  moreover from this have "(locks s ! l)\<lparr>sl_locked := True\<rparr> = locks s ! l" by (cases "locks s ! l") simp
  ultimately have "s' = s" by (simp add: upd_lock_def)
  then show ?thesis using assms(2) by simp
next
  case (gets c l s1)
  have i: "cpu_inv s c" and l: "l < length (locks s)" using assms(2) gets by (auto simp: lk_inv_def cpu_inv_def)
  have li: "lock_inv s l" using assms(2) l by (simp add: lk_inv_def)
  have u: "\<not> sl_locked (locks s ! l)" and s1: "s1 = upd_lock l (\<lambda>k. k\<lparr>sl_locked := True\<rparr>) s" using gets(4) by (auto simp: xchg_lock_def)
  have none: "\<not> owns s d l" for d using li u by (auto simp: lock_inv_def)
  have own: "owns s' d l \<longleftrightarrow> d = c" for d using none [of d] gets(2) by (auto simp: owns_def gets(1) s1 upd_lock_def)
  have "lock_inv s' l" using li own none gets(2,3) l
    by (auto simp: lock_inv_def owns_def [of s] gets(1) s1 upd_lock_def)
  then show ?thesis
    by (intro lk_inv_step [OF assms(2), of _ c "{l}"]) (use i gets(2,3) in \<open>auto simp: gets(1) s1 upd_lock_def cpu_inv_def\<close>)
next
  case (records c l ld v s1)
  have i: "cpu_inv s c" and l: "l < length (locks s)" "l \<notin> set (l_held s c)" using assms(2) records by (auto simp: lk_inv_def cpu_inv_def)
  have li: "lock_inv s l" using assms(2) l by (simp add: lk_inv_def)
  have s1: "s1 = upd_lock l (\<lambda>k. k\<lparr>sl_cpu := Some c, sl_pcs := getcallerpcs ld v\<rparr>) s"
    using records(4) i records(3) by (simp add: acquire_done_eq cpu_inv_def)
  have o: "owns s c l" using records(2,3) by (simp add: owns_def)
  have own: "owns s d l \<Longrightarrow> d = c" for d using li o by (auto simp: lock_inv_def)
  have own': "owns s' d l \<longleftrightarrow> owns s d l" for d using records(2,3) by (auto simp: owns_def records(1) s1 upd_lock_def)
  have lk: "sl_locked (locks s ! l)" using li o by (auto simp: lock_inv_def)
  have "lock_inv s' l" unfolding lock_inv_def own'
  proof (intro conjI allI impI)
    show "sl_locked (locks s' ! l) = (\<exists>c. owns s c l)" using li l by (auto simp: lock_inv_def records(1) s1 upd_lock_def)
    show "d = d'" if "owns s d l" "owns s d' l" for d d' using own that by blast
    show "sl_cpu (locks s' ! l) = Some d \<longleftrightarrow> d < length (cpus s') \<and> l \<in> set (l_held s' d) \<and> l_pc s' d \<noteq> Letting l" for d
    proof (cases "d = c")
      case True
      then show ?thesis using l records(2) by (simp add: records(1) s1 upd_lock_def)
    next
      case False
      then have "l \<notin> set (l_held s d) \<or> \<not> d < length (cpus s)" using own [of d] by (auto simp: owns_def)
      then show ?thesis using l False by (auto simp: records(1) s1 upd_lock_def)
    qed
  qed
  then show ?thesis
  proof (intro lk_inv_step [OF assms(2), of _ c "{l}"])
    show "cpu_inv s' c" using i l records(3) by (simp add: records(1) s1 upd_lock_def cpu_inv_def)
  qed (use records(3) in \<open>auto simp: records(1) s1 upd_lock_def\<close>)
next
  case (lets c l s1)
  have i: "cpu_inv s c" and l: "l < length (locks s)" using assms(2) lets by (auto simp: lk_inv_def cpu_inv_def)
  have li: "lock_inv s l" using assms(2) l by (simp add: lk_inv_def)
  have n: "0 < ncli (cpus s ! c)" by (rule cpu_inv_held(1) [OF i lets(4)])
  have s1: "s1 = upd_lock l (\<lambda>k. k\<lparr>sl_pcs := (sl_pcs k)[0 := 0], sl_cpu := None\<rparr>) s"
    using lets(5) release_begin_eq [OF lets(2) cpu_inv_ok [OF i] n] by (simp split: if_splits)
  have own': "owns s' d l \<longleftrightarrow> owns s d l" for d using lets(2-4) by (auto simp: owns_def lets(1) s1 upd_lock_def)
  have o: "owns s c l" using lets by (simp add: owns_def)
  have own: "owns s d l \<Longrightarrow> d = c" for d using li o by (auto simp: lock_inv_def)
  have "lock_inv s' l" unfolding lock_inv_def own'
  proof (intro conjI allI impI)
    show "sl_locked (locks s' ! l) = (\<exists>c. owns s c l)" using li l by (auto simp: lock_inv_def lets(1) s1 upd_lock_def)
    show "d = d'" if "owns s d l" "owns s d' l" for d d' using own that by blast
    show "sl_cpu (locks s' ! l) = Some d \<longleftrightarrow> d < length (cpus s') \<and> l \<in> set (l_held s' d) \<and> l_pc s' d \<noteq> Letting l" for d
      using own [of d] l by (auto simp: lets(1) s1 upd_lock_def owns_def)
  qed
  then show ?thesis
    by (intro lk_inv_step [OF assms(2), of _ c "{l}"]) (use i lets(2-4) in \<open>auto simp: lets(1) s1 upd_lock_def cpu_inv_def\<close>)
next
  case (frees c l s1)
  have i: "cpu_inv s c" and h: "l \<in> set (l_held s c)" using assms(2) frees by (auto simp: lk_inv_def cpu_inv_def)
  have l: "l < length (locks s)" and d: "distinct (l_held s c)" using i h by (auto simp: cpu_inv_def)
  have li: "lock_inv s l" using assms(2) l by (simp add: lk_inv_def)
  have n: "0 < ncli (cpus s ! c)" "\<not> iflag (cpus s ! c)" by (rule cpu_inv_held [OF i h])+
  have s1: "s1 = upd_cpu c cpu_pop (upd_lock l (\<lambda>k. k\<lparr>sl_locked := False\<rparr>) s)"
    using frees(4) by (simp add: release_end_eq [OF frees(2) n(2,1)])
  have o: "owns s c l" using frees(2) h by (simp add: owns_def)
  have own: "owns s d l \<Longrightarrow> d = c" for d using li o by (auto simp: lock_inv_def)
  have none: "\<not> owns s' x l" for x
  proof (cases "x = c")
    case True
    then show ?thesis using d by (simp add: owns_def frees(1) s1 upd_lock_def upd_cpu_def)
  next
    case False
    then have "\<not> owns s x l" using own by blast
    then show ?thesis using False by (simp add: owns_def frees(1) s1 upd_lock_def upd_cpu_def)
  qed
  have "sl_cpu (locks s ! l) = None"
  proof (cases "sl_cpu (locks s ! l)")
    case (Some x)
    then have "owns s x l \<and> l_pc s x \<noteq> Letting l" using li by (auto simp: lock_inv_def owns_def)
    then show ?thesis using own frees(3) by auto
  qed
  then have "lock_inv s' l" by (intro lock_inv_free none) (use l in \<open>simp_all add: frees(1) s1 upd_lock_def upd_cpu_def\<close>)
  moreover have "int (length (remove1 l (l_held s c))) = int (length (l_held s c)) - 1"
    using h by (cases "l_held s c") (auto simp: length_remove1 Suc_diff_Suc dest: length_pos_if_in_set)
  ultimately show ?thesis
    by (intro lk_inv_step [OF assms(2), of _ c "{l}"])
      (use i d frees(2,3) in \<open>simp_all add: frees(1) s1 upd_lock_def upd_cpu_def cpu_inv_def\<close>)
next
  case (pushes c s1)
  have i: "cpu_inv s c" using assms(2) pushes by (simp add: lk_inv_def)
  have s1: "s1 = upd_cpu c cpu_push s" using pushes(4) by (simp add: pushcli_Ok [OF pushes(2)])
  show ?thesis
    by (rule lk_inv_step [OF assms(2), of _ c "{}"]) (use i pushes(2,3) in \<open>simp_all add: pushes(1) s1 upd_cpu_def cpu_inv_def\<close>)
next
  case (pops c n s1)
  have i: "cpu_inv s c" using assms(2) pops by (simp add: lk_inv_def)
  have n: "0 < ncli (cpus s ! c)" "\<not> iflag (cpus s ! c)" using i pops(4) by (auto simp: cpu_inv_def)
  have s1: "s1 = upd_cpu c cpu_pop s" using pops(5) by (simp add: popcli_Ok [OF pops(2) n(2,1)])
  show ?thesis
    by (rule lk_inv_step [OF assms(2), of _ c "{}"]) (use i pops(2-4) in \<open>auto simp: pops(1) s1 upd_cpu_def cpu_inv_def\<close>)
next
  case (flag c b)
  have i: "cpu_inv s c" using assms(2) flag by (simp add: lk_inv_def)
  show ?thesis
    by (rule lk_inv_step [OF assms(2), of _ c "{}"]) (use i flag(2-4) in \<open>auto simp: flag(1) upd_cpu_def cpu_inv_def\<close>)
qed

definition lk_start :: "lksys \<Rightarrow> bool" where
  "lk_start s \<longleftrightarrow> (\<forall>u \<in> set (cpus s). ncli u = 0) \<and> (\<forall>k \<in> set (locks s). \<not> sl_locked k \<and> sl_cpu k = None) \<and>
     l_pc s = (\<lambda>c. Free) \<and> l_held s = (\<lambda>c. []) \<and> l_extra s = (\<lambda>c. 0)"

lemma lk_reachable:
  assumes "lkstep\<^sup>*\<^sup>* s0 s" "lk_start s0"
  shows "lk_inv s"
  using assms(1)
proof (induction rule: rtranclp_induct)
  case base
  then show ?case using assms(2)
    by (auto simp: lk_start_def lk_inv_def cpu_inv_def lock_inv_def owns_def)
next
  case (step y z)
  then show ?case by (auto intro: lk_step)
qed

lemma release_begin_not_held:
  assumes "c < length (cpus s)" "cpu_ok (cpus s ! c)" "sl_cpu (locks s ! l) \<noteq> Some c"
  shows "release_begin c l s = Panic ''release''"
  using assms by (simp add: release_begin_def holding_Ok)

text \<open>The interrupt flag across one step: it is saved by the outermost \<^verbatim>\<open>pushcli\<close>, kept while the
  depth is positive, and put back by the \<^verbatim>\<open>popcli\<close> that ends the nesting.\<close>

definition flag_kept :: "cpu \<Rightarrow> cpu \<Rightarrow> bool" where
  "flag_kept u u' \<longleftrightarrow> (0 < ncli u \<longrightarrow> 0 < ncli u' \<longrightarrow> intena u' = intena u) \<and>
     (0 < ncli u \<longrightarrow> ncli u' = 0 \<longrightarrow> iflag u' = intena u) \<and> (ncli u = 0 \<longrightarrow> 0 < ncli u' \<longrightarrow> intena u' = iflag u)"

lemma flag_keptI: "flag_kept u u" "cpu_ok u \<Longrightarrow> flag_kept u (cpu_push u)" "0 < ncli u \<Longrightarrow> flag_kept u (cpu_pop u)"
  "ncli u = 0 \<Longrightarrow> flag_kept u (u\<lparr>iflag := b\<rparr>)"
  by (auto simp: flag_kept_def cpu_ok_def)

lemma flag_kept_nth:
  "flag_kept (us ! c) u \<Longrightarrow> flag_kept (us ! d) (us[c := u] ! d)"
  by (cases "d = c"; cases "c < length us") (simp_all add: flag_keptI(1) list_update_beyond)

lemma lkstep_flag:
  assumes "lkstep s s'" "lk_inv s" "d < length (cpus s)"
  shows "flag_kept (cpus s ! d) (cpus s' ! d)"
  using assms(1)
proof (cases rule: lkstep.cases)
  case (enters c l s1)
  have i: "cpu_inv s c" using assms(2) enters by (simp add: lk_inv_def)
  have "s1 = upd_cpu c cpu_push s"
    using enters(6) acquire_enter_eq [OF enters(2) cpu_inv_ok [OF i]] by (simp split: if_splits)
  then show ?thesis using flag_kept_nth [OF flag_keptI(2) [OF cpu_inv_ok [OF i]]] by (simp add: enters(1) upd_cpu_def)
next
  case (frees c l s1)
  have i: "cpu_inv s c" "l \<in> set (l_held s c)" using assms(2) frees by (auto simp: lk_inv_def cpu_inv_def)
  note n = cpu_inv_held(1,2) [OF i]
  have "s1 = upd_cpu c cpu_pop (upd_lock l (\<lambda>k. k\<lparr>sl_locked := False\<rparr>) s)"
    using frees(4) by (simp add: release_end_eq [OF frees(2) n(2,1)])
  then show ?thesis using flag_kept_nth [OF flag_keptI(3) [OF n(1)]] by (simp add: frees(1) upd_cpu_def upd_lock_def)
next
  case (pushes c s1)
  have i: "cpu_inv s c" using assms(2) pushes by (simp add: lk_inv_def)
  have "s1 = upd_cpu c cpu_push s" using pushes(4) by (simp add: pushcli_Ok [OF pushes(2)])
  then show ?thesis using flag_kept_nth [OF flag_keptI(2) [OF cpu_inv_ok [OF i]]] by (simp add: pushes(1) upd_cpu_def)
next
  case (pops c n s1)
  have "cpu_inv s c" using assms(2) pops by (simp add: lk_inv_def)
  then have n: "0 < ncli (cpus s ! c)" "\<not> iflag (cpus s ! c)" using pops(4) by (auto simp: cpu_inv_def)
  have "s1 = upd_cpu c cpu_pop s" using pops(5) by (simp add: popcli_Ok [OF pops(2) n(2,1)])
  then show ?thesis using flag_kept_nth [OF flag_keptI(3) [OF n(1)]] by (simp add: pops(1) upd_cpu_def)
next
  case (flag c b)
  then show ?thesis using flag_kept_nth [OF flag_keptI(4) [OF flag(4)]] by (simp add: upd_cpu_def)
next
  case (lets c l s1)
  have i: "cpu_inv s c" using assms(2) lets by (simp add: lk_inv_def)
  have n: "0 < ncli (cpus s ! c)" by (rule cpu_inv_held(1) [OF i lets(4)])
  have "cpus s1 = cpus s"
    using lets(5) release_begin_eq [OF lets(2) cpu_inv_ok [OF i] n] by (auto simp: upd_lock_def split: if_splits)
  then show ?thesis by (simp add: lets(1) flag_keptI)
qed (auto simp: xchg_lock_def upd_lock_def acquire_done_def mycpu_def flag_keptI split: if_splits)

text \<open>C7: Processors that take and free spin locks, delayed at any point, never own one lock together;
  no interrupt arrives while a processor owns one; \<^verbatim>\<open>acquire\<close> panics exactly on a lock the caller
  holds and \<^verbatim>\<open>release\<close> exactly on one it does not; the interrupt flag comes back as it was before
  the outermost \<^verbatim>\<open>pushcli\<close>.\<close>

theorem spin_lock_sections:
  assumes "lk_start s0" "lkstep\<^sup>*\<^sup>* s0 s" "c < length (cpus s)" "l < length (locks s)"
  shows "(owns s c l \<and> owns s c' l \<longrightarrow> c' = c) \<and> (owns s c l \<longrightarrow> \<not> iflag (cpus s ! c)) \<and>
    (l_pc s c = Free \<longrightarrow>
      (if l \<in> set (l_held s c)
       then acquire_enter c l s = Panic ''acquire'' \<and> (\<exists>s'. release_begin c l s = Ok s')
       else (\<exists>s'. acquire_enter c l s = Ok s') \<and> release_begin c l s = Panic ''release'')) \<and>
    (\<forall>s'. lkstep s s' \<longrightarrow> flag_kept (cpus s ! c) (cpus s' ! c))"
proof -
  have inv: "lk_inv s" by (rule lk_reachable [OF assms(2,1)])
  then have ci: "cpu_inv s c" and li: "lock_inv s l" using assms(3,4) by (simp_all add: lk_inv_def)
  note ok = cpu_inv_ok [OF ci]
  have 1: "owns s c l \<and> owns s c' l \<longrightarrow> c' = c" using li by (auto simp: lock_inv_def)
  have 2: "owns s c l \<longrightarrow> \<not> iflag (cpus s ! c)"
    using cpu_inv_held(2) [OF ci] ci by (auto simp: owns_def cpu_inv_def)
  have h: "l \<in> set (l_held s c) \<Longrightarrow> l_pc s c = Free \<Longrightarrow> sl_locked (locks s ! l) \<and> sl_cpu (locks s ! l) = Some c \<and> 0 < ncli (cpus s ! c)"
    using li assms(3) cpu_inv_held(1) [OF ci] by (auto simp: lock_inv_def owns_def)
  have nh: "l \<notin> set (l_held s c) \<Longrightarrow> sl_cpu (locks s ! l) \<noteq> Some c" using li by (auto simp: lock_inv_def)
  show ?thesis
    using 1 2 h nh lkstep_flag [OF _ inv assms(3)]
    by (auto simp: acquire_enter_eq [OF assms(3) ok] release_begin_eq [OF assms(3) ok] release_begin_not_held [OF assms(3) ok])
qed

definition demo_smp :: lksys where
  "demo_smp = \<lparr>cpus = replicate 2 \<lparr>iflag = True, ncli = 0, intena = False\<rparr>,
     locks = [\<lparr>sl_locked = False, sl_cpu = None, sl_pcs = replicate 10 0\<rparr>],
     l_pc = (\<lambda>c. Free), l_held = (\<lambda>c. []), l_extra = (\<lambda>c. 0)\<rparr>"

theorem spin_lock_sections_witness:
  "\<exists>s. lkstep\<^sup>*\<^sup>* demo_smp s \<and> owns s 0 0 \<and> \<not> iflag (cpus s ! 0) \<and> \<not> owns s 1 0"
proof -
  have e: "acquire_enter 0 0 demo_smp = Ok (upd_cpu 0 cpu_push demo_smp)"
    by (subst acquire_enter_eq) (simp_all add: demo_smp_def cpu_ok_def)
  define s1 where "s1 = set_pc 0 (Spin 0) (upd_cpu 0 cpu_push demo_smp)"
  have 1: "lkstep demo_smp s1"
    unfolding s1_def by (rule lkstep.enters [OF _ _ _ _ e]) (simp_all add: demo_smp_def)
  define s2 where "s2 = set_pc 0 (Got 0) (upd_lock 0 (\<lambda>k. k\<lparr>sl_locked := True\<rparr>) s1)"
  have 2: "lkstep s1 s2"
    unfolding s2_def by (rule lkstep.gets) (simp_all add: s1_def demo_smp_def xchg_lock_def upd_cpu_def)
  have r: "lkstep\<^sup>*\<^sup>* demo_smp s2" using 1 2 by (meson converse_rtranclp_into_rtranclp rtranclp.rtrancl_refl)
  have st: "lk_start demo_smp" by (simp add: lk_start_def demo_smp_def)
  have n: "0 < length (cpus s2)" "0 < length (locks s2)"
    by (simp_all add: s2_def s1_def demo_smp_def upd_cpu_def upd_lock_def)
  have o: "owns s2 0 0" by (simp add: owns_def s2_def s1_def demo_smp_def upd_cpu_def upd_lock_def)
  from spin_lock_sections [OF st r n, of 1] o show ?thesis using r by auto
qed

section \<open>Sleep locks\<close>

text \<open>What a process is doing with the lock: nothing, about to make a pass of the loop of
  \<^verbatim>\<open>acquiresleep\<close>, asleep on the lock, or inside.\<close>

datatype slpc = Outside | Trying | Asleep | Inside

type_synonym slsys = "sleeplock \<times> (int \<Rightarrow> slpc)"

text \<open>\<^verbatim>\<open>wakeup\<close> on the lock makes every sleeper runnable; \<open>kicked\<close> is a sleeper made runnable by
  \<^verbatim>\<open>kill\<close>.\<close>

inductive slstep :: "slsys \<Rightarrow> slsys \<Rightarrow> bool" where
  calls: "ps p = Outside \<Longrightarrow> slstep (k, ps) (k, ps(p := Trying))"
| enters: "ps p = Trying \<Longrightarrow> acquiresleep p k = Some k' \<Longrightarrow> slstep (k, ps) (k', ps(p := Inside))"
| sleeps: "ps p = Trying \<Longrightarrow> acquiresleep p k = None \<Longrightarrow> slstep (k, ps) (k, ps(p := Asleep))"
| leaves: "ps p = Inside \<Longrightarrow>
    slstep (k, ps) (releasesleep k, (\<lambda>q. if (ps(p := Outside)) q = Asleep then Trying else (ps(p := Outside)) q))"
| kicked: "ps p = Asleep \<Longrightarrow> slstep (k, ps) (k, ps(p := Trying))"

abbreviation sl_owner :: "sleeplock \<Rightarrow> int option" where
  "sl_owner k \<equiv> if sk_locked k then Some (sk_pid k) else None"

definition sl_inv :: "slsys \<Rightarrow> bool" where
  "sl_inv s \<longleftrightarrow> (\<forall>p. (snd s p = Inside) = (sl_owner (fst s) = Some p)) \<and> (\<forall>p. snd s p = Asleep \<longrightarrow> sl_owner (fst s) \<noteq> None)"

lemma slp_owner:
  "acquiresleep p k = Some k' \<Longrightarrow> sl_owner k = None \<and> sl_owner k' = Some p"
  "acquiresleep p k = None \<Longrightarrow> sl_owner k \<noteq> None" "sl_owner (releasesleep k) = None"
  by (auto simp: acquiresleep_def releasesleep_def split: if_splits)

lemma sl_step:
  assumes "slstep s s'" "sl_inv s"
  shows "sl_inv s'"
  using assms
proof (induction rule: slstep.induct)
  case (calls ps p k)
  then show ?case unfolding sl_inv_def fst_conv snd_conv by (metis fun_upd_apply slpc.distinct(1,3,5,7,9,11))
next
  case (enters ps p k k')
  then show ?case using slp_owner(1) [OF enters(2)] unfolding sl_inv_def fst_conv snd_conv
    by (metis fun_upd_apply option.distinct(1) option.inject slpc.distinct(11))
next
  case (sleeps ps p k)
  then show ?case using slp_owner(2) [OF sleeps(2)] unfolding sl_inv_def fst_conv snd_conv
    by (metis fun_upd_apply slpc.distinct(9,11))
next
  case (leaves ps p k)
  then show ?case unfolding sl_inv_def fst_conv snd_conv slp_owner(3)
    by (metis fun_upd_apply option.distinct(1) option.inject slpc.distinct(1,3,5,7,9,11))
next
  case (kicked ps p k)
  then show ?case unfolding sl_inv_def fst_conv snd_conv by (metis fun_upd_apply slpc.distinct(9,11))
qed

lemma sl_reachable: "slstep\<^sup>*\<^sup>* s0 s \<Longrightarrow> sl_inv s0 \<Longrightarrow> sl_inv s"
  by (induction rule: rtranclp_induct) (auto intro: sl_step)

text \<open>C8: Of the processes that use a sleep lock one at a time is inside, it is the one that
  \<^verbatim>\<open>holdingsleep\<close> names, and a process is asleep on the lock only while another one is inside: a
  release leaves nobody asleep, so no wakeup is lost.\<close>

theorem sleep_lock_no_lost_wakeup:
  assumes "slstep\<^sup>*\<^sup>* (initsleeplock k, (\<lambda>p. Outside)) (k', ps)"
  shows "(ps p = Inside \<longleftrightarrow> holdingsleep p k') \<and> (ps p = Inside \<and> ps q = Inside \<longrightarrow> p = q) \<and>
    (ps p = Asleep \<longrightarrow> (\<exists>q. q \<noteq> p \<and> ps q = Inside)) \<and> (ps p = Trying \<and> \<not> sk_locked k' \<longrightarrow> (\<exists>k''. acquiresleep p k' = Some k''))"
proof -
  have "sl_inv (k', ps)"
    by (rule sl_reachable [OF assms]) (simp add: sl_inv_def initsleeplock_def)
  then have i: "(ps x = Inside) = (sl_owner k' = Some x)" and a: "ps x = Asleep \<Longrightarrow> sl_owner k' \<noteq> None" for x
    unfolding sl_inv_def fst_conv snd_conv by blast+
  have 3: "\<exists>q. q \<noteq> p \<and> ps q = Inside" if sp: "ps p = Asleep"
  proof -
    obtain q where q: "sl_owner k' = Some q" using a [OF sp] by (cases "sl_owner k'") blast+
    then have "ps q = Inside" unfolding i .
    then show ?thesis using sp by (metis slpc.distinct(11))
  qed
  have "(ps p = Inside) = holdingsleep p k'" unfolding i by (auto simp: holdingsleep_def)
  moreover have "ps p = Inside \<and> ps q = Inside \<longrightarrow> p = q" unfolding i by auto
  ultimately show ?thesis using 3 by (auto simp: acquiresleep_def)
qed

theorem sleep_lock_no_lost_wakeup_witness:
  "\<exists>k' ps. slstep\<^sup>*\<^sup>* (initsleeplock \<lparr>sk_locked = True, sk_pid = 7\<rparr>, (\<lambda>p. Outside)) (k', ps) \<and> ps 3 = Inside \<and>
    holdingsleep 3 k'"
proof -
  let ?k = "initsleeplock \<lparr>sk_locked = True, sk_pid = 7\<rparr>"
  let ?ps = "((\<lambda>p. Outside)(3 := Trying)) :: int \<Rightarrow> slpc"
  have a: "acquiresleep 3 ?k = Some \<lparr>sk_locked = True, sk_pid = 3\<rparr>" by (simp add: acquiresleep_def initsleeplock_def)
  have "slstep (?k, (\<lambda>p. Outside)) (?k, ?ps)" by (rule slstep.calls) simp
  moreover have "slstep (?k, ?ps) (\<lparr>sk_locked = True, sk_pid = 3\<rparr>, ?ps(3 := Inside))" by (rule slstep.enters [OF _ a]) simp
  ultimately have r: "slstep\<^sup>*\<^sup>* (?k, (\<lambda>p. Outside)) (\<lparr>sk_locked = True, sk_pid = 3\<rparr>, ?ps(3 := Inside))"
    by (meson converse_rtranclp_into_rtranclp rtranclp.rtrancl_refl)
  have "holdingsleep 3 \<lparr>sk_locked = True, sk_pid = 3\<rparr>" using sleep_lock_no_lost_wakeup [OF r, of 3 3] by simp
  then show ?thesis using r by (meson fun_upd_same)
qed

end
