(* ===== verification/Trap.thy ===== *)
theory Trap
  imports ProcInv ByteOps
begin

text \<open>
  Traps (trap.c), the table of system calls (syscall.c) and the system calls on processes
  (sysproc.c). The machine is the kernel state of proc.c with the tick counter; the handlers of the
  devices and the acknowledgement of the interrupt are recorded in \<open>devs\<close>. The calls on files work
  on the state of the file layer, which their own theory models: here they are an argument \<open>fcall\<close>.
  A call that gives the processor up returns to its scheduler and is continued by a later operation.
\<close>

section \<open>State\<close>

datatype devcall = Lapiceoi | Ideintr | Kbdintr | Uartintr

record mach =
  mk :: kern
  ticks :: u32
  devs :: "devcall list"

definition dev :: "devcall \<Rightarrow> mach \<Rightarrow> mach" where
  "dev d m = m\<lparr>devs := devs m @ [d]\<rparr>"

section \<open>System calls on processes (sysproc.c)\<close>

text \<open>\<^verbatim>\<open>argint\<close> on the stack of the current process; the kernel reads it through the page table in
  use, and a page that is not there is a fault in the kernel.\<close>

definition karg :: "nat \<Rightarrow> nat \<Rightarrow> kern \<Rightarrow> u32 option res" where
  "karg n cur k =
     (let p = ptable k ! cur; addr = tf_esp0 (p_tf p) + 4 + 4 * of_nat n
      in if addr \<ge> p_sz p \<or> addr + 4 > p_sz p then Ok None
         else bindR (kread k addr 4) (\<lambda>bs. Ok (Some (le32 bs 0))))"

text \<open>\<open>Ret v\<close> comes back with \<open>v\<close>; \<open>Blocked\<close> has gone to sleep inside the call; \<open>Gone\<close> has exited.\<close>

datatype sysret = Ret u32 | Blocked | Gone

definition sys_fork :: "u32 \<Rightarrow> nat \<Rightarrow> kern \<Rightarrow> (sysret \<times> kern) res" where
  "sys_fork kdata cur k = bindR (fork kdata cur k) (\<lambda>(r, k1). Ok (Ret (word_of_int r), k1))"

definition sys_exit :: "u32 \<Rightarrow> nat \<Rightarrow> kern \<Rightarrow> (sysret \<times> kern) res" where
  "sys_exit kpgdir c k = bindR (exit_proc kpgdir c k) (\<lambda>k1. Ok (Gone, k1))"

definition sys_wait :: "u32 \<Rightarrow> nat \<Rightarrow> kern \<Rightarrow> (sysret \<times> kern) res" where
  "sys_wait kpgdir c k =
     bindR (wait_pass kpgdir c k) (\<lambda>(w, k1).
       Ok (case w of Reaped pid \<Rightarrow> Ret (word_of_int pid) | NoChild \<Rightarrow> Ret (-1) | Slept \<Rightarrow> Blocked, k1))"

definition sys_kill :: "nat \<Rightarrow> kern \<Rightarrow> (sysret \<times> kern) res" where
  "sys_kill cur k =
     bindR (karg 0 cur k) (\<lambda>a. case a of
       None \<Rightarrow> Ok (Ret (-1), k)
     | Some pid \<Rightarrow> (case kill (sint pid) k of (r, k1) \<Rightarrow> Ok (Ret (word_of_int r), k1)))"

definition sys_getpid :: "nat \<Rightarrow> kern \<Rightarrow> (sysret \<times> kern) res" where
  "sys_getpid cur k = Ok (Ret (word_of_int (p_pid (ptable k ! cur))), k)"

definition sys_sbrk :: "nat \<Rightarrow> nat \<Rightarrow> nat \<Rightarrow> kern \<Rightarrow> (sysret \<times> kern) res" where
  "sys_sbrk ralgo opt cur k =
     bindR (karg 0 cur k) (\<lambda>a. case a of
       None \<Rightarrow> Ok (Ret (-1), k)
     | Some n \<Rightarrow>
         let addr = p_sz (ptable k ! cur)
         in bindR (growproc ralgo opt (sint n) (view cur k)) (\<lambda>(r, v).
            Ok (if r < 0 then Ret (-1) else Ret addr, put cur v k)))"

text \<open>One pass of the loop of \<^verbatim>\<open>sys_sleep\<close>; a sleeper that is woken makes the next pass. The number
  of ticks is a signed argument compared with an unsigned difference.\<close>

definition sleep_pass :: "u32 \<Rightarrow> nat \<Rightarrow> nat \<Rightarrow> u32 \<Rightarrow> u32 \<Rightarrow> mach \<Rightarrow> (sysret \<times> kern) res" where
  "sleep_pass kpgdir c cur n ticks0 m =
     (if ticks m - ticks0 < n
      then if p_killed (ptable (mk m) ! cur) then Ok (Ret (-1), mk m)
           else bindR (sleep_on kpgdir c ChTicks (mk m)) (\<lambda>k1. Ok (Blocked, k1))
      else Ok (Ret 0, mk m))"

definition sys_sleep :: "u32 \<Rightarrow> nat \<Rightarrow> nat \<Rightarrow> mach \<Rightarrow> (sysret \<times> kern) res" where
  "sys_sleep kpgdir c cur m =
     bindR (karg 0 cur (mk m)) (\<lambda>a. case a of
       None \<Rightarrow> Ok (Ret (-1), mk m)
     | Some n \<Rightarrow> sleep_pass kpgdir c cur n (ticks m) m)"

definition sys_uptime :: "mach \<Rightarrow> (sysret \<times> kern) res" where
  "sys_uptime m = Ok (Ret (ticks m), mk m)"

text \<open>\<^verbatim>\<open>sys_demoTest\<close> returns nothing: its caller finds what is left in the register.\<close>

definition sys_demoTest :: "u32 \<Rightarrow> kern \<Rightarrow> (sysret \<times> kern) res" where
  "sys_demoTest left_over k = Ok (Ret left_over, k)"

section \<open>The table of system calls (syscall.c, syscall.h)\<close>

datatype sysno = SYS_fork | SYS_exit | SYS_wait | SYS_pipe | SYS_read | SYS_kill | SYS_exec | SYS_fstat
  | SYS_chdir | SYS_dup | SYS_getpid | SYS_sbrk | SYS_sleep | SYS_uptime | SYS_open | SYS_write | SYS_mknod
  | SYS_unlink | SYS_link | SYS_mkdir | SYS_close | SYS_demoTest

definition syscalls :: "sysno list" where
  "syscalls = [SYS_fork, SYS_exit, SYS_wait, SYS_pipe, SYS_read, SYS_kill, SYS_exec, SYS_fstat, SYS_chdir, SYS_dup,
     SYS_getpid, SYS_sbrk, SYS_sleep, SYS_uptime, SYS_open, SYS_write, SYS_mknod, SYS_unlink, SYS_link, SYS_mkdir,
     SYS_close, SYS_demoTest]"

definition sysno_of :: "u32 \<Rightarrow> sysno option" where
  "sysno_of num = (if 0 < sint num \<and> sint num \<le> int (length syscalls) then Some (syscalls ! (unat num - 1)) else None)"

type_synonym filecalls = "sysno \<Rightarrow> nat \<Rightarrow> kern \<Rightarrow> (sysret \<times> kern) res"

definition run_call :: "u32 \<Rightarrow> u32 \<Rightarrow> nat \<Rightarrow> nat \<Rightarrow> u32 \<Rightarrow> filecalls \<Rightarrow> nat \<Rightarrow> nat \<Rightarrow> sysno \<Rightarrow> mach \<Rightarrow> (sysret \<times> kern) res" where
  "run_call kdata kpgdir ralgo opt left_over fcall c cur n m =
     (case n of
        SYS_fork \<Rightarrow> sys_fork kdata cur (mk m)
      | SYS_exit \<Rightarrow> sys_exit kpgdir c (mk m)
      | SYS_wait \<Rightarrow> sys_wait kpgdir c (mk m)
      | SYS_kill \<Rightarrow> sys_kill cur (mk m)
      | SYS_getpid \<Rightarrow> sys_getpid cur (mk m)
      | SYS_sbrk \<Rightarrow> sys_sbrk ralgo opt cur (mk m)
      | SYS_sleep \<Rightarrow> sys_sleep kpgdir c cur m
      | SYS_uptime \<Rightarrow> sys_uptime m
      | SYS_demoTest \<Rightarrow> sys_demoTest left_over (mk m)
      | _ \<Rightarrow> fcall n cur (mk m))"

definition set_eax :: "nat \<Rightarrow> u32 \<Rightarrow> kern \<Rightarrow> kern" where
  "set_eax cur v k = upd_proc cur (\<lambda>p. p\<lparr>p_tf := (p_tf p)\<lparr>tf_eax := v\<rparr>\<rparr>) k"

definition syscall :: "u32 \<Rightarrow> u32 \<Rightarrow> nat \<Rightarrow> nat \<Rightarrow> u32 \<Rightarrow> filecalls \<Rightarrow> nat \<Rightarrow> nat \<Rightarrow> mach \<Rightarrow> (sysret \<times> mach) res" where
  "syscall kdata kpgdir ralgo opt left_over fcall c cur m =
     (case sysno_of (tf_eax (p_tf (ptable (mk m) ! cur))) of
        None \<Rightarrow> Ok (Ret (-1), m\<lparr>mk := set_eax cur (-1) (mk m)\<rparr>)
      | Some n \<Rightarrow>
          bindR (run_call kdata kpgdir ralgo opt left_over fcall c cur n m) (\<lambda>(r, k1).
            Ok (r, m\<lparr>mk := (case r of Ret v \<Rightarrow> set_eax cur v k1 | _ \<Rightarrow> k1)\<rparr>)))"

section \<open>Traps\<close>

abbreviation T_PGFLT :: nat where "T_PGFLT \<equiv> 14"
abbreviation T_SYSCALL :: nat where "T_SYSCALL \<equiv> 64"
abbreviation T_TIMER :: nat where "T_TIMER \<equiv> 32"
abbreviation T_IDE :: nat where "T_IDE \<equiv> 32 + 14"
abbreviation T_KBD :: nat where "T_KBD \<equiv> 32 + 1"
abbreviation T_COM1 :: nat where "T_COM1 \<equiv> 32 + 4"
abbreviation T_SPURIOUS :: nat where "T_SPURIOUS \<equiv> 32 + 31"

text \<open>\<open>Back\<close>: the trap returns to what it interrupted; \<open>Off\<close>: the process gave the processor up.\<close>

datatype tout = Back | Off

definition user_mode :: "u32 \<Rightarrow> bool" where
  "user_mode cs \<longleftrightarrow> cs AND 3 = 3"

text \<open>The checks at the end of \<^verbatim>\<open>trap\<close>: a killed process that was in user mode exits.\<close>

definition exit_if_killed :: "u32 \<Rightarrow> nat \<Rightarrow> u32 \<Rightarrow> mach \<Rightarrow> (tout \<times> mach) res" where
  "exit_if_killed kpgdir c cs m =
     (case running (mk m) c of
        None \<Rightarrow> Ok (Back, m)
      | Some cur \<Rightarrow>
          if p_killed (ptable (mk m) ! cur) \<and> user_mode cs
          then bindR (exit_proc kpgdir c (mk m)) (\<lambda>k1. Ok (Off, m\<lparr>mk := k1\<rparr>))
          else Ok (Back, m))"

text \<open>A system call, and the rest of it once a call that blocked is done.\<close>

definition trap_syscall_end :: "u32 \<Rightarrow> nat \<Rightarrow> nat \<Rightarrow> mach \<Rightarrow> (tout \<times> mach) res" where
  "trap_syscall_end kpgdir c cur m =
     (if p_killed (ptable (mk m) ! cur)
      then bindR (exit_proc kpgdir c (mk m)) (\<lambda>k1. Ok (Off, m\<lparr>mk := k1\<rparr>))
      else Ok (Back, m))"

definition trap_syscall :: "u32 \<Rightarrow> u32 \<Rightarrow> nat \<Rightarrow> nat \<Rightarrow> u32 \<Rightarrow> filecalls \<Rightarrow> nat \<Rightarrow> mach \<Rightarrow> (tout \<times> mach) res" where
  "trap_syscall kdata kpgdir ralgo opt left_over fcall c m =
     (case running (mk m) c of
        None \<Rightarrow> Panic ''trap''
      | Some cur \<Rightarrow>
          if p_killed (ptable (mk m) ! cur)
          then bindR (exit_proc kpgdir c (mk m)) (\<lambda>k1. Ok (Off, m\<lparr>mk := k1\<rparr>))
          else bindR (syscall kdata kpgdir ralgo opt left_over fcall c cur m) (\<lambda>(r, m1).
                 case r of Ret v \<Rightarrow> trap_syscall_end kpgdir c cur m1 | _ \<Rightarrow> Ok (Off, m1)))"

text \<open>The timer: processor 0 counts, wakes the sleepers on the clock and ages the pages.\<close>

definition timer_tick :: "nat \<Rightarrow> mach \<Rightarrow> mach res" where
  "timer_tick c m =
     (if c = 0
      then let m1 = m\<lparr>ticks := ticks m + 1, mk := wakeup ChTicks (mk m)\<rparr>
           in bindR (updateAgeForAllProcess (mk m1)) (\<lambda>k1. Ok (dev Lapiceoi (m1\<lparr>mk := k1\<rparr>)))
      else Ok (dev Lapiceoi m))"

text \<open>The page-fault case: whether the fault is served, and the machine after it.\<close>

definition page_fault :: "nat \<Rightarrow> nat \<Rightarrow> nat \<Rightarrow> u32 \<Rightarrow> u32 \<Rightarrow> mach \<Rightarrow> (bool \<times> mach) res" where
  "page_fault ralgo opt c cs cr2 m =
     (case running (mk m) c of
        None \<Rightarrow> Ok (False, m)
      | Some cur \<Rightarrow>
          if user_mode cs \<and> checkPTForPage (p_pgdir (ptable (mk m) ! cur)) cr2 (mk m) \<noteq> 0
          then bindR (retrievePage ralgo opt cr2 (view cur (mk m))) (\<lambda>(r, v).
                 Ok (r = 1, m\<lparr>mk := put cur v (mk m)\<rparr>))
          else Ok (False, m))"

definition trap_default :: "nat \<Rightarrow> u32 \<Rightarrow> mach \<Rightarrow> mach res" where
  "trap_default c cs m =
     (case running (mk m) c of
        None \<Rightarrow> Panic ''trap''
      | Some cur \<Rightarrow>
          if cs AND 3 = 0 then Panic ''trap''
          else Ok (m\<lparr>mk := upd_proc cur (\<lambda>p. p\<lparr>p_killed := True\<rparr>) (mk m)\<rparr>))"

definition trap_switch :: "nat \<Rightarrow> nat \<Rightarrow> nat \<Rightarrow> nat \<Rightarrow> u32 \<Rightarrow> u32 \<Rightarrow> mach \<Rightarrow> mach res" where
  "trap_switch ralgo opt c trapno cs cr2 m =
     (if trapno = T_TIMER then timer_tick c m
      else if trapno = T_IDE then Ok (dev Lapiceoi (dev Ideintr m))
      else if trapno = T_IDE + 1 then Ok m
      else if trapno = T_KBD then Ok (dev Lapiceoi (dev Kbdintr m))
      else if trapno = T_COM1 then Ok (dev Lapiceoi (dev Uartintr m))
      else if trapno = 32 + 7 \<or> trapno = T_SPURIOUS then Ok (dev Lapiceoi m)
      else if trapno = T_PGFLT
           then bindR (page_fault ralgo opt c cs cr2 m) (\<lambda>(served, m1). if served then Ok m1 else trap_default c cs m1)
      else trap_default c cs m)"

definition trap :: "u32 \<Rightarrow> u32 \<Rightarrow> nat \<Rightarrow> nat \<Rightarrow> u32 \<Rightarrow> filecalls \<Rightarrow> nat \<Rightarrow> nat \<Rightarrow> u32 \<Rightarrow> u32 \<Rightarrow> mach \<Rightarrow> (tout \<times> mach) res" where
  "trap kdata kpgdir ralgo opt left_over fcall c trapno cs cr2 m =
     (if trapno = T_SYSCALL then trap_syscall kdata kpgdir ralgo opt left_over fcall c m
      else bindR (trap_switch ralgo opt c trapno cs cr2 m) (\<lambda>m1.
           bindR (exit_if_killed kpgdir c cs m1) (\<lambda>(o1, m2).
           if o1 = Off then Ok (Off, m2)
           else case running (mk m2) c of
                  None \<Rightarrow> Ok (Back, m2)
                | Some cur \<Rightarrow>
                    if p_state (ptable (mk m2) ! cur) = RUNNING \<and> trapno = T_TIMER
                    then bindR (yield kpgdir c (mk m2)) (\<lambda>k3. Ok (Off, m2\<lparr>mk := k3\<rparr>))
                    else exit_if_killed kpgdir c cs m2)))"

text \<open>A process that yielded in \<^verbatim>\<open>trap\<close> finishes it when it runs again: the last check.\<close>

definition trap_resumed :: "u32 \<Rightarrow> nat \<Rightarrow> u32 \<Rightarrow> mach \<Rightarrow> (tout \<times> mach) res" where
  "trap_resumed kpgdir c cs m = exit_if_killed kpgdir c cs m"

section \<open>The descriptor table\<close>

text \<open>A gate as \<^verbatim>\<open>SETGATE\<close> fills it, types \<^verbatim>\<open>STS_TG32\<close> and \<^verbatim>\<open>STS_IG32\<close>; \<^verbatim>\<open>tvinit\<close> on
  the entry points \<open>vectors\<close> of vectors.S.\<close>

record gate =
  off_15_0 :: u16
  g_cs :: u16
  g_args :: u8
  g_rsv1 :: u8
  g_type :: u8
  g_s :: bool
  g_dpl :: nat
  g_p :: bool
  off_31_16 :: u16

definition set_gate :: "bool \<Rightarrow> u16 \<Rightarrow> u32 \<Rightarrow> nat \<Rightarrow> gate" where
  "set_gate istrap sel off d =
     \<lparr>off_15_0 = ucast (off AND 0xffff), g_cs = sel, g_args = 0, g_rsv1 = 0, g_type = (if istrap then 0xF else 0xE),
      g_s = False, g_dpl = d, g_p = True, off_31_16 = ucast (drop_bit 16 off)\<rparr>"

definition tvinit :: "(nat \<Rightarrow> u32) \<Rightarrow> gate list" where
  "tvinit vectors =
     (map (\<lambda>i. set_gate False (push_bit 3 1) (vectors i) 0) [0 ..< 256])
       [T_SYSCALL := set_gate True (push_bit 3 1) (vectors T_SYSCALL) 3]"

end
