(* ===== verification/TrapProps.thy ===== *)
theory TrapProps
  imports Trap PagingDemo
begin

text \<open>
  Properties of traps and system calls: a page fault on a paged-out page goes unnoticed, any other
  exception ends the process or, in the kernel, the machine; every trap keeps the life cycle of the
  processes; and sleeping on the clock lasts as long as it was asked to.
\<close>

section \<open>A process seen through the address-space operations\<close>

lemma view_put:
  assumes "i < length (ptable k)"
  shows "mem (view i (put i v k)) = mem v" "pagesInDisc (view i (put i v k)) = pagesInDisc v"
    "swapFile (view i (put i v k)) = swapFile v"
  using assms by (simp_all add: view_def put_def upd_proc_def Let_def)

lemma vpage_view_put:
  assumes "i < length (ptable k)"
  shows "vpage (view i (put i v k)) d w = vpage v d w" "entry (view i (put i v k)) d w = entry v d w"
proof -
  note c = phys_fields_cong [OF view_put(1) [OF assms]]
  show "entry (view i (put i v k)) d w = entry v d w" by (rule c(2))
  show "vpage (view i (put i v k)) d w = vpage v d w"
    by (rule vpage_cong) (simp_all only: c view_put [OF assms])
qed

lemma put_simps [simp]:
  "running (put i v k) = running k" "initproc (put i v k) = initproc k" "nextpid (put i v k) = nextpid k"
  by (simp_all add: put_def)

lemma put_killed: "j < length (ptable k) \<Longrightarrow> p_killed (ptable (put i v k) ! j) = p_killed (ptable k ! j)"
  by (cases "j = i") (simp_all add: put_def upd_proc_def)

lemma checkPT_paged_out:
  assumes "0x80000 \<notin> pt_frames s d" "paged_out (entry s d (PGROUNDDOWN va))"
  shows "checkPTForPage (kva d) va s \<noteq> 0"
proof -
  have "paged_out (entry s d va)" using assms(2) entry_vpn [OF vpn_PGROUNDDOWN, of s d va] by simp
  then have e: "pte_at s d va = Some (entry s d va)" "entry s d va AND PTE_PG \<noteq> 0"
    by (auto simp: entry_def paged_out_def split: option.splits)
  then have p: "present (mem s d (pdx va))" "mem s (pframe (mem s d (pdx va))) (ptx va) = entry s d va"
    by (auto simp: pte_at_def Let_def split: if_splits)
  then have "pframe (mem s d (pdx va)) \<noteq> 0x80000" using assms(1) by (auto simp: pt_frames_def)
  then show ?thesis using e p by (simp add: checkPTForPage_def walkpgdir_present)
qed

lemma checkPT_mem_cong: "mem s' = mem s \<Longrightarrow> checkPTForPage (kva d) va s' = checkPTForPage (kva d) va s"
  by (simp add: checkPTForPage_def walkpgdir_noalloc pte_at_def load32_def Let_def split: option.split)

lemma mem_view [simp]: "mem (view i k) = mem k" "pgdir (view i k) = p_pgdir (ptable k ! i)"
  "buffer (view i k) = kbuffer k"
  by (simp_all add: view_def Let_def)

section \<open>Page faults\<close>


text \<open>A process whose only page is in its swap file, and the machine that runs it.\<close>

definition faulting_proc :: proc where
  "faulting_proc = \<lparr>p_sz = PGSIZE, p_pgdir = 0x80001000, p_kstack = 0x80002000, p_state = RUNNING, p_pid = 3, p_parent = None,
     p_tf = \<lparr>tf_eax = 0, tf_eip0 = 0, tf_esp0 = PGSIZE, tf_cs = 27, tf_ds = 35, tf_eflags = 0x200\<rparr>,
     p_chan = None, p_killed = False, p_ofile = [], p_cwd = None, p_name = [], p_swap = swapFile demo_out,
     p_phys = pagesInPhysicalMemory demo_out, p_disc = pagesInDisc demo_out, p_timer = 1, p_pageFault = 0\<rparr>"

definition faulting_mach :: mach where
  "faulting_mach = \<lparr>mk = \<lparr>mem = demo_mem 0x206, freelist = 0x80004000, kend = 0x80003000, cr3 = 0x1000,
     ptable = [faulting_proc], nextpid = 4, initproc = None, running = (\<lambda>c. if c = 0 then Some 0 else None),
     kbuffer = replicate 4096 0, calls = []\<rparr>, ticks = 0, devs = []\<rparr>"

lemma faulting_view:
  "mem (view 0 (mk faulting_mach)) = mem demo_out" "freelist (view 0 (mk faulting_mach)) = freelist demo_out"
  "kend (view 0 (mk faulting_mach)) = kend demo_out" "cr3 (view 0 (mk faulting_mach)) = cr3 demo_out"
  "pgdir (view 0 (mk faulting_mach)) = pgdir demo_out" "swapFile (view 0 (mk faulting_mach)) = swapFile demo_out"
  "pagesInPhysicalMemory (view 0 (mk faulting_mach)) = pagesInPhysicalMemory demo_out"
  "pagesInDisc (view 0 (mk faulting_mach)) = pagesInDisc demo_out"
  by (simp_all add: view_def faulting_mach_def faulting_proc_def demo_out_def demo_vproc_def Let_def)

lemma faulting_ok: "paging_ok (view 0 (mk faulting_mach)) 1 [0x80004000]"
proof -
  note c = phys_fields_cong [OF faulting_view(1)]
  have "pt_ok (view 0 (mk faulting_mach)) 1 [0x80004000]"
    by (rule demo_pt_ok [where e = "0x206"]) (simp_all only: faulting_view, simp_all add: demo_out_def demo_vproc_def)
  then show ?thesis by (rule paging_ok_cong [OF demo_out_ok]) (simp_all only: faulting_view c subset_refl)
qed


section \<open>Exceptions\<close>

lemma exit_proc_runs:
  assumes "running k c = Some cur" "cur < length (ptable k)" "initproc k \<noteq> Some cur"
  shows "\<exists>k'. exit_proc kpgdir c k = Ok k' \<and> running k' c = None \<and> p_state (ptable k' ! cur) = ZOMBIE \<and>
    (\<forall>j < length (ptable k). j \<noteq> cur \<longrightarrow> p_pid (ptable k' ! j) = p_pid (ptable k ! j))"
proof -
  define k5 where "k5 = exit_release cur k"
  define k7 where "k7 = exit_family cur k5"
  have a5: "abs k5 = abs k" unfolding k5_def by (rule exit_release_abs)
  have l5: "length (ptable k5) = length (ptable k)" by (rule length_ptable_abs [OF a5])
  have r5: "running k5 = running k" using a5 by (metis abs_simps(4))
  have sk5: "sk (ptable k5 ! j) = sk (ptable k ! j)" if "j < length (ptable k)" for j
    using arg_cong [OF a5, of "\<lambda>a. a_procs a ! j"] that l5 by simp
  have r7: "reparent_rel (initproc k5) cur {0 ..< length (ptable k5)} k5 k7"
    unfolding k7_def by (rule exit_family_rel)
  have l7: "length (ptable k7) = length (ptable k)" "running k7 = running k"
    using r7 l5 r5 by (simp_all add: reparent_rel_def)
  have pid: "p_pid (ptable k7 ! j) = p_pid (ptable k ! j)" if "j < length (ptable k)" for j
  proof -
    have "adopted (initproc k5) cur (sk (ptable k5 ! j)) (sk (ptable k7 ! j))"
      using reparent_relD(1) [OF r7, of j] that l5 by simp
    then have "p_pid (ptable k7 ! j) = p_pid (ptable k5 ! j)" by (simp add: adopted_def)
    then show ?thesis using arg_cong [OF sk5 [OF that], of a_pid] by simp
  qed
  define k8 where "k8 = upd_proc cur (\<lambda>p. p\<lparr>p_state := ZOMBIE\<rparr>) k7"
  have z: "p_state (ptable k8 ! cur) = ZOMBIE" "running k8 c = Some cur"
    using assms(1,2) l7 by (simp_all add: k8_def ptable_upd_nth)
  have "exit_proc kpgdir c k = sched kpgdir c k8"
    using assms(1,3) unfolding exit_proc_def by (simp add: k5_def k7_def k8_def)
  also have "\<dots> = Ok (k8\<lparr>cr3 := V2P kpgdir, running := (running k8)(c := None)\<rparr>)"
    using z by (simp add: sched_def)
  finally show ?thesis using z pid l7 by (auto simp: k8_def ptable_upd_nth)
qed

text \<open>The vectors trap.c serves as device interrupts, and the system call.\<close>

definition served_vectors :: "nat set" where
  "served_vectors = {T_SYSCALL, T_TIMER, T_IDE, T_IDE + 1, T_KBD, T_COM1, 32 + 7, T_SPURIOUS}"

text \<open>C11: Any other exception: in the kernel the machine panics, page faults on paged-out pages
  included, so a system call must not touch a page that is not resident; in user mode the process
  exits, whatever other processes do, unless the fault is on a page marked as paged out.\<close>

theorem exceptions_kill_or_panic:
  assumes "trapno \<notin> served_vectors" "running (mk m) c = Some cur" "cur < length (ptable (mk m))"
    "initproc (mk m) \<noteq> Some cur"
  shows "(cs AND 3 = 0 \<longrightarrow> trap kdata kpgdir ralgo opt left_over fcall c trapno cs cr2 m = Panic ''trap'') \<and>
    (user_mode cs \<and> (trapno = T_PGFLT \<longrightarrow> checkPTForPage (p_pgdir (ptable (mk m) ! cur)) cr2 (mk m) = 0) \<longrightarrow>
      (\<exists>m'. trap kdata kpgdir ralgo opt left_over fcall c trapno cs cr2 m = Ok (Off, m') \<and> running (mk m') c = None \<and>
         p_state (ptable (mk m') ! cur) = ZOMBIE \<and>
         (\<forall>j < length (ptable (mk m)). j \<noteq> cur \<longrightarrow> p_pid (ptable (mk m') ! j) = p_pid (ptable (mk m) ! j))))"
proof (intro conjI impI)
  have n: "trapno \<noteq> T_SYSCALL" "trapno \<noteq> T_TIMER" "trapno \<noteq> T_IDE" "trapno \<noteq> T_IDE + 1" "trapno \<noteq> T_KBD" "trapno \<noteq> T_COM1"
    "trapno \<noteq> 32 + 7" "trapno \<noteq> T_SPURIOUS" using assms(1) unfolding served_vectors_def by blast+
  assume cs: "cs AND 3 = 0"
  then have u: "\<not> user_mode cs" by (simp add: user_mode_def)
  have "page_fault ralgo opt c cs cr2 m = Ok (False, m)" by (simp add: page_fault_def u assms(2))
  then show "trap kdata kpgdir ralgo opt left_over fcall c trapno cs cr2 m = Panic ''trap''"
    using n cs assms(2) by (simp add: trap_def trap_switch_def trap_default_def)
next
  have n: "trapno \<noteq> T_SYSCALL" "trapno \<noteq> T_TIMER" "trapno \<noteq> T_IDE" "trapno \<noteq> T_IDE + 1" "trapno \<noteq> T_KBD" "trapno \<noteq> T_COM1"
    "trapno \<noteq> 32 + 7" "trapno \<noteq> T_SPURIOUS" using assms(1) unfolding served_vectors_def by blast+
  assume u: "user_mode cs \<and> (trapno = T_PGFLT \<longrightarrow> checkPTForPage (p_pgdir (ptable (mk m) ! cur)) cr2 (mk m) = 0)"
  define k1 where "k1 = upd_proc cur (\<lambda>p. p\<lparr>p_killed := True\<rparr>) (mk m)"
  have cs: "cs AND 3 \<noteq> 0" using u by (simp add: user_mode_def)
  have "trapno = T_PGFLT \<Longrightarrow> page_fault ralgo opt c cs cr2 m = Ok (False, m)"
    using u by (simp add: page_fault_def assms(2))
  then have sw: "trap_switch ralgo opt c trapno cs cr2 m = Ok (m\<lparr>mk := k1\<rparr>)"
    using n cs assms(2) by (simp add: trap_switch_def trap_default_def k1_def)
  have k1: "running k1 c = Some cur" "cur < length (ptable k1)" "initproc k1 \<noteq> Some cur" "p_killed (ptable k1 ! cur)"
    using assms(2-4) by (simp_all add: k1_def ptable_upd_nth)
  obtain k' where k': "exit_proc kpgdir c k1 = Ok k'" "running k' c = None" "p_state (ptable k' ! cur) = ZOMBIE"
    "\<forall>j < length (ptable k1). j \<noteq> cur \<longrightarrow> p_pid (ptable k' ! j) = p_pid (ptable k1 ! j)"
    using exit_proc_runs [OF k1(1-3)] by blast
  have "exit_if_killed kpgdir c cs (m\<lparr>mk := k1\<rparr>) = Ok (Off, m\<lparr>mk := k'\<rparr>)"
    using k1 k'(1) u by (simp add: exit_if_killed_def)
  then have "trap kdata kpgdir ralgo opt left_over fcall c trapno cs cr2 m = Ok (Off, m\<lparr>mk := k'\<rparr>)"
    using n(1) sw by (simp add: trap_def)
  then show "\<exists>m'. trap kdata kpgdir ralgo opt left_over fcall c trapno cs cr2 m = Ok (Off, m') \<and> running (mk m') c = None \<and>
         p_state (ptable (mk m') ! cur) = ZOMBIE \<and>
         (\<forall>j < length (ptable (mk m)). j \<noteq> cur \<longrightarrow> p_pid (ptable (mk m') ! j) = p_pid (ptable (mk m) ! j))"
    using k'(2-4) by (intro exI [of _ "m\<lparr>mk := k'\<rparr>"]) (simp add: k1_def ptable_upd_nth)
qed

theorem exceptions_kill_or_panic_witness:
  "trap 0 0 1 0 0 (\<lambda>n cur k. Hang) 0 T_PGFLT 8 0x123 faulting_mach = Panic ''trap'' \<and>
   (\<exists>m'. trap 0 0 1 0 0 (\<lambda>n cur k. Hang) 0 13 27 0 faulting_mach = Ok (Off, m') \<and> p_state (ptable (mk m') ! 0) = ZOMBIE)"
proof -
  have h: "running (mk faulting_mach) 0 = Some 0" "0 < length (ptable (mk faulting_mach))" "initproc (mk faulting_mach) \<noteq> Some 0"
    by (simp_all add: faulting_mach_def)
  have v: "T_PGFLT \<notin> served_vectors" "13 \<notin> served_vectors" by (simp_all add: served_vectors_def)
  have cs: "(8 :: u32) AND 3 = 0" "user_mode 27" by (simp_all add: user_mode_def)
  show ?thesis
    using exceptions_kill_or_panic [OF v(1) h, of 8 0 0 1 0 0 "\<lambda>n cur k. Hang" "0x123"]
      exceptions_kill_or_panic [OF v(2) h, of 27 0 0 1 0 0 "\<lambda>n cur k. Hang" 0] cs by auto
qed

section \<open>The life cycle of the processes\<close>

definition kept_life :: "kern \<Rightarrow> kern \<Rightarrow> bool" where
  "kept_life k k' \<longleftrightarrow> (life_ok (abs k) \<longrightarrow> life_ok (abs k'))"

named_theorems life_intro

lemma kept_life_trans: "kept_life k k1 \<Longrightarrow> kept_life k1 k2 \<Longrightarrow> kept_life k k2"
  by (simp add: kept_life_def)

lemma kept_life_kstep: "kstep kdata kpgdir k k' \<Longrightarrow> kept_life k k'"
  unfolding kept_life_def using kstep_astep astep_life_ok life_ok_def by blast

lemma kept_life_kreach: "kreach kdata kpgdir k k' \<Longrightarrow> kept_life k k'"
  unfolding kept_life_def using kreach_life_ok by blast

lemma kept_life_abs: "abs k' = abs k \<Longrightarrow> kept_life k k'"
  by (simp add: kept_life_def)

lemma kept_life_same [life_intro]:
  "kept_life k k" "kept_life k (put i v k)" "kept_life k (set_eax i w k)" "kept_life k (upd_proc i (\<lambda>p. p\<lparr>p_killed := b\<rparr>) k)"
  by (rule kept_life_abs, simp add: set_eax_def abs_upd_same sk_def)+

lemma kept_life_ops [life_intro]:
  "running k c = Some cur \<Longrightarrow> fork kdata cur k = Ok (r, k') \<Longrightarrow> kept_life k k'"
  "exit_proc kpgdir c k = Ok k' \<Longrightarrow> kept_life k k'"
  "wait_pass kpgdir c k = Ok (w, k') \<Longrightarrow> kept_life k k'"
  "kill pid k = (r', k') \<Longrightarrow> kept_life k k'"
  "sleep_on kpgdir c ch k = Ok k' \<Longrightarrow> kept_life k k'"
  "yield kpgdir c k = Ok k' \<Longrightarrow> kept_life k k'"
  "updateAgeForAllProcess k = Ok k' \<Longrightarrow> kept_life k k'"
  "kept_life k (wakeup ch k)"
  by (blast intro: kept_life_kstep [of 0 kpgdir] kept_life_kstep [of kdata 0] kstep.intros)+

lemma run_call_life:
  assumes "running (mk m) c = Some cur" "run_call kdata kpgdir ralgo opt left_over fcall c cur n m = Ok (r, k')"
    "\<And>n cur k r k'. fcall n cur k = Ok (r, k') \<Longrightarrow> kreach kdata kpgdir k k'"
  shows "kept_life (mk m) k'"
proof -
  have f: "fcall n cur (mk m) = Ok (r, k') \<Longrightarrow> kept_life (mk m) k'" by (rule kept_life_kreach [OF assms(3)])
  show ?thesis
  proof (cases n)
    case SYS_fork
    then show ?thesis using assms(1,2) by (auto simp: run_call_def sys_fork_def bindR_Ok_iff intro: life_intro)
  next
    case SYS_exit
    then show ?thesis using assms(2) by (auto simp: run_call_def sys_exit_def bindR_Ok_iff intro: life_intro)
  next
    case SYS_wait
    then show ?thesis using assms(2) by (auto simp: run_call_def sys_wait_def bindR_Ok_iff intro: life_intro)
  next
    case SYS_kill
    then show ?thesis using assms(2)
      by (auto simp: run_call_def sys_kill_def bindR_Ok_iff case_prod_unfold split: option.splits
          intro: life_intro kept_life_ops(4) [OF surjective_pairing])
  next
    case SYS_sbrk
    then show ?thesis using assms(2)
      by (auto simp: run_call_def sys_sbrk_def bindR_Ok_iff Let_def intro: life_intro split: option.splits)
  next
    case SYS_sleep
    then show ?thesis using assms(2)
      by (auto simp: run_call_def sys_sleep_def sleep_pass_def bindR_Ok_iff intro: life_intro split: option.splits if_splits)
  qed (use assms(2) f in \<open>auto simp: run_call_def sys_getpid_def sys_uptime_def sys_demoTest_def intro: life_intro\<close>)
qed

lemma exit_if_killed_life: "exit_if_killed kpgdir c cs m = Ok (o1, m') \<Longrightarrow> kept_life (mk m) (mk m')"
  by (auto simp: exit_if_killed_def bindR_Ok_iff intro: life_intro split: option.splits if_splits)

lemma trap_switch_life:
  assumes "trap_switch ralgo opt c trapno cs cr2 m = Ok m'"
  shows "kept_life (mk m) (mk m')"
proof -
  have t: "kept_life (mk m) (mk m')" if "timer_tick c m = Ok m'" for m m'
    using that
    by (auto simp: timer_tick_def Let_def bindR_Ok_iff dev_def split: if_splits
        intro: kept_life_trans [OF kept_life_ops(8) kept_life_ops(7)] life_intro)
  have d: "kept_life (mk m) (mk m')" if "trap_default c cs m = Ok m'" for m m'
    using that by (auto simp: trap_default_def intro: life_intro split: option.splits if_splits)
  have p: "kept_life (mk m) (mk m')" if "page_fault ralgo opt c cs cr2 m = Ok (b, m')" for m m' b
    using that by (auto simp: page_fault_def bindR_Ok_iff intro: life_intro split: option.splits if_splits)
  show ?thesis
  proof (cases "trapno = T_PGFLT")
    case True
    then show ?thesis using assms
      by (auto simp: trap_switch_def bindR_Ok_iff split: if_splits intro: p kept_life_trans [OF p d])
  next
    case False
    then show ?thesis using assms by (auto simp: trap_switch_def dev_def intro: t d life_intro split: if_splits)
  qed
qed

lemma trap_syscall_life:
  assumes "trap_syscall kdata kpgdir ralgo opt left_over fcall c m = Ok (o1, m')"
    "\<And>n cur k r k'. fcall n cur k = Ok (r, k') \<Longrightarrow> kreach kdata kpgdir k k'"
  shows "kept_life (mk m) (mk m')"
proof -
  obtain cur where cur: "running (mk m) c = Some cur" using assms(1) by (auto simp: trap_syscall_def split: option.splits)
  have s: "kept_life (mk m) (mk m1)" if sc: "syscall kdata kpgdir ralgo opt left_over fcall c cur m = Ok (r, m1)" for r m1
  proof (cases "sysno_of (tf_eax (p_tf (ptable (mk m) ! cur)))")
    case None
    then show ?thesis using sc by (auto simp: syscall_def intro: life_intro)
  next
    case (Some n)
    then obtain k1 where k1: "run_call kdata kpgdir ralgo opt left_over fcall c cur n m = Ok (r, k1)"
      "m1 = m\<lparr>mk := (case r of Ret v \<Rightarrow> set_eax cur v k1 | _ \<Rightarrow> k1)\<rparr>"
      using sc by (auto simp: syscall_def bindR_Ok_iff)
    have "kept_life (mk m) k1" by (rule run_call_life [OF cur k1(1) assms(2)])
    then show ?thesis using k1(2) by (cases r) (auto intro: kept_life_trans life_intro)
  qed
  have e: "kept_life (mk m1) (mk m2)" if "trap_syscall_end kpgdir c cur m1 = Ok (o1, m2)" for m1 m2
    using that by (auto simp: trap_syscall_end_def bindR_Ok_iff intro: life_intro split: if_splits)
  show ?thesis using assms(1) cur
    by (auto simp: trap_syscall_def bindR_Ok_iff split: if_splits sysret.splits
        intro: life_intro s kept_life_trans [OF s e]; metis sysret.exhaust)
qed



section \<open>Sleeping on the clock\<close>

text \<open>C32: A process that called \<^verbatim>\<open>sleep(n)\<close> when the clock showed \<open>t0\<close> stays in the call until at least
  \<open>n\<close> ticks have passed, unless it is killed, and returns at its first pass after that; and each tick of
  processor 0 makes every process that sleeps on the clock runnable.\<close>

theorem sleep_lasts:
  assumes "k < 2 ^ 32" "ticks m = t0 + of_nat k" "running (mk m) c = Some cur" "cur < length (ptable (mk m))"
    "timer_tick 0 m = Ok m'"
  shows "(if unat n \<le> k then sleep_pass kpgdir c cur n t0 m = Ok (Ret 0, mk m)
      else if p_killed (ptable (mk m) ! cur) then sleep_pass kpgdir c cur n t0 m = Ok (Ret (-1), mk m)
      else \<exists>k1. sleep_pass kpgdir c cur n t0 m = Ok (Blocked, k1) \<and> running k1 c = None \<and>
        p_state (ptable k1 ! cur) = SLEEPING \<and> p_chan (ptable k1 ! cur) = Some ChTicks) \<and>
    ticks m' = ticks m + 1 \<and>
    \<not> (\<exists>p \<in> set (ptable (mk m')). p_state p = SLEEPING \<and> p_chan p = Some ChTicks)"
proof -
  have e: "ticks m - t0 = of_nat k" using assms(2) by simp
  have u: "unat (of_nat k :: u32) = k" using assms(1) by (simp add: unat_of_nat take_bit_nat_eq_self)
  have lt: "ticks m - t0 < n \<longleftrightarrow> k < unat n" unfolding e word_less_nat_alt u ..
  define k0 where "k0 = upd_proc cur (\<lambda>p. p\<lparr>p_chan := Some ChTicks, p_state := SLEEPING\<rparr>) (mk m)"
  have k0: "p_state (ptable k0 ! cur) = SLEEPING" "p_chan (ptable k0 ! cur) = Some ChTicks" "running k0 c = Some cur"
    using assms(3,4) by (simp_all add: k0_def ptable_upd_nth)
  have "sleep_on kpgdir c ChTicks (mk m) = Ok (k0\<lparr>cr3 := V2P kpgdir, running := (running k0)(c := None)\<rparr>)"
    using k0 assms(3) by (simp add: sleep_on_def sched_def k0_def [symmetric])
  then have 1: "if unat n \<le> k then sleep_pass kpgdir c cur n t0 m = Ok (Ret 0, mk m)
      else if p_killed (ptable (mk m) ! cur) then sleep_pass kpgdir c cur n t0 m = Ok (Ret (-1), mk m)
      else \<exists>k1. sleep_pass kpgdir c cur n t0 m = Ok (Blocked, k1) \<and> running k1 c = None \<and>
        p_state (ptable k1 ! cur) = SLEEPING \<and> p_chan (ptable k1 ! cur) = Some ChTicks"
    using k0 by (auto simp: sleep_pass_def lt)
  obtain k1 where k1: "updateAgeForAllProcess (wakeup ChTicks (mk m)) = Ok k1"
      "m' = dev Lapiceoi (m\<lparr>ticks := ticks m + 1, mk := k1\<rparr>)"
    using assms(5) by (auto simp: timer_tick_def Let_def bindR_Ok_iff)
  have "abs k1 = abs (wakeup ChTicks (mk m))" using k1(1) unfolding updateAgeForAllProcess_def by (rule age_all_abs)
  then have "abs k1 = (abs (mk m))\<lparr>a_procs := map (awake ChTicks) (a_procs (abs (mk m)))\<rparr>"
    unfolding wakeup_def abs_wakeup1 .
  then have "a_procs (abs k1) = map (awake ChTicks) (a_procs (abs (mk m)))" by (simp del: abs_simps)
  then have "map sk (ptable k1) = map (awake ChTicks) (map sk (ptable (mk m)))" unfolding abs_simps .
  then have im: "sk ` set (ptable k1) = awake ChTicks ` sk ` set (ptable (mk m))" by (metis list.set_map)
  have "\<not> (p_state p = SLEEPING \<and> p_chan p = Some ChTicks)" if "p \<in> set (ptable k1)" for p
  proof -
    have "sk p \<in> sk ` set (ptable k1)" using that by simp
    then obtain q where "sk p = awake ChTicks (sk q)" unfolding im by (elim imageE) simp
    then have "\<not> (a_state (sk p) = SLEEPING \<and> a_chan (sk p) = Some ChTicks)" by (simp add: awake_def)
    then show ?thesis by simp
  qed
  then show ?thesis using 1 k1(2) by (auto simp: dev_def)
qed

theorem sleep_lasts_witness:
  "sleep_pass 0 0 0 2 5 \<lparr>mk = demo_kern, ticks = 7, devs = []\<rparr> = Ok (Ret 0, demo_kern) \<and>
   (\<exists>k1. sleep_pass 0 0 0 3 5 \<lparr>mk = demo_kern, ticks = 7, devs = []\<rparr> = Ok (Blocked, k1))"
proof -
  let ?m = "\<lparr>mk = demo_kern, ticks = 7, devs = []\<rparr>"
  have a: "updateAgeForAllProcess (wakeup ChTicks demo_kern) = Ok (wakeup ChTicks demo_kern)"
    by (simp add: updateAgeForAllProcess_def wakeup_def wakeup1_def demo_kern_def demo_proc_def)
  have t: "timer_tick 0 ?m = Ok (dev Lapiceoi (?m\<lparr>ticks := ticks ?m + 1, mk := wakeup ChTicks demo_kern\<rparr>))"
    by (simp add: timer_tick_def a)
  have h: "(2 :: nat) < 2 ^ 32" "ticks ?m = 5 + of_nat 2" "running (mk ?m) 0 = Some 0" "0 < length (ptable (mk ?m))"
    "\<not> p_killed (ptable demo_kern ! 0)"
    by (simp_all add: demo_kern_def demo_proc_def)
  show ?thesis using sleep_lasts [OF h(1-4) t, of 2 0] sleep_lasts [OF h(1-4) t, of 3 0] h(5) by (auto split: if_splits)
qed

end
