(* ===== verification/Ide.thy ===== *)
theory Ide
  imports Bcache Spinlock
begin

text \<open>
  The disk driver (ide.c) with its queue of requests and the ports it programs, the driver of the
  disk in memory (memide.c), and processes that use the queue as a step relation. The disk itself
  is the hardware: its status register is an argument, its registers are read as ATA documents them.
  Everything is proved to come down to the atomic transfer of Bcache.
\<close>

section \<open>Buffers and ports\<close>

abbreviation B_VALID :: u32 where "B_VALID \<equiv> 2"
abbreviation B_DIRTY :: u32 where "B_DIRTY \<equiv> 4"
abbreviation SECTOR_SIZE :: nat where "SECTOR_SIZE \<equiv> 512"

record idebuf =
  ib_flags :: u32
  ib_dev :: u32
  ib_blockno :: u32
  ib_lock :: sleeplock
  ib_data :: "u8 list"

text \<open>What the driver sends to the controller: \<^verbatim>\<open>outb\<close> and \<^verbatim>\<open>outsl\<close>.\<close>

datatype pio = Outb u16 u8 | Outsl u16 "u8 list"

text \<open>The list of buffers linked by \<^verbatim>\<open>qnext\<close> is the list of their indices.\<close>

record ide =
  i_bufs :: "idebuf list"
  idequeue :: "nat list"
  i_disk1 :: bool
  i_out :: "pio list"

abbreviation upd_ibuf :: "nat \<Rightarrow> (idebuf \<Rightarrow> idebuf) \<Rightarrow> 'a ide_scheme \<Rightarrow> 'a ide_scheme" where
  "upd_ibuf i f s \<equiv> s\<lparr>i_bufs := (i_bufs s)[i := f (i_bufs s ! i)]\<rparr>"

section \<open>The driver\<close>

text \<open>\<^verbatim>\<open>idewait\<close> on the values that reads of the status register return; \<open>None\<close> while it is still busy.\<close>

fun idewait :: "bool \<Rightarrow> u8 list \<Rightarrow> int option" where
  "idewait checkerr [] = None"
| "idewait checkerr (r # rs) =
     (if r AND (0x80 OR 0x40) \<noteq> 0x40 then idewait checkerr rs
      else if checkerr \<and> r AND (0x20 OR 0x01) \<noteq> 0 then Some (- 1)
      else Some 0)"

text \<open>\<^verbatim>\<open>ideinit\<close>: disk 1 is there if one of the first 1000 reads of its status is not zero.\<close>

definition ideinit :: "u8 list \<Rightarrow> u8 list \<Rightarrow> 'a ide_scheme \<Rightarrow> 'a ide_scheme res" where
  "ideinit rs probe s =
     (case idewait False rs of
        None \<Rightarrow> Hang
      | Some _ \<Rightarrow> Ok (s\<lparr>i_disk1 := (i_disk1 s \<or> list_ex (\<lambda>r. r \<noteq> 0) (take 1000 probe)),
          i_out := i_out s @ [Outb 0x1f6 (0xe0 OR push_bit 4 1), Outb 0x1f6 (0xe0 OR push_bit 4 0)]\<rparr>))"

definition idestart_io :: "idebuf \<Rightarrow> pio list" where
  "idestart_io b =
     (let sector_per_block = BSIZE div SECTOR_SIZE;
          sector = ib_blockno b * of_nat sector_per_block;
          read_cmd = (if sector_per_block = 1 then 0x20 else 0xc4);
          write_cmd = (if sector_per_block = 1 then 0x30 else 0xc5)
      in [Outb 0x3f6 0, Outb 0x1f2 (of_nat sector_per_block),
          Outb 0x1f3 (ucast (sector AND 0xff)),
          Outb 0x1f4 (ucast (drop_bit 8 sector AND 0xff)),
          Outb 0x1f5 (ucast (drop_bit 16 sector AND 0xff)),
          Outb 0x1f6 (ucast (0xe0 OR push_bit 4 (ib_dev b AND 1) OR (drop_bit 24 sector AND 0x0f)))] @
         (if ib_flags b AND B_DIRTY \<noteq> 0 then [Outb 0x1f7 write_cmd, Outsl 0x1f0 (ib_data b)]
          else [Outb 0x1f7 read_cmd]))"

definition idestart :: "u8 list \<Rightarrow> nat \<Rightarrow> 'a ide_scheme \<Rightarrow> 'a ide_scheme res" where
  "idestart rs i s =
     (if ib_blockno (i_bufs s ! i) \<ge> of_nat FSSIZE then Panic ''incorrect blockno''
      else if BSIZE div SECTOR_SIZE > 7 then Panic ''idestart''
      else case idewait False rs of
          None \<Rightarrow> Hang
        | Some _ \<Rightarrow> Ok (s\<lparr>i_out := i_out s @ idestart_io (i_bufs s ! i)\<rparr>))"

text \<open>\<^verbatim>\<open>ideintr\<close>: \<open>rs\<close> is read while it waits for the data of a read, \<open>xs\<close> is what \<^verbatim>\<open>insl\<close> gets, and
  \<open>rs'\<close> is read by \<^verbatim>\<open>idestart\<close>. With the new state it returns the buffer whose sleepers it wakes.\<close>

definition ideintr :: "u8 list \<Rightarrow> u8 list \<Rightarrow> u8 list \<Rightarrow> 'a ide_scheme \<Rightarrow> (nat option \<times> 'a ide_scheme) res" where
  "ideintr rs xs rs' s =
     (case idequeue s of
        [] \<Rightarrow> Ok (None, s)
      | i # q \<Rightarrow>
          let s1 = s\<lparr>idequeue := q\<rparr>; b = i_bufs s1 ! i
          in bindR
               (if ib_flags b AND B_DIRTY = 0
                then (case idewait True rs of
                        None \<Rightarrow> Hang
                      | Some r \<Rightarrow> Ok (if r \<ge> 0 then upd_ibuf i (\<lambda>b. b\<lparr>ib_data := xs\<rparr>) s1 else s1))
                else Ok s1)
               (\<lambda>s2. let s3 = upd_ibuf i (\<lambda>b. b\<lparr>ib_flags := (ib_flags b OR B_VALID) AND NOT B_DIRTY\<rparr>) s2
                     in (case q of
                           [] \<Rightarrow> Ok (Some i, s3)
                         | j # _ \<Rightarrow> bindR (idestart rs' j s3) (\<lambda>s4. Ok (Some i, s4)))))"

text \<open>\<^verbatim>\<open>iderw\<close> up to its first test of the flags, and the test, which is made again after every wakeup.\<close>

definition iderw_enter :: "int \<Rightarrow> u8 list \<Rightarrow> nat \<Rightarrow> 'a ide_scheme \<Rightarrow> 'a ide_scheme res" where
  "iderw_enter pid rs i s =
     (let b = i_bufs s ! i
      in if \<not> holdingsleep pid (ib_lock b) then Panic ''iderw: buf not locked''
         else if ib_flags b AND (B_VALID OR B_DIRTY) = B_VALID then Panic ''iderw: nothing to do''
         else if ib_dev b \<noteq> 0 \<and> \<not> i_disk1 s then Panic ''iderw: ide disk 1 not present''
         else let s1 = s\<lparr>idequeue := idequeue s @ [i]\<rparr>
              in if hd (idequeue s1) = i then idestart rs i s1 else Ok s1)"

definition iderw_sleeps :: "nat \<Rightarrow> 'a ide_scheme \<Rightarrow> bool" where
  "iderw_sleeps i s \<longleftrightarrow> ib_flags (i_bufs s ! i) AND (B_VALID OR B_DIRTY) \<noteq> B_VALID"

section \<open>The disk in memory (memide.c)\<close>

record memide =
  m_disk :: "u8 list"
  m_size :: nat

definition mem_ideinit :: "u8 list \<Rightarrow> memide" where
  "mem_ideinit img = \<lparr>m_disk = img, m_size = length img div BSIZE\<rparr>"

definition mem_iderw :: "int \<Rightarrow> idebuf \<Rightarrow> memide \<Rightarrow> (idebuf \<times> memide) res" where
  "mem_iderw pid b m =
     (if \<not> holdingsleep pid (ib_lock b) then Panic ''iderw: buf not locked''
      else if ib_flags b AND (B_VALID OR B_DIRTY) = B_VALID then Panic ''iderw: nothing to do''
      else if ib_dev b \<noteq> 1 then Panic ''iderw: request not for disk 1''
      else if ib_blockno b \<ge> of_nat (m_size m) then Panic ''iderw: block out of range''
      else let p = unat (ib_blockno b) * BSIZE;
               (b1, m1) = (if ib_flags b AND B_DIRTY \<noteq> 0
                 then (b\<lparr>ib_flags := ib_flags b AND NOT B_DIRTY\<rparr>,
                       m\<lparr>m_disk := take p (m_disk m) @ ib_data b @ drop (p + BSIZE) (m_disk m)\<rparr>)
                 else (b\<lparr>ib_data := take BSIZE (drop p (m_disk m))\<rparr>, m))
           in Ok (b1\<lparr>ib_flags := ib_flags b1 OR B_VALID\<rparr>, m1))"

section \<open>What the controller is told\<close>

text \<open>The registers of an ATA controller hold what was last written to their ports; a write to the
  command register starts the command, of which the driver uses reading and writing one sector in LBA
  mode.\<close>

fun reg :: "u16 \<Rightarrow> pio list \<Rightarrow> u8" where
  "reg p [] = 0"
| "reg p (Outb q v # out) = (if p = q then v else reg p out)"
| "reg p (Outsl q xs # out) = reg p out"

datatype dcmd = DRead nat nat | DWrite nat nat "u8 list"

definition lba :: "pio list \<Rightarrow> nat" where
  "lba out = unat (reg 0x1f3 out) + 2 ^ 8 * unat (reg 0x1f4 out) + 2 ^ 16 * unat (reg 0x1f5 out) +
     2 ^ 24 * unat (reg 0x1f6 out AND 0x0f)"

definition drive_no :: "pio list \<Rightarrow> nat" where
  "drive_no out = (if bit (reg 0x1f6 out) 4 then 1 else 0)"

text \<open>The command the controller is at, from what it was sent, the last first.\<close>

definition command :: "pio list \<Rightarrow> dcmd option" where
  "command out =
     (case out of
        Outsl p xs # Outb q c # out' \<Rightarrow>
          if p = 0x1f0 \<and> q = 0x1f7 \<and> c = 0x30 \<and> reg 0x1f2 out' = 1 \<and> bit (reg 0x1f6 out') 6
          then Some (DWrite (drive_no out') (lba out') xs) else None
      | Outb q c # out' \<Rightarrow>
          if q = 0x1f7 \<and> c = 0x20 \<and> reg 0x1f2 out' = 1 \<and> bit (reg 0x1f6 out') 6
          then Some (DRead (drive_no out') (lba out')) else None
      | _ \<Rightarrow> None)"

definition request :: "idebuf \<Rightarrow> dcmd" where
  "request b = (if ib_flags b AND B_DIRTY \<noteq> 0 then DWrite (unat (ib_dev b)) (unat (ib_blockno b)) (ib_data b)
     else DRead (unat (ib_dev b)) (unat (ib_blockno b)))"


lemma flags_bits:
  "(f :: u32) AND B_DIRTY = 0 \<longleftrightarrow> \<not> bit f 2"
  "(f :: u32) AND (B_VALID OR B_DIRTY) = B_VALID \<longleftrightarrow> bit f 1 \<and> \<not> bit f 2"
proof -
  have b: "bit (4::u32) n \<longleftrightarrow> n = 2" "bit (2::u32) n \<longleftrightarrow> n = 1" for n
    using bit_exp_iff [where 'a = "32 word", of 2 n] bit_exp_iff [where 'a = "32 word", of 1 n] by (auto simp: possible_bit_def)
  have all: "(\<forall>n. P n) \<longleftrightarrow> P 1 \<and> P 2 \<and> (\<forall>n. n \<noteq> 1 \<longrightarrow> n \<noteq> 2 \<longrightarrow> P n)" for P :: "nat \<Rightarrow> bool" by metis
  have e: "x = y \<longleftrightarrow> (\<forall>n. bit x n \<longleftrightarrow> bit y n)" for x y :: u32 by (auto intro: bit_word_eqI)
  show "(f :: u32) AND B_DIRTY = 0 \<longleftrightarrow> \<not> bit f 2"
    by (subst e, subst all, unfold bit_and_iff b) auto
  show "(f :: u32) AND (B_VALID OR B_DIRTY) = B_VALID \<longleftrightarrow> bit f 1 \<and> \<not> bit f 2"
    by (subst e, subst all, unfold bit_and_iff bit_or_iff b) auto
qed

lemma flags_set: "bit ((f OR B_VALID) AND NOT B_DIRTY) 1" "\<not> bit ((f OR B_VALID) AND NOT B_DIRTY :: u32) 2"
  by (simp_all add: bit_simps)

lemma byte_of: "unat (ucast ((s :: u32) AND 0xff) :: u8) = unat s mod 256" "unat (ucast ((s :: u32) AND 0x0f) :: u8) = unat s mod 16"
proof -
  have m: "(0xff :: u32) = mask 8" "(0x0f :: u32) = mask 4" by (simp_all add: mask_eq_exp_minus_1)
  show "unat (ucast ((s :: u32) AND 0xff) :: u8) = unat s mod 256"
    unfolding m take_bit_eq_mask [symmetric] unsigned_ucast_eq unsigned_take_bit_eq
    by (simp add: take_bit_eq_mod)
  show "unat (ucast ((s :: u32) AND 0x0f) :: u8) = unat s mod 16"
    unfolding m take_bit_eq_mask [symmetric] unsigned_ucast_eq unsigned_take_bit_eq
    by (simp add: take_bit_eq_mod mod_mod_cancel)
qed

lemma lba_bytes:
  assumes "sector < (2 ^ 28 :: u32)"
  shows "unat (ucast (sector AND 0xff) :: u8) + 2 ^ 8 * unat (ucast (drop_bit 8 sector AND 0xff) :: u8) +
      2 ^ 16 * unat (ucast (drop_bit 16 sector AND 0xff) :: u8) + 2 ^ 24 * unat (ucast (drop_bit 24 sector AND 0x0f) :: u8) = unat sector"
proof -
  have l: "unat sector < 2 ^ 28" using assms by (simp add: word_less_nat_alt)
  have n: "n mod 256 + 2 ^ 8 * (n div 2 ^ 8 mod 256) + 2 ^ 16 * (n div 2 ^ 16 mod 256) + 2 ^ 24 * (n div 2 ^ 24 mod 16) = n" if "n < 2 ^ 28" for n :: nat
  proof -
    have "n mod (256 * 256) = 256 * (n div 256 mod 256) + n mod 256" by (rule mod_mult2_eq)
    moreover have "n mod (65536 * 256) = 65536 * (n div 65536 mod 256) + n mod 65536" by (rule mod_mult2_eq)
    moreover have "n mod (16777216 * 16) = 16777216 * (n div 16777216 mod 16) + n mod 16777216" by (rule mod_mult2_eq)
    ultimately show ?thesis using that by simp
  qed
  show ?thesis unfolding byte_of unsigned_drop_bit_eq take_bit_drop_bit drop_bit_eq_div
    using n [OF l] l by (simp add: unat_div)
qed

definition good_req :: "bool \<Rightarrow> idebuf \<Rightarrow> bool" where
  "good_req disk1 b \<longleftrightarrow> ib_dev b < 2 \<and> (ib_dev b = 0 \<or> disk1) \<and> ib_blockno b < of_nat FSSIZE"

lemma less_2: "(d :: u32) < 2 \<Longrightarrow> d = 0 \<or> d = 1"
proof -
  assume "d < 2"
  then have "unat d = 0 \<or> unat d = 1" by (auto simp: word_less_nat_alt)
  then show ?thesis by (metis unat_0 unat_1 word_unat_eq_iff)
qed

lemma head_reg:
  fixes d sec :: u32
  assumes "d < 2"
  defines "r \<equiv> (ucast (0xe0 OR push_bit 4 (d AND 1) OR (sec AND 0x0f)) :: u8)"
  shows "r AND 0x0f = ucast (sec AND 0x0f)" "bit r 4 \<longleftrightarrow> d = 1" "bit r 6"
proof -
  note d = less_2 [OF assms(1)]
  show "bit r 6" "bit r 4 \<longleftrightarrow> d = 1" using d by (auto simp: r_def bit_simps)
  show "r AND 0x0f = ucast (sec AND 0x0f)"
  proof (rule bit_word_eqI)
    fix n assume "n < LENGTH(8)"
    then have "n \<in> {0, 1, 2, 3, 4, 5, 6, 7}" by auto
    then show "bit (r AND 0x0f) n \<longleftrightarrow> bit (ucast (sec AND 0x0f) :: u8) n"
      using d unfolding r_def by (elim insertE emptyE) (auto simp: bit_simps)
  qed
qed

lemma idestart_io_command:
  assumes "good_req d1 b"
  shows "command (rev (out @ idestart_io b)) = Some (request b)"
proof -
  have b: "ib_dev b < 2" "ib_blockno b < 1000" using assms(1) by (simp_all add: good_req_def)
  have m: "ib_blockno b < 2 ^ 28" using b(2) by (rule order.strict_trans) simp
  have d: "unat (ib_dev b) = (if ib_dev b = 1 then 1 else 0)" using less_2 [OF b(1)] by auto
  define h :: u8 where "h = ucast (0xe0 OR push_bit 4 (ib_dev b AND 1) OR (drop_bit 24 (ib_blockno b) AND 0x0f))"
  note h = head_reg [OF b(1), of "drop_bit 24 (ib_blockno b)", folded h_def]
  have io: "idestart_io b = [Outb 0x3f6 0, Outb 0x1f2 1, Outb 0x1f3 (ucast (ib_blockno b AND 0xff)),
      Outb 0x1f4 (ucast (drop_bit 8 (ib_blockno b) AND 0xff)), Outb 0x1f5 (ucast (drop_bit 16 (ib_blockno b) AND 0xff)), Outb 0x1f6 h] @
      (if ib_flags b AND B_DIRTY \<noteq> 0 then [Outb 0x1f7 0x30, Outsl 0x1f0 (ib_data b)] else [Outb 0x1f7 0x20])"
    by (simp add: idestart_io_def h_def Let_def)
  show ?thesis
    using lba_bytes [OF m] h d unfolding io
    by (simp add: command_def request_def lba_def drive_no_def)
qed

lemma idestart_Ok:
  assumes "good_req d1 (i_bufs s ! i)" "idewait False rs \<noteq> None"
  shows "idestart rs i s = Ok (s\<lparr>i_out := i_out s @ idestart_io (i_bufs s ! i)\<rparr>)"
  using assms by (auto simp: idestart_def good_req_def split: option.splits)

lemma idestart_OkD:
  "idestart rs i s = Ok s' \<Longrightarrow> s' = s\<lparr>i_out := i_out s @ idestart_io (i_bufs s ! i)\<rparr>"
  by (auto simp: idestart_def split: if_splits option.splits)

section \<open>Processes on the queue\<close>

text \<open>Where a process is with respect to \<^verbatim>\<open>iderw\<close>: outside, asleep on its buffer, or awake again but
  before the test of the loop. The disk itself: its content, the blocks written so far and the
  command it is at.\<close>

datatype idepc = IOut | IAsleep nat | IAwake nat

record idesys = ide +
  i_proc :: "int \<Rightarrow> idepc"
  d_disk :: "nat \<Rightarrow> nat \<Rightarrow> u8 list"
  d_hist :: "(nat \<times> nat \<times> u8 list) list"
  d_cmd :: "dcmd option"

fun in_rw :: "idepc \<Rightarrow> nat \<Rightarrow> bool" where
  "in_rw IOut i = False"
| "in_rw (IAsleep j) i = (j = i)"
| "in_rw (IAwake j) i = (j = i)"

text \<open>The disk takes up the command it was sent last, if it was sent one.\<close>

definition attend :: "dcmd option \<Rightarrow> idesys \<Rightarrow> idesys \<Rightarrow> idesys" where
  "attend c s s' = s'\<lparr>d_cmd := (if i_out s' = i_out s then c else command (rev (i_out s')))\<rparr>"

text \<open>It carries a command out and raises an interrupt; for a read it then holds the sector.\<close>

fun serve :: "dcmd \<Rightarrow> idesys \<Rightarrow> idesys" where
  "serve (DRead d n) s = s"
| "serve (DWrite d n xs) s = s\<lparr>d_disk := (d_disk s)(d := (d_disk s d)(n := xs)), d_hist := d_hist s @ [(d, n, xs)]\<rparr>"

fun delivers :: "dcmd \<Rightarrow> idesys \<Rightarrow> u8 list \<Rightarrow> bool" where
  "delivers (DRead d n) s xs = (xs = d_disk s d n)"
| "delivers (DWrite d n ys) s xs = True"

definition ide_wake :: "nat \<Rightarrow> (int \<Rightarrow> idepc) \<Rightarrow> int \<Rightarrow> idepc" where
  "ide_wake i ps p = (if ps p = IAsleep i then IAwake i else ps p)"

datatype ideact = Call int nat | Intr | Spurious | Test int nat | Nudge int nat | Other nat

text \<open>The steps: a call up to its sleep; an interrupt at the end of a command; an interrupt for
  nothing; the test after a wakeup; a wakeup by \<^verbatim>\<open>kill\<close>; and whatever happens to a buffer that is not
  being transferred (its lock passes on, it gets another block, its holder writes to it).\<close>

inductive idestep :: "ideact \<Rightarrow> idesys \<Rightarrow> idesys \<Rightarrow> bool" where
  calls: "\<lbrakk>i_proc s p = IOut; i < length (i_bufs s); good_req (i_disk1 s) (i_bufs s ! i); idewait False rs \<noteq> None;
      iderw_enter p rs i s = Ok s'; iderw_sleeps i s'\<rbrakk>
    \<Longrightarrow> idestep (Call p i) s ((attend (d_cmd s) s s')\<lparr>i_proc := (i_proc s)(p := IAsleep i)\<rparr>)"
| intr: "\<lbrakk>d_cmd s = Some c; delivers c s xs; idewait True rs = Some 0; idewait False rs' \<noteq> None;
      ideintr rs xs rs' (serve c s) = Ok (Some i, s')\<rbrakk>
    \<Longrightarrow> idestep Intr s ((attend None s s')\<lparr>i_proc := ide_wake i (i_proc s)\<rparr>)"
| spurious: "\<lbrakk>d_cmd s = None; ideintr rs xs rs' s = Ok (None, s')\<rbrakk> \<Longrightarrow> idestep Spurious s s'"
| test: "i_proc s p = IAwake i
    \<Longrightarrow> idestep (Test p i) s (s\<lparr>i_proc := (i_proc s)(p := if iderw_sleeps i s then IAsleep i else IOut)\<rparr>)"
| nudge: "i_proc s p = IAsleep i \<Longrightarrow> idestep (Nudge p i) s (s\<lparr>i_proc := (i_proc s)(p := IAwake i)\<rparr>)"
| other: "\<lbrakk>i < length (i_bufs s); \<And>p. \<not> in_rw (i_proc s p) i\<rbrakk> \<Longrightarrow> idestep (Other i) s (upd_ibuf i f s)"

inductive idereach :: "idesys \<Rightarrow> bool" where
  start: "\<lbrakk>idequeue s = []; \<And>p. i_proc s p = IOut; d_cmd s = None\<rbrakk> \<Longrightarrow> idereach s"
| step: "\<lbrakk>idereach s; idestep a s s'\<rbrakk> \<Longrightarrow> idereach s'"

section \<open>The invariant\<close>

definition ide_inv :: "idesys \<Rightarrow> bool" where
  "ide_inv s \<longleftrightarrow> distinct (idequeue s) \<and>
     (\<forall>i \<in> set (idequeue s). good_req (i_disk1 s) (i_bufs s ! i) \<and> iderw_sleeps i s \<and> (\<exists>p. in_rw (i_proc s p) i)) \<and>
     (\<forall>p i. in_rw (i_proc s p) i \<longrightarrow> i < length (i_bufs s) \<and> holdingsleep p (ib_lock (i_bufs s ! i)) \<and>
        (i \<in> set (idequeue s) \<or> \<not> iderw_sleeps i s)) \<and>
     (\<forall>p i. i_proc s p = IAsleep i \<longrightarrow> i \<in> set (idequeue s)) \<and>
     d_cmd s = (case idequeue s of [] \<Rightarrow> None | i # _ \<Rightarrow> Some (request (i_bufs s ! i)))"

lemma ide_invD:
  assumes "ide_inv s"
  shows "distinct (idequeue s)"
    "i \<in> set (idequeue s) \<Longrightarrow> good_req (i_disk1 s) (i_bufs s ! i) \<and> iderw_sleeps i s \<and> i < length (i_bufs s) \<and> (\<exists>p. in_rw (i_proc s p) i \<and> holdingsleep p (ib_lock (i_bufs s ! i)))"
    "in_rw (i_proc s p) i \<Longrightarrow> i < length (i_bufs s) \<and> holdingsleep p (ib_lock (i_bufs s ! i)) \<and> (i \<in> set (idequeue s) \<or> \<not> iderw_sleeps i s)"
    "i_proc s p = IAsleep i \<Longrightarrow> i \<in> set (idequeue s)"
    "d_cmd s = (case idequeue s of [] \<Rightarrow> None | i # _ \<Rightarrow> Some (request (i_bufs s ! i)))"
  using assms unfolding ide_inv_def by (simp, blast, blast, blast, blast)

lemma ide_invI:
  assumes "distinct (idequeue s)"
    "\<And>i. i \<in> set (idequeue s) \<Longrightarrow> good_req (i_disk1 s) (i_bufs s ! i) \<and> iderw_sleeps i s \<and> (\<exists>p. in_rw (i_proc s p) i)"
    "\<And>p i. in_rw (i_proc s p) i \<Longrightarrow> i < length (i_bufs s) \<and> holdingsleep p (ib_lock (i_bufs s ! i)) \<and> (i \<in> set (idequeue s) \<or> \<not> iderw_sleeps i s)"
    "\<And>p i. i_proc s p = IAsleep i \<Longrightarrow> i \<in> set (idequeue s)"
    "d_cmd s = (case idequeue s of [] \<Rightarrow> None | i # _ \<Rightarrow> Some (request (i_bufs s ! i)))"
  shows "ide_inv s"
  using assms unfolding ide_inv_def by blast

lemma in_rw_asleep: "in_rw a i \<longleftrightarrow> a = IAsleep i \<or> a = IAwake i"
  by (cases a) auto

lemma in_rw_owner: "ide_inv s \<Longrightarrow> in_rw (i_proc s p) i \<Longrightarrow> in_rw (i_proc s q) i \<Longrightarrow> p = q"
  using ide_invD(3) [of s p i] ide_invD(3) [of s q i] by (simp add: holdingsleep_def)

text \<open>What a request does to its buffer.\<close>

definition finish :: "u8 list \<Rightarrow> idebuf \<Rightarrow> idebuf" where
  "finish xs b = b\<lparr>ib_data := (if ib_flags b AND B_DIRTY = 0 then xs else ib_data b),
     ib_flags := (ib_flags b OR B_VALID) AND NOT B_DIRTY\<rparr>"

lemma ideintr_eq:
  assumes "idequeue s = i # q" "i < length (i_bufs s)" "i \<notin> set q" "idewait True rs = Some 0"
    "\<And>j. j \<in> set q \<Longrightarrow> good_req d1 (i_bufs s ! j)" "idewait False rs' \<noteq> None"
  shows "ideintr rs xs rs' s = Ok (Some i, (upd_ibuf i (finish xs) s)\<lparr>idequeue := q,
    i_out := i_out s @ (case q of [] \<Rightarrow> [] | j # _ \<Rightarrow> idestart_io (i_bufs s ! j))\<rparr>)"
proof (cases q)
  case Nil
  then show ?thesis using assms by (simp add: ideintr_def Let_def finish_def)
next
  case (Cons j q')
  then have j: "j \<noteq> i" "good_req d1 (i_bufs s ! j)" using assms by auto
  then show ?thesis using assms Cons
    by (simp add: ideintr_def Let_def finish_def idestart_Ok [of d1])
qed

lemma serve_simps [simp]:
  "i_bufs (serve c s) = i_bufs s" "idequeue (serve c s) = idequeue s" "i_disk1 (serve c s) = i_disk1 s"
  "i_out (serve c s) = i_out s" "i_proc (serve c s) = i_proc s"
  by (cases c; simp)+

lemma iderw_sleeps_cong: "i_bufs s' ! i = i_bufs s ! i \<Longrightarrow> iderw_sleeps i s' \<longleftrightarrow> iderw_sleeps i s"
  by (simp add: iderw_sleeps_def)

lemma iderw_sleeps_finish: "i_bufs s ! i = finish xs b \<Longrightarrow> \<not> iderw_sleeps i s"
  using flags_bits(2) [of "(ib_flags b OR B_VALID) AND NOT B_DIRTY"] flags_set [of "ib_flags b"]
  by (simp only: iderw_sleeps_def finish_def idebuf.simps) simp

lemma idestart_io_not_Nil [simp]: "idestart_io b \<noteq> []"
  by (simp add: idestart_io_def Let_def)

lemma call_effect:
  assumes "ide_inv s" "i_proc s p = IOut" "i < length (i_bufs s)" "good_req (i_disk1 s) (i_bufs s ! i)"
    "iderw_enter p rs i s = Ok s'"
  shows "i \<notin> set (idequeue s)" "iderw_sleeps i s" "holdingsleep p (ib_lock (i_bufs s ! i))"
    "attend (d_cmd s) s s' = s\<lparr>idequeue := idequeue s @ [i],
       i_out := i_out s @ (if idequeue s = [] then idestart_io (i_bufs s ! i) else []),
       d_cmd := (if idequeue s = [] then Some (request (i_bufs s ! i)) else d_cmd s)\<rparr>"
proof -
  have h: "holdingsleep p (ib_lock (i_bufs s ! i))" and f: "iderw_sleeps i s"
    using assms(5) by (auto simp: iderw_enter_def Let_def iderw_sleeps_def split: if_splits)
  then show "holdingsleep p (ib_lock (i_bufs s ! i))" "iderw_sleeps i s" by simp_all
  show q: "i \<notin> set (idequeue s)"
  proof
    assume "i \<in> set (idequeue s)"
    then obtain r where "in_rw (i_proc s r) i" "holdingsleep r (ib_lock (i_bufs s ! i))" using ide_invD(2) [OF assms(1)] by blast
    then show False using h assms(2) by (auto simp: holdingsleep_def)
  qed
  define s1 where "s1 = s\<lparr>idequeue := idequeue s @ [i]\<rparr>"
  have e: "(if hd (idequeue s1) = i then idestart rs i s1 else Ok s1) = Ok s'"
    using assms(5) h f by (auto simp: iderw_enter_def Let_def iderw_sleeps_def s1_def split: if_splits)
  show "attend (d_cmd s) s s' = s\<lparr>idequeue := idequeue s @ [i],
       i_out := i_out s @ (if idequeue s = [] then idestart_io (i_bufs s ! i) else []),
       d_cmd := (if idequeue s = [] then Some (request (i_bufs s ! i)) else d_cmd s)\<rparr>"
  proof (cases "idequeue s = []")
    case True
    then have "idestart rs i s1 = Ok s'" using e by (simp add: s1_def)
    then show ?thesis using True idestart_io_command [OF assms(4)] by (auto dest!: idestart_OkD simp: s1_def attend_def)
  next
    case False
    then have "hd (idequeue s1) \<noteq> i" using q by (auto simp: s1_def hd_append)
    then show ?thesis using e False by (auto simp: s1_def attend_def)
  qed
qed

lemma intr_effect:
  assumes "ide_inv s" "d_cmd s = Some c" "idewait True rs = Some 0" "idewait False rs' \<noteq> None"
    "ideintr rs xs rs' (serve c s) = Ok (Some i, s')"
  obtains q where "idequeue s = i # q" "c = request (i_bufs s ! i)"
    "attend None s s' = (upd_ibuf i (finish xs) (serve c s))\<lparr>idequeue := q,
       i_out := i_out s @ (case q of [] \<Rightarrow> [] | j # _ \<Rightarrow> idestart_io (i_bufs s ! j)),
       d_cmd := (case q of [] \<Rightarrow> None | j # _ \<Rightarrow> Some (request (i_bufs s ! j)))\<rparr>"
proof -
  have "idequeue s \<noteq> []" using ide_invD(5) [OF assms(1)] assms(2) by auto
  then obtain k q where q: "idequeue s = k # q" by (cases "idequeue s") auto
  have k: "k < length (i_bufs (serve c s))" "k \<notin> set q" "\<And>j. j \<in> set q \<Longrightarrow> good_req (i_disk1 s) (i_bufs (serve c s) ! j)"
    using ide_invD(1) [OF assms(1)] ide_invD(2) [OF assms(1)] q by auto
  have q': "idequeue (serve c s) = k # q" using q by simp
  note e = ideintr_eq [OF q' k(1,2) assms(3) k(3) assms(4), of xs]
  then have ki: "k = i" using assms(5) by simp
  have s': "s' = (upd_ibuf i (finish xs) (serve c s))\<lparr>idequeue := q,
    i_out := i_out (serve c s) @ (case q of [] \<Rightarrow> [] | j # _ \<Rightarrow> idestart_io (i_bufs (serve c s) ! j))\<rparr>"
    using e assms(5) ki by simp
  show thesis
  proof (rule that)
    show "idequeue s = i # q" using q ki by simp
    show "c = request (i_bufs s ! i)" using ide_invD(5) [OF assms(1)] assms(2) q ki by simp
    show "attend None s s' = (upd_ibuf i (finish xs) (serve c s))\<lparr>idequeue := q,
       i_out := i_out s @ (case q of [] \<Rightarrow> [] | j # _ \<Rightarrow> idestart_io (i_bufs s ! j)),
       d_cmd := (case q of [] \<Rightarrow> None | j # _ \<Rightarrow> Some (request (i_bufs s ! j)))\<rparr>"
    proof (cases q)
      case Nil
      then show ?thesis unfolding s' attend_def by simp
    next
      case (Cons j q'')
      then have "good_req (i_disk1 s) (i_bufs s ! j)" using k(3) by simp
      from idestart_io_command [OF this, of "i_out s"] show ?thesis unfolding s' attend_def using Cons by simp
    qed
  qed
qed

lemma ide_inv_call:
  assumes "ide_inv s" "i_proc s p = IOut" "i < length (i_bufs s)" "good_req (i_disk1 s) (i_bufs s ! i)"
    "iderw_enter p rs i s = Ok s'"
  shows "ide_inv ((attend (d_cmd s) s s')\<lparr>i_proc := (i_proc s)(p := IAsleep i)\<rparr>)"
proof -
  define t where "t = (attend (d_cmd s) s s')\<lparr>i_proc := (i_proc s)(p := IAsleep i)\<rparr>"
  note e = call_effect [OF assms]
  have t: "i_bufs t = i_bufs s" "idequeue t = idequeue s @ [i]" "i_disk1 t = i_disk1 s"
    "i_proc t = (i_proc s)(p := IAsleep i)" "d_cmd t = (if idequeue s = [] then Some (request (i_bufs s ! i)) else d_cmd s)"
    by (simp_all add: t_def e(4))
  note inv = ide_invD [OF assms(1)]
  have o: "in_rw (i_proc t q) j \<longleftrightarrow> (if q = p then j = i else in_rw (i_proc s q) j)" for q j by (auto simp: t)
  have sl: "iderw_sleeps j t = iderw_sleeps j s" for j by (rule iderw_sleeps_cong) (simp add: t)
  show ?thesis unfolding t_def [symmetric]
  proof (rule ide_invI)
    show "good_req (i_disk1 t) (i_bufs t ! j) \<and> iderw_sleeps j t \<and> (\<exists>q. in_rw (i_proc t q) j)" if j: "j \<in> set (idequeue t)" for j
    proof (cases "j = i")
      case True
      then show ?thesis using e(2) assms(4) by (auto simp: t(1,3) sl o)
    next
      case False
      then have "j \<in> set (idequeue s)" using j by (simp add: t)
      with inv(2) obtain q where q: "good_req (i_disk1 s) (i_bufs s ! j)" "iderw_sleeps j s" "in_rw (i_proc s q) j" by blast
      then have "q \<noteq> p" using assms(2) by auto
      then show ?thesis using q by (auto simp: t(1,3) sl o)
    qed
    show "j < length (i_bufs t) \<and> holdingsleep q (ib_lock (i_bufs t ! j)) \<and> (j \<in> set (idequeue t) \<or> \<not> iderw_sleeps j t)"
      if "in_rw (i_proc t q) j" for q j
      using that inv(3) [of q j] e assms(3) by (auto simp: t(1,2) sl o split: if_splits)
  qed (use inv(1,4) inv(5) e(1) in \<open>auto simp: t split: list.splits if_splits\<close>)
qed

lemma ide_inv_intr:
  assumes "ide_inv s" "d_cmd s = Some c" "idewait True rs = Some 0" "idewait False rs' \<noteq> None"
    "ideintr rs xs rs' (serve c s) = Ok (Some i, s')"
  shows "ide_inv ((attend None s s')\<lparr>i_proc := ide_wake i (i_proc s)\<rparr>)"
proof -
  define t where "t = (attend None s s')\<lparr>i_proc := ide_wake i (i_proc s)\<rparr>"
  obtain q where q: "idequeue s = i # q" and e: "attend None s s' = (upd_ibuf i (finish xs) (serve c s))\<lparr>idequeue := q,
       i_out := i_out s @ (case q of [] \<Rightarrow> [] | j # _ \<Rightarrow> idestart_io (i_bufs s ! j)),
       d_cmd := (case q of [] \<Rightarrow> None | j # _ \<Rightarrow> Some (request (i_bufs s ! j)))\<rparr>"
    using intr_effect [OF assms] by metis
  note inv = ide_invD [OF assms(1)]
  have i: "i < length (i_bufs s)" "i \<notin> set q" "distinct q" using inv(1,2) q by auto
  have t: "i_bufs t = (i_bufs s)[i := finish xs (i_bufs s ! i)]" "idequeue t = q" "i_disk1 t = i_disk1 s"
    "i_proc t = ide_wake i (i_proc s)" "d_cmd t = (case q of [] \<Rightarrow> None | j # _ \<Rightarrow> Some (request (i_bufs s ! j)))"
    by (simp_all add: t_def e)
  have o: "in_rw (i_proc t r) j \<longleftrightarrow> in_rw (i_proc s r) j" for r j by (auto simp: t ide_wake_def)
  have n: "i_bufs t ! j = i_bufs s ! j" if "j \<noteq> i" for j using that by (simp add: t)
  have sl: "iderw_sleeps j t = iderw_sleeps j s" if "j \<noteq> i" for j by (rule iderw_sleeps_cong) (rule n [OF that])
  have si: "\<not> iderw_sleeps i t" by (rule iderw_sleeps_finish) (simp add: t i)
  show ?thesis unfolding t_def [symmetric]
  proof (rule ide_invI)
    show "good_req (i_disk1 t) (i_bufs t ! j) \<and> iderw_sleeps j t \<and> (\<exists>r. in_rw (i_proc t r) j)" if j: "j \<in> set (idequeue t)" for j
    proof -
      have "j \<noteq> i" "j \<in> set (idequeue s)" using j i q by (auto simp: t)
      then show ?thesis using inv(2) [of j] n sl by (auto simp: t(3) o)
    qed
    show "j < length (i_bufs t) \<and> holdingsleep r (ib_lock (i_bufs t ! j)) \<and> (j \<in> set (idequeue t) \<or> \<not> iderw_sleeps j t)"
      if "in_rw (i_proc t r) j" for r j
    proof (cases "j = i")
      case True
      then show ?thesis using inv(3) [of r j] that si i by (simp add: o t(1)) (simp add: finish_def)
    next
      case False
      then show ?thesis using inv(3) [of r j] that q by (simp add: o n sl) (simp add: t)
    qed
    show "d_cmd t = (case idequeue t of [] \<Rightarrow> None | j # _ \<Rightarrow> Some (request (i_bufs t ! j)))"
      using i by (auto simp: t split: list.splits)
    show "j \<in> set (idequeue t)" if "i_proc t r = IAsleep j" for r j
    proof -
      have "i_proc s r = IAsleep j" "j \<noteq> i" using that by (auto simp: t ide_wake_def split: if_splits)
      then show ?thesis using inv(4) [of r j] q by (simp add: t)
    qed
  qed (simp add: t i)
qed

lemma ide_inv_procs:
  assumes "ide_inv s" "\<And>p i. in_rw (ps p) i \<Longrightarrow> in_rw (i_proc s p) i"
    "\<And>p i. in_rw (i_proc s p) i \<Longrightarrow> \<not> in_rw (ps p) i \<Longrightarrow> i \<notin> set (idequeue s)"
    "\<And>p i. ps p = IAsleep i \<Longrightarrow> i \<in> set (idequeue s)"
  shows "ide_inv (s\<lparr>i_proc := ps\<rparr>)"
proof -
  note inv = ide_invD [OF assms(1)]
  have sl: "iderw_sleeps i (s\<lparr>i_proc := ps\<rparr>) = iderw_sleeps i s" for i by (simp add: iderw_sleeps_def)
  show ?thesis
  proof (rule ide_invI)
    fix j assume j: "j \<in> set (idequeue (s\<lparr>i_proc := ps\<rparr>))"
    then obtain p where "in_rw (i_proc s p) j" using inv(2) [of j] by auto
    then have "in_rw (ps p) j" using assms(3) [of p j] j by auto
    then show "good_req (i_disk1 (s\<lparr>i_proc := ps\<rparr>)) (i_bufs (s\<lparr>i_proc := ps\<rparr>) ! j) \<and> iderw_sleeps j (s\<lparr>i_proc := ps\<rparr>) \<and>
        (\<exists>p. in_rw (i_proc (s\<lparr>i_proc := ps\<rparr>) p) j)"
      using inv(2) [of j] j by (auto simp: sl)
  qed (use inv(1,3) assms(2,4) inv(5) in \<open>auto simp: sl split: list.splits\<close>)
qed

lemma ide_inv_step: "idestep a s s' \<Longrightarrow> ide_inv s \<Longrightarrow> ide_inv s'"
proof (induction rule: idestep.induct)
  case (calls s p i rs s')
  then show ?case by (intro ide_inv_call)
next
  case (intr s c xs rs rs' i s')
  then show ?case by (intro ide_inv_intr)
next
  case (spurious s rs xs rs' s')
  then have "idequeue s = []" using ide_invD(5) [of s] by (cases "idequeue s") auto
  then show ?case using spurious by (simp add: ideintr_def)
next
  case (test s p i)
  note inv = ide_invD [OF test(2)]
  have "i \<in> set (idequeue s) \<longleftrightarrow> iderw_sleeps i s" using inv(2) [of i] inv(3) [of p i] test(1) by auto
  then show ?case using inv(4) test by (intro ide_inv_procs) (auto split: if_splits)
next
  case (nudge s p i)
  then show ?case using ide_invD(4) [OF nudge(2)] by (intro ide_inv_procs) (auto split: if_splits)
next
  case (other i s f)
  note inv = ide_invD [OF other(3)]
  have q: "i \<notin> set (idequeue s)" using inv(2) [of i] other(2) by blast
  have n: "i_bufs (upd_ibuf i f s) ! j = i_bufs s ! j" if "j \<noteq> i" for j using that by simp
  have sl: "iderw_sleeps j (upd_ibuf i f s) = iderw_sleeps j s" if "j \<noteq> i" for j by (rule iderw_sleeps_cong) (rule n [OF that])
  show ?case
  proof (rule ide_invI)
    fix j assume j: "j \<in> set (idequeue (upd_ibuf i f s))"
    then have "j \<noteq> i" "j \<in> set (idequeue s)" using q by auto
    then show "good_req (i_disk1 (upd_ibuf i f s)) (i_bufs (upd_ibuf i f s) ! j) \<and> iderw_sleeps j (upd_ibuf i f s) \<and>
        (\<exists>p. in_rw (i_proc (upd_ibuf i f s) p) j)"
      using inv(2) [of j] sl by auto
  next
    fix p j assume r: "in_rw (i_proc (upd_ibuf i f s) p) j"
    then have "j \<noteq> i" using other(2) by auto
    then show "j < length (i_bufs (upd_ibuf i f s)) \<and> holdingsleep p (ib_lock (i_bufs (upd_ibuf i f s) ! j)) \<and>
        (j \<in> set (idequeue (upd_ibuf i f s)) \<or> \<not> iderw_sleeps j (upd_ibuf i f s))"
      using inv(3) [of p j] r sl by auto
  qed (use inv(1,4,5) q in \<open>auto split: list.splits\<close>)
qed

lemma idereach_inv: "idereach s \<Longrightarrow> ide_inv s"
proof (induction rule: idereach.induct)
  case (start s)
  then show ?case by (intro ide_invI) auto
qed (rule ide_inv_step)

section \<open>Transfers are atomic\<close>

definition ibuf_abs :: "idebuf \<Rightarrow> buf" where
  "ibuf_abs b = \<lparr>bdev = unat (ib_dev b), bblockno = unat (ib_blockno b), bvalid = (ib_flags b AND B_VALID \<noteq> 0),
     bdirty = (ib_flags b AND B_DIRTY \<noteq> 0), bheld = sk_locked (ib_lock b), brefcnt = 0, bdata = ib_data b\<rparr>"

definition ide_abs :: "idesys \<Rightarrow> bcache" where
  "ide_abs s = \<lparr>bdisk = d_disk s, bwrites = d_hist s, havedisk1 = i_disk1 s, bufs = map ibuf_abs (i_bufs s), mru = []\<rparr>"

lemma flag_valid: "(f :: u32) AND B_VALID = 0 \<longleftrightarrow> \<not> bit f 1"
proof -
  have b: "bit (2::u32) n \<longleftrightarrow> n = 1" for n
    using bit_exp_iff [where 'a = "32 word", of 1 n] by (auto simp: possible_bit_def)
  have e: "x = y \<longleftrightarrow> (\<forall>n. bit x n \<longleftrightarrow> bit y n)" for x y :: u32 by (auto intro: bit_word_eqI)
  show ?thesis by (subst e, unfold bit_and_iff b) auto
qed

lemma iderw_sleeps_bits: "iderw_sleeps i s \<longleftrightarrow> \<not> (bit (ib_flags (i_bufs s ! i)) 1 \<and> \<not> bit (ib_flags (i_bufs s ! i)) 2)"
  by (simp only: iderw_sleeps_def flags_bits(2))

text \<open>The interrupt that ends a request is the atomic transfer of Bcache.\<close>

lemma intr_is_iderw:
  assumes "i < length (i_bufs s)" "good_req (i_disk1 s) (i_bufs s ! i)" "iderw_sleeps i s" "sk_locked (ib_lock (i_bufs s ! i))"
    "delivers (request (i_bufs s ! i)) s xs"
    "i_bufs t = (i_bufs s)[i := finish xs (i_bufs s ! i)]" "i_disk1 t = i_disk1 s"
    "d_disk t = d_disk (serve (request (i_bufs s ! i)) s)" "d_hist t = d_hist (serve (request (i_bufs s ! i)) s)"
  shows "iderw i (ide_abs s) = Ok (ide_abs t)"
proof -
  define b where "b = i_bufs s ! i"
  have bn: "unat (ib_blockno b) < 1000" using assms(2) by (simp add: good_req_def b_def word_less_nat_alt)
  have dv: "unat (ib_dev b) = 0 \<or> i_disk1 s" using assms(2) by (auto simp: good_req_def b_def)
  have sl: "\<not> (bvalid (ibuf_abs b) \<and> \<not> bdirty (ibuf_abs b))"
    using assms(3) by (simp add: iderw_sleeps_bits ibuf_abs_def b_def flags_bits flag_valid)
  have nth: "bufs (ide_abs s) ! i = ibuf_abs b" using assms(1) by (simp add: ide_abs_def b_def)
  have fin: "ibuf_abs (finish xs b) = (ibuf_abs b)\<lparr>bdata := (if bdirty (ibuf_abs b) then bdata (ibuf_abs b) else xs), bvalid := True, bdirty := False\<rparr>"
    using flags_set [of "ib_flags b"] by (simp add: ibuf_abs_def finish_def flags_bits(1) flag_valid)
  have at: "ide_abs t = \<lparr>bdisk = d_disk t, bwrites = d_hist t, havedisk1 = i_disk1 s,
      bufs = (bufs (ide_abs s))[i := ibuf_abs (finish xs b)], mru = []\<rparr>"
    using assms(1) by (simp add: ide_abs_def assms(6,7) map_update b_def)
  have held: "bheld (ibuf_abs b)" "bblockno (ibuf_abs b) < 1000" "bdev (ibuf_abs b) = 0 \<or> havedisk1 (ide_abs s)"
    using assms(4) bn dv by (auto simp: ibuf_abs_def b_def ide_abs_def)
  show ?thesis
  proof (cases "bdirty (ibuf_abs b)")
    case True
    then have "request b = DWrite (bdev (ibuf_abs b)) (bblockno (ibuf_abs b)) (bdata (ibuf_abs b))"
      by (simp add: request_def ibuf_abs_def)
    then have "d_disk t = (d_disk s)(bdev (ibuf_abs b) := (d_disk s (bdev (ibuf_abs b)))(bblockno (ibuf_abs b) := bdata (ibuf_abs b)))"
      "d_hist t = d_hist s @ [(bdev (ibuf_abs b), bblockno (ibuf_abs b), bdata (ibuf_abs b))]"
      using assms(8,9) by (simp_all add: b_def)
    then show ?thesis
      using True held sl unfolding at fin by (auto simp: iderw_def nth Let_def upd_buf_def) (simp_all add: ide_abs_def)
  next
    case False
    then have "request b = DRead (bdev (ibuf_abs b)) (bblockno (ibuf_abs b))"
      by (simp add: request_def ibuf_abs_def)
    then have "d_disk t = d_disk s" "d_hist t = d_hist s" "xs = d_disk s (bdev (ibuf_abs b)) (bblockno (ibuf_abs b))"
      using assms(5,8,9) by (simp_all add: b_def)
    then show ?thesis
      using False held sl unfolding at fin by (auto simp: iderw_def nth Let_def upd_buf_def) (simp_all add: ide_abs_def)
  qed
qed


text \<open>C23: A process asleep in \<^verbatim>\<open>iderw\<close> is woken, with its request served, after as many interrupts as requests
  are queued up to its own; no wakeup is lost and no interrupt panics.\<close>

theorem disk_request_served:
  assumes "idereach s" "i_proc s p = IAsleep i"
  shows "\<exists>k s'. k \<le> length (idequeue s) \<and> (idestep Intr ^^ k) s s' \<and> i_proc s' p = IAwake i \<and> \<not> iderw_sleeps i s'"
  using assms
proof (induction "length (idequeue s)" arbitrary: s)
  case 0
  then show ?case using ide_invD(4) [OF idereach_inv [OF 0(2)]] by fastforce
next
  case (Suc n)
  note I = idereach_inv [OF Suc(3)]
  note inv = ide_invD [OF I]
  obtain j q where q: "idequeue s = j # q" using Suc(2) by (cases "idequeue s") auto
  have c: "d_cmd s = Some (request (i_bufs s ! j))" using inv(5) q by simp
  have j: "j < length (i_bufs (serve (request (i_bufs s ! j)) s))" "j \<notin> set q"
    "\<And>k. k \<in> set q \<Longrightarrow> good_req (i_disk1 s) (i_bufs (serve (request (i_bufs s ! j)) s) ! k)" using inv(1,2) q by auto
  obtain xs where xs: "delivers (request (i_bufs s ! j)) s xs" by (cases "request (i_bufs s ! j)") auto
  have q': "idequeue (serve (request (i_bufs s ! j)) s) = j # q" using q by simp
  have rs: "idewait True [0x40] = Some 0" "idewait False [0x40] \<noteq> None" by simp_all
  note r = ideintr_eq [OF q' j(1,2) rs(1) j(3) rs(2), of xs]
  define s1 where "s1 = (attend None s ((upd_ibuf j (finish xs) (serve (request (i_bufs s ! j)) s))\<lparr>idequeue := q,
     i_out := i_out (serve (request (i_bufs s ! j)) s) @ (case q of [] \<Rightarrow> [] | k # _ \<Rightarrow> idestart_io (i_bufs (serve (request (i_bufs s ! j)) s) ! k))\<rparr>))\<lparr>i_proc := ide_wake j (i_proc s)\<rparr>"
  have st: "idestep Intr s s1" unfolding s1_def by (rule idestep.intr [OF c xs rs r])
  have s1: "idequeue s1 = q" "i_proc s1 p = ide_wake j (i_proc s) p" "i_bufs s1 = (i_bufs s)[j := finish xs (i_bufs s ! j)]"
    by (simp_all add: s1_def attend_def)
  show ?case
  proof (cases "j = i")
    case True
    then have "\<not> iderw_sleeps i s1" using j(1) by (intro iderw_sleeps_finish [of _ _ xs]) (simp add: s1)
    then show ?thesis using True st Suc(2,4) s1 by (intro exI [of _ 1] exI [of _ s1]) (auto simp: ide_wake_def)
  next
    case False
    then have "i_proc s1 p = IAsleep i" using Suc(4) s1 by (simp add: ide_wake_def)
    moreover have "idereach s1" using Suc(3) st by (rule idereach.step)
    moreover have "n = length (idequeue s1)" using Suc(2) q s1 by simp
    ultimately obtain k s' where "k \<le> length (idequeue s1)" "(idestep Intr ^^ k) s1 s'" "i_proc s' p = IAwake i" "\<not> iderw_sleeps i s'"
      using Suc(1) by blast
    then show ?thesis using st q s1 by (intro exI [of _ "Suc k"] exI [of _ s']) (auto simp del: relpowp.simps intro: relpowp_Suc_I2)
  qed
qed

section \<open>The disk in memory\<close>

definition mem_block :: "memide \<Rightarrow> nat \<Rightarrow> u8 list" where
  "mem_block m n = take BSIZE (drop (n * BSIZE) (m_disk m))"

definition mem_abs :: "idebuf \<Rightarrow> (nat \<Rightarrow> u8 list) \<Rightarrow> (nat \<times> nat \<times> u8 list) list \<Rightarrow> bcache" where
  "mem_abs b blocks h = \<lparr>bdisk = (\<lambda>d n. if d = 1 then blocks n else []), bwrites = h, havedisk1 = True, bufs = [ibuf_abs b], mru = []\<rparr>"

lemma mem_block_write:
  assumes "length xs = BSIZE" "(k + 1) * BSIZE \<le> length (m_disk m)"
  shows "mem_block (m\<lparr>m_disk := take (k * BSIZE) (m_disk m) @ xs @ drop (k * BSIZE + BSIZE) (m_disk m)\<rparr>) = (mem_block m)(k := xs)"
proof
  fix n
  have l: "length (take (k * BSIZE) (m_disk m)) = k * BSIZE" using assms(2) by simp
  consider "n < k" | "n = k" | "k < n" by linarith
  then show "mem_block (m\<lparr>m_disk := take (k * BSIZE) (m_disk m) @ xs @ drop (k * BSIZE + BSIZE) (m_disk m)\<rparr>) n = ((mem_block m)(k := xs)) n"
  proof cases
    case 1
    then have "n * BSIZE + BSIZE \<le> k * BSIZE" by simp
    then show ?thesis using 1 l by (simp add: mem_block_def take_drop min_def)
  next
    case 2
    then show ?thesis using assms l by (simp add: mem_block_def)
  next
    case 3
    then obtain d where d: "n = k + 1 + d" by (metis less_iff_Suc_add add_Suc_right add.commute plus_1_eq_Suc)
    then show ?thesis using assms l by (simp add: mem_block_def algebra_simps)
  qed
qed

text \<open>The disk in memory behaves like the disk: on a buffer of disk 1 memide.c makes the same transfer, and
  panics exactly where ide.c would.\<close>

theorem memide_is_iderw:
  assumes "m_size m = FSSIZE" "length (m_disk m) = FSSIZE * BSIZE" "length (ib_data b) = BSIZE" "ib_dev b = 1"
    "sk_locked (ib_lock b) \<longrightarrow> sk_pid (ib_lock b) = pid"
  shows "case mem_iderw pid b m of
      Ok (b', m') \<Rightarrow> m_size m' = FSSIZE \<and> length (m_disk m') = FSSIZE * BSIZE \<and> length (ib_data b') = BSIZE \<and>
        iderw 0 (mem_abs b (mem_block m) h) = Ok (mem_abs b' (mem_block m')
          (h @ (if ib_flags b AND B_DIRTY = 0 then [] else [(1, unat (ib_blockno b), ib_data b)])))
    | Panic e \<Rightarrow> \<exists>e'. iderw 0 (mem_abs b (mem_block m) h) = Panic e'
    | Hang \<Rightarrow> False"
proof -
  have lk: "holdingsleep pid (ib_lock b) \<longleftrightarrow> bheld (ibuf_abs b)" using assms(5) by (auto simp: holdingsleep_def ibuf_abs_def)
  have fl: "ib_flags b AND (B_VALID OR B_DIRTY) = B_VALID \<longleftrightarrow> bvalid (ibuf_abs b) \<and> \<not> bdirty (ibuf_abs b)"
    by (simp only: flags_bits(2)) (simp add: ibuf_abs_def flags_bits(1) flag_valid)
  have "B_VALID OR B_DIRTY = (6 :: u32)" by simp
  note fl' = fl [unfolded this]
  have rg: "of_nat (m_size m) \<le> ib_blockno b \<longleftrightarrow> FSSIZE \<le> bblockno (ibuf_abs b)" using assms(1) by (simp add: ibuf_abs_def word_le_nat_alt)
  have dv: "bdev (ibuf_abs b) = 1" using assms(4) by (simp add: ibuf_abs_def)
  have s: "bufs (mem_abs b (mem_block m) h) ! 0 = ibuf_abs b" "havedisk1 (mem_abs b (mem_block m) h)" by (simp_all add: mem_abs_def)
  show ?thesis
  proof (cases "holdingsleep pid (ib_lock b) \<and> \<not> (bvalid (ibuf_abs b) \<and> \<not> bdirty (ibuf_abs b)) \<and> \<not> FSSIZE \<le> bblockno (ibuf_abs b)")
    case False
    then show ?thesis using lk by (auto simp: mem_iderw_def fl' rg iderw_def s Let_def dv assms(4))
  next
    case ok: True
    define k where "k = unat (ib_blockno b)"
    have k: "(k + 1) * BSIZE \<le> length (m_disk m)" "bblockno (ibuf_abs b) = k" using ok assms(2) by (simp_all add: ibuf_abs_def k_def)
    have "k < 1000" using ok k(2) by simp
    then have "\<not> (1000 :: u32) \<le> ib_blockno b" "min (512000 - k * SECTOR_SIZE) SECTOR_SIZE = SECTOR_SIZE"
      by (simp_all add: k_def word_le_nat_alt)
    note in_range = this [unfolded k_def]
    show ?thesis
    proof (cases "ib_flags b AND B_DIRTY = 0")
      case True
      then have d: "\<not> bdirty (ibuf_abs b)" by (simp add: ibuf_abs_def)
      have "\<not> bit (ib_flags b OR B_VALID) 2" using True by (simp add: flags_bits(1)) (simp add: bit_simps)
      then have "(ib_flags b OR B_VALID) AND B_DIRTY = 0" "(ib_flags b OR B_VALID) AND B_VALID \<noteq> 0"
        by (simp_all add: flags_bits(1) flag_valid bit_simps)
      then show ?thesis using True ok lk d k assms
        by (simp add: in_range mem_iderw_def fl' rg iderw_def s Let_def dv) (simp add: mem_abs_def upd_buf_def ibuf_abs_def mem_block_def k_def in_range)
    next
      case False
      then have d: "bdirty (ibuf_abs b)" by (simp add: ibuf_abs_def)
      have "\<not> bit (ib_flags b AND NOT B_DIRTY OR B_VALID) 2" "bit (ib_flags b AND NOT B_DIRTY OR B_VALID) 1" by (simp_all add: bit_simps)
      then have "(ib_flags b AND NOT B_DIRTY OR B_VALID) AND B_DIRTY = 0" "(ib_flags b AND NOT B_DIRTY OR B_VALID) AND B_VALID \<noteq> 0"
        by (simp_all only: flags_bits(1) flag_valid) simp_all
      then show ?thesis using False ok lk d k assms mem_block_write [OF assms(3) k(1)]
        by (simp add: mem_iderw_def fl' rg iderw_def s Let_def dv k_def) (simp add: mem_abs_def upd_buf_def ibuf_abs_def fun_eq_iff in_range)
    qed
  qed
qed

section \<open>A request, from call to completion\<close>

definition demo_buf :: idebuf where
  "demo_buf = \<lparr>ib_flags = 6, ib_dev = 0, ib_blockno = 5, ib_lock = \<lparr>sk_locked = True, sk_pid = 1\<rparr>, ib_data = [7]\<rparr>"

definition ide_demo :: idesys where
  "ide_demo = \<lparr>i_bufs = [demo_buf], idequeue = [], i_disk1 = False, i_out = [], i_proc = (\<lambda>_. IOut),
     d_disk = (\<lambda>_ _. []), d_hist = [], d_cmd = None\<rparr>"

definition ide_queued :: idesys where
  "ide_queued = ide_demo\<lparr>idequeue := [0], i_out := idestart_io demo_buf, d_cmd := Some (DWrite 0 5 [7]),
     i_proc := (\<lambda>_. IOut)(1 := IAsleep 0)\<rparr>"

lemma demo_buf_req: "good_req False demo_buf" "request demo_buf = DWrite 0 5 [7]"
  by (simp_all add: good_req_def request_def demo_buf_def)

lemma ide_queued_reach: "idereach ide_queued"
proof -
  have r: "idereach ide_demo" by (rule idereach.start) (simp_all add: ide_demo_def)
  define s where "s = ide_demo\<lparr>idequeue := [0], i_out := idestart_io demo_buf\<rparr>"
  have e: "iderw_enter 1 [0x40] 0 ide_demo = Ok s"
    by (simp add: iderw_enter_def ide_demo_def Let_def holdingsleep_def idestart_def s_def) (simp add: demo_buf_def)
  have "command (rev (idestart_io demo_buf)) = Some (DWrite 0 5 [7])"
    using idestart_io_command [OF demo_buf_req(1), of "[]"] demo_buf_req(2) by simp
  then have a: "(attend (d_cmd ide_demo) ide_demo s)\<lparr>i_proc := (i_proc ide_demo)(1 := IAsleep 0)\<rparr> = ide_queued"
    by (simp add: attend_def s_def ide_demo_def ide_queued_def)
  have "idestep (Call 1 0) ide_demo ide_queued"
    unfolding a [symmetric] using e demo_buf_req(1)
    by (intro idestep.calls [of _ _ _ "[0x40]"]) (simp_all add: ide_demo_def s_def iderw_sleeps_def demo_buf_def)
  with r show ?thesis by (rule idereach.step)
qed

theorem disk_request_served_witness:
  "\<exists>k s'. k \<le> 1 \<and> (idestep Intr ^^ k) ide_queued s' \<and> i_proc s' 1 = IAwake 0 \<and> \<not> iderw_sleeps 0 s'"
  using disk_request_served [OF ide_queued_reach, of 1 0] by (simp add: ide_queued_def)


theorem memide_is_iderw_witness:
  "case mem_iderw 1 (demo_buf\<lparr>ib_dev := 1, ib_data := replicate BSIZE 7\<rparr>) \<lparr>m_disk = replicate (FSSIZE * BSIZE) 0, m_size = FSSIZE\<rparr> of
      Ok (b', m') \<Rightarrow> m_size m' = FSSIZE \<and> mem_block m' 5 = replicate BSIZE 7
    | _ \<Rightarrow> False"
proof -
  define b where "b = demo_buf\<lparr>ib_dev := 1, ib_data := replicate BSIZE 7\<rparr>"
  define m where "m = \<lparr>m_disk = replicate (FSSIZE * BSIZE) 0, m_size = FSSIZE\<rparr>"
  have r: "mem_iderw 1 b m \<noteq> Hang" "\<And>e. mem_iderw 1 b m \<noteq> Panic e"
    by (simp_all add: mem_iderw_def b_def m_def demo_buf_def holdingsleep_def Let_def)
  then obtain b' m' where ok: "mem_iderw 1 b m = Ok (b', m')" by (cases "mem_iderw 1 b m") auto
  have w: "m_size m' = FSSIZE \<and> iderw 0 (mem_abs b (mem_block m) []) = Ok (mem_abs b' (mem_block m') [(1, 5, replicate BSIZE 7)])"
    using memide_is_iderw [of m b 1 "[]"] unfolding ok
    by (simp add: b_def m_def demo_buf_def del: replicate.simps)
  have "(case iderw 0 (mem_abs b (mem_block m) []) of Ok u \<Rightarrow> bdisk u 1 5 | _ \<Rightarrow> []) = replicate BSIZE 7"
    by (simp add: iderw_def mem_abs_def b_def demo_buf_def ibuf_abs_def upd_buf_def Let_def del: replicate.simps)
  then have "mem_block m' 5 = replicate BSIZE 7" using w by (simp add: mem_abs_def del: replicate.simps)
  then show ?thesis using w ok by (simp add: b_def m_def del: replicate.simps)
qed

end
