(* ===== verification/ShellParse.thy ===== *)
theory ShellParse
  imports Xv6_Prelude "HOL-Library.Sublist"
begin

text \<open>
  The parser of the shell (sh.c), from the line to the tree of commands, and \<^verbatim>\<open>nulterminate\<close>, which cuts
  the words of the tree out of the line. A pointer into the line is the rest of the line from there, so
  the end \<open>es\<close> is the empty string; the character at it is the terminator.
\<close>

section \<open>Commands and tokens\<close>

datatype (word_set: 'w) cmd =
    EXEC "'w list"
  | REDIR "'w cmd" 'w int int
  | PIPE "'w cmd" "'w cmd"
  | LIST "'w cmd" "'w cmd"
  | BACK "'w cmd"

type_synonym ptr = string
type_synonym pword = "ptr \<times> ptr"

abbreviation NUL :: char where "NUL \<equiv> CHR 0x00"
abbreviation MAXARGS :: nat where "MAXARGS \<equiv> 10"
abbreviation O_RDONLY :: int where "O_RDONLY \<equiv> 0"
abbreviation O_WRCREATE :: int where "O_WRCREATE \<equiv> 0x201"

definition whitespace :: string where
  "whitespace = [CHR 0x20, CHR 0x09, CHR 0x0D, CHR 0x0A, CHR 0x0B]"

definition symbols :: string where
  "symbols = ''<|>&;()''"

definition cur :: "ptr \<Rightarrow> char" where
  "cur s = (case s of [] \<Rightarrow> NUL | c # _ \<Rightarrow> c)"

definition skip :: "ptr \<Rightarrow> ptr" where
  "skip s = dropWhile (\<lambda>c. c \<in> set whitespace) s"

text \<open>The token, where it starts and ends, and the pointer after it and the blanks that follow.\<close>

record token =
  tok :: char
  tq :: ptr
  teq :: ptr
  trest :: ptr

definition gettoken :: "ptr \<Rightarrow> token" where
  "gettoken s0 =
     (let s = skip s0; c = cur s;
          (ret, e) =
            (if c = NUL then (c, s)
             else if c \<in> set ''|();&<'' then (c, tl s)
             else if c = CHR ''>'' then (if cur (tl s) = CHR ''>'' then (CHR ''+'', tl (tl s)) else (c, tl s))
             else (CHR ''a'', dropWhile (\<lambda>c. c \<notin> set whitespace \<and> c \<notin> set symbols) s))
      in \<lparr>tok = ret, tq = s, teq = e, trest = skip e\<rparr>)"

text \<open>\<^verbatim>\<open>peek\<close> also leaves the pointer at \<open>skip s\<close>.\<close>

definition peek :: "ptr \<Rightarrow> string \<Rightarrow> bool" where
  "peek s toks \<longleftrightarrow> cur (skip s) \<noteq> NUL \<and> cur (skip s) \<in> set toks"

lemma length_skip_le [simp]: "length (skip s) \<le> length s"
  by (simp add: skip_def length_dropWhile_le)

lemma skip_skip [simp]: "skip (skip s) = skip s"
  unfolding skip_def by (rule dropWhile_idem)

lemma gettoken_skip [simp]: "gettoken (skip s) = gettoken s" and peek_skip [simp]: "peek (skip s) ts = peek s ts"
  by (simp_all add: gettoken_def peek_def)

text \<open>The three ends a token can have: one, two or more characters further on.\<close>

lemma gettoken_end:
  "\<exists>n. trest (gettoken s) = skip (drop n (skip s)) \<and> (tok (gettoken s) \<noteq> NUL \<longrightarrow> skip s \<noteq> [] \<and> 0 < n)"
proof -
  let ?w = "\<lambda>c. c \<notin> set whitespace \<and> c \<notin> set symbols"
  have d: "dropWhile ?w (skip s) = drop (length (takeWhile ?w (skip s))) (skip s)" by (simp add: dropWhile_eq_drop)
  consider "cur (skip s) = NUL" | "cur (skip s) \<in> set ''|();&<''" | "cur (skip s) = CHR ''>''" "cur (skip s) \<noteq> NUL"
    | (word) "cur (skip s) \<noteq> NUL" "cur (skip s) \<notin> set ''|();&<''" "cur (skip s) \<noteq> CHR ''>''" by auto
  then show ?thesis
  proof cases
    case 1
    then show ?thesis by (intro exI [of _ 0]) (simp add: gettoken_def Let_def)
  next
    case 2
    then have "cur (skip s) \<noteq> NUL" "skip s \<noteq> []" by (auto simp: cur_def)
    then show ?thesis using 2 by (intro exI [of _ 1]) (auto simp: gettoken_def Let_def drop_Suc)
  next
    case 3
    then have "skip s \<noteq> []" by (auto simp: cur_def)
    then show ?thesis using 3
      by (intro exI [of _ "if cur (tl (skip s)) = CHR ''>'' then 2 else 1"]) (auto simp: gettoken_def Let_def drop_Suc numeral_2_eq_2)
  next
    case word
    then have n: "skip s \<noteq> []" "cur (skip s) \<notin> set symbols" by (auto simp: cur_def symbols_def)
    then have "cur (skip s) \<notin> set whitespace" using hd_dropWhile [of "\<lambda>c. c \<in> set whitespace" s]
      by (cases "skip s") (auto simp: cur_def skip_def)
    with n have "0 < length (takeWhile ?w (skip s))" by (cases "skip s") (auto simp: cur_def)
    then show ?thesis using word n
      by (intro exI [of _ "length (takeWhile ?w (skip s))"]) (auto simp: gettoken_def Let_def d)
  qed
qed

lemma gettoken_le: "length (trest (gettoken s)) \<le> length s"
proof -
  obtain n where n: "trest (gettoken s) = skip (drop n (skip s))" using gettoken_end by blast
  show ?thesis unfolding n using length_skip_le [of "drop n (skip s)"] length_skip_le [of s] length_drop [of n "skip s"] by linarith
qed

lemma gettoken_less: "tok (gettoken s) \<noteq> NUL \<Longrightarrow> length (trest (gettoken s)) < length s"
proof -
  assume t: "tok (gettoken s) \<noteq> NUL"
  obtain n where n: "trest (gettoken s) = skip (drop n (skip s))" "skip s \<noteq> []" "0 < n" using gettoken_end [of s] t by blast
  then have "length (drop n (skip s)) < length (skip s)" by (cases "skip s") auto
  then show "length (trest (gettoken s)) < length s" unfolding n(1) using length_skip_le [of "drop n (skip s)"] length_skip_le [of s] by linarith
qed

lemma peek_token: "peek s toks \<Longrightarrow> tok (gettoken s) \<noteq> NUL"
  by (auto simp: gettoken_def peek_def Let_def)

section \<open>The parser\<close>

text \<open>The switch of \<^verbatim>\<open>parseredirs\<close>.\<close>

definition redirect :: "char \<Rightarrow> 'w \<Rightarrow> 'w cmd \<Rightarrow> 'w cmd" where
  "redirect t w c =
     (if t = CHR ''<'' then REDIR c w O_RDONLY 0
      else if t = CHR ''>'' then REDIR c w O_WRCREATE 1
      else if t = CHR ''+'' then REDIR c w O_WRCREATE 1
      else c)"

function parseredirs :: "pword cmd \<Rightarrow> ptr \<Rightarrow> (pword cmd \<times> ptr) res" where
  "parseredirs cmd s =
     (if \<not> peek s ''<>'' then Ok (cmd, skip s)
      else let t = gettoken (skip s); f = gettoken (trest t)
           in if tok f \<noteq> CHR ''a'' then Panic ''missing file for redirection''
              else parseredirs (redirect (tok t) (tq f, teq f) cmd) (trest f))"
  by pat_completeness auto
termination
proof (relation "measure (\<lambda>(cmd, s). length s)", simp, goal_cases)
  case (1 cmd s t f)
  then have "length (trest t) < length s" using gettoken_less peek_token by simp
  then show ?case using gettoken_le [of "trest t"] 1 by simp
qed

declare parseredirs.simps [simp del]

lemma parseredirs_le: "parseredirs cmd s = Ok (cmd', s') \<Longrightarrow> length s' \<le> length s"
proof (induction cmd s rule: parseredirs.induct)
  case (1 cmd s)
  show ?case
  proof (cases "peek s ''<>''")
    case False
    then show ?thesis using 1(2) by (auto simp: parseredirs.simps [of cmd s])
  next
    case True
    let ?f = "gettoken (trest (gettoken s))"
    have "tok ?f = CHR ''a''" using 1(2) True by (auto simp: parseredirs.simps [of cmd s] Let_def split: if_splits)
    then have "length s' \<le> length (trest ?f)"
      using 1(1) [of "gettoken s" ?f] 1(2) True by (simp add: parseredirs.simps [of cmd s] Let_def)
    then show ?thesis using gettoken_le [of s] gettoken_le [of "trest (gettoken s)"] by simp
  qed
qed

text \<open>\<^verbatim>\<open>parseexec\<close> keeps a pointer to the \<open>EXEC\<close> at the bottom of what it returns and fills its arguments in.\<close>

fun set_argv :: "'w list \<Rightarrow> 'w cmd \<Rightarrow> 'w cmd" where
  "set_argv ws (EXEC _) = EXEC ws"
| "set_argv ws (REDIR c w m fd) = REDIR (set_argv ws c) w m fd"
| "set_argv ws c = c"

function parse_args :: "pword list \<Rightarrow> pword cmd \<Rightarrow> ptr \<Rightarrow> (pword cmd \<times> ptr) res" where
  "parse_args ws ret s =
     (if peek s ''|)&;'' then Ok (set_argv ws ret, skip s)
      else let t = gettoken (skip s); ws' = ws @ [(tq t, teq t)]
           in if tok t = NUL then Ok (set_argv ws ret, trest t)
              else if tok t \<noteq> CHR ''a'' then Panic ''syntax''
              else if length ws' \<ge> MAXARGS then Panic ''too many args''
              else bindR (parseredirs ret (trest t)) (\<lambda>r. parse_args ws' (fst r) (snd r)))"
  by pat_completeness auto
termination
proof (relation "measure (\<lambda>(ws, ret, s). length s)", simp, goal_cases)
  case (1 ws ret s t ws' r)
  have "length (trest t) < length s" using 1(2,4) gettoken_less [of s] by simp
  moreover have "length (snd r) \<le> length (trest t)" using 1(7) by (cases r) (auto dest: parseredirs_le)
  ultimately show ?case by (cases r) simp
qed

declare parse_args.simps [simp del]

function parse_backs :: "pword cmd \<Rightarrow> ptr \<Rightarrow> pword cmd \<times> ptr" where
  "parse_backs cmd s =
     (if peek s ''&'' then parse_backs (BACK cmd) (trest (gettoken (skip s))) else (cmd, skip s))"
  by pat_completeness auto
termination
  by (relation "measure (\<lambda>(cmd, s). length s)") (simp_all add: gettoken_less peek_token)

declare parse_backs.simps [simp del]

text \<open>The mutual recursion of the parser, on fuel; \<open>parser_fuel\<close> below shows how much is enough.\<close>

fun parseline :: "nat \<Rightarrow> ptr \<Rightarrow> (pword cmd \<times> ptr) res"
  and parsepipe :: "nat \<Rightarrow> ptr \<Rightarrow> (pword cmd \<times> ptr) res"
  and parseexec :: "nat \<Rightarrow> ptr \<Rightarrow> (pword cmd \<times> ptr) res"
  and parseblock :: "nat \<Rightarrow> ptr \<Rightarrow> (pword cmd \<times> ptr) res" where
  "parseline 0 s = Hang"
| "parseline (Suc n) s =
     bindR (parsepipe n s) (\<lambda>(c, s1). case parse_backs c s1 of (c', s2) \<Rightarrow>
       if peek s2 '';''
       then bindR (parseline n (trest (gettoken (skip s2)))) (\<lambda>(r, s3). Ok (LIST c' r, s3))
       else Ok (c', skip s2))"
| "parsepipe 0 s = Hang"
| "parsepipe (Suc n) s =
     bindR (parseexec n s) (\<lambda>(c, s1).
       if peek s1 ''|''
       then bindR (parsepipe n (trest (gettoken (skip s1)))) (\<lambda>(r, s2). Ok (PIPE c r, s2))
       else Ok (c, skip s1))"
| "parseexec 0 s = Hang"
| "parseexec (Suc n) s =
     (if peek s ''('' then parseblock n (skip s)
      else bindR (parseredirs (EXEC []) (skip s)) (\<lambda>(ret, s1). parse_args [] ret s1))"
| "parseblock 0 s = Hang"
| "parseblock (Suc n) s =
     (if \<not> peek s ''('' then Panic ''parseblock''
      else bindR (parseline n (trest (gettoken (skip s)))) (\<lambda>(c, s1).
        if \<not> peek s1 '')'' then Panic ''syntax - missing )''
        else parseredirs c (trest (gettoken (skip s1)))))"

section \<open>Cutting the words out of the line\<close>

text \<open>\<open>*eq = 0\<close>, in a line of which \<open>eq\<close> is an end.\<close>

definition zero_at :: "ptr \<Rightarrow> string \<Rightarrow> string" where
  "zero_at e buf = buf[length buf - 1 - length e := NUL]"

fun nulterminate :: "pword cmd \<Rightarrow> string \<Rightarrow> string" where
  "nulterminate (EXEC ws) buf = fold (\<lambda>w. zero_at (snd w)) ws buf"
| "nulterminate (REDIR c w m fd) buf = zero_at (snd w) (nulterminate c buf)"
| "nulterminate (PIPE a b) buf = nulterminate b (nulterminate a buf)"
| "nulterminate (LIST a b) buf = nulterminate b (nulterminate a buf)"
| "nulterminate (BACK c) buf = nulterminate c buf"

text \<open>\<^verbatim>\<open>parsecmd\<close>: the tree and the line, with its terminator, as it leaves it.\<close>

definition parsecmd :: "string \<Rightarrow> (pword cmd \<times> string) res" where
  "parsecmd s =
     bindR (parseline (4 * length s + 4) s) (\<lambda>(c, s1).
       if skip s1 \<noteq> [] then Panic ''syntax'' else Ok (c, nulterminate c (s @ [NUL])))"

text \<open>The C string a pointer into the line names.\<close>

definition cstr_at :: "string \<Rightarrow> ptr \<Rightarrow> string" where
  "cstr_at buf q = takeWhile (\<lambda>c. c \<noteq> NUL) (drop (length buf - 1 - length q) buf)"

section \<open>The parser returns\<close>

fun argc :: "'w cmd \<Rightarrow> nat" where
  "argc (EXEC ws) = length ws"
| "argc (REDIR c w m fd) = argc c"
| "argc (PIPE a b) = max (argc a) (argc b)"
| "argc (LIST a b) = max (argc a) (argc b)"
| "argc (BACK c) = argc c"

lemma argc_set_argv: "argc (set_argv ws c) \<le> max (length ws) (argc c)"
  by (induction c) auto

lemma argc_redirect [simp]: "argc (redirect t w c) = argc c"
  by (simp add: redirect_def)

lemma parseredirs_result:
  "case parseredirs c s of Ok (c', s') \<Rightarrow> length s' \<le> length s \<and> argc c' = argc c | Panic e \<Rightarrow> True | Hang \<Rightarrow> False"
proof (induction c s rule: parseredirs.induct)
  case (1 c s)
  let ?f = "gettoken (trest (gettoken s))"
  consider "\<not> peek s ''<>''" | "tok ?f \<noteq> CHR ''a''" "peek s ''<>''" | (go) "peek s ''<>''" "tok ?f = CHR ''a''" by blast
  then show ?case
  proof cases
    case go
    then show ?thesis using 1 [OF _ refl refl] gettoken_le [of s] gettoken_le [of "trest (gettoken s)"]
      by (auto simp: parseredirs.simps [of c s] Let_def split: res.splits if_splits)
  qed (simp_all add: parseredirs.simps [of c s] Let_def)
qed

lemma parse_args_result:
  "length ws < MAXARGS \<Longrightarrow> argc c < MAXARGS \<Longrightarrow>
   case parse_args ws c s of Ok (c', s') \<Rightarrow> length s' \<le> length s \<and> argc c' < MAXARGS | Panic e \<Rightarrow> True | Hang \<Rightarrow> False"
proof (induction ws c s rule: parse_args.induct)
  case (1 ws c s)
  let ?t = "gettoken s"
  let ?ws = "ws @ [(tq ?t, teq ?t)]"
  have d: "argc (set_argv ws c) < MAXARGS" using argc_set_argv [of ws c] 1(2,3) by simp
  consider "peek s ''|)&;''" | "\<not> peek s ''|)&;''" "tok ?t = NUL" | "\<not> peek s ''|)&;''" "tok ?t \<noteq> NUL" "tok ?t \<noteq> CHR ''a''"
    | "\<not> peek s ''|)&;''" "tok ?t = CHR ''a''" "length ?ws \<ge> MAXARGS"
    | (go) "\<not> peek s ''|)&;''" "tok ?t = CHR ''a''" "\<not> length ?ws \<ge> MAXARGS" by blast
  then show ?case
  proof cases
    case go
    have e: "parse_args ws c s = bindR (parseredirs c (trest ?t)) (\<lambda>r. parse_args ?ws (fst r) (snd r))"
      using go by (simp add: parse_args.simps [of ws c s] Let_def)
    show ?thesis
    proof (cases "parseredirs c (trest ?t)")
      case (Ok r)
      then have "length (snd r) \<le> length (trest ?t)" "argc (fst r) = argc c"
        using parseredirs_result [where c = c and s = "trest ?t"] by (auto split: prod.splits)
      moreover have "case parse_args ?ws (fst r) (snd r) of Ok (c', s') \<Rightarrow> length s' \<le> length (snd r) \<and> argc c' < MAXARGS | Panic e \<Rightarrow> True | Hang \<Rightarrow> False"
        using 1(1) [OF _ refl refl, of r] go Ok calculation 1(3) by simp
      ultimately show ?thesis using gettoken_le [of s] unfolding e Ok by (auto split: res.splits)
    qed (use e parseredirs_result [where c = c and s = "trest ?t"] in auto)
  qed (use d gettoken_le [of s] in \<open>simp_all add: parse_args.simps [of ws c s] Let_def\<close>)
qed

lemma parse_backs_result: "parse_backs c s = (c', s') \<Longrightarrow> length s' \<le> length s \<and> argc c' = argc c"
proof (induction c s rule: parse_backs.induct)
  case (1 c s)
  then show ?case using gettoken_le [of s] by (auto simp: parse_backs.simps [of c s] split: if_splits)
qed

definition parsed :: "ptr \<Rightarrow> bool \<Rightarrow> (pword cmd \<times> ptr) res \<Rightarrow> bool" where
  "parsed s enough r \<longleftrightarrow> (case r of Ok (c, s') \<Rightarrow> length s' \<le> length s \<and> argc c < MAXARGS | Panic e \<Rightarrow> True | Hang \<Rightarrow> \<not> enough)"

lemma parsed_bind:
  assumes "parsed s e r" "\<And>c s'. r = Ok (c, s') \<Longrightarrow> length s' \<le> length s \<Longrightarrow> argc c < MAXARGS \<Longrightarrow> parsed s' e (f (c, s'))"
  shows "parsed s e (bindR r f)"
proof (cases r)
  case (Ok x)
  obtain c s' where x: "x = (c, s')" by force
  then have "length s' \<le> length s" "argc c < MAXARGS" using assms(1) Ok by (simp_all add: parsed_def)
  then show ?thesis using assms(2) [of c s'] Ok x by (auto simp: parsed_def split: res.splits)
qed (use assms(1) in \<open>auto simp: parsed_def\<close>)

lemma parsed_mono: "parsed s e r \<Longrightarrow> length s \<le> length s0 \<Longrightarrow> (e0 \<Longrightarrow> e) \<Longrightarrow> parsed s0 e0 r"
  by (auto simp: parsed_def split: res.splits)

lemma parser_fuel:
  "parsed s (4 * length s + 4 \<le> n) (parseline n s)"
  "parsed s (4 * length s + 3 \<le> n) (parsepipe n s)"
  "parsed s (4 * length s + 2 \<le> n) (parseexec n s)"
  "parsed s (4 * length s + 1 \<le> n) (parseblock n s)"
proof (induction n arbitrary: s)
  case (Suc n)
  {
    case 1
    show ?case unfolding parseline.simps
    proof (rule parsed_bind)
      show "parsed s (4 * length s + 4 \<le> Suc n) (parsepipe n s)" by (rule parsed_mono [OF Suc(2)]) simp_all
      fix c :: "pword cmd" and s1 :: ptr assume l: "length s1 \<le> length s" and c: "argc c < MAXARGS"
      obtain c2 s2 where b: "parse_backs c s1 = (c2, s2)" by force
      have s2: "length s2 \<le> length s1" "argc c2 < MAXARGS" using parse_backs_result [OF b] c by simp_all
      show "parsed s1 (4 * length s + 4 \<le> Suc n) (case (c, s1) of (c, s1) \<Rightarrow> case parse_backs c s1 of (c', s2) \<Rightarrow>
       if peek s2 '';'' then bindR (parseline n (trest (gettoken (skip s2)))) (\<lambda>(r, s3). Ok (LIST c' r, s3)) else Ok (c', skip s2))"
      proof (cases "peek s2 '';''")
        case True
        have t: "length (trest (gettoken s2)) < length s2" using True by (intro gettoken_less peek_token)
        have "parsed (trest (gettoken s2)) (4 * length s + 4 \<le> Suc n) (bindR (parseline n (trest (gettoken s2))) (\<lambda>(r, s3). Ok (LIST c2 r, s3)))"
          by (rule parsed_bind, rule parsed_mono [OF Suc(1)]) (use t l s2 in \<open>auto simp: parsed_def\<close>)
        then have "parsed s1 (4 * length s + 4 \<le> Suc n) (bindR (parseline n (trest (gettoken s2))) (\<lambda>(r, s3). Ok (LIST c2 r, s3)))"
          by (rule parsed_mono) (use t s2 in auto)
        then show ?thesis using True b by simp
      next
        case False
        then show ?thesis using b s2 le_trans [OF length_skip_le s2(1)] by (simp add: parsed_def)
      qed
    qed
  next
    case 2
    show ?case unfolding parsepipe.simps
    proof (rule parsed_bind)
      show "parsed s (4 * length s + 3 \<le> Suc n) (parseexec n s)" by (rule parsed_mono [OF Suc(3)]) simp_all
      fix c :: "pword cmd" and s1 :: ptr assume l: "length s1 \<le> length s" and c: "argc c < MAXARGS"
      show "parsed s1 (4 * length s + 3 \<le> Suc n) (case (c, s1) of (c, s1) \<Rightarrow>
       if peek s1 ''|'' then bindR (parsepipe n (trest (gettoken (skip s1)))) (\<lambda>(r, s2). Ok (PIPE c r, s2)) else Ok (c, skip s1))"
      proof (cases "peek s1 ''|''")
        case True
        have t: "length (trest (gettoken s1)) < length s1" using True by (intro gettoken_less peek_token)
        have "parsed (trest (gettoken s1)) (4 * length s + 3 \<le> Suc n) (bindR (parsepipe n (trest (gettoken s1))) (\<lambda>(r, s2). Ok (PIPE c r, s2)))"
          by (rule parsed_bind, rule parsed_mono [OF Suc(2)]) (use t l c in \<open>auto simp: parsed_def\<close>)
        then have "parsed s1 (4 * length s + 3 \<le> Suc n) (bindR (parsepipe n (trest (gettoken s1))) (\<lambda>(r, s2). Ok (PIPE c r, s2)))"
          by (rule parsed_mono) (use t in auto)
        then show ?thesis using True by simp
      next
        case False
        then show ?thesis using c by (simp add: parsed_def)
      qed
    qed
  next
    case 3
    show ?case
    proof (cases "peek s ''(''")
      case True
      have "parsed (skip s) (4 * length s + 2 \<le> Suc n) (parseblock n (skip s))"
      proof (rule parsed_mono [OF Suc(4)])
        show "4 * length (skip s) + 1 \<le> n" if "4 * length s + 2 \<le> Suc n" using that length_skip_le [of s] by linarith
      qed simp
      then have "parsed s (4 * length s + 2 \<le> Suc n) (parseblock n (skip s))" by (rule parsed_mono) simp_all
      then show ?thesis using True by simp
    next
      case False
      have "parsed (skip s) True (parseredirs (EXEC []) (skip s))"
        using parseredirs_result [where c = "EXEC []" and s = "skip s"] by (auto simp: parsed_def split: res.splits)
      moreover have "parsed s' True (parse_args [] c s')" if "argc c < MAXARGS" for c s'
        using parse_args_result [where ws = "[]" and c = c and s = s'] that by (auto simp: parsed_def split: res.splits)
      ultimately have "parsed (skip s) True (parseexec (Suc n) s)"
        using False by (auto intro!: parsed_bind split: prod.splits)
      then show ?thesis by (rule parsed_mono) simp_all
    qed
  next
    case 4
    show ?case
    proof (cases "peek s ''(''")
      case True
      have t: "length (trest (gettoken s)) < length s" using True by (intro gettoken_less peek_token)
      have "parsed (trest (gettoken s)) (4 * length s + 1 \<le> Suc n) (bindR (parseline n (trest (gettoken s))) (\<lambda>(c, s1).
          if \<not> peek s1 '')'' then Panic ''syntax - missing )'' else parseredirs c (trest (gettoken (skip s1)))))"
      proof (rule parsed_bind)
        show "parsed (trest (gettoken s)) (4 * length s + 1 \<le> Suc n) (parseline n (trest (gettoken s)))"
          by (rule parsed_mono [OF Suc(1)]) (use t in auto)
        fix c :: "pword cmd" and s1 :: ptr assume "argc c < MAXARGS"
        then show "parsed s1 (4 * length s + 1 \<le> Suc n) (case (c, s1) of (c, s1) \<Rightarrow>
            if \<not> peek s1 '')'' then Panic ''syntax - missing )'' else parseredirs c (trest (gettoken (skip s1))))"
          using parseredirs_result [where c = c and s = "trest (gettoken s1)"] gettoken_le [of s1] by (auto simp: parsed_def split: res.splits)
      qed
      then have "parsed s (4 * length s + 1 \<le> Suc n) (bindR (parseline n (trest (gettoken s))) (\<lambda>(c, s1).
          if \<not> peek s1 '')'' then Panic ''syntax - missing )'' else parseredirs c (trest (gettoken (skip s1)))))"
        by (rule parsed_mono) (use t in simp_all)
      then show ?thesis using True by simp
    qed (simp add: parsed_def)
  }
qed (simp_all add: parsed_def)

text \<open>C26: The parser returns on every line: with a tree in which no command has more words than \<^verbatim>\<open>argv\<close>
  has room for with the null pointer at its end, or with a message.\<close>

theorem shell_parser_total:
  "case parsecmd line of Ok (c, buf) \<Rightarrow> argc c < MAXARGS | Panic e \<Rightarrow> True | Hang \<Rightarrow> False"
  using parser_fuel(1) [of line "4 * length line + 4"]
  by (cases "parseline (4 * length line + 4) line") (auto simp: parsecmd_def parsed_def)

section \<open>The words of a tree\<close>

definition word :: "pword \<Rightarrow> string" where
  "word w = take (length (fst w) - length (snd w)) (fst w)"

definition delim :: "char \<Rightarrow> bool" where
  "delim c \<longleftrightarrow> c \<in> set whitespace \<or> c \<in> set symbols"

text \<open>A word of the line: it lies in the line, has no delimiter, and one (or the end) follows it.\<close>

definition word_of :: "string \<Rightarrow> pword \<Rightarrow> bool" where
  "word_of line w \<longleftrightarrow> suffix (fst w) line \<and> suffix (snd w) (fst w) \<and> (\<forall>c \<in> set (word w). \<not> delim c) \<and>
     (snd w = [] \<or> delim (hd (snd w)))"

lemma suffix_skip: "suffix (skip s) s"
  by (simp add: skip_def suffix_dropWhile)

lemma gettoken_suffix:
  "suffix (tq (gettoken s)) s" "suffix (trest (gettoken s)) s"
proof -
  show "suffix (tq (gettoken s)) s" by (auto simp: gettoken_def Let_def suffix_skip)
  obtain n where n: "trest (gettoken s) = skip (drop n (skip s))" using gettoken_end by blast
  show "suffix (trest (gettoken s)) s"
    unfolding n by (meson suffix_drop suffix_order.trans suffix_skip)
qed

lemma gettoken_word:
  assumes "tok (gettoken s) = CHR ''a''" "suffix s line"
  shows "word_of line (tq (gettoken s), teq (gettoken s))"
proof -
  let ?w = "\<lambda>c. c \<notin> set whitespace \<and> c \<notin> set symbols"
  have t: "tq (gettoken s) = skip s" "teq (gettoken s) = dropWhile ?w (skip s)"
    using assms(1) by (auto simp: gettoken_def Let_def split: if_splits)
  have "word (tq (gettoken s), teq (gettoken s)) = takeWhile ?w (skip s)"
    unfolding t word_def fst_conv snd_conv
    by (metis append_eq_conv_conj diff_add_inverse2 length_append takeWhile_dropWhile_id)
  moreover have "dropWhile ?w (skip s) = [] \<or> \<not> ?w (hd (dropWhile ?w (skip s)))" using hd_dropWhile by blast
  ultimately show ?thesis
    using suffix_order.trans [OF suffix_skip assms(2)] unfolding word_of_def t
    by (auto simp: suffix_dropWhile delim_def dest: set_takeWhileD)
qed

definition words_of :: "string \<Rightarrow> pword cmd \<Rightarrow> bool" where
  "words_of line c \<longleftrightarrow> (\<forall>w \<in> word_set c. word_of line w)"

lemma words_of_simps [simp]:
  "words_of line (EXEC ws) \<longleftrightarrow> (\<forall>w \<in> set ws. word_of line w)"
  "words_of line (REDIR c w m fd) \<longleftrightarrow> words_of line c \<and> word_of line w"
  "words_of line (PIPE c d) \<longleftrightarrow> words_of line c \<and> words_of line d"
  "words_of line (LIST c d) \<longleftrightarrow> words_of line c \<and> words_of line d"
  "words_of line (BACK c) \<longleftrightarrow> words_of line c"
  by (auto simp: words_of_def)

lemma words_of_redirect: "words_of line c \<Longrightarrow> word_of line w \<Longrightarrow> words_of line (redirect t w c)"
  by (simp add: redirect_def)

lemma words_of_set_argv: "words_of line c \<Longrightarrow> \<forall>w \<in> set ws. word_of line w \<Longrightarrow> words_of line (set_argv ws c)"
  by (induction c) auto

definition words_ok :: "string \<Rightarrow> (pword cmd \<times> ptr) res \<Rightarrow> bool" where
  "words_ok line r \<longleftrightarrow> (case r of Ok (c, s) \<Rightarrow> words_of line c \<and> suffix s line | _ \<Rightarrow> True)"

lemma words_ok_simps [simp]: "words_ok line (Ok (c, s)) \<longleftrightarrow> words_of line c \<and> suffix s line" "words_ok line (Panic e)" "words_ok line Hang"
  by (simp_all add: words_ok_def)

lemma words_ok_bind:
  "words_ok line r \<Longrightarrow> (\<And>c s. words_of line c \<Longrightarrow> suffix s line \<Longrightarrow> words_ok line (f (c, s))) \<Longrightarrow> words_ok line (bindR r f)"
  by (cases r) auto

lemmas suffix_rules = suffix_order.trans [OF suffix_skip] suffix_order.trans [OF gettoken_suffix(2)]

lemma parseredirs_words: "words_of line c \<Longrightarrow> suffix s line \<Longrightarrow> words_ok line (parseredirs c s)"
proof (induction c s rule: parseredirs.induct)
  case (1 c s)
  let ?f = "gettoken (trest (gettoken s))"
  have f: "suffix (trest (gettoken s)) line" "suffix (trest ?f) line" using 1(3) by (auto intro: suffix_rules)
  consider "\<not> peek s ''<>''" | "tok ?f \<noteq> CHR ''a''" "peek s ''<>''" | (go) "peek s ''<>''" "tok ?f = CHR ''a''" by blast
  then show ?case
  proof cases
    case go
    have "word_of line (tq ?f, teq ?f)" using gettoken_word [OF go(2) f(1)] .
    then show ?thesis using 1(1) [OF _ refl refl] 1(2) go f words_of_redirect by (simp add: parseredirs.simps [of c s] Let_def)
  qed (use 1 in \<open>simp_all add: parseredirs.simps [of c s] Let_def suffix_rules\<close>)
qed

lemma parse_args_words: "\<forall>w \<in> set ws. word_of line w \<Longrightarrow> words_of line c \<Longrightarrow> suffix s line \<Longrightarrow> words_ok line (parse_args ws c s)"
proof (induction ws c s rule: parse_args.induct)
  case (1 ws c s)
  let ?t = "gettoken s"
  let ?ws = "ws @ [(tq ?t, teq ?t)]"
  have f: "suffix (trest ?t) line" using 1(4) by (auto intro: suffix_rules)
  consider "peek s ''|)&;''" | "\<not> peek s ''|)&;''" "tok ?t = NUL" | "\<not> peek s ''|)&;''" "tok ?t \<noteq> NUL" "tok ?t \<noteq> CHR ''a''"
    | "\<not> peek s ''|)&;''" "tok ?t = CHR ''a''" "length ?ws \<ge> MAXARGS"
    | (go) "\<not> peek s ''|)&;''" "tok ?t = CHR ''a''" "\<not> length ?ws \<ge> MAXARGS" by blast
  then show ?case
  proof cases
    case go
    have w: "\<forall>w \<in> set ?ws. word_of line w" using gettoken_word [OF go(2) 1(4)] 1(2) by auto
    have "words_ok line (bindR (parseredirs c (trest ?t)) (\<lambda>r. parse_args ?ws (fst r) (snd r)))"
    proof (cases "parseredirs c (trest ?t)")
      case (Ok r)
      then have "words_of line (fst r)" "suffix (snd r) line"
        using parseredirs_words [OF 1(3) f] by (cases r; simp)+
      then show ?thesis using 1(1) [OF _ refl refl, of r] go Ok w by simp
    qed simp_all
    then show ?thesis using go by (simp add: parse_args.simps [of ws c s] Let_def)
  qed (use 1 words_of_set_argv f in \<open>simp_all add: parse_args.simps [of ws c s] Let_def suffix_rules\<close>)
qed

lemma parse_backs_words: "parse_backs c s = (c', s') \<Longrightarrow> words_of line c \<Longrightarrow> suffix s line \<Longrightarrow> words_of line c' \<and> suffix s' line"
proof (induction c s rule: parse_backs.induct)
  case (1 c s)
  then show ?case by (auto simp: parse_backs.simps [of c s] suffix_rules split: if_splits)
qed

lemma parser_words:
  "suffix s line \<Longrightarrow> words_ok line (parseline n s)"
  "suffix s line \<Longrightarrow> words_ok line (parsepipe n s)"
  "suffix s line \<Longrightarrow> words_ok line (parseexec n s)"
  "suffix s line \<Longrightarrow> words_ok line (parseblock n s)"
proof (induction n arbitrary: s)
  case (Suc n)
  {
    case 1
    show ?case unfolding parseline.simps
    proof (rule words_ok_bind [OF Suc(2) [OF 1]])
      fix c s1 assume h: "words_of line c" "suffix s1 line"
      obtain c2 s2 where b: "parse_backs c s1 = (c2, s2)" by force
      show "words_ok line (case (c, s1) of (c, s1) \<Rightarrow> case parse_backs c s1 of (c', s2) \<Rightarrow>
         if peek s2 '';'' then bindR (parseline n (trest (gettoken (skip s2)))) (\<lambda>(r, s3). Ok (LIST c' r, s3)) else Ok (c', skip s2))"
        using parse_backs_words [OF b h] b by (auto intro!: words_ok_bind Suc(1) intro: suffix_rules)
    qed
  next
    case 2
    show ?case unfolding parsepipe.simps
      by (rule words_ok_bind [OF Suc(3) [OF 2]]) (auto intro!: words_ok_bind Suc(2) intro: suffix_rules)
  next
    case 3
    then have s: "suffix (skip s) line" by (rule suffix_rules)
    show ?case unfolding parseexec.simps using s
      by (auto intro!: Suc(4) words_ok_bind parseredirs_words parse_args_words)
  next
    case 4
    then have "suffix (trest (gettoken s)) line" by (rule suffix_rules)
    then show ?case
      by (auto intro!: words_ok_bind Suc(1) parseredirs_words intro: suffix_rules)
  }
qed simp_all

section \<open>After nulterminate\<close>

lemma length_zero_at [simp]: "length (zero_at e buf) = length buf"
  by (simp add: zero_at_def)

lemma length_nulterminate [simp]: "length (nulterminate c buf) = length buf"
proof -
  have "length (fold (\<lambda>w. zero_at (snd w)) ws buf) = length buf" for ws :: "pword list" and buf
    by (induction ws arbitrary: buf) auto
  then show ?thesis by (induction c arbitrary: buf) auto
qed

text \<open>The cells \<^verbatim>\<open>nulterminate\<close> writes are those at the ends of words, and it zeroes all of them.\<close>

definition cut :: "string \<Rightarrow> (pword set) \<Rightarrow> string \<Rightarrow> bool" where
  "cut buf ws buf' \<longleftrightarrow> length buf' = length buf \<and>
     (\<forall>i < length buf. buf' ! i = (if \<exists>w \<in> ws. i = length buf - 1 - length (snd w) then NUL else buf ! i))"

lemma cut_zero_at: "cut buf ws buf' \<Longrightarrow> cut buf (insert w ws) (zero_at (snd w) buf')"
  by (auto simp: cut_def zero_at_def nth_list_update)

lemma cut_trans: "cut buf ws buf' \<Longrightarrow> cut buf' vs buf'' \<Longrightarrow> cut buf (ws \<union> vs) buf''"
  unfolding cut_def by (auto simp: ball_Un bex_Un)

lemma nulterminate_cut: "cut buf (word_set c) (nulterminate c buf)"
proof -
  have e: "cut buf {} buf" for buf by (simp add: cut_def)
  have x: "cut buf (set ws \<union> vs) (fold (\<lambda>w. zero_at (snd w)) ws buf')" if "cut buf vs buf'" for ws vs buf buf'
    using that
  proof (induction ws arbitrary: vs buf')
    case (Cons w ws)
    then show ?case using cut_zero_at [of buf vs buf' w] by (auto dest: Cons(1))
  qed simp
  show ?thesis
    by (induction c arbitrary: buf) (use x [OF e] in \<open>auto intro: cut_zero_at cut_trans\<close>)
qed

lemma parsed_words:
  assumes "NUL \<notin> set line" "parsecmd line = Ok (c, buf)" "w \<in> word_set c"
  shows "cstr_at buf (fst w) = word w \<and> suffix (fst w) line \<and> (\<forall>ch \<in> set (word w). \<not> delim ch)"
proof -
  obtain s1 where p: "parseline (4 * length line + 4) line = Ok (c, s1)" and buf: "buf = nulterminate c (line @ [NUL])"
    using assms(2) by (auto simp: parsecmd_def bindR_Ok_iff split: if_splits)
  have "words_of line c" using parser_words(1) [of line line "4 * length line + 4"] p by simp
  then have all: "word_of line v" if "v \<in> word_set c" for v using that by (simp add: words_of_def)
  obtain q e where w: "w = (q, e)" by force
  obtain pre where q: "line = pre @ q" using all [OF assms(3)] w by (auto simp: word_of_def suffix_def)
  obtain u where e: "q = u @ e" using all [OF assms(3)] w by (auto simp: word_of_def suffix_def)
  have u: "word w = u" using e w by (simp add: word_def)
  have nd: "\<forall>ch \<in> set u. \<not> delim ch" using all [OF assms(3)] u by (simp add: word_of_def)
  have c: "cut (line @ [NUL]) (word_set c) buf" unfolding buf by (rule nulterminate_cut)
  then have lb: "length buf = length line + 1" by (simp add: cut_def)
  have inside: "buf ! (length pre + k) = u ! k" if "k < length u" for k
  proof -
    have l: "(line @ [NUL]) ! (length pre + k) = u ! k" using that q e by (simp add: nth_append)
    have "\<not> (\<exists>v \<in> word_set c. length pre + k = length line - length (snd v))"
    proof
      assume "\<exists>v \<in> word_set c. length pre + k = length line - length (snd v)"
      then obtain v where v: "v \<in> word_set c" "length pre + k = length line - length (snd v)" by blast
      obtain pv where pv: "line = pv @ snd v" using all [OF v(1)] by (auto simp: word_of_def suffix_def)
      have sv: "snd v = drop (length pre + k) line" using v(2) pv by simp
      then have "snd v \<noteq> []" "hd (snd v) = u ! k" using that q e l by (auto simp: hd_drop_conv_nth nth_append)
      then have "delim (u ! k)" using all [OF v(1)] by (auto simp: word_of_def)
      then show False using nd that by simp
    qed
    then show ?thesis using c l that q e by (auto simp: cut_def)
  qed
  have at_end: "buf ! (length pre + length u) = NUL"
    using c q e w assms(3) by (auto simp: cut_def intro!: bexI [of _ w])
  have d: "drop (length pre) buf = u @ NUL # drop (length pre + length u + 1) buf"
  proof (rule nth_equalityI)
    show "length (drop (length pre) buf) = length (u @ NUL # drop (length pre + length u + 1) buf)" using lb q e by simp
    fix i assume "i < length (drop (length pre) buf)"
    then show "drop (length pre) buf ! i = (u @ NUL # drop (length pre + length u + 1) buf) ! i"
      using inside [of i] at_end lb q e by (auto simp: nth_append nth_Cons' algebra_simps)
  qed
  have "NUL \<notin> set u" using assms(1) q e by auto
  then have "cstr_at buf q = u" unfolding cstr_at_def using lb q d by (auto simp: takeWhile_tail takeWhile_append)
  then show ?thesis using w u nd q by (auto simp: suffix_def)
qed

text \<open>C27: After \<^verbatim>\<open>nulterminate\<close> every word of the tree, read from the line as a C string, is the word the parser
  saw: no terminator falls inside another word.\<close>

theorem parsed_words_terminated:
  assumes "NUL \<notin> set line" "parsecmd line = Ok (c, buf)" "w \<in> word_set c"
  shows "cstr_at buf (fst w) = word w \<and> suffix (fst w) line \<and> (\<forall>ch \<in> set (word w). \<not> delim ch)"
  using assms by (rule parsed_words)

theorem parsed_words_terminated_witness:
  "\<exists>c buf. parsecmd ''ls <f'' = Ok (c, buf) \<and> (\<forall>w \<in> word_set c. cstr_at buf (fst w) \<in> {''ls'', ''f''})"
proof -
  have p: "parsecmd ''ls <f'' = Ok (REDIR (EXEC [(''ls <f'', '' <f'')]) (''f'', []) 0 0, [CHR ''l'', CHR ''s'', NUL, CHR ''<'', CHR ''f'', NUL])"
    by code_simp
  show ?thesis using parsed_words_terminated [OF _ p] by (auto simp: p word_def)
qed

end
