(* ===== verification/ShellRound.thy ===== *)
theory ShellRound
  imports ShellParse
begin

text \<open>
  What the parser of the shell understands: a command written down, with parentheses where its place needs
  them, is parsed back to itself. This fixes the precedence of pipes, lists and background commands, and
  the order of redirections.
\<close>

section \<open>Writing a command down\<close>

definition paren :: "bool \<Rightarrow> string \<Rightarrow> string" where
  "paren b s = (if b then ''('' @ s @ '')'' else s)"

definition show_redir :: "string \<Rightarrow> int \<Rightarrow> string" where
  "show_redir w fd = (if fd = 0 then ''<'' else ''>'') @ w"

text \<open>The places: 0 is an operand of a pipe, 1 a pipe, 2 a command before \<open>&\<close> and 3 a line.\<close>

fun shown :: "nat \<Rightarrow> string cmd \<Rightarrow> string" where
  "shown n (EXEC ws) = concat (map (\<lambda>w. CHR '' '' # w) ws)"
| "shown n (REDIR c w m fd) = shown 0 c @ show_redir w fd"
| "shown n (PIPE a b) = paren (n < 1) (shown 0 a @ ''|'' @ shown 1 b)"
| "shown n (LIST a b) = paren (n < 3) (shown 2 a @ '';'' @ shown 3 b)"
| "shown n (BACK c) = paren (n < 2) (shown 2 c @ ''&'')"

definition good_word :: "string \<Rightarrow> bool" where
  "good_word w \<longleftrightarrow> w \<noteq> [] \<and> (\<forall>c \<in> set w. \<not> delim c \<and> c \<noteq> NUL)"

definition good_redir :: "string \<Rightarrow> int \<Rightarrow> int \<Rightarrow> bool" where
  "good_redir w m fd \<longleftrightarrow> good_word w \<and> (m = O_RDONLY \<and> fd = 0 \<or> m = O_WRCREATE \<and> fd = 1)"

fun good_cmd :: "string cmd \<Rightarrow> bool" where
  "good_cmd (EXEC ws) \<longleftrightarrow> length ws < MAXARGS \<and> (\<forall>w \<in> set ws. good_word w)"
| "good_cmd (REDIR c w m fd) \<longleftrightarrow> good_cmd c \<and> good_redir w m fd"
| "good_cmd (PIPE a b) \<longleftrightarrow> good_cmd a \<and> good_cmd b"
| "good_cmd (LIST a b) \<longleftrightarrow> good_cmd a \<and> good_cmd b"
| "good_cmd (BACK c) \<longleftrightarrow> good_cmd c"

section \<open>Tokens\<close>

definition stop :: "string \<Rightarrow> string \<Rightarrow> bool" where
  "stop F s \<longleftrightarrow> s = [] \<or> hd s \<in> set F"

lemma symbol_chars: "c \<in> set symbols \<longleftrightarrow> c \<in> {CHR ''<'', CHR ''|'', CHR ''>'', CHR ''&'', CHR '';'', CHR ''('', CHR '')''}"
  by (auto simp: symbols_def)

lemma blank_chars: "c \<in> set whitespace \<longleftrightarrow> c \<in> {CHR 0x20, CHR 0x09, CHR 0x0D, CHR 0x0A, CHR 0x0B}"
  by (auto simp: whitespace_def)

lemma symbol_no_blank: "c \<in> set symbols \<Longrightarrow> c \<notin> set whitespace \<and> c \<noteq> NUL"
  by (auto simp: symbol_chars blank_chars)

lemma skip_Nil [simp]: "skip [] = []"
  by (simp add: skip_def)

lemma skip_Cons: "c \<notin> set whitespace \<Longrightarrow> skip (c # s) = c # s"
  by (simp add: skip_def)

lemma skip_space [simp]: "skip (CHR '' '' # s) = skip s"
  by (simp add: skip_def whitespace_def)

lemma stop_skip: "stop F s \<Longrightarrow> set F \<subseteq> set symbols \<Longrightarrow> skip s = s"
  using symbol_no_blank by (cases s) (auto simp: stop_def skip_Cons)

lemma stop_peek: "stop F s \<Longrightarrow> set F \<subseteq> set symbols \<Longrightarrow> set F \<inter> set ts = {} \<Longrightarrow> \<not> peek s ts"
  using stop_skip [of F s] by (cases s) (auto simp: stop_def peek_def cur_def)

lemma peek_symbol: "c \<in> set symbols \<Longrightarrow> peek (c # s) ts \<longleftrightarrow> c \<in> set ts"
  using symbol_no_blank [of c] by (auto simp: peek_def cur_def skip_Cons)

lemma gettoken_symbol:
  "c \<in> set ''|();&<'' \<Longrightarrow> tok (gettoken (c # s)) = c \<and> trest (gettoken (c # s)) = skip s"
proof -
  assume c: "c \<in> set ''|();&<''"
  then have "c \<notin> set whitespace" "c \<noteq> NUL" by (auto simp: blank_chars)
  then show ?thesis using c by (simp add: gettoken_def Let_def skip_Cons cur_def)
qed

lemma gettoken_gt: "cur s \<noteq> CHR ''>'' \<Longrightarrow> tok (gettoken (CHR ''>'' # s)) = CHR ''>'' \<and> trest (gettoken (CHR ''>'' # s)) = skip s"
proof -
  assume "cur s \<noteq> CHR ''>''"
  moreover have "skip (CHR ''>'' # s) = CHR ''>'' # s" by (rule skip_Cons) (simp add: blank_chars)
  ultimately show ?thesis by (simp add: gettoken_def Let_def cur_def)
qed

lemma good_word_Cons:
  assumes "good_word w"
  obtains c u where "w = c # u" "c \<notin> set whitespace" "c \<notin> set symbols" "c \<noteq> NUL"
  using assms by (cases w) (auto simp: good_word_def delim_def)

lemma gettoken_good_word:
  assumes "good_word w" "s = [] \<or> delim (hd s)"
  shows "gettoken (w @ s) = \<lparr>tok = CHR ''a'', tq = w @ s, teq = s, trest = skip s\<rparr>"
proof -
  obtain c u where w: "w = c # u" "c \<notin> set whitespace" "c \<notin> set symbols" "c \<noteq> NUL" using good_word_Cons [OF assms(1)] .
  have k: "skip (w @ s) = w @ s" using w by (simp add: skip_Cons)
  have all: "\<forall>d \<in> set w. d \<notin> set whitespace \<and> d \<notin> set symbols" using assms(1) by (auto simp: good_word_def delim_def)
  have "dropWhile (\<lambda>d. d \<notin> set whitespace \<and> d \<notin> set symbols) s = s" using assms(2) by (cases s) (auto simp: delim_def)
  then have d: "dropWhile (\<lambda>d. d \<notin> set whitespace \<and> d \<notin> set symbols) (w @ s) = s" using all by (simp add: dropWhile_append)
  have "cur (w @ s) = c" "c \<notin> set ''|();&<''" "c \<noteq> CHR ''>''" using w by (auto simp: cur_def symbol_chars)
  then show ?thesis using k d w(4) by (simp add: gettoken_def Let_def del: set_simps)
qed

lemma word_pair [simp]: "word (w @ s, s) = w"
  by (simp add: word_def)

lemma stop_delim: "stop F s \<Longrightarrow> set F \<subseteq> set symbols \<Longrightarrow> s = [] \<or> delim (hd s)"
  by (auto simp: stop_def delim_def)

section \<open>Redirections and words\<close>

lemma parseredirs_skip [simp]: "parseredirs c (skip s) = parseredirs c s"
  by (subst (1 2) parseredirs.simps) simp

lemma parseredirs_none: "\<not> peek s ''<>'' \<Longrightarrow> parseredirs c s = Ok (c, skip s)"
  by (simp add: parseredirs.simps)

lemma parseredirs_redir:
  assumes "good_redir w m fd" "s = [] \<or> delim (hd s)"
  shows "parseredirs c (show_redir w fd @ s) = parseredirs (REDIR c (w @ s, s) m fd) s"
proof -
  have w: "good_word w" using assms(1) by (simp add: good_redir_def)
  obtain a u where a: "w = a # u" "a \<notin> set symbols" "a \<notin> set whitespace" using good_word_Cons [OF w] .
  then have k: "skip (w @ s) = w @ s" "cur (w @ s) \<noteq> CHR ''>''" by (auto simp: skip_Cons cur_def symbol_chars)
  define d where "d = (if fd = 0 then CHR ''<'' else CHR ''>'')"
  have "skip (d # w @ s) = d # w @ s" by (rule skip_Cons) (simp add: d_def blank_chars)
  then have p: "peek (d # w @ s) ''<>''" "skip (d # w @ s) = d # w @ s" by (simp_all add: peek_def cur_def d_def)
  have g: "tok (gettoken (d # w @ s)) = d \<and> trest (gettoken (d # w @ s)) = skip (w @ s)"
  proof (cases "fd = 0")
    case True
    then show ?thesis using gettoken_symbol [of "CHR ''<''" "w @ s"] by (simp add: d_def)
  next
    case False
    then show ?thesis using gettoken_gt [OF k(2)] by (simp add: d_def)
  qed
  have r: "redirect d v c = REDIR c v m fd" for v :: pword using assms(1) by (auto simp: redirect_def d_def good_redir_def)
  have "show_redir w fd @ s = d # w @ s" by (simp add: show_redir_def d_def)
  then show ?thesis
    using p g gettoken_good_word [OF w assms(2)] r by (simp add: parseredirs.simps [of c] Let_def)
qed

definition shown_redirs :: "(string \<times> int \<times> int) list \<Rightarrow> string \<Rightarrow> string" where
  "shown_redirs rs f = concat (map (\<lambda>(w, m, fd). show_redir w fd) rs) @ f"

lemma shown_redirs_simps [simp]:
  "shown_redirs [] f = f" "shown_redirs ((w, m, fd) # rs) f = show_redir w fd @ shown_redirs rs f"
  by (simp_all add: shown_redirs_def)

abbreviation good_redirs :: "(string \<times> int \<times> int) list \<Rightarrow> bool" where
  "good_redirs rs \<equiv> \<forall>(w, m, fd) \<in> set rs. good_redir w m fd"

lemma stop_redirs: "stop F f \<Longrightarrow> stop (''<>'' @ F) (shown_redirs rs f)"
  by (cases rs) (auto simp: stop_def show_redir_def)

text \<open>After redirections the parser stands at what follows them.\<close>

lemma parseredirs_shown:
  assumes "good_redirs rs" "stop ''|)&;'' f"
  shows "\<exists>c'. parseredirs c (shown_redirs rs f) = Ok (c', f)"
  using assms(1)
proof (induction rs arbitrary: c)
  case Nil
  have "\<not> peek f ''<>''" "skip f = f" using stop_peek [OF assms(2)] stop_skip [OF assms(2)] by (auto simp: symbols_def)
  then show ?case by (simp add: parseredirs_none)
next
  case (Cons r rs)
  obtain w m fd where r: "r = (w, m, fd)" by (cases r)
  have "shown_redirs rs f = [] \<or> delim (hd (shown_redirs rs f))"
    using stop_delim [OF stop_redirs [OF assms(2)]] by (auto simp: symbols_def)
  from parseredirs_redir [OF _ this, of w m fd c] show ?case using Cons r by simp
qed

lemma parseredirs_set_argv:
  "parseredirs (set_argv ws c) s = bindR (parseredirs c s) (\<lambda>(c', s'). Ok (set_argv ws c', s'))"
proof (induction c s rule: parseredirs.induct)
  case (1 c s)
  let ?f = "gettoken (trest (gettoken s))"
  consider "\<not> peek s ''<>''" | "tok ?f \<noteq> CHR ''a''" "peek s ''<>''" | (go) "peek s ''<>''" "tok ?f = CHR ''a''" by blast
  then show ?case
  proof cases
    case go
    have "redirect t w (set_argv ws c) = set_argv ws (redirect t w c)" for t w by (simp add: redirect_def)
    then show ?thesis using 1 [OF _ refl refl] go by (simp add: parseredirs.simps [of _ s] Let_def)
  qed (simp_all add: parseredirs.simps [of _ s] Let_def)
qed

lemma parse_args_shown:
  assumes "good_redirs rs" "stop ''|)&;'' f" "\<forall>w \<in> set ws. good_word w" "length vs + length ws < MAXARGS"
  shows "\<exists>ws'. map word ws' = ws \<and>
    bindR (parseredirs (EXEC []) (concat (map (\<lambda>w. CHR '' '' # w) ws) @ shown_redirs rs f)) (\<lambda>(ret, s). parse_args vs ret s) =
    parseredirs (EXEC (vs @ ws')) (shown_redirs rs f)"
  using assms(3,4)
proof (induction ws arbitrary: vs)
  case Nil
  obtain c' where c': "parseredirs (EXEC []) (shown_redirs rs f) = Ok (c', f)" using parseredirs_shown [OF assms(1,2)] by blast
  have k: "skip f = f" using stop_skip [OF assms(2)] by (auto simp: symbols_def)
  have "parse_args vs c' f = Ok (set_argv vs c', f)"
  proof (cases f)
    case Nil
    then have "gettoken f = \<lparr>tok = NUL, tq = [], teq = [], trest = []\<rparr>" "\<not> peek f ''|)&;''"
      by (simp_all add: gettoken_def peek_def cur_def)
    then show ?thesis using k Nil by (simp add: parse_args.simps Let_def)
  next
    case (Cons c r)
    then have "c \<in> set ''|)&;''" using assms(2) by (simp add: stop_def)
    moreover have "c \<in> set symbols" using calculation by (auto simp: symbols_def)
    ultimately have "peek f ''|)&;''" using Cons peek_symbol [of c] by simp
    then show ?thesis using k by (simp add: parse_args.simps)
  qed
  then show ?case using c' parseredirs_set_argv [of vs "EXEC []" "shown_redirs rs f"] by simp
next
  case (Cons w ws)
  define rest where "rest = concat (map (\<lambda>w. CHR '' '' # w) ws) @ shown_redirs rs f"
  have dl: "rest = [] \<or> delim (hd rest)"
  proof (cases ws)
    case Nil
    then show ?thesis using stop_delim [OF stop_redirs [OF assms(2)]] by (auto simp: symbols_def rest_def)
  qed (simp add: rest_def delim_def blank_chars)
  have w: "good_word w" using Cons(2) by simp
  note t = gettoken_good_word [OF w dl]
  obtain c u where cu: "w = c # u" "c \<notin> set whitespace" "c \<notin> set symbols" using good_word_Cons [OF w] .
  then have "c \<notin> set ''<>''" "c \<notin> set ''|)&;''" by (auto simp: symbol_chars)
  then have np: "\<not> peek (w @ rest) ''<>''" "\<not> peek (w @ rest) ''|)&;''" "skip (w @ rest) = w @ rest"
    using cu by (simp_all add: peek_def skip_Cons cur_def del: set_simps)
  have p: "parseredirs (EXEC []) (CHR '' '' # w @ rest) = Ok (EXEC [], w @ rest)"
    using parseredirs_none [OF np(1)] parseredirs_skip [of "EXEC []" "CHR '' '' # w @ rest"] np(3) by simp
  have a: "parse_args vs (EXEC []) (w @ rest) = bindR (parseredirs (EXEC []) rest) (\<lambda>(ret, s). parse_args (vs @ [(w @ rest, rest)]) ret s)"
    using np t Cons(3) by (simp add: parse_args.simps [of vs] Let_def split_def del: set_simps)
  have l: "\<forall>w \<in> set ws. good_word w" "length (vs @ [(w @ rest, rest)]) + length ws < MAXARGS" using Cons(2,3) by simp_all
  obtain ws' where "map word ws' = ws" "bindR (parseredirs (EXEC []) rest) (\<lambda>(ret, s). parse_args (vs @ [(w @ rest, rest)]) ret s) =
      parseredirs (EXEC ((vs @ [(w @ rest, rest)]) @ ws')) (shown_redirs rs f)"
    using Cons(1) [OF l, folded rest_def] by blast
  then show ?case using p a by (intro exI [of _ "(w @ rest, rest) # ws'"]) (simp add: rest_def)
qed

section \<open>Enough fuel\<close>

lemma parser_more_fuel:
  "parseline n s \<noteq> Hang \<Longrightarrow> parseline (Suc n) s = parseline n s"
  "parsepipe n s \<noteq> Hang \<Longrightarrow> parsepipe (Suc n) s = parsepipe n s"
  "parseexec n s \<noteq> Hang \<Longrightarrow> parseexec (Suc n) s = parseexec n s"
  "parseblock n s \<noteq> Hang \<Longrightarrow> parseblock (Suc n) s = parseblock n s"
proof (induction n arbitrary: s)
  case (Suc n)
  have b: "bindR r f \<noteq> Hang \<Longrightarrow> (r \<noteq> Hang \<Longrightarrow> r' = r) \<Longrightarrow> (\<And>x. f x \<noteq> Hang \<Longrightarrow> f' x = f x) \<Longrightarrow> bindR r' f' = bindR r f"
    for r r' :: "'x res" and f f' :: "'x \<Rightarrow> 'y res" by (cases r) auto
  {
    case 1
    then show ?case unfolding parseline.simps(2)
      by (elim b) (use Suc(1,2) in \<open>auto split: prod.splits if_splits intro!: b\<close>)
  next
    case 2
    then show ?case unfolding parsepipe.simps(2)
      by (elim b) (use Suc(2,3) in \<open>auto split: prod.splits if_splits intro!: b\<close>)
  next
    case 3
    then show ?case using Suc(4) [of "skip s"] by (auto simp: parseexec.simps(2) [of "Suc n"] split: if_splits)
  next
    case 4
    show ?case
    proof (cases "peek s ''(''")
      case True
      then show ?thesis using 4 unfolding parseblock.simps(2) if_not_P [OF not_not [THEN iffD2], OF True]
        by (elim b) (use Suc(1) in auto)
    qed simp
  }
qed simp_all

lemma parseline_fuel:
  assumes "4 * length s + 4 \<le> n" "n \<le> m"
  shows "parseline m s = parseline n s"
  using assms(2)
proof (induction m rule: dec_induct)
  case (step m)
  have "parseline m s \<noteq> Hang" using parser_fuel(1) [of s m] assms(1) step(1) by (auto simp: parsed_def)
  then show ?case using parser_more_fuel(1) step(3) by simp
qed simp

lemma parse_skip [simp]:
  "parseexec n (skip s) = parseexec n s" "parsepipe n (skip s) = parsepipe n s" "parseline n (skip s) = parseline n s"
proof -
  have e: "parseexec n (skip s) = parseexec n s" for n by (cases n) simp_all
  have p: "parsepipe n (skip s) = parsepipe n s" for n using e by (cases n) simp_all
  show "parseexec n (skip s) = parseexec n s" "parsepipe n (skip s) = parsepipe n s" "parseline n (skip s) = parseline n s"
    using e p by (simp, simp) (cases n; simp add: p)
qed

lemma parse_backs_skip [simp]: "parse_backs c (skip s) = parse_backs c s"
  by (subst (1 2) parse_backs.simps) simp

section \<open>The places\<close>

definition reads :: "string cmd \<Rightarrow> pword cmd \<Rightarrow> bool" where
  "reads c c' \<longleftrightarrow> map_cmd word c' = c"

definition place0 :: "string cmd \<Rightarrow> bool" where
  "place0 c \<longleftrightarrow> (\<exists>N. \<forall>n \<ge> N. \<forall>rs f. good_redirs rs \<longrightarrow> stop ''|)&;'' f \<longrightarrow>
     (\<exists>c'. reads c c' \<and> parseexec n (shown 0 c @ shown_redirs rs f) = parseredirs c' (shown_redirs rs f)))"

definition place1 :: "string cmd \<Rightarrow> bool" where
  "place1 c \<longleftrightarrow> (\<exists>N. \<forall>n \<ge> N. \<forall>f. stop '')&;'' f \<longrightarrow> (\<exists>c'. reads c c' \<and> parsepipe n (shown 1 c @ f) = Ok (c', f)))"

definition place2 :: "string cmd \<Rightarrow> bool" where
  "place2 c \<longleftrightarrow> (\<exists>N. \<forall>n \<ge> N. \<forall>f. stop '')&;'' f \<longrightarrow> (\<exists>c'. reads c c' \<and>
     bindR (parsepipe n (shown 2 c @ f)) (\<lambda>(c, s). Ok (parse_backs c s)) = Ok (parse_backs c' f)))"

definition place3 :: "string cmd \<Rightarrow> bool" where
  "place3 c \<longleftrightarrow> (\<exists>N. \<forall>n \<ge> N. \<forall>f. stop '')'' f \<longrightarrow> (\<exists>c'. reads c c' \<and> parseline n (shown 3 c @ f) = Ok (c', f)))"

lemma stop_mono: "stop F s \<Longrightarrow> set F \<subseteq> set G \<Longrightarrow> stop G s"
  by (auto simp: stop_def)

lemma Suc_ge: "Suc N \<le> n \<Longrightarrow> \<exists>m. n = Suc m \<and> N \<le> m"
  by (cases n) auto

lemma place1_lift:
  assumes "place0 c" "shown 1 c = shown 0 c"
  shows "place1 c"
proof -
  obtain N where N: "\<And>n rs f. N \<le> n \<Longrightarrow> good_redirs rs \<Longrightarrow> stop ''|)&;'' f \<Longrightarrow>
     \<exists>c'. reads c c' \<and> parseexec n (shown 0 c @ shown_redirs rs f) = parseredirs c' (shown_redirs rs f)"
    using assms(1) unfolding place0_def by blast
  have "\<exists>c'. reads c c' \<and> parsepipe n (shown 1 c @ f) = Ok (c', f)" if n: "Suc N \<le> n" and f: "stop '')&;'' f" for n f
  proof -
    obtain m where m: "n = Suc m" "N \<le> m" using Suc_ge [OF n] by blast
    have f0: "stop ''|)&;'' f" by (rule stop_mono [OF f]) auto
    have k: "skip f = f" "\<not> peek f ''<>''" "\<not> peek f ''|''" using stop_skip [OF f] stop_peek [OF f] by (auto simp: symbols_def)
    obtain c' where c': "reads c c'" "parseexec m (shown 0 c @ f) = parseredirs c' f" using N [OF m(2), of "[]" f] f0 by auto
    then show ?thesis using k by (intro exI [of _ c']) (simp add: m assms(2) [unfolded One_nat_def] parseredirs_none)
  qed
  then show ?thesis unfolding place1_def by blast
qed

lemma place2_lift:
  assumes "place1 c" "shown 2 c = shown 1 c"
  shows "place2 c"
proof -
  obtain N where N: "\<And>n f. N \<le> n \<Longrightarrow> stop '')&;'' f \<Longrightarrow> \<exists>c'. reads c c' \<and> parsepipe n (shown 1 c @ f) = Ok (c', f)"
    using assms(1) unfolding place1_def by blast
  have "\<exists>c'. reads c c' \<and> bindR (parsepipe n (shown 2 c @ f)) (\<lambda>(c, s). Ok (parse_backs c s)) = Ok (parse_backs c' f)"
    if "N \<le> n" "stop '')&;'' f" for n f
    using N [OF that] unfolding assms(2) by auto
  then show ?thesis unfolding place2_def by blast
qed

lemma place3_lift:
  assumes "place2 c" "shown 3 c = shown 2 c"
  shows "place3 c"
proof -
  obtain N where N: "\<And>n f. N \<le> n \<Longrightarrow> stop '')&;'' f \<Longrightarrow> \<exists>c'. reads c c' \<and>
      bindR (parsepipe n (shown 2 c @ f)) (\<lambda>(c, s). Ok (parse_backs c s)) = Ok (parse_backs c' f)"
    using assms(1) unfolding place2_def by blast
  have "\<exists>c'. reads c c' \<and> parseline n (shown 3 c @ f) = Ok (c', f)" if n: "Suc N \<le> n" and f: "stop '')'' f" for n f
  proof -
    obtain m where m: "n = Suc m" "N \<le> m" using Suc_ge [OF n] by blast
    have f2: "stop '')&;'' f" by (rule stop_mono [OF f]) auto
    have k: "skip f = f" "\<not> peek f ''&''" "\<not> peek f '';''" using stop_skip [OF f] stop_peek [OF f] by (auto simp: symbols_def)
    obtain c' where c': "reads c c'" "bindR (parsepipe m (shown 2 c @ f)) (\<lambda>(c, s). Ok (parse_backs c s)) = Ok (parse_backs c' f)"
      using N [OF m(2) f2] by blast
    have "parse_backs c' f = (c', f)" using k by (subst parse_backs.simps) simp
    then obtain c1 s1 where "parsepipe m (shown 2 c @ f) = Ok (c1, s1)" "parse_backs c1 s1 = (c', f)"
      using c'(2) by (auto simp: bindR_Ok_iff)
    then show ?thesis using c'(1) k by (intro exI [of _ c']) (simp add: m assms(2))
  qed
  then show ?thesis unfolding place3_def by blast
qed

lemma place0_lift:
  assumes "place3 c" "shown 0 c = ''('' @ shown 3 c @ '')''"
  shows "place0 c"
proof -
  obtain N where N: "\<And>n f. N \<le> n \<Longrightarrow> stop '')'' f \<Longrightarrow> \<exists>c'. reads c c' \<and> parseline n (shown 3 c @ f) = Ok (c', f)"
    using assms(1) unfolding place3_def by blast
  have "\<exists>c'. reads c c' \<and> parseexec n (shown 0 c @ shown_redirs rs f) = parseredirs c' (shown_redirs rs f)"
    if n: "Suc (Suc N) \<le> n" for n rs f
  proof -
    obtain m where m: "n = Suc (Suc m)" "N \<le> m" using Suc_ge [OF n] Suc_ge by blast
    define g where "g = CHR '')'' # shown_redirs rs f"
    have s: "CHR ''('' \<in> set symbols" "CHR '')'' \<in> set symbols" by (simp_all add: symbol_chars)
    have k: "skip (CHR ''('' # t) = CHR ''('' # t" "skip (CHR '')'' # t) = CHR '')'' # t" for t by (simp_all add: skip_Cons blank_chars)
    obtain c' where c': "reads c c'" "parseline m (shown 3 c @ g) = Ok (c', g)" using N [OF m(2), of g] by (auto simp: stop_def g_def)
    have "parseexec n (shown 0 c @ shown_redirs rs f) = parseexec n (CHR ''('' # shown 3 c @ g)" by (simp add: assms(2) g_def)
    also have "\<dots> = parseblock (Suc m) (CHR ''('' # shown 3 c @ g)" by (simp add: m peek_symbol [OF s(1)] k)
    also have "\<dots> = bindR (parseline m (shown 3 c @ g)) (\<lambda>(c, s1). if \<not> peek s1 '')'' then Panic ''syntax - missing )''
        else parseredirs c (trest (gettoken (skip s1))))"
      using gettoken_symbol [of "CHR ''(''"] by (simp add: peek_symbol [OF s(1)])
    also have "\<dots> = parseredirs c' (shown_redirs rs f)"
      using c'(2) gettoken_symbol [of "CHR '')''"] by (simp add: g_def peek_symbol [OF s(2)])
    finally show ?thesis using c'(1) by blast
  qed
  then show ?thesis unfolding place0_def by blast
qed

section \<open>Every command is read back\<close>

lemma place0_EXEC: "good_cmd (EXEC ws) \<Longrightarrow> place0 (EXEC ws)"
proof -
  assume g: "good_cmd (EXEC ws)"
  have "\<exists>c'. reads (EXEC ws) c' \<and> parseexec n (shown 0 (EXEC ws) @ shown_redirs rs f) = parseredirs c' (shown_redirs rs f)"
    if n: "Suc 0 \<le> n" and rs: "good_redirs rs" and f: "stop ''|)&;'' f" for n rs f
  proof -
    obtain m where m: "n = Suc m" using Suc_ge [OF n] by blast
    define str where "str = concat (map (\<lambda>w. CHR '' '' # w) ws) @ shown_redirs rs f"
    have np: "\<not> peek str ''(''"
    proof (cases ws)
      case Nil
      then show ?thesis using stop_peek [OF stop_redirs [OF f, of rs]] by (auto simp: str_def symbols_def)
    next
      case (Cons w vs)
      then have "good_word w" using g by simp
      then obtain a u where "w = a # u" "a \<notin> set whitespace" "a \<notin> set symbols" by (rule good_word_Cons)
      then show ?thesis using Cons by (auto simp: str_def peek_def cur_def skip_Cons symbol_chars)
    qed
    have gw: "\<forall>w \<in> set ws. good_word w" "length ([] :: pword list) + length ws < MAXARGS" using g by simp_all
    obtain ws' where w: "map word ws' = ws" "bindR (parseredirs (EXEC []) str) (\<lambda>(ret, s). parse_args [] ret s) =
        parseredirs (EXEC ([] @ ws')) (shown_redirs rs f)"
      using parse_args_shown [OF rs f gw] unfolding str_def by blast
    then have "parseexec n str = parseredirs (EXEC ws') (shown_redirs rs f)" using np by (simp add: m)
    then show ?thesis using w(1) by (intro exI [of _ "EXEC ws'"]) (simp add: reads_def str_def)
  qed
  then show ?thesis unfolding place0_def by blast
qed

lemma place0_REDIR:
  assumes "place0 c" "good_redir w m fd"
  shows "place0 (REDIR c w m fd)"
proof -
  obtain N where N: "\<And>n rs f. N \<le> n \<Longrightarrow> good_redirs rs \<Longrightarrow> stop ''|)&;'' f \<Longrightarrow>
     \<exists>c'. reads c c' \<and> parseexec n (shown 0 c @ shown_redirs rs f) = parseredirs c' (shown_redirs rs f)"
    using assms(1) unfolding place0_def by blast
  have "\<exists>c'. reads (REDIR c w m fd) c' \<and> parseexec n (shown 0 (REDIR c w m fd) @ shown_redirs rs f) = parseredirs c' (shown_redirs rs f)"
    if n: "N \<le> n" and rs: "good_redirs rs" and f: "stop ''|)&;'' f" for n rs f
  proof -
    have "good_redirs ((w, m, fd) # rs)" using rs assms(2) by simp
    from N [OF n this f] obtain c' where c': "reads c c'"
      "parseexec n (shown 0 c @ show_redir w fd @ shown_redirs rs f) = parseredirs c' (show_redir w fd @ shown_redirs rs f)" by auto
    have "shown_redirs rs f = [] \<or> delim (hd (shown_redirs rs f))"
      using stop_delim [OF stop_redirs [OF f]] by (auto simp: symbols_def)
    from parseredirs_redir [OF assms(2) this] c' show ?thesis
      by (intro exI [of _ "REDIR c' (w @ shown_redirs rs f, shown_redirs rs f) m fd"]) (simp add: reads_def)
  qed
  then show ?thesis unfolding place0_def by blast
qed

lemma place1_PIPE:
  assumes "place0 a" "place1 b"
  shows "place1 (PIPE a b)"
proof -
  obtain N where N: "\<And>n rs f. N \<le> n \<Longrightarrow> good_redirs rs \<Longrightarrow> stop ''|)&;'' f \<Longrightarrow>
     \<exists>c'. reads a c' \<and> parseexec n (shown 0 a @ shown_redirs rs f) = parseredirs c' (shown_redirs rs f)"
    using assms(1) unfolding place0_def by blast
  obtain M where M: "\<And>n f. M \<le> n \<Longrightarrow> stop '')&;'' f \<Longrightarrow> \<exists>c'. reads b c' \<and> parsepipe n (shown 1 b @ f) = Ok (c', f)"
    using assms(2) unfolding place1_def by blast
  have "\<exists>c'. reads (PIPE a b) c' \<and> parsepipe n (shown 1 (PIPE a b) @ f) = Ok (c', f)" if n: "Suc (max M N) \<le> n" and f: "stop '')&;'' f" for n f
  proof -
    obtain m where m: "n = Suc m" "M \<le> m" "N \<le> m" using Suc_ge [OF n] by auto
    define g where "g = CHR ''|'' # shown 1 b @ f"
    have s: "CHR ''|'' \<in> set symbols" by (simp add: symbol_chars)
    have k: "skip g = g" unfolding g_def by (rule skip_Cons) (simp add: blank_chars)
    have "stop ''|)&;'' g" by (simp add: stop_def g_def)
    from N [OF m(3) _ this, of "[]"] obtain a' where a': "reads a a'" "parseexec m (shown 0 a @ g) = parseredirs a' g" by auto
    have "parseredirs a' g = Ok (a', g)" using k parseredirs_none [of g a'] by (simp add: g_def peek_symbol [OF s])
    moreover obtain b' where b': "reads b b'" "parsepipe m (shown 1 b @ f) = Ok (b', f)" using M [OF m(2) f] by blast
    ultimately have "parsepipe n (shown 0 a @ g) = Ok (PIPE a' b', f)"
      using a' k gettoken_symbol [of "CHR ''|''" "shown 1 b @ f"] by (simp add: m(1)) (simp add: g_def peek_symbol [OF s])
    then show ?thesis using a'(1) b'(1) by (intro exI [of _ "PIPE a' b'"]) (simp add: g_def reads_def paren_def)
  qed
  then show ?thesis unfolding place1_def by blast
qed

lemma place2_BACK:
  assumes "place2 c"
  shows "place2 (BACK c)"
proof -
  obtain N where N: "\<And>n f. N \<le> n \<Longrightarrow> stop '')&;'' f \<Longrightarrow> \<exists>c'. reads c c' \<and>
      bindR (parsepipe n (shown 2 c @ f)) (\<lambda>(c, s). Ok (parse_backs c s)) = Ok (parse_backs c' f)"
    using assms unfolding place2_def by blast
  have "\<exists>c'. reads (BACK c) c' \<and> bindR (parsepipe n (shown 2 (BACK c) @ f)) (\<lambda>(c, s). Ok (parse_backs c s)) = Ok (parse_backs c' f)"
    if n: "N \<le> n" and f: "stop '')&;'' f" for n f
  proof -
    have s: "CHR ''&'' \<in> set symbols" by (simp add: symbol_chars)
    have k: "skip (CHR ''&'' # f) = CHR ''&'' # f" by (rule skip_Cons) (simp add: blank_chars)
    have "stop '')&;'' (CHR ''&'' # f)" by (simp add: stop_def)
    from N [OF n this] obtain c' where c': "reads c c'" "bindR (parsepipe n (shown 2 c @ CHR ''&'' # f)) (\<lambda>(c, s). Ok (parse_backs c s)) =
        Ok (parse_backs c' (CHR ''&'' # f))" by blast
    have "parse_backs c' (CHR ''&'' # f) = parse_backs (BACK c') f"
      using gettoken_symbol [of "CHR ''&''" f] by (simp add: parse_backs.simps [of c'] peek_symbol [OF s] k)
    then show ?thesis using c' by (intro exI [of _ "BACK c'"]) (simp add: reads_def paren_def)
  qed
  then show ?thesis unfolding place2_def by blast
qed

lemma place3_LIST:
  assumes "place2 a" "place3 b"
  shows "place3 (LIST a b)"
proof -
  obtain N where N: "\<And>n f. N \<le> n \<Longrightarrow> stop '')&;'' f \<Longrightarrow> \<exists>c'. reads a c' \<and>
      bindR (parsepipe n (shown 2 a @ f)) (\<lambda>(c, s). Ok (parse_backs c s)) = Ok (parse_backs c' f)"
    using assms(1) unfolding place2_def by blast
  obtain M where M: "\<And>n f. M \<le> n \<Longrightarrow> stop '')'' f \<Longrightarrow> \<exists>c'. reads b c' \<and> parseline n (shown 3 b @ f) = Ok (c', f)"
    using assms(2) unfolding place3_def by blast
  have "\<exists>c'. reads (LIST a b) c' \<and> parseline n (shown 3 (LIST a b) @ f) = Ok (c', f)" if n: "Suc (max M N) \<le> n" and f: "stop '')'' f" for n f
  proof -
    obtain m where m: "n = Suc m" "M \<le> m" "N \<le> m" using Suc_ge [OF n] by auto
    define g where "g = CHR '';'' # shown 3 b @ f"
    have s: "CHR '';'' \<in> set symbols" by (simp add: symbol_chars)
    have k: "skip g = g" unfolding g_def by (rule skip_Cons) (simp add: blank_chars)
    have "stop '')&;'' g" by (simp add: stop_def g_def)
    from N [OF m(3) this] obtain a' where a': "reads a a'" "bindR (parsepipe m (shown 2 a @ g)) (\<lambda>(c, s). Ok (parse_backs c s)) = Ok (parse_backs a' g)" by blast
    have "parse_backs a' g = (a', g)" using k by (subst parse_backs.simps) (simp add: g_def peek_symbol [OF s])
    then obtain c1 s1 where p: "parsepipe m (shown 2 a @ g) = Ok (c1, s1)" "parse_backs c1 s1 = (a', g)"
      using a'(2) by (auto simp: bindR_Ok_iff)
    obtain b' where b': "reads b b'" "parseline m (shown 3 b @ f) = Ok (b', f)" using M [OF m(2) f] by blast
    have "parseline n (shown 2 a @ g) = Ok (LIST a' b', f)"
      using p b' k gettoken_symbol [of "CHR '';''" "shown 3 b @ f"] by (simp add: m(1)) (simp add: g_def peek_symbol [OF s])
    then show ?thesis using a'(1) b'(1) by (intro exI [of _ "LIST a' b'"]) (simp add: g_def reads_def paren_def)
  qed
  then show ?thesis unfolding place3_def by blast
qed

lemma places: "good_cmd c \<Longrightarrow> place0 c \<and> place1 c \<and> place2 c \<and> place3 c"
proof (induction c)
  case (EXEC ws)
  then have "place0 (EXEC ws)" by (rule place0_EXEC)
  then show ?case using place1_lift place2_lift place3_lift by (metis shown.simps(1))
next
  case (REDIR c w m fd)
  then have "place0 (REDIR c w m fd)" by (intro place0_REDIR) simp_all
  then show ?case using place1_lift place2_lift place3_lift by (metis shown.simps(2))
next
  case (PIPE a b)
  then have p: "place1 (PIPE a b)" by (intro place1_PIPE) simp_all
  then have p2: "place2 (PIPE a b)" by (rule place2_lift) (simp add: paren_def)
  then have p3: "place3 (PIPE a b)" by (rule place3_lift) (simp add: paren_def)
  then have "place0 (PIPE a b)" by (rule place0_lift) (simp add: paren_def)
  then show ?case using p p2 p3 by blast
next
  case (LIST a b)
  then have p: "place3 (LIST a b)" by (intro place3_LIST) simp_all
  then have p0: "place0 (LIST a b)" by (rule place0_lift) (simp add: paren_def)
  then have p1: "place1 (LIST a b)" by (rule place1_lift) (simp add: paren_def)
  then have "place2 (LIST a b)" by (rule place2_lift) (simp add: paren_def)
  then show ?case using p p0 p1 by blast
next
  case (BACK c)
  then have p: "place2 (BACK c)" by (intro place2_BACK) simp_all
  then have p3: "place3 (BACK c)" by (rule place3_lift) (simp add: paren_def)
  then have p0: "place0 (BACK c)" by (rule place0_lift) (simp add: paren_def)
  then have "place1 (BACK c)" by (rule place1_lift) (simp add: paren_def)
  then show ?case using p p3 p0 by blast
qed

lemma reads_back:
  assumes "good_cmd c"
  shows "\<exists>c' buf. parsecmd (shown 3 c) = Ok (c', buf) \<and> map_cmd word c' = c"
proof -
  obtain N where N: "\<And>n. N \<le> n \<Longrightarrow> \<exists>c'. reads c c' \<and> parseline n (shown 3 c @ []) = Ok (c', [])"
    using places [OF assms] unfolding place3_def stop_def by blast
  let ?k = "4 * length (shown 3 c) + 4"
  obtain c' where c': "reads c c'" "parseline (max N ?k) (shown 3 c) = Ok (c', [])" using N [of "max N ?k"] by auto
  then have "parseline ?k (shown 3 c) = Ok (c', [])" using parseline_fuel [of "shown 3 c" ?k "max N ?k"] by simp
  then show ?thesis using c'(1) by (simp add: parsecmd_def reads_def)
qed

text \<open>C25: Every command that can be typed is parsed back to itself from its written form: pipes bind
  tighter than \<^verbatim>\<open>&\<close>, \<^verbatim>\<open>&\<close> tighter than \<^verbatim>\<open>;\<close>, both group to the right, and redirections apply in order.\<close>

theorem shell_reads_back:
  assumes "good_cmd c"
  shows "\<exists>c' buf. parsecmd (shown 3 c) = Ok (c', buf) \<and> map_cmd word c' = c"
  using assms by (rule reads_back)

definition demo_cmd :: "string cmd" where
  "demo_cmd = LIST (BACK (PIPE (EXEC [''cat'', ''a'']) (REDIR (LIST (EXEC [''x'']) (EXEC [''y''])) ''out'' 0x201 1))) (EXEC [''z''])"

theorem shell_reads_back_witness:
  "shown 3 demo_cmd = '' cat a|( x; y)>out&; z'' \<and> (\<exists>c' buf. parsecmd (shown 3 demo_cmd) = Ok (c', buf) \<and> map_cmd word c' = demo_cmd)"
proof -
  have "good_cmd demo_cmd"
    by (simp add: demo_cmd_def good_redir_def good_word_def delim_def symbol_chars blank_chars)
  then show ?thesis using shell_reads_back [of demo_cmd] by (simp add: demo_cmd_def paren_def show_redir_def)
qed

end
