(* ===== verification/ShellRun.thy ===== *)
theory ShellRun
  imports ShellRound
begin

text \<open>
  How the shell runs a command tree (\<^verbatim>\<open>runcmd\<close> of sh.c) and its main loop. A process is the list of what
  it does, with the processes it forks inside; the descriptor table is followed through every \<^verbatim>\<open>close\<close>,
  \<^verbatim>\<open>dup\<close>, \<^verbatim>\<open>open\<close> and \<^verbatim>\<open>pipe\<close>. What these calls return is what the kernel promises: the lowest free
  descriptor. Whether the calls that may fail do is an argument.
\<close>

section \<open>Processes and descriptors\<close>

abbreviation NOFILE :: nat where "NOFILE \<equiv> 16"

text \<open>What a descriptor stands for: something the shell was started with, a file it opened, or an end of
  the pipe made for the command at a place of the tree.\<close>

datatype chan = Given nat | File string int | Rd "nat list" | Wr "nat list"

type_synonym fdtab = "nat \<Rightarrow> chan option"

datatype act = AExec "string list" fdtab | AFork "act list" | AWait | APrint string | AChdir string | AExit

record sysenv =
  opens :: "string \<Rightarrow> int \<Rightarrow> bool"
  forks :: "nat list \<Rightarrow> bool"
  pipes :: "nat list \<Rightarrow> bool"
  chdirs :: "string \<Rightarrow> bool"

definition lowest :: "fdtab \<Rightarrow> nat option" where
  "lowest t = find (\<lambda>k. t k = None) [0 ..< NOFILE]"

definition fd_close :: "nat \<Rightarrow> fdtab \<Rightarrow> fdtab" where
  "fd_close k t = t(k := None)"

definition fd_install :: "chan \<Rightarrow> fdtab \<Rightarrow> (nat \<times> fdtab) option" where
  "fd_install c t = map_option (\<lambda>k. (k, t(k \<mapsto> c))) (lowest t)"

text \<open>\<^verbatim>\<open>dup\<close>, whose result \<^verbatim>\<open>runcmd\<close> does not test.\<close>

definition fd_dup :: "nat \<Rightarrow> fdtab \<Rightarrow> fdtab" where
  "fd_dup k t =
     (case t k of
        None \<Rightarrow> t
      | Some c \<Rightarrow> (case fd_install c t of None \<Rightarrow> t | Some (_, t') \<Rightarrow> t'))"

section \<open>The shell\<close>

definition sh_panic :: "string \<Rightarrow> act list" where
  "sh_panic msg = [APrint (msg @ [CHR 0x0A]), AExit]"

text \<open>\<^verbatim>\<open>fork1\<close>, with what the child does and what the parent goes on with.\<close>

definition fork1 :: "sysenv \<Rightarrow> nat list \<Rightarrow> act list \<Rightarrow> act list \<Rightarrow> act list" where
  "fork1 E path child parent = (if forks E path then AFork child # parent else sh_panic ''fork'')"

fun runcmd :: "sysenv \<Rightarrow> nat list \<Rightarrow> string cmd \<Rightarrow> fdtab \<Rightarrow> act list" where
  "runcmd E path (EXEC argv) t =
     (case argv of
        [] \<Rightarrow> [AExit]
      | a # _ \<Rightarrow> [AExec argv t, APrint (''exec '' @ a @ '' failed'' @ [CHR 0x0A]), AExit])"
| "runcmd E path (REDIR c w m fd) t =
     (let t1 = fd_close (nat fd) t
      in case (if opens E w m then fd_install (File w m) t1 else None) of
          None \<Rightarrow> [APrint (''open '' @ w @ '' failed'' @ [CHR 0x0A]), AExit]
        | Some (_, t2) \<Rightarrow> runcmd E (0 # path) c t2)"
| "runcmd E path (LIST l r) t =
     fork1 E (0 # path) (runcmd E (0 # path) l t) (AWait # runcmd E (1 # path) r t)"
| "runcmd E path (PIPE l r) t =
     (case (if pipes E path then fd_install (Rd path) t else None) of
        None \<Rightarrow> sh_panic ''pipe''
      | Some (p0, t1) \<Rightarrow>
          (case fd_install (Wr path) t1 of
             None \<Rightarrow> sh_panic ''pipe''
           | Some (p1, t2) \<Rightarrow>
               fork1 E (0 # path)
                 (runcmd E (0 # path) l (fd_close p1 (fd_close p0 (fd_dup p1 (fd_close 1 t2)))))
                 (fork1 E (1 # path)
                   (runcmd E (1 # path) r (fd_close p1 (fd_close p0 (fd_dup p0 (fd_close 0 t2)))))
                   [AWait, AWait, AExit])))"
| "runcmd E path (BACK c) t =
     fork1 E (0 # path) (runcmd E (0 # path) c t) [AExit]"

text \<open>\<^verbatim>\<open>gets\<close> (ulib.c): at most \<open>room - 1\<close> characters, up to the end of a line.\<close>

fun gets_loop :: "nat \<Rightarrow> string \<Rightarrow> string \<times> string" where
  "gets_loop 0 input = ([], input)"
| "gets_loop (Suc n) [] = ([], [])"
| "gets_loop (Suc n) (c # input) =
     (if c = CHR 0x0A \<or> c = CHR 0x0D then ([c], input)
      else case gets_loop n input of (line, rest) \<Rightarrow> (c # line, rest))"

definition gets :: "nat \<Rightarrow> string \<Rightarrow> string \<times> string" where
  "gets room input = gets_loop (room - 1) input"

text \<open>The child of the main loop: \<^verbatim>\<open>runcmd(parsecmd(buf))\<close>. \<^verbatim>\<open>buf\<close> ends at the first null character.\<close>

definition run_line :: "sysenv \<Rightarrow> nat list \<Rightarrow> string \<Rightarrow> fdtab \<Rightarrow> act list" where
  "run_line E path line t =
     (case parsecmd line of
        Ok (c, buf) \<Rightarrow> runcmd E path (map_cmd (\<lambda>w. cstr_at buf (fst w)) c) t
      | Panic e \<Rightarrow> sh_panic e
      | Hang \<Rightarrow> [])"

lemma gets_loop_length: "gets_loop n input = (line, rest) \<Longrightarrow> length line + length rest = length input \<and> (0 < n \<longrightarrow> input \<noteq> [] \<longrightarrow> line \<noteq> [])"
  by (induction n input arbitrary: line rule: gets_loop.induct) (auto split: prod.splits if_splits)

lemma gets_shorter: "takeWhile P (fst (gets 100 input)) \<noteq> [] \<Longrightarrow> length (snd (gets 100 input)) < length input"
proof -
  assume a: "takeWhile P (fst (gets 100 input)) \<noteq> []"
  obtain raw rest where g: "gets 100 input = (raw, rest)" by force
  then have "raw \<noteq> []" using a by auto
  moreover have "length raw + length rest = length input" using g gets_loop_length [of 99 input raw rest] by (simp add: gets_def)
  ultimately show ?thesis using g by (cases raw) auto
qed

text \<open>The main loop, on all that is typed. Each line is read into 100 bytes; a line whose first
  character is null ends the shell, as the end of the input does.\<close>

function sh_main :: "sysenv \<Rightarrow> nat \<Rightarrow> string \<Rightarrow> fdtab \<Rightarrow> act list" where
  "sh_main E n input t =
     (let buf = takeWhile (\<lambda>c. c \<noteq> NUL) (fst (gets 100 input)); rest = snd (gets 100 input)
        in APrint ''$ '' #
           (if buf = [] then [AExit]
            else if take 3 buf = ''cd ''
            then AChdir (drop 3 (butlast buf)) #
              (if chdirs E (drop 3 (butlast buf)) then [] else [APrint (''cannot cd '' @ drop 3 (butlast buf) @ [CHR 0x0A])]) @
              sh_main E (n + 1) rest t
            else if forks E [n] then AFork (run_line E [n] buf t) # AWait # sh_main E (n + 1) rest t
            else sh_panic ''fork''))"
  by pat_completeness auto
termination
proof (relation "measure (\<lambda>(E, n, input, t). length input)", simp, goal_cases)
  case (1 E n input t buf rest)
  then show ?case using gets_shorter by simp
next
  case (2 E n input t buf rest)
  then show ?case using gets_shorter by simp
qed

declare sh_main.simps [simp del]

section \<open>Data flow\<close>

text \<open>The programs a process and its children run, in the order in which it forks them.\<close>

fun execs :: "act \<Rightarrow> (string list \<times> fdtab) list" where
  "execs (AExec argv t) = [(argv, t)]"
| "execs (AFork as) = concat (map execs as)"
| "execs _ = []"

text \<open>What a tree means: which programs run and what their standard input and output are.\<close>

fun flow :: "sysenv \<Rightarrow> nat list \<Rightarrow> string cmd \<Rightarrow> chan \<Rightarrow> chan \<Rightarrow> (string list \<times> chan \<times> chan) list" where
  "flow E path (EXEC argv) i out = (if argv = [] then [] else [(argv, i, out)])"
| "flow E path (REDIR c w m fd) i out =
     (if \<not> opens E w m then []
      else if fd = 0 then flow E (0 # path) c (File w m) out else flow E (0 # path) c i (File w m))"
| "flow E path (LIST l r) i out = flow E (0 # path) l i out @ flow E (1 # path) r i out"
| "flow E path (PIPE l r) i out = flow E (0 # path) l i (Wr path) @ flow E (1 # path) r (Rd path) out"
| "flow E path (BACK c) i out = flow E (0 # path) c i out"

fun std_redirs :: "string cmd \<Rightarrow> bool" where
  "std_redirs (EXEC argv) \<longleftrightarrow> True"
| "std_redirs (REDIR c w m fd) \<longleftrightarrow> (fd = 0 \<or> fd = 1) \<and> std_redirs c"
| "std_redirs (LIST l r) \<longleftrightarrow> std_redirs l \<and> std_redirs r"
| "std_redirs (PIPE l r) \<longleftrightarrow> std_redirs l \<and> std_redirs r"
| "std_redirs (BACK c) \<longleftrightarrow> std_redirs c"

definition std_table :: "fdtab \<Rightarrow> chan \<Rightarrow> chan \<Rightarrow> bool" where
  "std_table t i out \<longleftrightarrow> t 0 = Some i \<and> t 1 = Some out \<and> (\<exists>j k. 1 < j \<and> j < k \<and> k < NOFILE \<and> t j = None \<and> t k = None)"

lemma lowest_SomeI: "k < NOFILE \<Longrightarrow> t k = None \<Longrightarrow> (\<And>j. j < k \<Longrightarrow> t j \<noteq> None) \<Longrightarrow> lowest t = Some k"
  unfolding lowest_def find_Some_iff by (intro exI [of _ k]) auto

lemma lowest_exists:
  assumes "k < NOFILE" "t k = None"
  obtains j where "lowest t = Some j" "j \<le> k" "t j = None" "\<And>i. i < j \<Longrightarrow> t i \<noteq> None"
proof -
  define j where "j = (LEAST j. t j = None)"
  have "t j = None" "j \<le> k" "\<And>i. i < j \<Longrightarrow> t i \<noteq> None"
    unfolding j_def using assms(2) by (auto intro: LeastI Least_le dest: not_less_Least)
  then show thesis using that [of j] lowest_SomeI [of j t] assms(1) by simp
qed

lemma std_table_upd:
  assumes "std_table t i out"
  shows "std_table (t(1 \<mapsto> c)) i c" "std_table (t(0 \<mapsto> c)) c out"
proof -
  obtain j k where jk: "1 < j" "j < k" "k < NOFILE" "t j = None" "t k = None" using assms unfolding std_table_def by blast
  have "std_table u i' out'" if "u 0 = Some i'" "u 1 = Some out'" "u j = t j" "u k = t k" for u i' out'
    unfolding std_table_def using that jk by metis
  then show "std_table (t(1 \<mapsto> c)) i c" "std_table (t(0 \<mapsto> c)) c out" using assms jk by (simp_all add: std_table_def)
qed

lemma redir_table:
  assumes "std_table t i out" "fd = 0 \<or> fd = 1"
  shows "fd_install c (fd_close fd t) = Some (fd, t(fd \<mapsto> c))"
    "std_table (t(fd \<mapsto> c)) (if fd = 0 then c else i) (if fd = 0 then out else c)"
proof -
  have "lowest (fd_close fd t) = Some fd"
    using assms by (intro lowest_SomeI) (auto simp: fd_close_def std_table_def less_Suc_eq)
  then show "fd_install c (fd_close fd t) = Some (fd, t(fd \<mapsto> c))"
    by (simp add: fd_install_def fd_close_def)
  show "std_table (t(fd \<mapsto> c)) (if fd = 0 then c else i) (if fd = 0 then out else c)"
    using std_table_upd [OF assms(1), of c] assms(2) by auto
qed

text \<open>The children of a pipe: one end in place of 0 or 1, and neither end anywhere else.\<close>

lemma pipe_table:
  assumes "std_table t i out"
  obtains p0 p1 t1 t2 where "fd_install (Rd path) t = Some (p0, t1)" "fd_install (Wr path) t1 = Some (p1, t2)"
    "fd_close p1 (fd_close p0 (fd_dup p1 (fd_close 1 t2))) = t(1 \<mapsto> Wr path)"
    "fd_close p1 (fd_close p0 (fd_dup p0 (fd_close 0 t2))) = t(0 \<mapsto> Rd path)"
proof -
  obtain j k where jk: "1 < j" "j < k" "k < NOFILE" "t j = None" "t k = None" and o: "t 0 = Some i" "t 1 = Some out"
    using assms by (auto simp: std_table_def)
  obtain p0 where p0: "lowest t = Some p0" "p0 \<le> j" "t p0 = None" by (rule lowest_exists [of j t]) (use jk in auto)
  have "(t(p0 \<mapsto> Rd path)) k = None" using jk p0 by auto
  then obtain p1 where p1: "lowest (t(p0 \<mapsto> Rd path)) = Some p1" "(t(p0 \<mapsto> Rd path)) p1 = None"
    using lowest_exists [of k "t(p0 \<mapsto> Rd path)"] jk(3) by metis
  have n: "p0 \<noteq> 0" "p0 \<noteq> 1" "p1 \<noteq> 0" "p1 \<noteq> 1" "p1 \<noteq> p0" "t p1 = None" proof -
    show "p0 \<noteq> 0" "p0 \<noteq> 1" using o p0(3) by (metis option.distinct(1))+
    show "p1 \<noteq> p0" using p1(2) by auto
    then show "t p1 = None" using p1(2) by simp
    then show "p1 \<noteq> 0" "p1 \<noteq> 1" using o by (metis option.distinct(1))+
  qed
  define t2 where "t2 = t(p0 \<mapsto> Rd path, p1 \<mapsto> Wr path)"
  have l1: "lowest (t2(1 := None)) = Some 1" using o n by (intro lowest_SomeI) (auto simp: t2_def)
  have l0: "lowest (t2(0 := None)) = Some 0" by (intro lowest_SomeI) auto
  have v: "t2 p0 = Some (Rd path)" "t2 p1 = Some (Wr path)" using n by (simp_all add: t2_def)
  show thesis
  proof (rule that [of p0 "t(p0 \<mapsto> Rd path)" p1 t2])
    show "fd_close p1 (fd_close p0 (fd_dup p1 (fd_close 1 t2))) = t(1 \<mapsto> Wr path)"
      using l1 v n p0(3) by (auto simp: fd_close_def fd_dup_def fd_install_def fun_eq_iff) (auto simp: t2_def)
    show "fd_close p1 (fd_close p0 (fd_dup p0 (fd_close 0 t2))) = t(0 \<mapsto> Rd path)"
      using l0 v n p0(3) by (auto simp: fd_close_def fd_dup_def fd_install_def fun_eq_iff) (auto simp: t2_def)
  qed (use p0 p1 in \<open>simp_all add: fd_install_def t2_def\<close>)
qed

text \<open>A program with its standard input and output in the table of the shell.\<close>

definition plugged :: "fdtab \<Rightarrow> string list \<times> chan \<times> chan \<Rightarrow> string list \<times> fdtab" where
  "plugged t = (\<lambda>(argv, i, out). (argv, t(0 \<mapsto> i, 1 \<mapsto> out)))"

lemma plugged_upd: "k = 0 \<or> k = 1 \<Longrightarrow> plugged (t(k \<mapsto> x)) = plugged t"
  by (auto simp: plugged_def fun_eq_iff)

text \<open>The shell runs the programs of a command with the data flow it describes: each gets its standard
  input and output from the pipe or the file it names, every other descriptor as the shell has it, and no
  program is left with an end of a pipe that is not its input or output.\<close>

lemma runcmd_flow:
  assumes "std_redirs c" "std_table t i out" "\<And>p. forks E p" "\<And>p. pipes E p"
  shows "concat (map execs (runcmd E path c t)) = map (plugged t) (flow E path c i out)"
  using assms(1,2)
proof (induction c arbitrary: path t i out)
  case (EXEC ws)
  then have "t(0 \<mapsto> i, 1 \<mapsto> out) = t" by (simp add: std_table_def fun_upd_idem)
  then show ?case by (cases ws) (simp_all add: plugged_def del: fun_upd_apply)
next
  case (REDIR c w m fd)
  define k where "k = nat fd"
  have k: "k = 0 \<or> k = 1" "fd = 0 \<longleftrightarrow> k = 0" using REDIR(2) by (auto simp: k_def)
  note r = redir_table [OF REDIR(3) k(1), of "File w m"]
  show ?case
  proof (cases "opens E w m")
    case True
    have "concat (map execs (runcmd E path (REDIR c w m fd) t)) = concat (map execs (runcmd E (0 # path) c (t(k \<mapsto> File w m))))"
      using True r(1) by (simp add: k_def Let_def)
    also have "\<dots> = map (plugged (t(k \<mapsto> File w m))) (flow E (0 # path) c (if k = 0 then File w m else i) (if k = 0 then out else File w m))"
      by (rule REDIR(1) [OF _ r(2)]) (use REDIR(2) in simp)
    finally have "concat (map execs (runcmd E path (REDIR c w m fd) t)) =
        map (plugged t) (flow E (0 # path) c (if k = 0 then File w m else i) (if k = 0 then out else File w m))"
      unfolding plugged_upd [OF k(1)] .
    then show ?thesis using True k by (auto simp del: runcmd.simps)
  qed (simp add: Let_def)
next
  case (PIPE l r)
  obtain p0 p1 t1 t2 where p: "fd_install (Rd path) t = Some (p0, t1)" "fd_install (Wr path) t1 = Some (p1, t2)"
    "fd_close p1 (fd_close p0 (fd_dup p1 (fd_close 1 t2))) = t(1 \<mapsto> Wr path)"
    "fd_close p1 (fd_close p0 (fd_dup p0 (fd_close 0 t2))) = t(0 \<mapsto> Rd path)" by (rule pipe_table [OF PIPE(4)])
  have u: "plugged (t(1 \<mapsto> Wr path)) = plugged t" "plugged (t(0 \<mapsto> Rd path)) = plugged t" by (rule plugged_upd; simp)+
  have "concat (map execs (runcmd E (0 # path) l (t(1 \<mapsto> Wr path)))) = map (plugged (t(1 \<mapsto> Wr path))) (flow E (0 # path) l i (Wr path))"
    by (rule PIPE(1) [OF _ std_table_upd(1) [OF PIPE(4)]]) (use PIPE(3) in simp)
  moreover have "concat (map execs (runcmd E (1 # path) r (t(0 \<mapsto> Rd path)))) = map (plugged (t(0 \<mapsto> Rd path))) (flow E (1 # path) r (Rd path) out)"
    by (rule PIPE(2) [OF _ std_table_upd(2) [OF PIPE(4)]]) (use PIPE(3) in simp)
  ultimately show ?case
    using assms(3,4) by (simp add: p(1,2) p(3,4) [unfolded One_nat_def] u [unfolded One_nat_def] fork1_def del: fun_upd_apply)
qed (use assms(3) in \<open>simp_all add: fork1_def\<close>)

section \<open>From the line to the programs\<close>

lemma good_word_no_NUL: "good_word w \<Longrightarrow> NUL \<notin> set w"
  by (auto simp: good_word_def)

lemma shown_no_NUL: "good_cmd c \<Longrightarrow> NUL \<notin> set (shown n c)"
  by (induction c arbitrary: n) (auto simp: paren_def show_redir_def good_redir_def dest: good_word_no_NUL)

lemma good_std_redirs: "good_cmd c \<Longrightarrow> std_redirs c"
  by (induction c) (auto simp: good_redir_def)


definition given_table :: fdtab where
  "given_table k = (if k < 3 then Some (Given k) else None)"

definition pipe_cmd :: "string cmd" where
  "pipe_cmd = PIPE (EXEC [''cat'', ''a'']) (REDIR (EXEC [''wc'']) ''out'' 0x201 1)"


end
