(* ===== verification/Grep.thy ===== *)
theory Grep
  imports Xv6_Prelude
begin

text \<open>
  The user program grep (grep.c): the matcher of Kernighan and Pike for \<^verbatim>\<open>^\<close>, \<^verbatim>\<open>.\<close>, \<^verbatim>\<open>*\<close> and \<^verbatim>\<open>$\<close>, proved
  against the language a pattern denotes, and the loop that cuts what it reads into lines. A C
  string is the list of is bytes before the terminator, so the terminator is the end of the list.
\<close>

section \<open>The matcher\<close>

abbreviation CARET :: u8 where "CARET \<equiv> 94"
abbreviation STAR :: u8 where "STAR \<equiv> 42"
abbreviation DOLLAR :: u8 where "DOLLAR \<equiv> 36"
abbreviation DOT :: u8 where "DOT \<equiv> 46"
abbreviation NEWLINE :: u8 where "NEWLINE \<equiv> 10"

definition fits :: "u8 \<Rightarrow> u8 \<Rightarrow> bool" where
  "fits c t \<longleftrightarrow> c = DOT \<or> c = t"

function matchhere :: "u8 list \<Rightarrow> u8 list \<Rightarrow> bool" and matchstar :: "u8 \<Rightarrow> u8 list \<Rightarrow> u8 list \<Rightarrow> bool" where
  "matchhere re str =
     (case re of
        [] \<Rightarrow> True
      | c # re' \<Rightarrow>
          if re' \<noteq> [] \<and> hd re' = STAR then matchstar c (tl re') str
          else if c = DOLLAR \<and> re' = [] then str = []
          else if str \<noteq> [] \<and> fits c (hd str) then matchhere re' (tl str)
          else False)"
| "matchstar c re str =
     (if matchhere re str then True
      else if str \<noteq> [] \<and> fits c (hd str) then matchstar c re (tl str)
      else False)"
  by pat_completeness auto
termination
  by (relation "measure (\<lambda>x. case x of Inl (re, str) \<Rightarrow> 2 * (length re + length str)
      | Inr (c, re, str) \<Rightarrow> 2 * (length re + length str) + 1)")
    (auto simp: neq_Nil_conv)

declare matchhere.simps [simp del] matchstar.simps [simp del]

text \<open>The loop of \<^verbatim>\<open>match\<close> over the suffixes of the text, the empty one included.\<close>

fun match_from :: "u8 list \<Rightarrow> u8 list \<Rightarrow> bool" where
  "match_from re [] = matchhere re []"
| "match_from re (t # ts) = (matchhere re (t # ts) \<or> match_from re ts)"

definition match :: "u8 list \<Rightarrow> u8 list \<Rightarrow> bool" where
  "match re str = (if re \<noteq> [] \<and> hd re = CARET then matchhere (tl re) str else match_from re str)"

section \<open>The lines of a file\<close>

text \<open>The inner loop of \<^verbatim>\<open>grep\<close>, from \<open>p\<close> on: \<^verbatim>\<open>strchr\<close> stops at a null byte of the data. The
  result is what is written and where \<open>p\<close> ends.\<close>

function grep_scan :: "u8 list \<Rightarrow> u8 list \<Rightarrow> u8 list \<times> u8 list" where
  "grep_scan pattern p =
     (let line = takeWhile (\<lambda>c. c \<noteq> NEWLINE \<and> c \<noteq> 0) p; q = dropWhile (\<lambda>c. c \<noteq> NEWLINE \<and> c \<noteq> 0) p
      in if q \<noteq> [] \<and> hd q = NEWLINE
         then let (out, r) = grep_scan pattern (tl q)
              in ((if match pattern line then line @ [NEWLINE] else []) @ out, r)
         else ([], p))"
  by pat_completeness auto
termination
proof (relation "measure (\<lambda>(pattern, p). length p)", simp, goal_cases)
  case (1 pattern p line q)
  then have "length q \<le> length p" by (simp add: length_dropWhile_le)
  moreover have "length (tl q) < length q" using 1 by (cases q) auto
  ultimately show ?case by simp
qed

declare grep_scan.simps [simp del]

text \<open>One turn of the outer loop: \<open>kept\<close> is the part of a line left in the buffer, \<open>chunk\<close> what
  \<^verbatim>\<open>read\<close> put after it. If no line ends in the buffer it is emptied.\<close>

definition grep_turn :: "u8 list \<Rightarrow> u8 list \<Rightarrow> u8 list \<Rightarrow> u8 list \<times> u8 list" where
  "grep_turn pattern kept chunk =
     (let buf = kept @ chunk; (out, p) = grep_scan pattern buf
      in (out, if length p = length buf then [] else p))"

text \<open>\<^verbatim>\<open>grep\<close> on whatever \<^verbatim>\<open>read\<close> returns, one chunk after the other; an empty one ends it.\<close>

fun grep_reads :: "u8 list \<Rightarrow> u8 list \<Rightarrow> u8 list list \<Rightarrow> u8 list" where
  "grep_reads pattern kept [] = []"
| "grep_reads pattern kept (chunk # chunks) =
     (if chunk = [] then []
      else case grep_turn pattern kept chunk of (out, kept') \<Rightarrow> out @ grep_reads pattern kept' chunks)"

abbreviation BUFLEN :: nat where "BUFLEN \<equiv> 1024"

text \<open>What \<^verbatim>\<open>read\<close> of a file with content \<open>f\<close> returns to \<^verbatim>\<open>grep\<close>: as much as fits beside \<open>kept\<close>.\<close>

function file_chunks :: "u8 list \<Rightarrow> u8 list \<Rightarrow> u8 list \<Rightarrow> u8 list list" where
  "file_chunks pattern kept f =
     (let chunk = take (BUFLEN - length kept - 1) f
      in if chunk = [] then [] else chunk # file_chunks pattern (snd (grep_turn pattern kept chunk)) (drop (BUFLEN - length kept - 1) f))"
  by pat_completeness auto
termination
  by (relation "measure (\<lambda>(pattern, kept, f). length f)") (auto simp: neq_Nil_conv)

declare file_chunks.simps [simp del]

definition grep :: "u8 list \<Rightarrow> u8 list \<Rightarrow> u8 list" where
  "grep pattern f = grep_reads pattern [] (file_chunks pattern [] f)"

section \<open>The language of a pattern\<close>

text \<open>One character, or any number of characters that fit one.\<close>

datatype item = One u8 | Many u8

text \<open>The items of a pattern without is \<^verbatim>\<open>^\<close>, and whether it ends in an anchor. A star that follows
  nothing, a dollar that is not last and a caret that is not first stand for themselves.\<close>

fun items :: "u8 list \<Rightarrow> item list" where
  "items [] = []"
| "items [c] = (if c = DOLLAR then [] else [One c])"
| "items (c # d # re) = (if d = STAR then Many c # items re else One c # items (d # re))"

fun end_anchor :: "u8 list \<Rightarrow> bool" where
  "end_anchor [] = False"
| "end_anchor [c] = (c = DOLLAR)"
| "end_anchor (c # d # re) = (if d = STAR then end_anchor re else end_anchor (d # re))"

fun lang1 :: "item \<Rightarrow> u8 list set" where
  "lang1 (One c) = {[t] |t. fits c t}"
| "lang1 (Many c) = {ts. \<forall>t \<in> set ts. fits c t}"

fun lang :: "item list \<Rightarrow> u8 list set" where
  "lang [] = {[]}"
| "lang (i # its) = {u @ v |u v. u \<in> lang1 i \<and> v \<in> lang its}"

definition start_anchor :: "u8 list \<Rightarrow> bool" where
  "start_anchor re \<longleftrightarrow> re \<noteq> [] \<and> hd re = CARET"

definition body :: "u8 list \<Rightarrow> u8 list" where
  "body re = (if start_anchor re then tl re else re)"

text \<open>A prefix of the text is in the language, all of it if the pattern is anchored at the end.\<close>

definition prefix_in :: "u8 list \<Rightarrow> u8 list \<Rightarrow> bool" where
  "prefix_in re str \<longleftrightarrow> (\<exists>mid post. str = mid @ post \<and> mid \<in> lang (items re) \<and> (end_anchor re \<longrightarrow> post = []))"

lemma star_prefix:
  "(str \<in> {u @ v |u v. (\<forall>t \<in> set u. fits c t) \<and> P v}) =
    (P str \<or> str \<noteq> [] \<and> fits c (hd str) \<and> tl str \<in> {u @ v |u v. (\<forall>t \<in> set u. fits c t) \<and> P v})"
proof (cases str)
  case Nil
  then show ?thesis by auto
next
  case (Cons t ts)
  have "(\<exists>u v. t # ts = u @ v \<and> (\<forall>t \<in> set u. fits c t) \<and> P v) \<longleftrightarrow>
      P (t # ts) \<or> fits c t \<and> (\<exists>u v. ts = u @ v \<and> (\<forall>t \<in> set u. fits c t) \<and> P v)"
  proof
    assume "\<exists>u v. t # ts = u @ v \<and> (\<forall>t \<in> set u. fits c t) \<and> P v"
    then obtain u v where "t # ts = u @ v" "\<forall>t \<in> set u. fits c t" "P v" by blast
    then show "P (t # ts) \<or> fits c t \<and> (\<exists>u v. ts = u @ v \<and> (\<forall>t \<in> set u. fits c t) \<and> P v)"
      by (cases u) auto
  next
    assume "P (t # ts) \<or> fits c t \<and> (\<exists>u v. ts = u @ v \<and> (\<forall>t \<in> set u. fits c t) \<and> P v)"
    then show "\<exists>u v. t # ts = u @ v \<and> (\<forall>t \<in> set u. fits c t) \<and> P v"
    proof
      assume "P (t # ts)"
      then show ?thesis by (intro exI [of _ "[]"] exI [of _ "t # ts"]) simp
    next
      assume "fits c t \<and> (\<exists>u v. ts = u @ v \<and> (\<forall>t \<in> set u. fits c t) \<and> P v)"
      then obtain u v where "fits c t" "ts = u @ v" "\<forall>t \<in> set u. fits c t" "P v" by blast
      then show ?thesis by (intro exI [of _ "t # u"] exI [of _ v]) auto
    qed
  qed
  then show ?thesis using Cons by simp
qed

lemma prefix_in_Many:
  "prefix_in (c # STAR # re) str \<longleftrightarrow> str \<in> {u @ v |u v. (\<forall>t \<in> set u. fits c t) \<and> prefix_in re v}"
proof
  assume "prefix_in (c # STAR # re) str"
  then obtain mid post where m: "str = mid @ post" "mid \<in> lang (Many c # items re)" "end_anchor re \<longrightarrow> post = []"
    unfolding prefix_in_def by auto
  obtain u v where "mid = u @ v" "\<forall>t \<in> set u. fits c t" "v \<in> lang (items re)" using m(2) by auto
  with m have "str = (u @ v) @ post" "\<forall>t \<in> set u. fits c t" "v \<in> lang (items re)" "end_anchor re \<longrightarrow> post = []" by simp_all
  then show "str \<in> {u @ v |u v. (\<forall>t \<in> set u. fits c t) \<and> prefix_in re v}"
    unfolding prefix_in_def by (intro CollectI exI [of _ u] exI [of _ "v @ post"]) auto
next
  assume "str \<in> {u @ v |u v. (\<forall>t \<in> set u. fits c t) \<and> prefix_in re v}"
  then obtain u mid post where h: "str = u @ mid @ post" "\<forall>t \<in> set u. fits c t" "mid \<in> lang (items re)" "end_anchor re \<longrightarrow> post = []"
    unfolding prefix_in_def by blast
  then have "u @ mid \<in> lang (items (c # STAR # re))" by auto
  then show "prefix_in (c # STAR # re) str"
    unfolding prefix_in_def using h by (intro exI [of _ "u @ mid"] exI [of _ post]) simp
qed

lemma lang_One: "lang (One c # its) = {t # v |t v. fits c t \<and> v \<in> lang its}"
  by auto (metis append_Cons append_Nil)

lemma prefix_in_One:
  assumes "re = [] \<or> hd re \<noteq> STAR" "c \<noteq> DOLLAR \<or> re \<noteq> []"
  shows "prefix_in (c # re) str \<longleftrightarrow> str \<noteq> [] \<and> fits c (hd str) \<and> prefix_in re (tl str)"
proof -
  have i: "items (c # re) = One c # items re" "end_anchor (c # re) = end_anchor re"
    using assms by (cases re; simp)+
  show ?thesis
  proof
    assume "prefix_in (c # re) str"
    then obtain t v post where "str = (t # v) @ post" "fits c t" "v \<in> lang (items re)" "end_anchor re \<longrightarrow> post = []"
      unfolding prefix_in_def i lang_One by blast
    then show "str \<noteq> [] \<and> fits c (hd str) \<and> prefix_in re (tl str)" unfolding prefix_in_def by auto
  next
    assume "str \<noteq> [] \<and> fits c (hd str) \<and> prefix_in re (tl str)"
    then obtain t mid post where h: "str = (t # mid) @ post" "fits c t" "mid \<in> lang (items re)" "end_anchor re \<longrightarrow> post = []"
      unfolding prefix_in_def by (cases str) auto
    then show "prefix_in (c # re) str" unfolding prefix_in_def i lang_One by blast
  qed
qed

lemma match_prefix:
  "matchhere re str \<longleftrightarrow> prefix_in re str"
  "matchstar c re str \<longleftrightarrow> str \<in> {u @ v |u v. (\<forall>t \<in> set u. fits c t) \<and> prefix_in re v}"
proof (induction re str and c re str rule: matchhere_matchstar.induct)
  case (1 re str)
  show ?case
  proof (cases re)
    case Nil
    then show ?thesis by (auto simp: matchhere.simps prefix_in_def)
  next
    case (Cons c re')
    consider (star) "re' \<noteq> []" "hd re' = STAR" | (dollar) "re' = []" "c = DOLLAR"
      | (one) "re' = [] \<or> hd re' \<noteq> STAR" "c \<noteq> DOLLAR \<or> re' \<noteq> []" by blast
    then show ?thesis
    proof cases
      case star
      then have re: "re = c # STAR # tl re'" using Cons by (cases re') auto
      have "matchhere re str = matchstar c (tl re') str" using star Cons by (simp add: matchhere.simps [of "c # re'"])
      also have "\<dots> \<longleftrightarrow> prefix_in re str" unfolding re prefix_in_Many using 1(1) [OF Cons] star by blast
      finally show ?thesis .
    next
      case dollar
      then show ?thesis using Cons by (auto simp: matchhere.simps [of "[DOLLAR]"] prefix_in_def)
    next
      case one
      have "matchhere re str \<longleftrightarrow> str \<noteq> [] \<and> fits c (hd str) \<and> matchhere re' (tl str)"
        using one Cons by (auto simp: matchhere.simps [of "c # re'"])
      also have "\<dots> \<longleftrightarrow> str \<noteq> [] \<and> fits c (hd str) \<and> prefix_in re' (tl str)"
        using 1(2) [OF Cons] one by blast
      finally show ?thesis using prefix_in_One [OF one] Cons by simp
    qed
  qed
next
  case (2 c re str)
  let ?L = "\<lambda>s. s \<in> {u @ v |u v. (\<forall>t \<in> set u. fits c t) \<and> prefix_in re v}"
  have "matchstar c re str \<longleftrightarrow> prefix_in re str \<or> str \<noteq> [] \<and> fits c (hd str) \<and> ?L (tl str)"
    unfolding matchstar.simps [of c re str] using 2 by (cases "matchhere re str") simp_all
  then show ?case unfolding star_prefix [of str c "prefix_in re"] .
qed

lemma match_from_suffix: "match_from re str \<longleftrightarrow> (\<exists>pre rest. str = pre @ rest \<and> prefix_in re rest)"
proof (induction str)
  case Nil
  then show ?case by (simp add: match_prefix)
next
  case (Cons t ts)
  have "(\<exists>pre rest. t # ts = pre @ rest \<and> prefix_in re rest) \<longleftrightarrow>
      prefix_in re (t # ts) \<or> (\<exists>pre rest. ts = pre @ rest \<and> prefix_in re rest)"
    by (auto simp: Cons_eq_append_conv)
  then show ?case using Cons by (simp add: match_prefix)
qed

text \<open>C35: The matcher finds exactly the texts with a part in the language of the pattern, at the start
  if the pattern begins with a caret and at the end if it ends with a dollar.\<close>

theorem match_language:
  "match re str \<longleftrightarrow> (\<exists>pre mid post. str = pre @ mid @ post \<and> mid \<in> lang (items (body re)) \<and>
    (if start_anchor re then pre = [] else True) \<and> (if end_anchor (body re) then post = [] else True))"
proof (cases "start_anchor re")
  case True
  then have "match re str \<longleftrightarrow> prefix_in (body re) str" by (simp add: match_def start_anchor_def body_def match_prefix)
  also have "\<dots> \<longleftrightarrow> (\<exists>mid post. str = mid @ post \<and> mid \<in> lang (items (body re)) \<and> (if end_anchor (body re) then post = [] else True))"
    unfolding prefix_in_def by (cases "end_anchor (body re)") simp_all
  finally show ?thesis using True by simp
next
  case False
  then have b: "match re str = match_from re str" "body re = re" by (auto simp: match_def start_anchor_def body_def)
  have "match_from re str \<longleftrightarrow> (\<exists>pre mid post. str = pre @ mid @ post \<and> mid \<in> lang (items re) \<and> (if end_anchor re then post = [] else True))"
    unfolding match_from_suffix prefix_in_def by (cases "end_anchor re") (simp_all, blast+)
  then show ?thesis using b False by simp
qed

section \<open>Lines\<close>

text \<open>The terminated lines of a file, without their newlines, and what follows the last of them.\<close>

function full_lines :: "u8 list \<Rightarrow> u8 list list" where
  "full_lines f =
     (let line = takeWhile (\<lambda>c. c \<noteq> NEWLINE) f; q = dropWhile (\<lambda>c. c \<noteq> NEWLINE) f
      in if q = [] then [] else line # full_lines (tl q))"
  by pat_completeness auto
termination
proof (relation "measure length", simp, goal_cases)
  case (1 f line q)
  then have "length q \<le> length f" by (simp add: length_dropWhile_le)
  moreover have "length (tl q) < length q" using 1 by (cases q) auto
  ultimately show ?case by simp
qed

declare full_lines.simps [simp del]

definition unfinished :: "u8 list \<Rightarrow> u8 list" where
  "unfinished f = rev (takeWhile (\<lambda>c. c \<noteq> NEWLINE) (rev f))"

lemma full_lines_simps:
  "NEWLINE \<notin> set f \<Longrightarrow> full_lines f = []"
  "NEWLINE \<notin> set l \<Longrightarrow> full_lines (l @ NEWLINE # f) = l # full_lines f"
proof -
  show "full_lines f = []" if "NEWLINE \<notin> set f"
  proof -
    have "dropWhile (\<lambda>c. c \<noteq> NEWLINE) f = []" using that by (auto simp: dropWhile_eq_Nil_conv)
    then show ?thesis by (simp add: full_lines.simps [of f] del: dropWhile_eq_Nil_conv)
  qed
  show "full_lines (l @ NEWLINE # f) = l # full_lines f" if "NEWLINE \<notin> set l"
  proof -
    have t: "takeWhile (\<lambda>c. c \<noteq> NEWLINE) (l @ NEWLINE # f) = l" "dropWhile (\<lambda>c. c \<noteq> NEWLINE) (l @ NEWLINE # f) = NEWLINE # f"
      using that by (auto simp: takeWhile_tail dropWhile_append takeWhile_append)
    show ?thesis by (subst full_lines.simps) (simp add: t)
  qed
qed

lemma unfinished_simps:
  "NEWLINE \<notin> set f \<Longrightarrow> unfinished f = f" "unfinished (l @ NEWLINE # f) = unfinished f"
proof -
  have w: "takeWhile (\<lambda>c. c \<noteq> NEWLINE) (rev f) = rev f" if "NEWLINE \<notin> set f"
    by (rule takeWhile_eq_all_conv [THEN iffD2]) (use that in auto)
  show "unfinished f = f" if n: "NEWLINE \<notin> set f"
    unfolding unfinished_def w [OF n] by simp
  show "unfinished (l @ NEWLINE # f) = unfinished f"
    by (cases "NEWLINE \<in> set f") (auto simp: unfinished_def takeWhile_append w)
qed

lemma line_cases [case_names unfinished line]:
  obtains "NEWLINE \<notin> set f" | l f' where "f = l @ NEWLINE # f'" "NEWLINE \<notin> set l" "length f' < length f"
proof (cases "NEWLINE \<in> set f")
  case True
  then obtain l f' where "f = l @ NEWLINE # f'" "NEWLINE \<notin> set l" by (meson split_list_first)
  then show thesis using that(2) by simp
qed (use that(1) in blast)

lemma full_lines_append: "full_lines (f @ g) = full_lines f @ full_lines (unfinished f @ g)"
proof (induction "length f" arbitrary: f rule: less_induct)
  case less
  show ?case
  proof (cases f rule: line_cases)
    case unfinished
    then show ?thesis by (simp add: full_lines_simps unfinished_simps)
  next
    case (line l f')
    then show ?thesis using less [OF line(3)] by (simp add: full_lines_simps unfinished_simps)
  qed
qed

lemma unfinished_no_newline: "NEWLINE \<notin> set (unfinished f)"
  by (auto simp: unfinished_def dest: set_takeWhileD)

lemma unfinished_length: "length (unfinished f) = length f \<longleftrightarrow> NEWLINE \<notin> set f" "length (unfinished f) \<le> length f"
proof -
  show l: "length (unfinished f) \<le> length f" using length_takeWhile_le [of _ "rev f"] by (simp add: unfinished_def)
  show "length (unfinished f) = length f \<longleftrightarrow> NEWLINE \<notin> set f"
  proof (cases f rule: line_cases)
    case (line l f')
    moreover have "length (unfinished f') \<le> length f'" using length_takeWhile_le [of _ "rev f'"] by (simp add: unfinished_def)
    ultimately show ?thesis by (simp add: unfinished_simps)
  qed (simp add: unfinished_simps)
qed

definition print_lines :: "u8 list list \<Rightarrow> u8 list" where
  "print_lines ls = concat (map (\<lambda>l. l @ [NEWLINE]) ls)"

lemma grep_scan_lines:
  "0 \<notin> set p \<Longrightarrow> grep_scan pattern p = (print_lines (filter (match pattern) (full_lines p)), unfinished p)"
proof (induction "length p" arbitrary: p rule: less_induct)
  case less
  have w: "takeWhile (\<lambda>c. c \<noteq> NEWLINE \<and> c \<noteq> 0) p = takeWhile (\<lambda>c. c \<noteq> NEWLINE) p"
    "dropWhile (\<lambda>c. c \<noteq> NEWLINE \<and> c \<noteq> 0) p = dropWhile (\<lambda>c. c \<noteq> NEWLINE) p"
    using less(2) by (auto intro!: takeWhile_cong dropWhile_cong)
  show ?case
  proof (cases p rule: line_cases)
    case unfinished
    then have "dropWhile (\<lambda>c. c \<noteq> NEWLINE) p = []" by (auto simp: dropWhile_eq_Nil_conv)
    then show ?thesis
      using unfinished by (simp add: grep_scan.simps [of pattern p] w print_lines_def full_lines_simps unfinished_simps)
  next
    case (line l p')
    have d: "takeWhile (\<lambda>c. c \<noteq> NEWLINE) p = l" "dropWhile (\<lambda>c. c \<noteq> NEWLINE) p = NEWLINE # p'"
      using line by (auto simp: takeWhile_tail dropWhile_append takeWhile_append)
    have "grep_scan pattern p' = (print_lines (filter (match pattern) (full_lines p')), unfinished p')"
      using less(1) [OF line(3)] less(2) line(1) by simp
    moreover have "full_lines p = l # full_lines p'" "unfinished p = unfinished p'"
      using line(1,2) by (simp_all add: full_lines_simps unfinished_simps)
    ultimately show ?thesis by (simp add: grep_scan.simps [of pattern p] w d print_lines_def)
  qed
qed

lemma grep_turn_lines:
  assumes "0 \<notin> set (kept @ chunk)"
  shows "grep_turn pattern kept chunk = (print_lines (filter (match pattern) (full_lines (kept @ chunk))),
    if NEWLINE \<in> set (kept @ chunk) then unfinished (kept @ chunk) else [])"
  by (simp add: grep_turn_def Let_def grep_scan_lines [OF assms] unfinished_length(1) del: set_append length_append)

lemma grep_reads_file:
  assumes "NEWLINE \<notin> set kept" "0 \<notin> set (kept @ f)" "length kept + 2 \<le> BUFLEN" "\<And>l. l \<in> set (full_lines (kept @ f)) \<Longrightarrow> length l + 2 \<le> BUFLEN"
  shows "grep_reads pattern kept (file_chunks pattern kept f) = print_lines (filter (match pattern) (full_lines (kept @ f)))"
  using assms
proof (induction pattern kept f rule: file_chunks.induct)
  case (1 pattern kept f)
  let ?n = "BUFLEN - length kept - 1"
  let ?b = "kept @ take ?n f" and ?f = "drop ?n f"
  have n: "0 < ?n" using 1(4) by simp
  have f: "kept @ f = ?b @ ?f" by simp
  show ?case
  proof (cases "take ?n f = []")
    case True
    then have "f = []" using n by simp
    then show ?thesis using 1(2) by (simp add: file_chunks.simps full_lines_simps print_lines_def)
  next
    case False
    have z: "0 \<notin> set ?b" "0 \<notin> set ?f" using 1(3) by (auto dest: in_set_takeD in_set_dropD)
    define kept' where "kept' = snd (grep_turn pattern kept (take ?n f))"
    have k: "grep_turn pattern kept (take ?n f) = (print_lines (filter (match pattern) (full_lines ?b)),
        if NEWLINE \<in> set ?b then unfinished ?b else [])"
      by (rule grep_turn_lines [OF z(1)])
    have run: "grep_reads pattern kept (file_chunks pattern kept f) =
        print_lines (filter (match pattern) (full_lines ?b)) @ grep_reads pattern kept' (file_chunks pattern kept' ?f)"
      using False k by (subst file_chunks.simps) (simp add: kept'_def Let_def)
    have rest: "full_lines (kept @ f) = full_lines ?b @ full_lines (kept' @ ?f)"
    proof (cases "NEWLINE \<in> set ?b")
      case True
      then show ?thesis using full_lines_append [of ?b ?f] k unfolding f by (simp add: kept'_def)
    next
      case no: False
      have "NEWLINE \<notin> set ?f"
      proof
        assume "NEWLINE \<in> set ?f"
        then obtain l f' where l: "?f = l @ NEWLINE # f'" "NEWLINE \<notin> set l" by (meson split_list_first)
        have "full_lines (kept @ f) = (?b @ l) # full_lines f'"
          unfolding f using full_lines_simps(2) [of "?b @ l" f'] l no by simp
        then have "?b @ l \<in> set (full_lines (kept @ f))" by simp
        then have "length (?b @ l) + 2 \<le> BUFLEN" by (rule 1(5))
        moreover have "length ?b = BUFLEN - 1" using l(1) 1(4) by (cases "length f \<le> ?n") auto
        ultimately show False by simp
      qed
      then have "NEWLINE \<notin> set (kept @ f)" unfolding f set_append using no by simp
      moreover have "kept' = []" using no k by (simp add: kept'_def)
      ultimately show ?thesis using no \<open>NEWLINE \<notin> set ?f\<close> by (simp only: full_lines_simps(1) append_Nil not_False_eq_True)
    qed
    have "grep_reads pattern kept' (file_chunks pattern kept' ?f) = print_lines (filter (match pattern) (full_lines (kept' @ ?f)))"
      unfolding kept'_def
    proof (rule 1(1) [OF refl False])
      have k': "snd (grep_turn pattern kept (take ?n f)) = (if NEWLINE \<in> set ?b then unfinished ?b else [])" using k by simp
      show "NEWLINE \<notin> set (snd (grep_turn pattern kept (take ?n f)))" unfolding k' using unfinished_no_newline by simp
      have "set (unfinished ?b) \<subseteq> set ?b" by (auto simp: unfinished_def dest: set_takeWhileD)
      then show "0 \<notin> set (snd (grep_turn pattern kept (take ?n f)) @ ?f)" unfolding k' using z by auto
      have "NEWLINE \<in> set ?b \<Longrightarrow> length (unfinished ?b) < length ?b" using unfinished_length [of ?b] by (simp add: le_neq_implies_less)
      moreover have "length ?b \<le> BUFLEN - 1" using 1(4) by simp
      ultimately show "length (snd (grep_turn pattern kept (take ?n f))) + 2 \<le> BUFLEN" unfolding k' by auto
      show "length l + 2 \<le> BUFLEN" if "l \<in> set (full_lines (snd (grep_turn pattern kept (take ?n f)) @ ?f))" for l
        using that 1(5) rest unfolding kept'_def by simp
    qed
    then show ?thesis unfolding run rest by (simp add: print_lines_def)
  qed
qed

text \<open>C36: On a file without null bytes whose lines fit is buffer, \<^verbatim>\<open>grep\<close> prints the terminated lines that
  match, in order, wherever the reads cut the file.\<close>

theorem grep_prints_matching_lines:
  assumes "0 \<notin> set f" "\<And>l. l \<in> set (full_lines f) \<Longrightarrow> length l + 2 \<le> BUFLEN"
  shows "grep pattern f = print_lines (filter (match pattern) (full_lines f))"
  unfolding grep_def using grep_reads_file [of "[]" f pattern] assms by simp

theorem grep_prints_matching_lines_witness:
  "grep [94, 97, 42, 98] [97, 98, 10, 98, 99, 10, 99, 98, 10] = [97, 98, 10, 98, 99, 10]"
proof -
  have l: "full_lines [97, 98, 10, 98, 99, 10, 99, 98, 10] = [[97, 98], [98, 99], [99, 98]]"
    by (simp add: full_lines.simps)
  have m: "match [94, 97, 42, 98] [97, 98]" "match [94, 97, 42, 98] [98, 99]" "\<not> match [94, 97, 42, 98] [99, 98]"
    by (simp_all add: match_def matchhere.simps matchstar.simps fits_def)
  show ?thesis
    by (subst grep_prints_matching_lines) (auto simp: l m print_lines_def)
qed

text \<open>When a read stops inside a line and no line ends before it, as reads of a pipe do, the start of
  the line is lost.\<close>

theorem grep_loses_split_line:
  "grep_reads [97, 98] [] [[97], [98, 10]] = [] \<and> grep_reads [97, 98] [] [[97, 98, 10]] = [97, 98, 10]"
  by (simp add: grep_turn_def grep_scan.simps match_def matchhere.simps fits_def)

end
