(* ===== verification/Umalloc.thy ===== *)
theory Umalloc
  imports Xv6_Prelude
begin

text \<open>
  The allocator of user programs (umalloc.c, Kernighan and Ritchie): a circular list of free blocks in
  the order of their addresses, which \<^verbatim>\<open>free\<close> inserts into and merges neighbours of, and \<^verbatim>\<open>malloc\<close> takes
  the first fit from. Addresses are natural numbers; a header of 8 bytes is named by its address. The
  number of units, and the argument of \<^verbatim>\<open>sbrk\<close>, are computed at the width of the code.
\<close>

section \<open>Headers and the break\<close>

record heap =
  hptr :: "nat \<Rightarrow> nat"
  hsize :: "nat \<Rightarrow> nat"
  hbase :: nat
  freep :: "nat option"
  brk :: nat

text \<open>\<open>p + p->s.size\<close>.\<close>

definition hend :: "heap \<Rightarrow> nat \<Rightarrow> nat" where
  "hend h p = p + 8 * hsize h p"

text \<open>\<^verbatim>\<open>sbrk\<close> (sysproc.c): the old break, which moves by a signed number of bytes if the kernel agrees.\<close>

definition sbrk :: "bool \<Rightarrow> u32 \<Rightarrow> heap \<Rightarrow> nat option \<times> heap" where
  "sbrk ok n h = (if ok then (Some (brk h), h\<lparr>brk := nat (int (brk h) + sint n)\<rparr>) else (None, h))"

section \<open>free\<close>

text \<open>The loop of \<^verbatim>\<open>free\<close>; on a list that is not in order it need not end.\<close>

partial_function (option) free_slot :: "heap \<Rightarrow> nat \<Rightarrow> nat \<Rightarrow> nat option" where
  "free_slot h bp p =
     (if bp > p \<and> bp < hptr h p then Some p
      else if p \<ge> hptr h p \<and> (bp > p \<or> bp < hptr h p) then Some p
      else free_slot h bp (hptr h p))"

definition free_join :: "nat \<Rightarrow> nat \<Rightarrow> heap \<Rightarrow> heap" where
  "free_join bp p h =
     (let h1 = (if hend h bp = hptr h p
            then h\<lparr>hsize := (hsize h)(bp := hsize h bp + hsize h (hptr h p)), hptr := (hptr h)(bp := hptr h (hptr h p))\<rparr>
            else h\<lparr>hptr := (hptr h)(bp := hptr h p)\<rparr>);
          h2 = (if hend h1 p = bp
            then h1\<lparr>hsize := (hsize h1)(p := hsize h1 p + hsize h1 bp), hptr := (hptr h1)(p := hptr h1 bp)\<rparr>
            else h1\<lparr>hptr := (hptr h1)(p := bp)\<rparr>)
      in h2\<lparr>freep := Some p\<rparr>)"

definition free :: "nat \<Rightarrow> heap \<Rightarrow> heap option" where
  "free ap h =
     (let bp = ap - 8
      in case freep h of
          None \<Rightarrow> None
        | Some f \<Rightarrow> (case free_slot h bp f of None \<Rightarrow> None | Some p \<Rightarrow> Some (free_join bp p h)))"

section \<open>malloc\<close>

definition morecore :: "bool \<Rightarrow> nat \<Rightarrow> heap \<Rightarrow> (nat option \<times> heap) option" where
  "morecore ok nu0 h =
     (let nu = (if nu0 < 4096 then 4096 else nu0)
      in case sbrk ok (of_nat nu * 8) h of
          (None, h1) \<Rightarrow> Some (None, h1)
        | (Some hp, h1) \<Rightarrow>
            (case free (hp + 8) (h1\<lparr>hsize := (hsize h1)(hp := nu)\<rparr>) of
               None \<Rightarrow> None
             | Some h2 \<Rightarrow> Some (freep h2, h2)))"

text \<open>The block \<open>p\<close> is large enough: all of it, or its tail.\<close>

definition take_block :: "nat \<Rightarrow> nat \<Rightarrow> nat \<Rightarrow> heap \<Rightarrow> nat \<times> heap" where
  "take_block nunits prevp p h =
     (let (q, h1) =
        (if hsize h p = nunits then (p, h\<lparr>hptr := (hptr h)(prevp := hptr h p)\<rparr>)
         else let rest = hsize h p - nunits; h1 = h\<lparr>hsize := (hsize h)(p := rest)\<rparr>; q = p + 8 * rest
              in (q, h1\<lparr>hsize := (hsize h1)(q := nunits)\<rparr>))
      in (q + 8, h1\<lparr>freep := Some prevp\<rparr>))"

text \<open>\<open>grow\<close> tells of each value of the break whether the kernel lets it move from there.\<close>

partial_function (option) malloc_loop :: "(nat \<Rightarrow> bool) \<Rightarrow> nat \<Rightarrow> nat \<Rightarrow> nat \<Rightarrow> heap \<Rightarrow> (nat option \<times> heap) option" where
  "malloc_loop grow nunits prevp p h =
     (if hsize h p \<ge> nunits
      then Some (Some (fst (take_block nunits prevp p h)), snd (take_block nunits prevp p h))
      else if freep h = Some p
      then Option.bind (morecore (grow (brk h)) nunits h) (\<lambda>r.
        case fst r of
          None \<Rightarrow> Some (None, snd r)
        | Some p' \<Rightarrow> malloc_loop grow nunits p' (hptr (snd r) p') (snd r))
      else malloc_loop grow nunits p (hptr h p) h)"

definition units :: "u32 \<Rightarrow> nat" where
  "units nbytes = unat ((nbytes + 8 - 1) div 8 + 1)"

definition malloc :: "(nat \<Rightarrow> bool) \<Rightarrow> u32 \<Rightarrow> heap \<Rightarrow> (nat option \<times> heap) option" where
  "malloc grow nbytes h =
     (let (prevp, h1) =
        (case freep h of
           None \<Rightarrow> (hbase h, h\<lparr>hptr := (hptr h)(hbase h := hbase h), freep := Some (hbase h), hsize := (hsize h)(hbase h := 0)\<rparr>)
         | Some f \<Rightarrow> (f, h))
      in malloc_loop grow (units nbytes) prevp (hptr h1 prevp) h1)"

section \<open>Lists of blocks\<close>

text \<open>Each block of the list points to the next and the last to \<open>y\<close>; each ends before the next begins,
  so no two of them touch.\<close>

fun links :: "heap \<Rightarrow> nat list \<Rightarrow> nat \<Rightarrow> bool" where
  "links h [] y \<longleftrightarrow> True"
| "links h (x # xs) y \<longleftrightarrow> hptr h x = (case xs of [] \<Rightarrow> y | z # _ \<Rightarrow> z) \<and> links h xs y"

fun gaps :: "heap \<Rightarrow> nat list \<Rightarrow> nat \<Rightarrow> bool" where
  "gaps h [] y \<longleftrightarrow> True"
| "gaps h (x # xs) y \<longleftrightarrow> hend h x < (case xs of [] \<Rightarrow> y | z # _ \<Rightarrow> z) \<and> gaps h xs y"

lemma links_append: "links h (xs @ z # zs) y \<longleftrightarrow> links h xs z \<and> links h (z # zs) y"
  by (induction xs) (auto split: list.splits)

lemma gaps_append: "gaps h (xs @ z # zs) y \<longleftrightarrow> gaps h xs z \<and> gaps h (z # zs) y"
  by (induction xs) (auto split: list.splits)

lemma links_cong: "(\<And>x. x \<in> set xs \<Longrightarrow> hptr h' x = hptr h x) \<Longrightarrow> links h' xs y = links h xs y"
  by (induction xs) auto

lemma gaps_cong: "(\<And>x. x \<in> set xs \<Longrightarrow> hsize h' x = hsize h x) \<Longrightarrow> gaps h' xs y = gaps h xs y"
  by (induction xs) (auto simp: hend_def)

lemma gaps_less: "gaps h xs y \<Longrightarrow> x \<in> set xs \<Longrightarrow> hend h x < y"
proof (induction xs arbitrary: x)
  case (Cons a xs)
  show ?case
  proof (cases "x = a")
    case True
    then show ?thesis
    proof (cases xs)
      case xs: (Cons z zs)
      then have "hend h z < y" "hend h a < z" using Cons.IH [of z] Cons.prems by auto
      then show ?thesis using True by (simp add: hend_def)
    qed (use Cons in auto)
  qed (use Cons in auto)
qed simp

lemma gaps_le: "gaps h xs y \<Longrightarrow> y \<le> y' \<Longrightarrow> gaps h xs y'"
  by (induction xs) (auto split: list.splits)

lemma gaps_above: "gaps h (x # xs) y \<Longrightarrow> z \<in> set xs \<Longrightarrow> hend h x < z"
proof (induction xs arbitrary: x)
  case (Cons a xs)
  then show ?case by (fastforce simp: hend_def)
qed simp

definition block :: "heap \<Rightarrow> nat \<Rightarrow> nat set" where
  "block h x = {x ..< hend h x}"

definition space :: "heap \<Rightarrow> nat list \<Rightarrow> nat set" where
  "space h L = (\<Union>x \<in> set L. block h x)"

text \<open>The invariant: the free blocks and the allocated ones, in \<open>A\<close> with their sizes.\<close>

definition free_ok :: "heap \<Rightarrow> nat list \<Rightarrow> bool" where
  "free_ok h L \<longleftrightarrow> L \<noteq> [] \<and> hd L = hbase h \<and> hsize h (hbase h) = 0 \<and> links h L (hbase h) \<and> gaps h L (Suc (brk h)) \<and>
     (\<forall>x \<in> set L. x = hbase h \<or> hbase h + 8 \<le> x \<and> 0 < hsize h x) \<and> (\<exists>f \<in> set L. freep h = Some f)"

definition alloc_ok :: "heap \<Rightarrow> nat list \<Rightarrow> (nat \<rightharpoonup> nat) \<Rightarrow> bool" where
  "alloc_ok h L A \<longleftrightarrow>
     (\<forall>x n. A x = Some n \<longrightarrow> 0 < n \<and> hsize h x = n \<and> hbase h + 8 \<le> x \<and> hend h x \<le> brk h \<and> block h x \<inter> space h L = {} \<and>
        (\<forall>y. y \<in> dom A \<longrightarrow> y \<noteq> x \<longrightarrow> block h x \<inter> block h y = {}))"

definition heap_ok :: "heap \<Rightarrow> (nat \<rightharpoonup> nat) \<Rightarrow> bool" where
  "heap_ok h A \<longleftrightarrow> hbase h + 8 \<le> brk h \<and> (if freep h = None then A = Map.empty else \<exists>L. free_ok h L \<and> alloc_ok h L A)"

lemma hend_ge [simp]: "x \<le> hend h x"
  by (simp add: hend_def)

lemma mem_block: "a \<in> block h x \<longleftrightarrow> x \<le> a \<and> a < hend h x"
  by (simp add: block_def)

lemma gaps_order:
  assumes "gaps h L y" "L = us @ x # vs" "z \<in> set vs"
  shows "hend h x < z"
  using assms gaps_above [of h x vs y z] by (simp add: gaps_append)

lemma gaps_distinct: "gaps h L y \<Longrightarrow> distinct L"
proof (induction L)
  case (Cons a L)
  then show ?case using gaps_above [of h a L y a] by (auto simp: hend_def)
qed simp

lemma gaps_disjoint:
  assumes "gaps h L y" "x \<in> set L" "z \<in> set L" "x \<noteq> z"
  shows "hend h x < z \<or> hend h z < x"
proof -
  obtain us vs where L: "L = us @ x # vs" using split_list [OF assms(2)] by blast
  show ?thesis
  proof (cases "z \<in> set vs")
    case True
    then show ?thesis using gaps_order [OF assms(1) L] by simp
  next
    case False
    then have "z \<in> set us" using assms(3,4) L by auto
    then obtain u1 u2 where u: "us = u1 @ z # u2" using split_list [of z us] by blast
    have "L = u1 @ z # (u2 @ x # vs)" using L u by simp
    from gaps_order [OF assms(1) this, of x] show ?thesis by simp
  qed
qed

section \<open>Where free inserts\<close>

text \<open>The list around an address: the blocks below it, the last of them \<open>p\<close>, and those above.\<close>

lemma split_at:
  assumes "L \<noteq> []" "hd L < bp" "bp \<notin> set L" "gaps h L y"
  obtains pre p post where "L = pre @ p # post" "\<forall>x \<in> set (pre @ [p]). x < bp" "\<forall>x \<in> set post. bp < x"
  using assms
proof (induction L arbitrary: thesis)
  case (Cons a L)
  show ?case
  proof (cases "L \<noteq> [] \<and> hd L < bp")
    case True
    then obtain pre p post where "L = pre @ p # post" "\<forall>x \<in> set (pre @ [p]). x < bp" "\<forall>x \<in> set post. bp < x"
      using Cons.IH Cons.prems by auto
    then show ?thesis using Cons.prems(1) [of "a # pre" p post] Cons.prems(3) by simp
  next
    case False
    have "bp < x" if x: "x \<in> set L" for x
    proof -
      obtain z zs where L: "L = z # zs" using x by (cases L) auto
      then have z: "bp < z" using False Cons.prems(4) by auto
      show ?thesis
      proof (cases "x = z")
        case False
        then have "hend h z < x" using gaps_above [of h z zs y x] L Cons.prems(5) x by auto
        then show ?thesis using z by (simp add: hend_def)
      qed (use z in simp)
    qed
    then show ?thesis using Cons.prems(1) [of "[]" a L] Cons.prems(3) by simp
  qed
qed simp

lemma free_slot_finds:
  assumes "links h L base" "gaps h L y" "hd L = base" "L = pre @ p # post"
    "\<forall>x \<in> set (pre @ [p]). x < bp" "\<forall>x \<in> set post. bp < x" "x \<in> set L"
  shows "free_slot h bp x = Some p"
proof -
  have base: "base \<in> set (pre @ [p])" using assms(3,4) by (cases pre) auto
  have le: "base \<le> z" if "z \<in> set L" for z
  proof (cases "z = base")
    case False
    have "L \<noteq> []" using assms(4) by simp
    then obtain L' where "L = base # L'" using assms(3) by (cases L) auto
    then show ?thesis using gaps_above [of h base L' y z] assms(2) that False by (auto simp: hend_def)
  qed simp
  have l: "links h pre p" "hptr h p = (case post of [] \<Rightarrow> base | z # _ \<Rightarrow> z)" "links h post base"
    using assms(1,4) by (simp_all add: links_append)
  have at: "free_slot h bp p = Some p"
    using assms(5,6) l(2) le [of p] assms(4) by (subst free_slot.simps) (auto split: list.splits)
  have below: "free_slot h bp z = Some p" if "pre = us @ z # vs" for us z vs
    using that
  proof (induction vs arbitrary: us z)
    case Nil
    then have "hptr h z = p" "hend h z < p" using l(1) gaps_order [OF assms(2), of us z "p # post" p] assms(4) by (simp_all add: links_append)
    moreover have "p < bp" using assms(5) by simp
    ultimately show ?case using at by (subst free_slot.simps) (simp add: hend_def)
  next
    case (Cons v vs)
    then have "hptr h z = v" "hend h z < v" using l(1) gaps_order [OF assms(2), of us z "v # vs @ p # post" v] assms(4) by (simp_all add: links_append)
    moreover have "v < bp" using assms(5) Cons(2) by simp
    moreover have "free_slot h bp v = Some p" using Cons(1) [of "us @ [z]" v] Cons(2) by simp
    ultimately show ?case by (subst free_slot.simps) (simp add: hend_def)
  qed
  have low: "free_slot h bp z = Some p" if "z \<in> set (pre @ [p])" for z
    using that at below split_list [of z pre] by (cases "z = p") auto
  have above: "free_slot h bp z = Some p" if "post = us @ z # vs" for us z vs
    using that
  proof (induction vs arbitrary: us z)
    case Nil
    then have "hptr h z = base" "bp < z" using l(3) assms(6) by (simp_all add: links_append)
    moreover have "base < bp" using base assms(5) by auto
    ultimately show ?case using low [OF base] by (subst free_slot.simps) simp
  next
    case (Cons v vs)
    then have "hptr h z = v" "hend h z < v" "bp < z" using l(3) assms(6) gaps_order [OF assms(2), of "pre @ p # us" z "v # vs" v] assms(4)
      by (simp_all add: links_append)
    moreover have "free_slot h bp v = Some p" using Cons(1) [of "us @ [z]" v] Cons(2) by simp
    ultimately show ?case by (subst free_slot.simps) (simp add: hend_def)
  qed
  show ?thesis using assms(4,7) low above split_list [of x post] by (cases "x \<in> set post") auto
qed

section \<open>What free does\<close>

text \<open>The list after \<^verbatim>\<open>free\<close>, merged upwards, downwards, both or neither.\<close>

definition joined :: "heap \<Rightarrow> nat \<Rightarrow> nat list \<Rightarrow> nat \<Rightarrow> nat list \<Rightarrow> nat list" where
  "joined h bp pre p post =
     pre @ (if hend h p = bp then [p] else [p, bp]) @ (if post \<noteq> [] \<and> hend h bp = hd post then tl post else post)"

definition tail_end :: "heap \<Rightarrow> nat \<Rightarrow> nat list \<Rightarrow> nat" where
  "tail_end h bp post = (if post \<noteq> [] \<and> hend h bp = hd post then hend h (hd post) else hend h bp)"

lemma free_join_fields:
  assumes "hptr h p = (case post of [] \<Rightarrow> base | z # _ \<Rightarrow> z)" "base < hend h bp" "p < bp" "post \<noteq> [] \<longrightarrow> hd post \<noteq> p \<and> hd post \<noteq> bp"
    "links h post base"
  defines "h' \<equiv> free_join bp p h"
  defines "rest \<equiv> (if post \<noteq> [] \<and> hend h bp = hd post then tl post else post)"
  shows "x \<noteq> bp \<Longrightarrow> x \<noteq> p \<Longrightarrow> hptr h' x = hptr h x \<and> hsize h' x = hsize h x"
    "hbase h' = hbase h" "brk h' = brk h" "freep h' = Some p"
    "if hend h p = bp then hptr h' p = (case rest of [] \<Rightarrow> base | z # _ \<Rightarrow> z) \<and> hend h' p = tail_end h bp post
     else hptr h' p = bp \<and> hsize h' p = hsize h p \<and> hptr h' bp = (case rest of [] \<Rightarrow> base | z # _ \<Rightarrow> z) \<and> hend h' bp = tail_end h bp post"
    "hsize h' p \<ge> hsize h bp \<or> hend h p \<noteq> bp \<and> hsize h' bp \<ge> hsize h bp" "hsize h' p \<ge> hsize h p"
proof -
  have up: "hend h bp = hptr h p \<longleftrightarrow> post \<noteq> [] \<and> hend h bp = hd post"
    using assms(1,2) by (cases post) auto
  have nx: "hptr h (hd post) = (case tl post of [] \<Rightarrow> base | z # _ \<Rightarrow> z)" if "post \<noteq> []"
    using that assms(5) by (cases post) auto
  have hp: "hptr h p = hd post" if "post \<noteq> []" using that assms(1) by (cases post) auto
  show "x \<noteq> bp \<Longrightarrow> x \<noteq> p \<Longrightarrow> hptr h' x = hptr h x \<and> hsize h' x = hsize h x"
    "hbase h' = hbase h" "brk h' = brk h" "freep h' = Some p"
    by (simp_all add: h'_def free_join_def Let_def)
  show "hsize h' p \<ge> hsize h bp \<or> hend h p \<noteq> bp \<and> hsize h' bp \<ge> hsize h bp" "hsize h' p \<ge> hsize h p"
    using assms(3) by (simp_all add: h'_def free_join_def Let_def hend_def)
  show "if hend h p = bp then hptr h' p = (case rest of [] \<Rightarrow> base | z # _ \<Rightarrow> z) \<and> hend h' p = tail_end h bp post
     else hptr h' p = bp \<and> hsize h' p = hsize h p \<and> hptr h' bp = (case rest of [] \<Rightarrow> base | z # _ \<Rightarrow> z) \<and> hend h' bp = tail_end h bp post"
  proof (cases "post \<noteq> [] \<and> hend h bp = hd post")
    case True
    then show ?thesis using assms(3,4) nx hp
      by (auto simp: h'_def rest_def free_join_def Let_def hend_def tail_end_def)
  next
    case False
    then have "hend h bp \<noteq> hptr h p" using up by simp
    then show ?thesis using assms(1,3) False
      by (auto simp: h'_def rest_def free_join_def Let_def hend_def tail_end_def)
  qed
qed

lemma free_ok_sorted: "free_ok h L \<Longrightarrow> x \<in> set L \<Longrightarrow> x = hbase h \<or> hbase h + 8 \<le> x \<and> 0 < hsize h x"
  by (simp add: free_ok_def)

lemma joined_ok:
  assumes "free_ok h L" "alloc_ok h L A" "A bp = Some n"
  obtains L' h' where "free (bp + 8) h = Some h'" "free_ok h' L'" "space h' L' = space h L \<union> block h bp" "hbase h' = hbase h" "brk h' = brk h"
    "\<And>x. x \<noteq> bp \<Longrightarrow> x \<notin> set L \<Longrightarrow> hptr h' x = hptr h x \<and> hsize h' x = hsize h x" "\<exists>x \<in> set L'. n \<le> hsize h' x"
proof -
  define base where "base = hbase h"
  have f: "L \<noteq> []" "hd L = base" "hsize h base = 0" "links h L base" "gaps h L (Suc (brk h))"
    using assms(1) by (simp_all add: free_ok_def base_def)
  obtain x0 where x0: "x0 \<in> set L" "freep h = Some x0" using assms(1) by (auto simp: free_ok_def)
  have bp: "0 < n" "hsize h bp = n" "base + 8 \<le> bp" "hend h bp \<le> brk h" "block h bp \<inter> space h L = {}"
    using assms(2,3) by (auto simp: alloc_ok_def base_def)
  have bpL: "bp \<notin> set L"
  proof
    assume l: "bp \<in> set L"
    then have "bp \<in> space h L" using free_ok_sorted [OF assms(1) l] bp(3) by (auto simp: space_def mem_block hend_def base_def)
    moreover have "bp \<in> block h bp" using bp(1,2) by (simp add: mem_block hend_def)
    ultimately show False using bp(5) by blast
  qed
  obtain pre p post where L: "L = pre @ p # post" and lt: "\<forall>x \<in> set (pre @ [p]). x < bp" "\<forall>x \<in> set post. bp < x"
    using split_at [OF f(1) _ bpL f(5)] f(2) bp(3) by (metis add_lessD1 less_add_same_cancel1 less_le_trans zero_less_numeral)
  have slot: "free_slot h bp x0 = Some p" by (rule free_slot_finds [OF f(4,5,2) L lt x0(1)])
  have l: "links h pre p" "hptr h p = (case post of [] \<Rightarrow> base | z # _ \<Rightarrow> z)" "links h post base"
    using f(4) L by (simp_all add: links_append)
  have g: "gaps h pre p" "hend h p < (case post of [] \<Rightarrow> Suc (brk h) | z # _ \<Rightarrow> z)" "gaps h post (Suc (brk h))"
    using f(5) L by (simp_all add: gaps_append)
  have dist: "distinct L" by (rule gaps_distinct [OF f(5)])
  have pb: "p < bp" "p \<in> set L" using lt L by auto
  have pe: "hend h p \<le> bp"
  proof (rule ccontr)
    assume "\<not> hend h p \<le> bp"
    then have "bp \<in> space h L" using pb by (auto simp: space_def mem_block intro!: bexI [of _ p])
    moreover have "bp \<in> block h bp" using bp(1,2) by (simp add: mem_block hend_def)
    ultimately show False using bp(5) by blast
  qed
  have ze: "hend h bp \<le> z" if z: "z \<in> set post" for z
  proof (rule ccontr)
    assume "\<not> hend h bp \<le> z"
    moreover have "bp < z" using lt z by blast
    ultimately have "z \<in> block h bp" by (simp add: mem_block)
    moreover have "z \<in> space h L" using free_ok_sorted [OF assms(1), of z] z L \<open>bp < z\<close> bp(3)
      by (auto simp: space_def mem_block hend_def base_def)
    ultimately show False using bp(5) by blast
  qed
  define h' where "h' = free_join bp p h"
  define rest where "rest = (if post \<noteq> [] \<and> hend h bp = hd post then tl post else post)"
  define L' where "L' = joined h bp pre p post"
  have c: "base < hend h bp" "post \<noteq> [] \<longrightarrow> hd post \<noteq> p \<and> hd post \<noteq> bp"
    using bp dist L lt(2) by (auto simp: hend_def)
  note j = free_join_fields [OF l(2) c(1) pb(1) c(2) l(3), folded h'_def rest_def]
  have L': "L' = pre @ (if hend h p = bp then [p] else [p, bp]) @ rest" by (simp add: L'_def joined_def rest_def)
  have rest_post: "set rest \<subseteq> set post" by (cases post) (auto simp: rest_def)
  have other: "hptr h' x = hptr h x \<and> hsize h' x = hsize h x" if "x \<in> set pre \<union> set rest" for x
    using j(1) [of x] that rest_post dist L bpL by auto
  have te: "tail_end h bp post < (case rest of [] \<Rightarrow> Suc (brk h) | z # _ \<Rightarrow> z)" "bp < tail_end h bp post"
  proof -
    show "tail_end h bp post < (case rest of [] \<Rightarrow> Suc (brk h) | z # _ \<Rightarrow> z)"
      using ze g(3) bp(4) by (cases post) (auto simp: tail_end_def rest_def le_neq_implies_less split: list.splits)
    have "bp < hend h bp" using bp(1,2) by (simp add: hend_def)
    then show "bp < tail_end h bp post" using lt(2) by (cases post) (auto simp: tail_end_def hend_def)
  qed
  have lr: "links h' rest base" "gaps h' rest (Suc (brk h))"
  proof -
    have "links h rest base" "gaps h rest (Suc (brk h))" using l(3) g(3) by (auto simp: rest_def) (cases post; simp)+
    then show "links h' rest base" "gaps h' rest (Suc (brk h))"
      using links_cong [of rest h' h base] gaps_cong [of rest h' h] other by auto
  qed
  have lp: "links h' pre p" "gaps h' pre p" using links_cong [of pre h' h p] gaps_cong [of pre h' h p] other l(1) g(1) by auto
  have links': "links h' L' base"
    using lr lp j(5) by (auto simp: L' links_append split: if_splits)
  have gaps': "gaps h' L' (Suc (brk h))"
    using lr lp j(5) te pe by (auto simp: L' gaps_append hend_def split: if_splits)
  show thesis
  proof (rule that)
    show "free (bp + 8) h = Some h'" using x0 slot by (simp add: free_def h'_def)
    show "hbase h' = hbase h" "brk h' = brk h" by (rule j(2), rule j(3))
    show "hptr h' x = hptr h x \<and> hsize h' x = hsize h x" if "x \<noteq> bp" "x \<notin> set L" for x using j(1) [of x] that pb by auto
    show "\<exists>x \<in> set L'. n \<le> hsize h' x" using j(6) bp(2) by (auto simp: L')
    have b0: "hsize h' base = 0"
    proof (cases "p = base")
      case True
      then have "hend h p \<noteq> bp" using f(3) bp(3) by (simp add: hend_def)
      then show ?thesis using j(5) True f(3) by simp
    next
      case False
      then show ?thesis using j(1) [of base] bp(3) f(3) by simp
    qed
    have sz: "x = base \<or> base + 8 \<le> x \<and> 0 < hsize h' x" if x: "x \<in> set L'" for x
    proof -
      have old: "y = base \<or> base + 8 \<le> y \<and> 0 < hsize h y" if "y \<in> set L" for y using free_ok_sorted [OF assms(1) that] by (simp add: base_def)
      consider "x \<in> set pre \<union> set rest" | "x = p" | "x = bp" "hend h p \<noteq> bp" using x by (auto simp: L' split: if_splits)
      then show ?thesis
      proof cases
        case 1
        then show ?thesis using old [of x] other [of x] rest_post L by auto
      next
        case 2
        then show ?thesis using old [OF pb(2)] j(7) by auto
      next
        case 3
        then show ?thesis using j(5) te(2) bp(3) by (auto simp: hend_def)
      qed
    qed
    have "hd L' = base" using f(2) L by (cases pre) (auto simp: L')
    then show "free_ok h' L'" unfolding free_ok_def
      using links' gaps' b0 sz j(2,3,4) by (auto simp: L' base_def)
    show "space h' L' = space h L \<union> block h bp"
    proof -
      have blk: "block h' x = block h x" if "x \<in> set pre \<union> set rest" for x using other [OF that] by (simp add: block_def hend_def)
      have tail: "{bp ..< tail_end h bp post} = block h bp \<union> (\<Union>x \<in> set post - set rest. block h x)"
      proof (cases "post \<noteq> [] \<and> hend h bp = hd post")
        case True
        then have "set post - set rest = {hd post}" using dist L by (cases post) (auto simp: rest_def)
        moreover have "{bp ..< hend h bp} \<union> {hend h bp ..< hend h (hd post)} = {bp ..< hend h (hd post)}"
          using True hend_ge [of bp h] by (intro ivl_disj_un_two(3)) simp_all
        ultimately show ?thesis using True by (simp add: tail_end_def block_def)
      qed (auto simp: rest_def tail_end_def block_def)
      have mid: "(\<Union>x \<in> set (if hend h p = bp then [p] else [p, bp]). block h' x) = block h p \<union> {bp ..< tail_end h bp post}"
      proof (cases "hend h p = bp")
        case True
        then have "block h' p = {p ..< tail_end h bp post}" using j(5) by (simp add: block_def)
        moreover have "{p ..< bp} \<union> {bp ..< tail_end h bp post} = {p ..< tail_end h bp post}"
          using te(2) pb(1) by (intro ivl_disj_un_two(3)) simp_all
        ultimately show ?thesis using True by (simp add: block_def)
      next
        case False
        then have "hend h' p = hend h p" using j(5) by (simp add: hend_def)
        then show ?thesis using False j(5) by (auto simp: block_def)
      qed
      have sp: "set post = set rest \<union> (set post - set rest)" using rest_post by blast
      have "space h' L' = (\<Union>x \<in> set pre. block h x) \<union> (\<Union>x \<in> set (if hend h p = bp then [p] else [p, bp]). block h' x) \<union> (\<Union>x \<in> set rest. block h x)"
        using blk by (simp add: space_def L' UN_Un Un_assoc)
      also have "\<dots> = (\<Union>x \<in> set pre. block h x) \<union> block h p \<union> (\<Union>x \<in> set post. block h x) \<union> block h bp"
        unfolding mid tail by (subst sp) (simp only: UN_Un, blast)
      also have "\<dots> = space h L \<union> block h bp" by (simp add: space_def L UN_Un Un_ac)
      finally show ?thesis .
    qed
  qed
qed

lemma alloc_okD:
  assumes "alloc_ok h L A" "A x = Some n"
  shows "0 < n" "hsize h x = n" "hbase h + 8 \<le> x" "hend h x \<le> brk h" "block h x \<inter> space h L = {}"
    "\<And>y. y \<in> dom A \<Longrightarrow> y \<noteq> x \<Longrightarrow> block h x \<inter> block h y = {}" "x \<in> block h x"
proof -
  have d: "0 < n \<and> hsize h x = n \<and> hbase h + 8 \<le> x \<and> hend h x \<le> brk h \<and> block h x \<inter> space h L = {} \<and>
      (\<forall>y. y \<in> dom A \<longrightarrow> y \<noteq> x \<longrightarrow> block h x \<inter> block h y = {})"
    using assms unfolding alloc_ok_def by blast
  then show "0 < n" "hsize h x = n" "hbase h + 8 \<le> x" "hend h x \<le> brk h" "block h x \<inter> space h L = {}"
    "\<And>y. y \<in> dom A \<Longrightarrow> y \<noteq> x \<Longrightarrow> block h x \<inter> block h y = {}" by blast+
  show "x \<in> block h x" using d by (simp add: mem_block hend_def)
qed

text \<open>An allocated block is untouched by what changes only headers of free blocks.\<close>

lemma not_in_list:
  assumes "free_ok h L" "alloc_ok h L A" "x \<in> dom A" "b \<in> block h x"
  shows "b \<notin> set L"
proof
  assume l: "b \<in> set L"
  obtain n where n: "A x = Some n" using assms(3) by blast
  have "hbase h + 8 \<le> b" using alloc_okD(3) [OF assms(2) n] assms(4) by (simp add: block_def)
  then have "b \<in> space h L" using free_ok_sorted [OF assms(1) l] l by (auto simp: space_def mem_block hend_def intro!: bexI [of _ b])
  then show False using alloc_okD(5) [OF assms(2) n] assms(4) by blast
qed

lemma free_heap:
  assumes "free_ok h L" "alloc_ok h L A" "A bp = Some n"
  obtains L' h' where "free (bp + 8) h = Some h'" "free_ok h' L'" "alloc_ok h' L' (A(bp := None))" "hbase h' = hbase h" "brk h' = brk h"
    "\<And>x b. x \<in> dom A \<Longrightarrow> x \<noteq> bp \<Longrightarrow> b \<in> block h x \<Longrightarrow> hptr h' b = hptr h b \<and> hsize h' b = hsize h b" "\<exists>x \<in> set L'. n \<le> hsize h' x"
proof -
  show thesis
  proof (rule joined_ok [OF assms])
    fix L' h'
    assume j1: "free (bp + 8) h = Some h'" and j2: "free_ok h' L'" and j3: "space h' L' = space h L \<union> block h bp"
      and j4: "hbase h' = hbase h" and j5: "brk h' = brk h"
      and j6: "\<And>x. x \<noteq> bp \<Longrightarrow> x \<notin> set L \<Longrightarrow> hptr h' x = hptr h x \<and> hsize h' x = hsize h x" and j7: "\<exists>x \<in> set L'. n \<le> hsize h' x"
    have same: "hptr h' b = hptr h b \<and> hsize h' b = hsize h b" if "x \<in> dom A" "x \<noteq> bp" "b \<in> block h x" for x b
    proof (rule j6)
      have "bp \<in> block h bp" by (rule alloc_okD(7) [OF assms(2,3)])
      moreover have "block h bp \<inter> block h x = {}" using alloc_okD(6) [OF assms(2,3) that(1,2)] .
      ultimately show "b \<noteq> bp" using that(3) by blast
      show "b \<notin> set L" by (rule not_in_list [OF assms(1,2) that(1,3)])
    qed
    have sb: "hsize h' x = hsize h x" "block h' x = block h x" "hend h' x = hend h x" if x: "x \<in> dom A" "x \<noteq> bp" for x
    proof -
      obtain m where "A x = Some m" using x by blast
      from same [OF x alloc_okD(7) [OF assms(2) this]] show "hsize h' x = hsize h x" "block h' x = block h x" "hend h' x = hend h x"
        by (simp_all add: block_def hend_def)
    qed
    have "alloc_ok h' L' (A(bp := None))" unfolding alloc_ok_def
    proof (intro allI impI)
      fix x m assume "(A(bp := None)) x = Some m"
      then have x: "A x = Some m" "x \<noteq> bp" "x \<in> dom A" by (auto split: if_splits)
      note d = alloc_okD [OF assms(2) x(1)]
      have "block h x \<inter> block h bp = {}" using d(6) [of bp] x assms(3) by blast
      then show "0 < m \<and> hsize h' x = m \<and> hbase h' + 8 \<le> x \<and> hend h' x \<le> brk h' \<and> block h' x \<inter> space h' L' = {} \<and>
          (\<forall>y. y \<in> dom (A(bp := None)) \<longrightarrow> y \<noteq> x \<longrightarrow> block h' x \<inter> block h' y = {})"
        using d sb x j3 j4 j5 by auto
    qed
    then show thesis by (rule that [OF j1 j2 _ j4 j5 same j7])
  qed
qed

section \<open>The search of malloc\<close>

lemma loop_walk:
  assumes "links h (prev # xs) f" "f \<notin> set xs" "freep h = Some f"
  shows "(\<exists>a p. a \<in> set (prev # xs) \<and> p \<in> set (xs @ [f]) \<and> hptr h a = p \<and> n \<le> hsize h p \<and>
       malloc_loop grow n prev (hptr h prev) h = Some (Some (fst (take_block n a p h)), snd (take_block n a p h))) \<or>
    (\<forall>p \<in> set (xs @ [f]). hsize h p < n) \<and>
       malloc_loop grow n prev (hptr h prev) h = Option.bind (morecore (grow (brk h)) n h) (\<lambda>r.
         case fst r of None \<Rightarrow> Some (None, snd r) | Some p' \<Rightarrow> malloc_loop grow n p' (hptr (snd r) p') (snd r))"
  using assms(1,2)
proof (induction xs arbitrary: prev)
  case Nil
  then have p: "hptr h prev = f" by simp
  show ?case
  proof (cases "n \<le> hsize h f")
    case True
    then have "malloc_loop grow n prev (hptr h prev) h = Some (Some (fst (take_block n prev f h)), snd (take_block n prev f h))"
      by (subst malloc_loop.simps) (simp add: p)
    then show ?thesis using True p by (intro disjI1 exI [of _ prev] exI [of _ f]) simp
  next
    case False
    then show ?thesis using p assms(3) by (intro disjI2) (simp add: malloc_loop.simps [of grow n prev f])
  qed
next
  case (Cons x xs)
  then have p: "hptr h prev = x" "links h (x # xs) f" "x \<noteq> f" "f \<notin> set xs" by auto
  show ?case
  proof (cases "n \<le> hsize h x")
    case True
    then have "malloc_loop grow n prev (hptr h prev) h = Some (Some (fst (take_block n prev x h)), snd (take_block n prev x h))"
      by (subst malloc_loop.simps) (simp add: p)
    then show ?thesis using True p by (intro disjI1 exI [of _ prev] exI [of _ x]) simp
  next
    case False
    then have "malloc_loop grow n prev (hptr h prev) h = malloc_loop grow n x (hptr h x) h"
      using p assms(3) by (subst malloc_loop.simps) simp
    then show ?thesis using Cons(1) [OF p(2,4)] False by auto
  qed
qed

lemma links_rotate:
  assumes "links h (us @ f # vs) base" "hd (us @ f # vs) = base"
  shows "links h (f # vs @ us) f"
proof (cases us)
  case Nil
  then show ?thesis using assms by simp
next
  case (Cons b us')
  have "links h us f" "links h (f # vs) base" using assms(1) by (simp_all only: links_append)
  moreover have "b = base" using assms(2) Cons by simp
  ultimately have "links h us f" "links h (f # vs) base" "b = base" by blast+
  then show ?thesis using links_append [of h "f # vs" b us' f] Cons by simp
qed

lemma loop_search:
  assumes "free_ok h L" "freep h = Some f" and n: "0 < n"
  shows "(\<exists>pre a p post. L = pre @ a # p # post \<and> n \<le> hsize h p \<and>
       malloc_loop grow n f (hptr h f) h = Some (Some (fst (take_block n a p h)), snd (take_block n a p h))) \<or>
    (\<forall>p \<in> set L. hsize h p < n) \<and>
       malloc_loop grow n f (hptr h f) h = Option.bind (morecore (grow (brk h)) n h) (\<lambda>r.
         case fst r of None \<Rightarrow> Some (None, snd r) | Some p' \<Rightarrow> malloc_loop grow n p' (hptr (snd r) p') (snd r))"
proof -
  note f = assms(1) [unfolded free_ok_def]
  have "f \<in> set L" using f assms(2) by auto
  then obtain us vs where L: "L = us @ f # vs" by (meson split_list)
  have "distinct L" using f gaps_distinct by blast
  then have nf: "f \<notin> set (vs @ us)" using L by auto
  have lk: "links h (f # vs @ us) f" using links_rotate [of h us f vs "hbase h"] f L by simp
  have sets: "set ((vs @ us) @ [f]) = set L" "set (f # vs @ us) = set L" using L by auto
  show ?thesis
  proof (rule disjE [OF loop_walk [OF lk nf assms(2), of n grow]])
    assume "\<exists>a p. a \<in> set (f # vs @ us) \<and> p \<in> set ((vs @ us) @ [f]) \<and> hptr h a = p \<and> n \<le> hsize h p \<and>
       malloc_loop grow n f (hptr h f) h = Some (Some (fst (take_block n a p h)), snd (take_block n a p h))"
    then obtain a p where ap: "a \<in> set L" "hptr h a = p" "n \<le> hsize h p"
      "malloc_loop grow n f (hptr h f) h = Some (Some (fst (take_block n a p h)), snd (take_block n a p h))"
      unfolding sets by blast
    have pb: "p \<noteq> hbase h" using ap(3) n f by auto
    obtain pre post where s: "L = pre @ a # post" using split_list [OF ap(1)] by blast
    have "links h (a # post) (hbase h)" using f s by (simp add: links_append)
    then obtain post' where "post = p # post'" using ap(2) pb by (cases post) auto
    then show ?thesis using ap s by blast
  qed (use sets in blast)
qed

section \<open>What malloc does\<close>

lemma gaps_shrink: "(\<And>x. x \<in> set L \<Longrightarrow> hend h' x \<le> hend h x) \<Longrightarrow> gaps h L y \<Longrightarrow> gaps h' L y"
  by (induction L) (auto intro: le_less_trans)

lemma take_ok:
  assumes "free_ok h L" "alloc_ok h L A" "L = pre @ a # p # post" "n \<le> hsize h p" "0 < n"
  defines "q \<equiv> fst (take_block n a p h) - 8" and "h' \<equiv> snd (take_block n a p h)"
  shows "\<exists>L'. free_ok h' L' \<and> alloc_ok h' L' (A(q \<mapsto> n))" "q \<notin> dom A" "fst (take_block n a p h) = q + 8" "hbase h' = hbase h" "brk h' = brk h"
    "x \<in> dom A \<Longrightarrow> b \<in> block h x \<Longrightarrow> hptr h' b = hptr h b \<and> hsize h' b = hsize h b"
proof -
  define base where "base = hbase h"
  note f = assms(1) [unfolded free_ok_def, folded base_def]
  have pL: "p \<in> set L" "a \<in> set L" using assms(3) by auto
  have dist: "distinct L" using f gaps_distinct by blast
  have pn: "p \<noteq> base" "base + 8 \<le> p" "0 < hsize h p"
    using f pL assms(4,5) by (metis less_irrefl less_le_trans not_less0)+
  define rest where "rest = hsize h p - n"
  have q: "q = p + 8 * rest" using assms(4) by (auto simp: q_def take_block_def Let_def rest_def)
  have hp: "hend h p = q + 8 * n" using assms(4) by (simp add: hend_def q rest_def)
  show r: "fst (take_block n a p h) = q + 8" "hbase h' = hbase h" "brk h' = brk h"
    by (simp_all add: q_def h'_def take_block_def Let_def split: if_splits)
  have qblk: "{q ..< q + 8 * n} \<subseteq> block h p" unfolding block_def hp by (auto simp: q)
  have sizes: "hsize h' x = (if x = q then n else if x = p then rest else hsize h x)" for x
    using assms(4) by (auto simp: h'_def take_block_def Let_def rest_def q)
  have ptrs: "hptr h' x = (if hsize h p = n \<and> x = a then hptr h p else hptr h x)" for x
    by (auto simp: h'_def take_block_def Let_def)
  have fp: "freep h' = Some a" by (simp add: h'_def take_block_def Let_def split: if_splits)
  have in_p: "x = p" if "x \<in> set L" "q \<le> x" "x < hend h p" for x
  proof (rule ccontr)
    assume "x \<noteq> p"
    then have "hend h p < x \<or> hend h x < p" using gaps_disjoint [of h L "Suc (brk h)" p x] f pL that(1) by auto
    then show False using that q by (auto simp: hend_def)
  qed
  have qL: "x \<noteq> q" if "x \<in> set L" "x \<noteq> p" for x using in_p [OF that(1)] that(2) hp assms(5) by auto
  have qA: "q \<notin> dom A" "x \<in> dom A \<Longrightarrow> b \<in> block h x \<Longrightarrow> b \<noteq> q" for x b
  proof -
    have qs: "q \<in> space h L" unfolding space_def using qblk assms(5) by (intro UN_I [OF pL(1)]) auto
    show "q \<notin> dom A" using qs alloc_okD(5,7) [OF assms(2)] by blast
    show "b \<noteq> q" if x: "x \<in> dom A" "b \<in> block h x"
      using x qs alloc_okD(5) [OF assms(2)] by blast
  qed
  then show "q \<notin> dom A" by simp
  have nL: "b \<notin> set L" if "x \<in> dom A" "b \<in> block h x" for x b using not_in_list [OF assms(1,2) that] .
  show same: "hptr h' b = hptr h b \<and> hsize h' b = hsize h b" if "x \<in> dom A" "b \<in> block h x" for x b
    using qA(2) [OF that] nL [OF that] pL by (auto simp: sizes ptrs)
  define L' where "L' = (if hsize h p = n then pre @ a # post else L)"
  have sub: "set L' \<subseteq> set L" using assms(3) by (auto simp: L'_def)
  have npL': "p \<notin> set L' \<or> 0 < rest" using dist assms(3,4) by (auto simp: L'_def rest_def)
  have le: "hend h' x \<le> hend h x" if "x \<in> set L'" for x
    using that sub qL [of x] npL' by (cases "x = p") (auto simp: hend_def sizes rest_def q)
  have l: "links h pre a" "hptr h a = p" "hptr h p = (case post of [] \<Rightarrow> base | z # _ \<Rightarrow> z)" "links h post base"
    using f assms(3) by (simp_all add: links_append)
  have lk: "links h' L' base"
  proof (cases "hsize h p = n")
    case True
    have "hptr h' x = hptr h x" if "x \<in> set pre \<union> set post" for x using that dist assms(3) by (auto simp: ptrs)
    then have "links h' pre a" "links h' post base"
      using l(1,4) links_cong [of pre h' h a] links_cong [of post h' h base] by blast+
    then show ?thesis using True l by (simp add: L'_def links_append ptrs)
  next
    case False
    then show ?thesis using f links_cong [of L h' h base] by (simp add: L'_def ptrs)
  qed
  have gp: "gaps h' L' (Suc (brk h))"
  proof (cases "hsize h p = n")
    case True
    have g: "gaps h pre a" "hend h a < p" "hend h p < (case post of [] \<Rightarrow> Suc (brk h) | z # _ \<Rightarrow> z)" "gaps h post (Suc (brk h))"
      using f assms(3) by (simp_all add: gaps_append)
    have "hend h a < (case post of [] \<Rightarrow> Suc (brk h) | z # _ \<Rightarrow> z)" using g(2,3) hend_ge [of p h] by linarith
    then have "gaps h L' (Suc (brk h))" using True g by (simp add: L'_def gaps_append)
    then show ?thesis using gaps_shrink le by blast
  next
    case False
    then show ?thesis using f gaps_shrink [of L h' h] le by (simp add: L'_def)
  qed
  have sz: "x = base \<or> base + 8 \<le> x \<and> 0 < hsize h' x" if "x \<in> set L'" for x
    using that sub f npL' qL [of x] pn by (cases "x = p") (auto simp: sizes assms(5))
  have hb: "hsize h' base = 0" "hd L' = base" "L' \<noteq> []" "a \<in> set L'"
  proof -
    have "base \<noteq> q" "base \<noteq> p" using pn q by auto
    then show "hsize h' base = 0" using f by (simp add: sizes)
    show "hd L' = base" "L' \<noteq> []" "a \<in> set L'" using f assms(3) by (cases pre; simp add: L'_def)+
  qed
  have fo: "free_ok h' L'" unfolding free_ok_def using lk gp sz hb r fp by (auto simp: base_def)
  have sp: "space h' L' \<subseteq> space h L" using le sub by (force simp: space_def mem_block)
  have bq: "block h' q = {q ..< q + 8 * n}" "block h' q \<subseteq> space h L" using qblk pL by (auto simp: block_def hend_def sizes space_def)
  have qsp: "block h' q \<inter> space h' L' = {}"
  proof -
    have "b \<notin> block h' x" if b: "b \<in> block h' q" and x: "x \<in> set L'" for b x
    proof (cases "x = p")
      case True
      then have "q \<noteq> p" using npL' x q by auto
      then have "hend h' p = q" by (simp add: hend_def sizes q)
      then show ?thesis using True b bq by (simp add: block_def)
    next
      case False
      then have "hend h p < x \<or> hend h x < p" using gaps_disjoint [of h L "Suc (brk h)" p x] f pL sub x by auto
      then show ?thesis using b qblk bq(1) le [OF x] by (force simp: block_def)
    qed
    then show ?thesis by (auto simp: space_def)
  qed
  have ao: "alloc_ok h' L' (A(q \<mapsto> n))" unfolding alloc_ok_def
  proof (intro allI impI)
    fix x m assume x: "(A(q \<mapsto> n)) x = Some m"
    have sb: "block h' y = block h y" "hend h' y = hend h y" "hsize h' y = hsize h y" if y: "y \<in> dom A" for y
    proof -
      obtain k where "A y = Some k" using y by blast
      from same [OF y alloc_okD(7) [OF assms(2) this]] show "block h' y = block h y" "hend h' y = hend h y" "hsize h' y = hsize h y"
        by (simp_all add: block_def hend_def)
    qed
    have dq: "block h y \<inter> block h' q = {}" if "y \<in> dom A" for y using that alloc_okD(5) [OF assms(2)] bq(2) by blast
    show "0 < m \<and> hsize h' x = m \<and> hbase h' + 8 \<le> x \<and> hend h' x \<le> brk h' \<and> block h' x \<inter> space h' L' = {} \<and>
        (\<forall>y. y \<in> dom (A(q \<mapsto> n)) \<longrightarrow> y \<noteq> x \<longrightarrow> block h' x \<inter> block h' y = {})"
    proof (cases "x = q")
      case True
      have "hend h' q = hend h p" by (simp add: hend_def sizes) (simp add: hp [symmetric] hend_def [symmetric])
      moreover have "hend h p \<le> brk h" using gaps_less [of h L "Suc (brk h)" p] f pL by auto
      ultimately show ?thesis using True x qsp r sizes assms(5) pn q dq sb by (auto simp: base_def)
    next
      case False
      then have xA: "A x = Some m" "x \<in> dom A" using x by auto
      note d = alloc_okD [OF assms(2) xA(1)]
      show ?thesis using False d sb [OF xA(2)] r sp dq [OF xA(2)] sb xA by auto
    qed
  qed
  show "\<exists>L'. free_ok h' L' \<and> alloc_ok h' L' (A(q \<mapsto> n))" using fo ao by blast
qed

lemma units_eq: "unat nbytes < 2 ^ 31 - 2 ^ 16 \<Longrightarrow> units nbytes = (unat nbytes + 7) div 8 + 1"
proof -
  assume n: "unat nbytes < 2 ^ 31 - 2 ^ 16"
  have a: "unat (nbytes + 7) = unat nbytes + 7" using n by (subst unat_plus_if_size) (simp add: word_size)
  then have d: "unat ((nbytes + 7) div 8) = (unat nbytes + 7) div 8" by (simp add: unat_div)
  then have "unat ((nbytes + 7) div 8 + 1) = (unat nbytes + 7) div 8 + 1"
    using n by (subst unat_plus_if_size) (simp add: word_size)
  moreover have "nbytes + 8 - 1 = nbytes + 7" by simp
  ultimately show ?thesis by (simp only: units_def)
qed

lemma morecore_ok:
  assumes "free_ok h L" "alloc_ok h L A" "hbase h + 8 \<le> brk h" "8 * n < 2 ^ 31"
  obtains h' L' p' where "morecore True n h = Some (Some p', h')" "free_ok h' L'" "alloc_ok h' L' A" "freep h' = Some p'" "hbase h' = hbase h"
    "brk h \<le> brk h'" "\<And>x b. x \<in> dom A \<Longrightarrow> b \<in> block h x \<Longrightarrow> hptr h' b = hptr h b \<and> hsize h' b = hsize h b" "\<exists>x \<in> set L'. n \<le> hsize h' x"
proof -
  define nu where "nu = (if n < 4096 then 4096 else n)"
  define h1 where "h1 = h\<lparr>brk := brk h + 8 * nu, hsize := (hsize h)(brk h := nu)\<rparr>"
  have "sint (of_nat nu * 8 :: u32) = int (8 * nu)"
  proof -
    have "(of_nat nu * 8 :: u32) = word_of_int (int (8 * nu))" by (simp add: mult.commute)
    moreover have "signed_take_bit 31 (int (8 * nu)) = int (8 * nu)"
      using assms(4) by (intro signed_take_bit_int_eq_self) (simp_all add: nu_def)
    ultimately show ?thesis by (simp only: signed_of_int) simp
  qed
  then have sb: "sbrk True (of_nat nu * 8) h = (Some (brk h), h\<lparr>brk := brk h + 8 * nu\<rparr>)"
    by (simp add: sbrk_def nat_add_distrib)
  have below: "hend h x \<le> brk h" if "x \<in> set L" for x
    using assms(1) gaps_less [of h L "Suc (brk h)" x] that by (auto simp: free_ok_def)
  have nL: "brk h \<notin> set L"
  proof
    assume l: "brk h \<in> set L"
    then have "0 < hsize h (brk h)" using free_ok_sorted [OF assms(1) l] assms(3) by auto
    then show False using below [OF l] by (simp add: hend_def)
  qed
  have nA: "x \<noteq> brk h \<and> hend h x \<le> brk h \<and> brk h \<notin> block h x" if x: "x \<in> dom A" for x
  proof -
    obtain m where "A x = Some m" using x by blast
    note d = alloc_okD [OF assms(2) this]
    show ?thesis using d by (auto simp: mem_block hend_def)
  qed
  have s1: "hsize h1 x = hsize h x" if "x \<noteq> brk h" for x using that by (simp add: h1_def)
  have blk: "block h1 x = block h x" "hend h1 x = hend h x" if "x \<noteq> brk h" for x using s1 [OF that] by (simp_all add: block_def hend_def)
  have f1: "free_ok h1 L"
  proof -
    have "hsize h1 x = hsize h x" if "x \<in> set L" for x
    proof (rule s1)
      show "x \<noteq> brk h" using that nL by metis
    qed
    then have "gaps h1 L (Suc (brk h))" using assms(1) gaps_cong [of L h1 h] by (simp add: free_ok_def)
    then have "gaps h1 L (Suc (brk h1))" by (rule gaps_le) (simp add: h1_def)
    moreover have "links h1 L (hbase h1)" using assms(1) links_cong [of L h1 h "hbase h"] by (simp add: free_ok_def h1_def)
    moreover have "hsize h1 x = hsize h x" if "x \<in> set L" for x
    proof (rule s1)
      show "x \<noteq> brk h" using that nL by metis
    qed
    moreover have "hbase h \<in> set L" using assms(1) by (metis free_ok_def list.set_sel(1))
    ultimately show ?thesis using assms(1) by (simp add: free_ok_def) (simp add: h1_def)
  qed
  have sp1: "space h1 L = space h L" unfolding space_def
  proof (rule SUP_cong [OF refl])
    show "block h1 x = block h x" if "x \<in> set L" for x by (rule blk(1)) (use that nL in metis)
  qed
  have new: "block h1 (brk h) = {brk h ..< brk h + 8 * nu}" by (simp add: block_def hend_def h1_def)
  have up: "b < brk h" if "b \<in> space h L" for b using that below by (auto simp: space_def mem_block intro: less_le_trans)
  have a1: "alloc_ok h1 L (A(brk h \<mapsto> nu))" unfolding alloc_ok_def
  proof (intro allI impI)
    fix x m assume x: "(A(brk h \<mapsto> nu)) x = Some m"
    have nd: "block h y \<inter> block h1 (brk h) = {}" if "y \<in> dom A" for y using nA [OF that] unfolding new by (auto simp: mem_block)
    have dy: "block h1 y = block h y" if "y \<in> dom A" for y using blk nA [OF that] by blast
    show "0 < m \<and> hsize h1 x = m \<and> hbase h1 + 8 \<le> x \<and> hend h1 x \<le> brk h1 \<and> block h1 x \<inter> space h1 L = {} \<and>
        (\<forall>y. y \<in> dom (A(brk h \<mapsto> nu)) \<longrightarrow> y \<noteq> x \<longrightarrow> block h1 x \<inter> block h1 y = {})"
    proof (cases "x = brk h")
      case True
      then have m: "m = nu" "0 < nu" using x by (auto simp: nu_def)
      have "block h1 (brk h) \<inter> space h1 L = {}" unfolding new sp1 using up by fastforce
      moreover have "block h1 (brk h) \<inter> block h1 y = {}" if "y \<in> dom A" for y using nd [OF that] dy [OF that] by blast
      ultimately show ?thesis using True m assms(3) by (simp add: h1_def hend_def)
    next
      case False
      then have xA: "A x = Some m" "x \<in> dom A" using x by auto
      note d = alloc_okD [OF assms(2) xA(1)]
      have "hbase h1 = hbase h" "brk h \<le> brk h1" by (simp_all add: h1_def)
      then show ?thesis using False d s1 blk sp1 nd [OF xA(2)] dy by auto
    qed
  qed
  have bA: "(A(brk h \<mapsto> nu)) (brk h) = Some nu" by simp
  have undo: "(A(brk h \<mapsto> nu))(brk h := None) = A" 
  proof -
    have "brk h \<notin> dom A" using nA [of "brk h"] by blast
    then have "A (brk h) = None" by (simp add: domIff)
    then show ?thesis by (simp add: fun_upd_idem)
  qed
  show thesis
  proof (rule free_heap [OF f1 a1 bA, unfolded undo])
    fix L' h'
    assume j: "free (brk h + 8) h1 = Some h'" "free_ok h' L'" "alloc_ok h' L' A" "hbase h' = hbase h1" "brk h' = brk h1"
      "\<And>x b. x \<in> dom (A(brk h \<mapsto> nu)) \<Longrightarrow> x \<noteq> brk h \<Longrightarrow> b \<in> block h1 x \<Longrightarrow> hptr h' b = hptr h1 b \<and> hsize h' b = hsize h1 b" "\<exists>x \<in> set L'. nu \<le> hsize h' x"
    obtain p' where p': "freep h' = Some p'" using j(2) by (auto simp: free_ok_def)
    have "h\<lparr>brk := brk h + 8 * nu\<rparr>\<lparr>hsize := (hsize (h\<lparr>brk := brk h + 8 * nu\<rparr>))(brk h := nu)\<rparr> = h1" by (simp add: h1_def)
    then have "morecore True n h = Some (Some p', h')" using j(1) p' sb by (simp add: morecore_def nu_def [symmetric])
    moreover have "hptr h' b = hptr h b \<and> hsize h' b = hsize h b" if "x \<in> dom A" "b \<in> block h x" for x b
    proof -
      have "b \<noteq> brk h" "x \<noteq> brk h" using nA [OF that(1)] that(2) by auto
      then show ?thesis using j(6) [of x b] that blk s1 by (simp add: h1_def)
    qed
    moreover have "\<exists>x \<in> set L'. n \<le> hsize h' x" 
    proof -
      obtain x where "x \<in> set L'" "nu \<le> hsize h' x" using j(7) by blast
      then show ?thesis by (intro bexI [of _ x]) (auto simp: nu_def split: if_splits)
    qed
    ultimately show thesis using that [OF _ j(2,3) p'] j(4,5) by (simp add: h1_def)
  qed
qed

lemma malloc_loop_ok:
  assumes "free_ok h L" "alloc_ok h L A" "hbase h + 8 \<le> brk h" "8 * n < 2 ^ 31" "0 < n" "freep h = Some f"
  shows "\<exists>r h'. malloc_loop grow n f (hptr h f) h = Some (r, h') \<and> hbase h' = hbase h \<and> brk h \<le> brk h' \<and>
    (\<forall>x \<in> dom A. \<forall>b \<in> block h x. hptr h' b = hptr h b \<and> hsize h' b = hsize h b) \<and>
    (case r of None \<Rightarrow> h' = h \<and> \<not> grow (brk h)
     | Some a \<Rightarrow> 8 \<le> a \<and> a - 8 \<notin> dom A \<and> (\<exists>L'. free_ok h' L' \<and> alloc_ok h' L' (A(a - 8 \<mapsto> n))))"
proof -
  have found: ?thesis if ok: "free_ok h1 L1" "alloc_ok h1 L1 A" "hbase h1 = hbase h" "brk h \<le> brk h1"
      "\<forall>x \<in> dom A. \<forall>b \<in> block h x. hptr h1 b = hptr h b \<and> hsize h1 b = hsize h b"
      and s: "L1 = pre @ a # p # post" "n \<le> hsize h1 p"
      and r: "malloc_loop grow n f (hptr h f) h = Some (Some (fst (take_block n a p h1)), snd (take_block n a p h1))" for h1 L1 pre a p post
  proof -
    note tk = take_ok [OF ok(1,2) s assms(5)]
    define q where "q = fst (take_block n a p h1) - 8"
    have "b \<in> block h1 x" if xb: "x \<in> dom A" "b \<in> block h x" for x b
    proof -
      obtain m where "A x = Some m" using xb(1) by blast
      from ok(5) [rule_format, OF xb(1) alloc_okD(7) [OF assms(2) this]] show ?thesis using xb(2) by (simp add: block_def hend_def)
    qed
    then show ?thesis unfolding r using tk ok(3,4,5)
      by (intro exI [of _ "Some (q + 8)"] exI [of _ "snd (take_block n a p h1)"]) (auto simp: q_def [symmetric])
  qed
  show ?thesis
  proof (rule disjE [OF loop_search [OF assms(1,6,5), of grow]])
    assume "\<exists>pre a p post. L = pre @ a # p # post \<and> n \<le> hsize h p \<and>
       malloc_loop grow n f (hptr h f) h = Some (Some (fst (take_block n a p h)), snd (take_block n a p h))"
    then obtain pre a p post where s: "L = pre @ a # p # post" "n \<le> hsize h p"
      "malloc_loop grow n f (hptr h f) h = Some (Some (fst (take_block n a p h)), snd (take_block n a p h))" by blast
    show ?thesis by (rule found [OF assms(1,2) _ _ _ s]) simp_all
  next
    assume m: "(\<forall>p \<in> set L. hsize h p < n) \<and> malloc_loop grow n f (hptr h f) h = Option.bind (morecore (grow (brk h)) n h) (\<lambda>r.
         case fst r of None \<Rightarrow> Some (None, snd r) | Some p' \<Rightarrow> malloc_loop grow n p' (hptr (snd r) p') (snd r))"
    show ?thesis
    proof (cases "grow (brk h)")
      case False
      then have "malloc_loop grow n f (hptr h f) h = Some (None, h)" using m by (simp add: morecore_def sbrk_def)
      then show ?thesis using False by (intro exI [of _ None] exI [of _ h]) simp
    next
      case True
      show ?thesis
      proof (rule morecore_ok [OF assms(1-4)])
        fix h' L' p'
        assume mc: "morecore True n h = Some (Some p', h')" "free_ok h' L'" "alloc_ok h' L' A" "freep h' = Some p'" "hbase h' = hbase h"
          "brk h \<le> brk h'" "\<And>x b. x \<in> dom A \<Longrightarrow> b \<in> block h x \<Longrightarrow> hptr h' b = hptr h b \<and> hsize h' b = hsize h b" "\<exists>x \<in> set L'. n \<le> hsize h' x"
        have e: "malloc_loop grow n f (hptr h f) h = malloc_loop grow n p' (hptr h' p') h'" using m True mc(1) by simp
        have "\<not> (\<forall>p \<in> set L'. hsize h' p < n)" using mc(8) by (auto simp: not_less)
        then obtain pre a p post where s: "L' = pre @ a # p # post" "n \<le> hsize h' p"
          "malloc_loop grow n p' (hptr h' p') h' = Some (Some (fst (take_block n a p h')), snd (take_block n a p h'))"
          using loop_search [OF mc(2,4) assms(5), of grow] by blast
        show ?thesis by (rule found [OF mc(2,3,5,6) _ s(1,2)]) (use mc(7) s(3) e in simp_all)
      qed
    qed
  qed
qed

text \<open>C28: \<^verbatim>\<open>malloc\<close> of less than 2 GB returns: a block that is large enough and overlaps no other block in
  use, with the free list again in order and fully merged, or null when the break cannot move; what is
  in the blocks in use stays as it is.\<close>

theorem malloc_fresh:
  assumes "heap_ok h A" "unat nbytes < 2 ^ 31 - 2 ^ 16"
  shows "\<exists>r h'. malloc grow nbytes h = Some (r, h') \<and>
    (\<forall>x \<in> dom A. \<forall>b \<in> block h x. hptr h' b = hptr h b \<and> hsize h' b = hsize h b) \<and>
    (case r of None \<Rightarrow> heap_ok h' A \<and> \<not> grow (brk h)
     | Some a \<Rightarrow> 8 \<le> a \<and> a - 8 \<notin> dom A \<and> heap_ok h' (A(a - 8 \<mapsto> units nbytes)) \<and> unat nbytes \<le> 8 * (units nbytes - 1))"
proof -
  define n where "n = units nbytes"
  have n: "0 < n" "8 * n < 2 ^ 31" "unat nbytes \<le> 8 * (n - 1)" using units_eq [OF assms(2)] assms(2) by (simp_all add: n_def)
  define f where "f = (case freep h of None \<Rightarrow> hbase h | Some f \<Rightarrow> f)"
  define h1 where "h1 = (case freep h of
      None \<Rightarrow> h\<lparr>hptr := (hptr h)(hbase h := hbase h), freep := Some (hbase h), hsize := (hsize h)(hbase h := 0)\<rparr>
    | Some f \<Rightarrow> h)"
  have m: "malloc grow nbytes h = malloc_loop grow n f (hptr h1 f) h1"
    by (simp add: malloc_def f_def h1_def n_def Let_def split: option.splits)
  have b: "hbase h1 = hbase h" "brk h1 = brk h" "freep h1 = Some f" "hbase h + 8 \<le> brk h"
    using assms(1) by (auto simp: h1_def f_def heap_ok_def split: option.splits)
  have "\<exists>L. free_ok h1 L \<and> alloc_ok h1 L A \<and> (A \<noteq> Map.empty \<longrightarrow> h1 = h)"
  proof (cases "freep h")
    case None
    then have "A = Map.empty" "free_ok h1 [hbase h]" using assms(1) b(4) by (auto simp: heap_ok_def h1_def free_ok_def hend_def)
    then show ?thesis by (intro exI [of _ "[hbase h]"]) (simp add: alloc_ok_def)
  qed (use assms(1) in \<open>simp add: heap_ok_def h1_def\<close>)
  then obtain L where L: "free_ok h1 L" "alloc_ok h1 L A" "A \<noteq> Map.empty \<longrightarrow> h1 = h" by blast
  obtain r h' where r: "malloc_loop grow n f (hptr h1 f) h1 = Some (r, h')" "hbase h' = hbase h1" "brk h1 \<le> brk h'"
    "\<forall>x \<in> dom A. \<forall>b \<in> block h1 x. hptr h' b = hptr h1 b \<and> hsize h' b = hsize h1 b"
    "case r of None \<Rightarrow> h' = h1 \<and> \<not> grow (brk h1)
     | Some a \<Rightarrow> 8 \<le> a \<and> a - 8 \<notin> dom A \<and> (\<exists>L'. free_ok h' L' \<and> alloc_ok h' L' (A(a - 8 \<mapsto> n)))"
    using malloc_loop_ok [OF L(1,2) _ n(2,1) b(3), of grow] b(1,2,4) by auto
  have keep: "\<forall>x \<in> dom A. \<forall>b \<in> block h x. hptr h' b = hptr h b \<and> hsize h' b = hsize h b"
    using r(4) L(3) by (cases "A = Map.empty") auto
  have ok: "heap_ok h' B" if "free_ok h' L'" "alloc_ok h' L' B" for L' B
    using that r(2,3) b by (auto simp: heap_ok_def free_ok_def)
  show ?thesis
  proof (cases r)
    case None
    then show ?thesis using r keep ok [of L A] L b m by (intro exI [of _ r] exI [of _ h']) simp
  next
    case (Some a)
    then show ?thesis using r keep ok n(3) m by (intro exI [of _ r] exI [of _ h']) (auto simp: n_def [symmetric])
  qed
qed

text \<open>C29: \<^verbatim>\<open>free\<close> of a block in use returns it to the list, which is in order and fully merged again, and leaves
  the other blocks as they are.\<close>

theorem free_returns_block:
  assumes "heap_ok h A" "A bp = Some n"
  shows "\<exists>h'. free (bp + 8) h = Some h' \<and> heap_ok h' (A(bp := None)) \<and>
    (\<forall>x \<in> dom A - {bp}. \<forall>b \<in> block h x. hptr h' b = hptr h b \<and> hsize h' b = hsize h b)"
proof -
  obtain L where L: "free_ok h L" "alloc_ok h L A" "hbase h + 8 \<le> brk h" using assms by (auto simp: heap_ok_def split: if_splits)
  show ?thesis
  proof (rule free_heap [OF L(1,2) assms(2)])
    fix L' h'
    assume j: "free (bp + 8) h = Some h'" "free_ok h' L'" "alloc_ok h' L' (A(bp := None))" "hbase h' = hbase h" "brk h' = brk h"
      "\<And>x b. x \<in> dom A \<Longrightarrow> x \<noteq> bp \<Longrightarrow> b \<in> block h x \<Longrightarrow> hptr h' b = hptr h b \<and> hsize h' b = hsize h b"
    have "heap_ok h' (A(bp := None))" using j(2-5) L(3) by (auto simp: heap_ok_def free_ok_def)
    then show ?thesis using j(1,6) by blast
  qed
qed

definition new_heap :: heap where
  "new_heap = \<lparr>hptr = \<lambda>_. 0, hsize = \<lambda>_. 0, hbase = 1000, freep = None, brk = 8192\<rparr>"

lemma new_heap_ok: "heap_ok new_heap Map.empty"
  by (simp add: heap_ok_def new_heap_def)

theorem malloc_fresh_witness:
  "\<exists>r h'. malloc (\<lambda>_. True) 100 new_heap = Some (r, h') \<and> (case r of None \<Rightarrow> False | Some a \<Rightarrow> 8 \<le> a \<and> heap_ok h' [a - 8 \<mapsto> 14])"
proof -
  have "units 100 = 14" by (simp add: units_eq)
  moreover obtain r h' where "malloc (\<lambda>_. True) 100 new_heap = Some (r, h')"
    "case r of None \<Rightarrow> False | Some a \<Rightarrow> 8 \<le> a \<and> heap_ok h' [a - 8 \<mapsto> units 100]"
    using malloc_fresh [OF new_heap_ok, of 100 "\<lambda>_. True"] by (auto split: option.splits)
  ultimately show ?thesis by (intro exI [of _ r] exI [of _ h']) (cases r; simp)
qed

text \<open>One block in use, below a free one.\<close>

definition one_used :: heap where
  "one_used = \<lparr>hptr = (\<lambda>_. 0)(1000 := 8400, 8400 := 1000), hsize = (\<lambda>_. 0)(8192 := 26, 8400 := 10), hbase = 1000, freep = Some 8400, brk = 8480\<rparr>"

lemma one_used_ok: "heap_ok one_used [8192 \<mapsto> 26]"
proof -
  have "free_ok one_used [1000, 8400]" by (simp add: free_ok_def one_used_def hend_def)
  moreover have "alloc_ok one_used [1000, 8400] [8192 \<mapsto> 26]"
    by (auto simp: alloc_ok_def one_used_def hend_def space_def block_def)
  ultimately show ?thesis unfolding heap_ok_def by (auto simp: one_used_def)
qed

theorem free_returns_block_witness:
  "\<exists>h'. free 8200 one_used = Some h' \<and> heap_ok h' Map.empty \<and> hsize h' 8192 = 36"
proof -
  have "map_option (\<lambda>h'. hsize h' 8192) (free 8200 one_used) = Some 36"
    by (simp add: free_def one_used_def free_slot.simps free_join_def hend_def Let_def)
  then show ?thesis using free_returns_block [OF one_used_ok, of 8192 26] by auto
qed

end
