(* ===== verification/Spec2Isabelle.thy ===== *)
theory Spec2Isabelle
  imports ProcInv Properties FsProps SysProps PipeSys Console LockSys TrapProps Ide ShellRun Grep Umalloc
begin

text \<open>
  Verification of a teaching kernel: xv6 for the 32-bit x86 with demand paging and page replacement
  (Offline 4, "Xv6 Memory Management"), and with a lottery scheduler (Offline 3). File names below are
  those of Offline 4 unless said otherwise; the files of Offline 3 that the lottery scheduler does
  not touch are the same or an earlier version of them.

  \<^bold>\<open>The program.\<close> Processes run in user mode on page tables of their own and enter the kernel by traps.
  trap.c serves page faults, device interrupts and system calls; syscall.c fetches arguments from user
  memory; sysproc.c and sysfile.c carry the calls out. proc.c schedules, and creates and destroys
  processes; vm.c builds their page tables from pages of kalloc.c, keeps at most 15 pages of a process
  in memory and moves the others to a swap file, which is an ordinary file. Files are descriptors
  (file.c) on pipes (pipe.c), devices (console.c) and inodes (fs.c); inodes live in disk blocks that are
  read and written through a cache (bio.c), in transactions of a write-ahead log (log.c), on a disk
  (ide.c). Spin locks and sleep locks (spinlock.c, sleeplock.c) protect the tables.

  \<^bold>\<open>How code is modelled.\<close> A struct is a record, a machine word a \<open>u8\<close>, \<open>u16\<close> or \<open>u32\<close> with its wrap-around
  (a C \<^verbatim>\<open>int\<close> is an \<open>int\<close> where it cannot overflow, and read with \<open>sint\<close> from a word where it is compared as
  signed). A function that may panic or not return has a result in \<open>'a res\<close> (Xv6_Prelude): \<open>Ok\<close>,
  \<open>Panic\<close> with the message of \<^verbatim>\<open>panic\<close> (\<^verbatim>\<open>trap\<close> for a fault in the kernel), or \<open>Hang\<close>. State is passed
  explicitly; a record of a higher layer extends that of the layer below, so operations compose as in
  the code. A critical section of a lock is one operation; a function that sleeps in its middle is cut
  into the sections between sleeps, and step relations run the sections in any order.

  \<^bold>\<open>Theories, in the order of the layers.\<close>
    \<^item> Xv6_Prelude: words, results, the scan of a table. ByteOps: integers in byte buffers. Ring: ring
      buffers with free-running counters, a locale interpreted by the pipe and by the console.
    \<^item> Mmu (mmu.h, memlayout.h), Kalloc (kalloc.c), KString (string.c, x86.h).
    \<^item> PageTable, UserMem (vm.c: walkpgdir, mappages, copyout, and what user memory is),
      Replacement (the page metadata and the FIFO, aging and LIFO choices), Paging (swap file, paging out,
      page faults, aging; the invariant \<open>paging_ok\<close> and the content \<open>vpage\<close> of a page wherever it is),
      Uvm (address spaces), Exec (exec.c, elf.h), PagingDemo (a small machine for the witnesses).
    \<^item> Proc (proc.c), ProcInv (an abstract process life cycle, refinement and invariant), Trap
      (trap.c, the dispatch of syscall.c, sysproc.c), TrapProps.
    \<^item> Spinlock (spinlock.c, sleeplock.c; the locale \<open>lock\<close> states what both promise), LockSys (processors
      and processes using them as step relations).
    \<^item> Ide (ide.c, memide.c: the disk queue, proved to make the atomic transfers of Bcache).
    \<^item> Bcache (bio.c), Log (log.c; crash and recovery), Fs (fs.c, fs.h, stat.h), FsBlocks (the blocks
      of fs.c on cache and log), FsAlloc, FsInode, FsContent (bitmap, inodes, file content), FsFrame (what
      they leave alone), FsProps.
    \<^item> Pipe, PipeSys (pipe.c and processes on a pipe), Console (console.c), File (file.c), Sysfile (syscall.c
      arguments, sysfile.c, the swap files of fs.c), FdTable, FileContent, SysProps.
    \<^item> Rand, Lottery (rand.c, and the tickets, scheduler and accounting of proc.c and sysproc.c, Offline 3).
    \<^item> User programs: Grep (grep.c); ShellParse (the parser of sh.c), ShellRound (it reads back what is
      written down), ShellRun (runcmd and the main loop of sh.c, gets of ulib.c); Umalloc (umalloc.c).
    \<^item> Properties: properties of the leaf components.

  \<^bold>\<open>What the lemmas show.\<close> Paging: a page goes out and comes back with its content, other pages
  keep theirs, the three policies choose what they are specified to, and a fault of a process is served
  without its noticing. Processes: every operation is a step of the abstract life cycle, whose invariant
  every trap keeps. Files: cache and log implement the map of blocks that fs.c is written against; commit
  is atomic at every point where the machine can stop, and recovery can be stopped too; the allocators
  find the first free block and inode; what is written is read back and nothing else changes; descriptors
  always name open files. Concurrency: pipes deliver bytes in order and lose no wakeup (but for one
  path, which is a finding), locks exclude and restore the interrupt flag. Scheduling: each runnable
  process wins in proportion to its tickets.
  Programs: the matcher of grep accepts the language of its pattern, and grep prints the matching lines;
  the shell parses every command back from its written form and runs its programs with the data flow it
  describes; malloc and free keep blocks apart and the free list merged.

  \<^bold>\<open>Bounds and fuel.\<close> Loops end by structural recursion or a measure on what is left to scan;
  the parser of the shell recurses on fuel, \<open>4 * n + 4\<close> for a line of \<open>n\<close> characters, which is proved enough;
  the only loop that may run on is the rejection loop of \<^verbatim>\<open>random_at_most\<close>, a \<^theory_text>\<open>partial_function\<close>, with
  its return proved where the range divides the generator's. The constants are the code's: 64 processes,
  15 resident and 15 swapped pages, 30 buffers and log blocks, 140 blocks in a file. A write is proved to
  return when 8 blocks are free for each of its transactions of 1536 bytes: a transaction touches at most
  four blocks of the file, and each may need a data block and an indirect block.

  \<^bold>\<open>Parameters.\<close> Code that is not in the repository or is assembly is an argument: the kernel's page table
  and the linked-in first program, the left-over of a register, the entry points of vectors.S, a device's
  read and write in \<^verbatim>\<open>devsw\<close>. In Trap the calls on files are an argument too, since their model works on the
  state of the file layer (Sysfile) and not on the process table; the one law assumed of them is that they
  change processes only by operations of proc.c.

  \<^bold>\<open>Not modelled.\<close> The boot sector, assembly and main.c (they set the processor up and call the init
  functions); drivers of the interrupt controllers, the serial line, the processors' APICs and their
  discovery (port and memory-mapped input and output; trap.c's calls of them are recorded); the screen side of
  console.c; test programs and user commands that are a sequence of calls; the shell scripts of
  Offline 1 and the C++ program of Offline 2, which share no code with the kernels; the files
  of Offline 3 that repeat those of Offline 4. Interrupts inside a critical section do not occur, as LockSys shows.
  Flags of memory order, the task state segment and the descriptor tables' loading have no counterpart.
\<close>

end
